(* ===== verification/Prelude.thy ===== *)
theory Prelude
  imports Main "HOL-Library.Word"
begin

text \<open>
  What every component of the development shares: the machine types of the C code, the
  reading of a byte string as a big-endian or little-endian number, the C idioms
  \<open>(x << 8) | b\<close> and \<open>(uint8_t)v; v >>= 8\<close> as arithmetic, and the facts on
  \<^term>\<open>take\<close>, \<^term>\<open>drop\<close> and \<^term>\<open>unat\<close> that the component proofs use.
  A C \<open>size_t\<close> is a natural number whose wrap-around at \<open>2 ^ 64\<close> is written out with
  \<open>sz\<close> (the targets of the repository are LP64).
\<close>

unbundle bit_operations_syntax

named_theorems byte_simps \<open>arithmetic readings of the byte-level idioms of the C code\<close>

section \<open>Machine types\<close>

type_synonym u8 = "8 word"
type_synonym u16 = "16 word"
type_synonym u32 = "32 word"
type_synonym u64 = "64 word"

definition sz :: "nat \<Rightarrow> nat" where
  "sz n = n mod 2 ^ 64"

lemma sz_small [simp]: "n < 2 ^ 64 \<Longrightarrow> sz n = n"
  by (simp add: sz_def)

lemma sz_less: "sz n < 2 ^ 64"
  by (simp add: sz_def)

lemma sz_add_overflow: "a < 2 ^ 64 \<Longrightarrow> b < 2 ^ 64 \<Longrightarrow> sz (a + b) < a \<longleftrightarrow> 2 ^ 64 \<le> a + b"
  by (cases "a + b < 2 ^ 64") (simp_all add: sz_def le_mod_geq)

lemma sz_cases: "sz n = n \<or> sz n + 2 ^ 64 \<le> n"
proof (cases "n < 2 ^ 64")
  case False
  then have "sz n = sz (n - 2 ^ 64)" by (simp add: sz_def le_mod_geq)
  moreover have "sz (n - 2 ^ 64) \<le> n - 2 ^ 64" by (simp add: sz_def)
  ultimately show ?thesis using False by linarith
qed simp

lemma sz_mult_div_iff:
  assumes "0 < c"
  shows "sz (m * c) div c = m \<longleftrightarrow> m * c < 2 ^ 64"
proof (cases "m * c < 2 ^ 64")
  case False
  then have "sz (m * c) < m * c" using sz_less [of "m * c"] by linarith
  then show ?thesis using False assms by (simp add: div_less_iff_less_mult less_imp_neq)
qed (use assms in simp)

section \<open>Words as numbers\<close>

lemma unat_u8_less [simp]: "unat (b :: u8) < 256"
  using unsigned_less [where ?'a = nat, of b] by simp

lemma unat_u8_le [simp]: "unat (b :: u8) \<le> 255"
  using unat_u8_less [of b] by linarith

lemma unat_ucast_up:
  fixes b :: "'b::len word"
  assumes "LENGTH('b) \<le> LENGTH('a)"
  shows "unat (ucast b :: 'a::len word) = unat b"
proof -
  have "unat b < 2 ^ LENGTH('a)"
    using unsigned_less [where ?'a = nat, of b] power_increasing [OF assms, of "2 :: nat"] by linarith
  then show ?thesis
    by (simp add: unsigned_ucast_eq take_bit_eq_mod)
qed

lemma unat_ucast_fits: "unat w < 2 ^ LENGTH('b) \<Longrightarrow> unat (ucast (w :: 'a::len word) :: 'b::len word) = unat w"
  by (simp add: unsigned_ucast_eq take_bit_eq_mod)

lemma ucast_ucast_back:
  fixes v :: "'b::len word"
  assumes "LENGTH('b) \<le> LENGTH('a)"
  shows "ucast (ucast v :: 'a::len word) = v"
proof (rule iffD2 [OF word_unat_eq_iff])
  have "unat (ucast v :: 'a word) = unat v" using assms by (rule unat_ucast_up)
  then show "unat (ucast (ucast v :: 'a word) :: 'b word) = unat v"
    by (simp add: unat_ucast_fits)
qed

lemma ucast_ucast_fits:
  fixes v :: "'a::len word"
  assumes "unat v < 2 ^ LENGTH('b)" "LENGTH('b) \<le> LENGTH('a)"
  shows "ucast (ucast v :: 'b::len word) = v"
  by (rule iffD2 [OF word_unat_eq_iff]) (simp add: unat_ucast_up unat_ucast_fits assms)

text \<open>\<open>(r << n) | x\<close> is \<open>r * 2^n + x\<close> when \<open>x\<close> fits below the shift and nothing is shifted out.\<close>

lemma push_or_eq_add:
  fixes r x :: "'a::len word"
  assumes "unat x < 2 ^ n"
  shows "push_bit n r OR x = push_bit n r + x"
proof -
  have "take_bit n x = x"
    using assms by (simp add: word_unat_eq_iff unsigned_take_bit_eq take_bit_nat_eq_self)
  then have nb: "\<not> bit x i" if "n \<le> i" for i
    using that by (metis bit_take_bit_iff leD)
  have "push_bit n r AND x = 0"
    by (rule bit_word_eqI) (auto simp: bit_simps dest: nb)
  then show ?thesis
    by (simp add: disjunctive_add_eq_or)
qed

lemma unat_push_or:
  fixes r x :: "'a::len word"
  assumes "unat x < 2 ^ n" "unat r * 2 ^ n + unat x < 2 ^ LENGTH('a)"
  shows "unat (push_bit n r OR x) = unat r * 2 ^ n + unat x"
proof -
  have "unat (push_bit n r) = unat r * 2 ^ n"
    using assms(2) unsigned_push_bit_eq [where ?'a = nat, of n r]
    by (simp only: push_bit_eq_mult take_bit_eq_mod) simp
  then show ?thesis
    using assms by (simp add: push_or_eq_add unat_word_ariths)
qed

lemma unat_ucast_u8 [byte_simps]: "unat (ucast (v :: 'a::len word) :: u8) = unat v mod 256"
  by (simp add: unsigned_ucast_eq take_bit_eq_mod)

lemma unat_drop_bit_div [byte_simps]: "unat (drop_bit n (v :: 'a::len word)) = unat v div 2 ^ n"
  unfolding unat_drop_bit_eq by (simp add: drop_bit_eq_div)

lemma unat_of_nat_u8 [byte_simps]: "unat (of_nat n :: u8) = n mod 256"
  by (simp add: unat_of_nat)

lemma unat_of_nat_id: "n < 2 ^ LENGTH('a) \<Longrightarrow> unat (of_nat n :: 'a::len word) = n"
  by (simp add: unat_of_nat)

lemma unat_of_nat_u8_id: "n < 256 \<Longrightarrow> unat (of_nat n :: u8) = n"
  by (rule unat_of_nat_id) simp

lemma unat_of_nat_u64_id: "n < 2 ^ 64 \<Longrightarrow> unat (of_nat n :: u64) = n"
  by (rule unat_of_nat_id) simp

lemma of_nat_unat_id: "unat (w :: 'a::len word) = n \<Longrightarrow> of_nat n = w"
  by auto

lemma unat_and_mask:
  fixes x :: "'a::len word"
  assumes "m = mask n"
  shows "unat (x AND m) = unat x mod 2 ^ n"
  unfolding assms by (metis take_bit_eq_mask take_bit_eq_mod unsigned_take_bit_eq)

lemma xor_word_0_iff [simp]: "(p :: 'a::len word) XOR q = 0 \<longleftrightarrow> p = q"
  by (auto simp: bit_eq_iff bit_simps)

lemma xor_word_cancel [simp]: "((p :: 'a::len word) XOR q) XOR q = p"
  by (simp add: xor.assoc)

lemma byte_append_less:
  fixes a b :: nat
  assumes "a < 2 ^ n" "b < 256"
  shows "a * 2 ^ 8 + b < 2 ^ (8 + n)"
proof -
  have "a * 2 ^ 8 + b < (a + 1) * 2 ^ 8" using assms(2) by simp
  also have "\<dots> \<le> 2 ^ n * 2 ^ 8" using assms(1) by (intro mult_right_mono) simp_all
  finally show ?thesis by (simp add: power_add mult.commute)
qed

section \<open>Byte strings as numbers\<close>

definition be_nat :: "u8 list \<Rightarrow> nat" where
  "be_nat bs = foldl (\<lambda>r b. r * 256 + unat b) 0 bs"

definition le_nat :: "u8 list \<Rightarrow> nat" where
  "le_nat bs = foldr (\<lambda>b r. unat b + 256 * r) bs 0"

lemma be_nat_Nil [simp]: "be_nat [] = 0"
  by (simp add: be_nat_def)

lemma be_nat_snoc [simp]: "be_nat (bs @ [b]) = be_nat bs * 256 + unat b"
  by (simp add: be_nat_def)

lemma le_nat_Nil [simp]: "le_nat [] = 0"
  by (simp add: le_nat_def)

lemma le_nat_Cons [simp]: "le_nat (b # bs) = unat b + 256 * le_nat bs"
  by (simp add: le_nat_def)

lemma be_nat_append: "be_nat (as @ bs) = be_nat as * 256 ^ length bs + be_nat bs"
proof (induction bs rule: rev_induct)
  case (snoc b bs)
  have "be_nat (as @ bs @ [b]) = be_nat (as @ bs) * 256 + unat b"
    by (metis append_assoc be_nat_snoc)
  then show ?case
    using snoc by (simp add: algebra_simps)
qed simp

lemma be_nat_Cons: "be_nat (b # bs) = unat b * 256 ^ length bs + be_nat bs"
  using be_nat_append [of "[b]" bs] be_nat_snoc [of "[]" b] by simp

lemma be_nat_single [simp]: "be_nat [b] = unat b"
  using be_nat_Cons [of b "[]"] by simp

lemma be_nat_bound: "be_nat bs < 256 ^ length bs"
proof (induction bs rule: rev_induct)
  case (snoc b bs)
  have "be_nat bs * 256 + unat b < (be_nat bs + 1) * 256"
    using unat_u8_less [of b] by simp
  also have "\<dots> \<le> 256 ^ length bs * 256"
    using snoc by (intro mult_right_mono) auto
  finally show ?case by (simp add: mult.commute)
qed simp

lemma le_nat_bound: "le_nat bs < 256 ^ length bs"
proof (induction bs)
  case (Cons b bs)
  have "unat b + 256 * le_nat bs < 256 * (le_nat bs + 1)"
    using unat_u8_less [of b] by simp
  also have "\<dots> \<le> 256 * 256 ^ length bs"
    using Cons by (intro mult_left_mono) auto
  finally show ?case by simp
qed simp

lemma le_nat_append: "le_nat (as @ bs) = le_nat as + 256 ^ length as * le_nat bs"
  by (induction as) (simp_all add: algebra_simps)

lemma be_nat_rev: "be_nat (rev bs) = le_nat bs"
  by (induction bs) auto

text \<open>The loop \<open>result = (result << 8) | data[i]\<close> of the readers computes \<^const>\<open>be_nat\<close>.\<close>

lemma foldl_shift_or:
  fixes r :: u64
  assumes "unat r * 256 ^ length bs + be_nat bs < 2 ^ 64"
  shows "unat (foldl (\<lambda>r b. push_bit 8 r OR ucast b) r bs) = unat r * 256 ^ length bs + be_nat bs"
  using assms
proof (induction bs rule: rev_induct)
  case (snoc b bs)
  let ?r = "foldl (\<lambda>r b. push_bit 8 r OR ucast b) r bs"
  have lt: "(unat r * 256 ^ length bs + be_nat bs) * 256 + unat b < 2 ^ 64"
    using snoc.prems by (simp add: algebra_simps)
  then have IH: "unat ?r = unat r * 256 ^ length bs + be_nat bs"
    by (intro snoc.IH, elim le_less_trans [rotated]) simp
  have ub: "unat (ucast b :: u64) = unat b"
    by (simp add: unat_ucast_up)
  have "unat (push_bit 8 ?r OR ucast b) = unat ?r * 2 ^ 8 + unat (ucast b :: u64)"
    using lt ub unat_u8_less [of b] by (intro unat_push_or) (simp_all add: IH)
  then show ?case
    by (simp add: IH ub algebra_simps)
qed simp

text \<open>The bytes a writer stores from the low end: \<open>be_bytes n v\<close> in network order.\<close>

fun le_bytes :: "nat \<Rightarrow> nat \<Rightarrow> u8 list" where
  "le_bytes 0 v = []"
| "le_bytes (Suc n) v = of_nat v # le_bytes n (v div 256)"

definition be_bytes :: "nat \<Rightarrow> nat \<Rightarrow> u8 list" where
  "be_bytes n v = rev (le_bytes n v)"

lemma length_le_bytes [simp]: "length (le_bytes n v) = n"
  by (induction n v rule: le_bytes.induct) auto

lemma length_be_bytes [simp]: "length (be_bytes n v) = n"
  by (simp add: be_bytes_def)

lemma le_nat_le_bytes: "le_nat (le_bytes n v) = v mod 256 ^ n"
proof (induction n v rule: le_bytes.induct)
  case (2 n v)
  then show ?case
    by (simp add: byte_simps mod_mult2_eq)
qed simp

lemma be_nat_be_bytes: "be_nat (be_bytes n v) = v mod 256 ^ n"
  by (simp add: be_bytes_def be_nat_rev le_nat_le_bytes)

lemma be_bytes_0 [simp]: "be_bytes 0 v = []"
  by (simp add: be_bytes_def)

lemma be_bytes_Suc: "be_bytes (Suc n) v = be_bytes n (v div 256) @ [of_nat v]"
  by (simp add: be_bytes_def)

lemma le_bytes_le_nat: "le_bytes (length bs) (le_nat bs) = bs"
  by (induction bs) (simp_all add: word_unat_eq_iff byte_simps del: of_nat_add of_nat_mult)

lemma be_bytes_be_nat: "be_bytes (length bs) (be_nat bs) = bs"
  using le_bytes_le_nat [of "rev bs"] be_nat_rev [of "rev bs"]
  by (simp add: be_bytes_def)

lemma be_nat_inj: "length as = length bs \<Longrightarrow> be_nat as = be_nat bs \<Longrightarrow> as = bs"
  by (metis be_bytes_be_nat)

section \<open>The high bit and the low seven bits of an octet\<close>

lemma even_div_128: "n < 256 \<Longrightarrow> even (n div 128) \<longleftrightarrow> n < 128" for n :: nat
  by (cases "n < 128") (simp_all add: le_div_geq)

lemma mod_128_split: "n < 256 \<Longrightarrow> n = n mod 128 + (if n < 128 then 0 else 128)" for n :: nat
  by (cases "n < 128") (simp_all add: le_mod_geq)

lemma octet_hi_iff: "(b :: u8) AND 0x80 = 0 \<longleftrightarrow> unat b < 128"
proof -
  have "b AND 0x80 = 0 \<longleftrightarrow> \<not> bit b 7"
    using and_exp_eq_0_iff_not_bit [of b 7] by simp
  also have "bit b 7 \<longleftrightarrow> bit (unat b) 7"
    by (simp add: bit_unsigned_iff)
  also have "\<not> bit (unat b) 7 \<longleftrightarrow> even (unat b div 2 ^ 7)"
    unfolding bit_iff_odd by simp
  also have "\<dots> \<longleftrightarrow> unat b < 128"
    using even_div_128 [OF unat_u8_less [of b]] by simp
  finally show ?thesis .
qed

lemma octet_lo: "unat ((b :: u8) AND 0x7f) = unat b mod 128"
  using unat_and_mask [of "0x7f" 7 b] by (simp add: mask_eq_exp_minus_1)

lemma octet_lo5: "unat ((b :: u8) AND 0x1f) = unat b mod 32"
  using unat_and_mask [of "0x1f" 5 b] by (simp add: mask_eq_exp_minus_1)

lemma unat_septet_more: "unat (of_nat (n mod 128) + 128 :: u8) = n mod 128 + 128"
proof -
  have "n mod 128 + 128 < 256" by simp
  from unat_of_nat_u8_id [OF this] show ?thesis by simp
qed

section \<open>Lists\<close>

lemma take_append_eq [simp]: "length xs = n \<Longrightarrow> take n (xs @ ys) = xs"
  by simp

lemma drop_append_eq [simp]: "length xs = n \<Longrightarrow> drop n (xs @ ys) = ys"
  by simp

lemma append_prefix_split:
  assumes "p @ h = out @ rest" "length p \<le> length out"
  obtains body where "out = p @ body" "h = body @ rest"
proof
  show "out = p @ drop (length p) out"
    using assms by (metis append_eq_append_conv_if append_take_drop_id)
  then show "h = drop (length p) out @ rest"
    using assms(1) by (metis append.assoc same_append_eq)
qed

lemma list_update_append2: "length xs = n \<Longrightarrow> (xs @ y # ys)[n := z] = xs @ z # ys"
  by (metis list_update_length)

end
