(* ===== verification/Mem.thy ===== *)
theory Mem
  imports Prelude
begin

text \<open>
  \<open>crypto/mem.c\<close>: the allocation wrappers, the constant-time comparison and the string
  helpers every other component calls. libc's \<open>malloc\<close> is a parameter \<open>os\<close>, the
  predicate that says whether a request of that many bytes succeeds. A C string is the list
  of its bytes; reading at or past its end gives the terminator.
\<close>

section \<open>Allocation\<close>

definition OPENSSL_MALLOC_PREFIX :: nat where
  "OPENSSL_MALLOC_PREFIX = 8"

text \<open>The block's whole size, prefix included, or \<open>None\<close> for \<open>NULL\<close>.\<close>

definition OPENSSL_malloc :: "(nat \<Rightarrow> bool) \<Rightarrow> nat \<Rightarrow> nat option" where
  "OPENSSL_malloc os n =
     (if os (sz (n + OPENSSL_MALLOC_PREFIX)) then Some (sz (n + OPENSSL_MALLOC_PREFIX))
      else None)"

abbreviation malloc_ok :: "(nat \<Rightarrow> bool) \<Rightarrow> nat \<Rightarrow> bool" where
  "malloc_ok os n \<equiv> OPENSSL_malloc os n \<noteq> None"

text \<open>
  \<open>OPENSSL_realloc\<close> on a block with contents \<open>old\<close> (\<open>None\<close> for \<open>NULL\<close>): the first
  \<open>min\<close> bytes are kept, the rest of the new block is whatever \<open>malloc\<close> left there,
  the argument \<open>junk\<close> by position.
\<close>

definition OPENSSL_realloc ::
    "(nat \<Rightarrow> bool) \<Rightarrow> (nat \<Rightarrow> u8) \<Rightarrow> u8 list option \<Rightarrow> nat \<Rightarrow> u8 list option" where
  "OPENSSL_realloc os junk orig new_sz =
     (case orig of
        None \<Rightarrow> (case OPENSSL_malloc os new_sz of None \<Rightarrow> None | Some _ \<Rightarrow> Some (map junk [0..<new_sz]))
      | Some old \<Rightarrow>
          (case OPENSSL_malloc os new_sz of
             None \<Rightarrow> None
           | Some _ \<Rightarrow>
               (let to_copy = (if length old < new_sz then length old else new_sz)
                in Some (take to_copy old @ map junk [to_copy..<new_sz]))))"

definition OPENSSL_memdup :: "(nat \<Rightarrow> bool) \<Rightarrow> u8 list \<Rightarrow> u8 list option" where
  "OPENSSL_memdup os data =
     (if length data = 0 then None
      else case OPENSSL_malloc os (length data) of None \<Rightarrow> None | Some _ \<Rightarrow> Some data)"

lemma malloc_block_holds_request:
  "n + OPENSSL_MALLOC_PREFIX < 2 ^ 64 \<Longrightarrow> OPENSSL_malloc os n = Some m
    \<Longrightarrow> m = n + OPENSSL_MALLOC_PREFIX"
  by (simp add: OPENSSL_malloc_def split: if_splits)

section \<open>Comparison and hashing\<close>

definition CRYPTO_memcmp :: "u8 list \<Rightarrow> u8 list \<Rightarrow> u8" where
  "CRYPTO_memcmp a b = foldl (\<lambda>x (p, q). x OR (p XOR q)) 0 (zip a b)"

lemma memcmp_fold_zero:
  "foldl (\<lambda>x (p, q). x OR (p XOR q)) x ps = (0 :: u8) \<longleftrightarrow> x = 0 \<and> (\<forall>(p, q) \<in> set ps. p = q)"
proof (induction ps arbitrary: x)
  case (Cons pq ps)
  obtain p q where [simp]: "pq = (p, q)" by fastforce
  have "x OR (p XOR q) = 0 \<longleftrightarrow> x = 0 \<and> p = q"
    by (simp add: or_eq_0_iff)
  with Cons show ?case by auto
qed auto

lemma CRYPTO_memcmp_zero_iff:
  assumes "length a = length b"
  shows "CRYPTO_memcmp a b = 0 \<longleftrightarrow> a = b"
  using assms
  unfolding CRYPTO_memcmp_def memcmp_fold_zero list_eq_iff_zip_eq [of a b] by simp

text \<open>FNV-1a.\<close>

definition OPENSSL_hash32 :: "u8 list \<Rightarrow> u32" where
  "OPENSSL_hash32 ptr = foldl (\<lambda>h c. (h XOR ucast c) * 16777619) 2166136261 ptr"

section \<open>Strings\<close>

fun OPENSSL_strnlen :: "u8 list \<Rightarrow> nat \<Rightarrow> nat" where
  "OPENSSL_strnlen s 0 = 0"
| "OPENSSL_strnlen [] (Suc len) = 0"
| "OPENSSL_strnlen (c # s) (Suc len) = (if c = 0 then 0 else Suc (OPENSSL_strnlen s len))"

lemma OPENSSL_strnlen_le: "OPENSSL_strnlen s len \<le> len"
  by (induction s len rule: OPENSSL_strnlen.induct) auto

lemma OPENSSL_strnlen_eq: "OPENSSL_strnlen s len = length (takeWhile (\<lambda>c. c \<noteq> 0) (take len s))"
  by (induction s len rule: OPENSSL_strnlen.induct) auto

text \<open>The string read as an array of \<open>char\<close>, which is signed on the targets.\<close>

definition char_at :: "u8 list \<Rightarrow> int" where
  "char_at s = (case s of [] \<Rightarrow> 0 | c # _ \<Rightarrow> sint c)"

definition OPENSSL_tolower :: "int \<Rightarrow> int" where
  "OPENSSL_tolower c = (if 65 \<le> c \<and> c \<le> 90 then c + (97 - 65) else c)"

function OPENSSL_strcasecmp :: "u8 list \<Rightarrow> u8 list \<Rightarrow> int" where
  "OPENSSL_strcasecmp a b =
     (let aa = OPENSSL_tolower (char_at a);
          bb = OPENSSL_tolower (char_at b)
      in if aa < bb then -1
         else if aa > bb then 1
         else if aa = 0 then 0
         else OPENSSL_strcasecmp (tl a) (tl b))"
  by pat_completeness auto
termination
proof (relation "measure (\<lambda>(a, b). length a)")
  fix a b :: "u8 list" and aa bb :: int
  assume "aa = OPENSSL_tolower (char_at a)" "aa \<noteq> 0"
  then have "a \<noteq> []"
    by (auto simp: char_at_def OPENSSL_tolower_def)
  then show "((tl a, tl b), a, b) \<in> measure (\<lambda>(a, b). length a)"
    by simp
qed simp

declare OPENSSL_strcasecmp.simps [simp del]

fun OPENSSL_strncasecmp :: "u8 list \<Rightarrow> u8 list \<Rightarrow> nat \<Rightarrow> int" where
  "OPENSSL_strncasecmp a b 0 = 0"
| "OPENSSL_strncasecmp a b (Suc n) =
     (let aa = OPENSSL_tolower (char_at a);
          bb = OPENSSL_tolower (char_at b)
      in if aa < bb then -1
         else if aa > bb then 1
         else if aa = 0 then 0
         else OPENSSL_strncasecmp (tl a) (tl b) n)"

text \<open>The case-folded C string: its bytes up to the terminator, lower-cased.\<close>

definition folded :: "u8 list \<Rightarrow> int list" where
  "folded s = map (\<lambda>c. OPENSSL_tolower (sint c)) (takeWhile (\<lambda>c. c \<noteq> 0) s)"

lemma tolower_zero_iff [simp]: "OPENSSL_tolower c = 0 \<longleftrightarrow> c = 0"
  by (auto simp: OPENSSL_tolower_def)

lemma tolower_0 [simp]: "OPENSSL_tolower 0 = 0"
  by simp

lemma char_at_zero_iff: "char_at s = 0 \<longleftrightarrow> folded s = []"
  by (cases s) (auto simp: char_at_def folded_def signed_eq_0_iff)

lemma folded_unfold:
  "char_at s \<noteq> 0 \<Longrightarrow> folded s = OPENSSL_tolower (char_at s) # folded (tl s)"
  by (cases s) (auto simp: char_at_def folded_def)

lemma OPENSSL_strcasecmp_zero_iff: "OPENSSL_strcasecmp a b = 0 \<longleftrightarrow> folded a = folded b"
proof (induction a b rule: OPENSSL_strcasecmp.induct)
  case (1 a b)
  show ?case
  proof (cases "OPENSSL_tolower (char_at a) = OPENSSL_tolower (char_at b)")
    case False
    then have "folded a \<noteq> folded b"
      by (metis char_at_zero_iff folded_unfold list.inject)
    with False show ?thesis
      by (subst OPENSSL_strcasecmp.simps) (simp add: Let_def)
  next
    case eq: True
    show ?thesis
    proof (cases "char_at a = 0")
      case True
      with eq have b0: "char_at b = 0" by (metis tolower_zero_iff)
      with True have "folded a = [] \<and> folded b = []"
        by (simp flip: char_at_zero_iff)
      with b0 True show ?thesis
        by (subst OPENSSL_strcasecmp.simps) (simp add: Let_def)
    next
      case False
      with eq have "char_at b \<noteq> 0" by auto
      with eq False show ?thesis
        using 1 [OF refl refl] by (subst OPENSSL_strcasecmp.simps) (simp add: Let_def folded_unfold)
    qed
  qed
qed

lemma OPENSSL_strcasecmp_antisym: "OPENSSL_strcasecmp b a = - OPENSSL_strcasecmp a b"
proof (induction a b rule: OPENSSL_strcasecmp.induct)
  case (1 a b)
  consider "OPENSSL_tolower (char_at a) < OPENSSL_tolower (char_at b)"
    | "OPENSSL_tolower (char_at a) > OPENSSL_tolower (char_at b)"
    | "OPENSSL_tolower (char_at a) = OPENSSL_tolower (char_at b)" by linarith
  then show ?case
  proof cases
    case 3
    with 1 [OF refl refl] show ?thesis
      by (simp add: OPENSSL_strcasecmp.simps [of a b] OPENSSL_strcasecmp.simps [of b a] Let_def)
  qed (simp_all add: OPENSSL_strcasecmp.simps [of a b] OPENSSL_strcasecmp.simps [of b a] Let_def)
qed

lemma OPENSSL_strncasecmp_eq:
  "length a < n \<Longrightarrow> OPENSSL_strncasecmp a b n = OPENSSL_strcasecmp a b"
proof (induction a b n rule: OPENSSL_strncasecmp.induct)
  case (2 a b n)
  show ?case
  proof (cases a)
    case Nil
    then show ?thesis
      by (auto simp: OPENSSL_strcasecmp.simps [of "[]" b] Let_def char_at_def)
  next
    case (Cons c cs)
    with "2.prems" have "length (tl a) < n" by simp
    with 2(1) [OF refl refl] show ?thesis
      by (simp add: OPENSSL_strcasecmp.simps [of a b] Let_def)
  qed
qed simp

definition OPENSSL_strdup :: "(nat \<Rightarrow> bool) \<Rightarrow> u8 list option \<Rightarrow> u8 list option" where
  "OPENSSL_strdup os s =
     (case s of
        None \<Rightarrow> None
      | Some s' \<Rightarrow>
          (let len = sz (length (takeWhile (\<lambda>c. c \<noteq> 0) s') + 1)
           in if malloc_ok os len then Some (takeWhile (\<lambda>c. c \<noteq> 0) s' @ [0]) else None))"

definition OPENSSL_strndup :: "(nat \<Rightarrow> bool) \<Rightarrow> u8 list option \<Rightarrow> nat \<Rightarrow> u8 list option" where
  "OPENSSL_strndup os str n =
     (case str of
        None \<Rightarrow> None
      | Some s \<Rightarrow>
          (let size' = OPENSSL_strnlen s n;
               alloc_size = sz (size' + 1)
           in if alloc_size < size' then None
              else if malloc_ok os alloc_size then Some (take size' s @ [0]) else None))"

text \<open>
  \<open>OPENSSL_strlcpy\<close> and \<open>OPENSSL_strlcat\<close>: the destination's \<open>dst_size\<close> bytes are
  the list \<open>dst\<close>; the result is the returned length and the destination afterwards.
\<close>

definition strlen :: "u8 list \<Rightarrow> nat" where
  "strlen s = length (takeWhile (\<lambda>c. c \<noteq> 0) s)"

fun OPENSSL_strlcpy :: "u8 list \<Rightarrow> u8 list \<Rightarrow> nat \<times> u8 list" where
  "OPENSSL_strlcpy [] src = (strlen src, [])"
| "OPENSSL_strlcpy [d] src = (strlen src, [0])"
| "OPENSSL_strlcpy (d # d' # ds) src =
     (case src of
        [] \<Rightarrow> (0, 0 # d' # ds)
      | c # cs \<Rightarrow>
          (if c = 0 then (0, 0 # d' # ds)
           else let (l, out) = OPENSSL_strlcpy (d' # ds) cs in (Suc l, c # out)))"

fun OPENSSL_strlcat :: "u8 list \<Rightarrow> u8 list \<Rightarrow> nat \<times> u8 list" where
  "OPENSSL_strlcat [] src = OPENSSL_strlcpy [] src"
| "OPENSSL_strlcat (d # ds) src =
     (if d \<noteq> 0 then let (l, out) = OPENSSL_strlcat ds src in (Suc l, d # out)
      else OPENSSL_strlcpy (d # ds) src)"

lemma OPENSSL_strlcpy_spec:
  "fst (OPENSSL_strlcpy dst src) = strlen src
   \<and> length (snd (OPENSSL_strlcpy dst src)) = length dst
   \<and> (dst \<noteq> [] \<longrightarrow> takeWhile (\<lambda>c. c \<noteq> 0) (snd (OPENSSL_strlcpy dst src))
                   = take (length dst - 1) (takeWhile (\<lambda>c. c \<noteq> 0) src)
                 \<and> 0 \<in> set (snd (OPENSSL_strlcpy dst src)))"
  by (induction dst src rule: OPENSSL_strlcpy.induct)
    (auto simp: strlen_def split: list.splits prod.splits)

lemma OPENSSL_strlcat_spec:
  "fst (OPENSSL_strlcat dst src) = strlen dst + strlen src
   \<and> length (snd (OPENSSL_strlcat dst src)) = length dst
   \<and> (0 \<in> set dst \<longrightarrow> takeWhile (\<lambda>c. c \<noteq> 0) (snd (OPENSSL_strlcat dst src))
        = take (length dst - 1) (takeWhile (\<lambda>c. c \<noteq> 0) dst @ takeWhile (\<lambda>c. c \<noteq> 0) src))"
proof (induction dst src rule: OPENSSL_strlcat.induct)
  case (2 d ds src)
  then show ?case
    using OPENSSL_strlcpy_spec [of "d # ds" src]
    by (cases ds) (auto simp: strlen_def split: prod.splits)
qed (simp add: strlen_def)

end
