(* ===== verification/Cbs.thy ===== *)
theory Cbs
  imports Mem
begin

text \<open>
  \<open>crypto/bytestring/cbs.c\<close>: the reader. A \<open>CBS\<close> is a pointer and a length into readable
  memory, modelled as the list of the bytes it still spans. Every reader returns the value it
  stores through its out-parameter (\<open>None\<close> when it returns 0) together with the \<open>CBS\<close> it
  leaves behind, because a failing reader may already have consumed input.
\<close>

section \<open>The reader state\<close>

type_synonym CBS = "u8 list"

definition CBS_init :: "u8 list \<Rightarrow> CBS" where
  "CBS_init data = data"

definition CBS_data :: "CBS \<Rightarrow> u8 list" where
  "CBS_data cbs = cbs"

definition CBS_len :: "CBS \<Rightarrow> nat" where
  "CBS_len cbs = length cbs"

definition and_then ::
    "'a option \<times> CBS \<Rightarrow> ('a \<Rightarrow> CBS \<Rightarrow> 'b option \<times> CBS) \<Rightarrow> 'b option \<times> CBS" where
  "and_then r f = (case r of (None, cbs) \<Rightarrow> (None, cbs) | (Some v, cbs) \<Rightarrow> f v cbs)"

lemma and_then_simps [simp]:
  "and_then (None, cbs) f = (None, cbs)"
  "and_then (Some v, cbs) f = f v cbs"
  by (simp_all add: and_then_def)

lemma and_then_Some_iff:
  "and_then r f = (Some y, cbs') \<longleftrightarrow> (\<exists>v cbs. r = (Some v, cbs) \<and> f v cbs = (Some y, cbs'))"
  by (auto simp: and_then_def split: prod.splits option.splits)

section \<open>Fixed-size reads\<close>

definition cbs_get :: "nat \<Rightarrow> CBS \<Rightarrow> u8 list option \<times> CBS" where
  "cbs_get n cbs = (if length cbs < n then (None, cbs) else (Some (take n cbs), drop n cbs))"

definition CBS_skip :: "nat \<Rightarrow> CBS \<Rightarrow> unit option \<times> CBS" where
  "CBS_skip n cbs = and_then (cbs_get n cbs) (\<lambda>_ cbs. (Some (), cbs))"

text \<open>
  \<open>CBS_stow\<close> and \<open>CBS_strdup\<close> copy into fresh memory: the returned flag and the
  out-pointer afterwards (its previous target is freed first).
\<close>

definition CBS_stow :: "(nat \<Rightarrow> bool) \<Rightarrow> CBS \<Rightarrow> bool \<times> u8 list option" where
  "CBS_stow os cbs =
     (if length cbs = 0 then (True, None)
      else case OPENSSL_memdup os cbs of None \<Rightarrow> (False, None) | Some p \<Rightarrow> (True, Some p))"

definition CBS_strdup :: "(nat \<Rightarrow> bool) \<Rightarrow> CBS \<Rightarrow> bool \<times> u8 list option" where
  "CBS_strdup os cbs =
     (let out = OPENSSL_strndup os (Some cbs) (length cbs) in (out \<noteq> None, out))"

definition CBS_contains_zero_byte :: "CBS \<Rightarrow> bool" where
  "CBS_contains_zero_byte cbs = list_ex (\<lambda>b. b = 0) cbs"

definition CBS_mem_equal :: "CBS \<Rightarrow> u8 list \<Rightarrow> bool" where
  "CBS_mem_equal cbs data =
     (if length data \<noteq> length cbs then False else CRYPTO_memcmp cbs data = 0)"

definition cbs_get_u :: "nat \<Rightarrow> CBS \<Rightarrow> u64 option \<times> CBS" where
  "cbs_get_u n cbs =
     and_then (cbs_get n cbs)
       (\<lambda>data cbs. (Some (foldl (\<lambda>result b. push_bit 8 result OR ucast b) 0 data), cbs))"

definition CBS_get_u8 :: "CBS \<Rightarrow> u8 option \<times> CBS" where
  "CBS_get_u8 cbs = and_then (cbs_get 1 cbs) (\<lambda>v cbs. (Some (hd v), cbs))"

definition CBS_get_u16 :: "CBS \<Rightarrow> u16 option \<times> CBS" where
  "CBS_get_u16 cbs = and_then (cbs_get_u 2 cbs) (\<lambda>v cbs. (Some (ucast v), cbs))"

definition CBS_get_u24 :: "CBS \<Rightarrow> u32 option \<times> CBS" where
  "CBS_get_u24 cbs = and_then (cbs_get_u 3 cbs) (\<lambda>v cbs. (Some (ucast v), cbs))"

definition CBS_get_u32 :: "CBS \<Rightarrow> u32 option \<times> CBS" where
  "CBS_get_u32 cbs = and_then (cbs_get_u 4 cbs) (\<lambda>v cbs. (Some (ucast v), cbs))"

definition CBS_get_u64 :: "CBS \<Rightarrow> u64 option \<times> CBS" where
  "CBS_get_u64 cbs = cbs_get_u 8 cbs"

definition CRYPTO_bswap2 :: "u16 \<Rightarrow> u16" where
  "CRYPTO_bswap2 x = drop_bit 8 x OR push_bit 8 x"

definition CRYPTO_bswap4 :: "u32 \<Rightarrow> u32" where
  "CRYPTO_bswap4 x =
     (let x = drop_bit 16 x OR push_bit 16 x
      in drop_bit 8 (x AND 0xff00ff00) OR push_bit 8 (x AND 0x00ff00ff))"

definition CRYPTO_bswap8 :: "u64 \<Rightarrow> u64" where
  "CRYPTO_bswap8 x =
     ucast (CRYPTO_bswap4 (ucast (drop_bit 32 x))) OR push_bit 32 (ucast (CRYPTO_bswap4 (ucast x)))"

definition CBS_get_u16le :: "CBS \<Rightarrow> u16 option \<times> CBS" where
  "CBS_get_u16le cbs = and_then (CBS_get_u16 cbs) (\<lambda>v cbs. (Some (CRYPTO_bswap2 v), cbs))"

definition CBS_get_u32le :: "CBS \<Rightarrow> u32 option \<times> CBS" where
  "CBS_get_u32le cbs = and_then (CBS_get_u32 cbs) (\<lambda>v cbs. (Some (CRYPTO_bswap4 v), cbs))"

definition CBS_get_u64le :: "CBS \<Rightarrow> u64 option \<times> CBS" where
  "CBS_get_u64le cbs = and_then (cbs_get_u 8 cbs) (\<lambda>v cbs. (Some (CRYPTO_bswap8 v), cbs))"

definition CBS_get_last_u8 :: "CBS \<Rightarrow> u8 option \<times> CBS" where
  "CBS_get_last_u8 cbs =
     (if length cbs = 0 then (None, cbs) else (Some (cbs ! (length cbs - 1)), butlast cbs))"

definition CBS_get_bytes :: "nat \<Rightarrow> CBS \<Rightarrow> CBS option \<times> CBS" where
  "CBS_get_bytes n cbs = and_then (cbs_get n cbs) (\<lambda>v cbs. (Some (CBS_init v), cbs))"

definition CBS_copy_bytes :: "nat \<Rightarrow> CBS \<Rightarrow> u8 list option \<times> CBS" where
  "CBS_copy_bytes n cbs = and_then (cbs_get n cbs) (\<lambda>v cbs. (Some v, cbs))"

definition cbs_get_length_prefixed :: "nat \<Rightarrow> CBS \<Rightarrow> CBS option \<times> CBS" where
  "cbs_get_length_prefixed len_len cbs =
     and_then (cbs_get_u len_len cbs) (\<lambda>len cbs. CBS_get_bytes (unat len) cbs)"

definition CBS_get_u8_length_prefixed :: "CBS \<Rightarrow> CBS option \<times> CBS" where
  "CBS_get_u8_length_prefixed = cbs_get_length_prefixed 1"

definition CBS_get_u16_length_prefixed :: "CBS \<Rightarrow> CBS option \<times> CBS" where
  "CBS_get_u16_length_prefixed = cbs_get_length_prefixed 2"

definition CBS_get_u24_length_prefixed :: "CBS \<Rightarrow> CBS option \<times> CBS" where
  "CBS_get_u24_length_prefixed = cbs_get_length_prefixed 3"

section \<open>What the fixed-size reads do\<close>

lemma cbs_get_Some_iff:
  "cbs_get n cbs = (Some v, cbs') \<longleftrightarrow> length v = n \<and> cbs = v @ cbs'"
  by (auto simp: cbs_get_def)

lemma cbs_get_append [simp]: "length v = n \<Longrightarrow> cbs_get n (v @ cbs) = (Some v, cbs)"
  by (simp add: cbs_get_Some_iff)

lemma cbs_get_None_iff: "cbs_get n cbs = (None, cbs') \<longleftrightarrow> length cbs < n \<and> cbs' = cbs"
  by (auto simp: cbs_get_def)

lemma cbs_get_u_Some_iff:
  assumes "n \<le> 8"
  shows "cbs_get_u n cbs = (Some v, cbs')
    \<longleftrightarrow> (\<exists>bs. length bs = n \<and> cbs = bs @ cbs' \<and> unat v = be_nat bs)"
proof -
  have *: "unat (foldl (\<lambda>r b. push_bit 8 r OR ucast b) (0 :: u64) bs) = be_nat bs"
    if "length bs = n" for bs
  proof -
    have "be_nat bs < 256 ^ 8"
      using be_nat_bound [of bs] power_increasing [OF assms, of "256 :: nat"] that by simp
    then show ?thesis
      using foldl_shift_or [of 0 bs] by simp
  qed
  show ?thesis
    by (auto simp: cbs_get_u_def and_then_Some_iff cbs_get_Some_iff word_unat_eq_iff *)
qed

lemma cbs_get_u_append:
  assumes "length bs = n" "n \<le> 8"
  shows "cbs_get_u n (bs @ cbs) = (Some (of_nat (be_nat bs)), cbs)"
proof -
  have "be_nat bs < 256 ^ 8"
    using be_nat_bound [of bs] power_increasing [OF assms(2), of "256 :: nat"] assms(1) by simp
  then have "unat (of_nat (be_nat bs) :: u64) = be_nat bs"
    by (simp add: unat_of_nat)
  with assms show ?thesis
    by (auto simp: cbs_get_u_Some_iff)
qed

lemma cbs_get_u_None_iff: "cbs_get_u n cbs = (None, cbs') \<longleftrightarrow> length cbs < n \<and> cbs' = cbs"
  by (auto simp: cbs_get_u_def and_then_def cbs_get_def)

lemma CBS_get_u8_simps [simp]:
  "CBS_get_u8 [] = (None, [])"
  "CBS_get_u8 (b # cbs) = (Some b, cbs)"
  by (simp_all add: CBS_get_u8_def cbs_get_def)

lemma CBS_get_bytes_Some_iff:
  "CBS_get_bytes n cbs = (Some out, cbs') \<longleftrightarrow> length out = n \<and> cbs = out @ cbs'"
  by (auto simp: CBS_get_bytes_def CBS_init_def and_then_Some_iff cbs_get_Some_iff)

lemma CBS_get_bytes_append [simp]:
  "length out = n \<Longrightarrow> CBS_get_bytes n (out @ cbs) = (Some out, cbs)"
  by (simp add: CBS_get_bytes_Some_iff)

lemma CBS_get_bytes_None: "fst (CBS_get_bytes n cbs) = None \<longleftrightarrow> length cbs < n"
  by (auto simp: CBS_get_bytes_def and_then_def cbs_get_def)

lemma CBS_skip_append [simp]: "length v = n \<Longrightarrow> CBS_skip n (v @ cbs) = (Some (), cbs)"
  by (simp add: CBS_skip_def)

lemma cbs_get_length_prefixed_append:
  assumes "n \<le> 8" "length body < 256 ^ n"
  shows "cbs_get_length_prefixed n (be_bytes n (length body) @ body @ rest) = (Some body, rest)"
proof -
  have "(256 :: nat) ^ n \<le> 256 ^ 8"
    using assms(1) by (rule power_increasing) simp
  with assms show ?thesis
    by (simp add: cbs_get_length_prefixed_def cbs_get_u_append be_nat_be_bytes unat_of_nat)
qed

lemma CBS_mem_equal_iff: "CBS_mem_equal cbs data \<longleftrightarrow> cbs = data"
  by (auto simp: CBS_mem_equal_def CRYPTO_memcmp_zero_iff)

lemma CBS_get_last_u8_snoc [simp]: "CBS_get_last_u8 (xs @ [b]) = (Some b, xs)"
  by (simp add: CBS_get_last_u8_def)

section \<open>ASN.1 tags and elements\<close>

definition CBS_ASN1_TAG_SHIFT :: nat where "CBS_ASN1_TAG_SHIFT = 24"
definition CBS_ASN1_CONSTRUCTED :: u32 where "CBS_ASN1_CONSTRUCTED = 0x20000000"
definition CBS_ASN1_TAG_NUMBER_MASK :: u32 where "CBS_ASN1_TAG_NUMBER_MASK = 0x1fffffff"
definition CBS_ASN1_BOOLEAN :: u32 where "CBS_ASN1_BOOLEAN = 1"
definition CBS_ASN1_INTEGER :: u32 where "CBS_ASN1_INTEGER = 2"
definition CBS_ASN1_BITSTRING :: u32 where "CBS_ASN1_BITSTRING = 3"
definition CBS_ASN1_OCTETSTRING :: u32 where "CBS_ASN1_OCTETSTRING = 4"

fun base128_loop :: "u64 \<Rightarrow> CBS \<Rightarrow> u64 option \<times> CBS" where
  "base128_loop v [] = (None, [])"
| "base128_loop v (b # cbs) =
     (if drop_bit (64 - 7) v \<noteq> 0 then (None, cbs)
      else if v = 0 \<and> b = 0x80 then (None, cbs)
      else let v' = push_bit 7 v OR ucast (b AND 0x7f)
           in if b AND 0x80 \<noteq> 0 then base128_loop v' cbs else (Some v', cbs))"

definition parse_base128_integer :: "CBS \<Rightarrow> u64 option \<times> CBS" where
  "parse_base128_integer cbs = base128_loop 0 cbs"

definition parse_asn1_tag :: "CBS \<Rightarrow> u32 option \<times> CBS" where
  "parse_asn1_tag cbs =
     and_then (CBS_get_u8 cbs) (\<lambda>tag_byte cbs.
       let tag = push_bit CBS_ASN1_TAG_SHIFT (ucast tag_byte AND 0xe0);
           tag_number = ucast (tag_byte AND 0x1f) :: u32
       in if tag_number = 0x1f
          then and_then (parse_base128_integer cbs) (\<lambda>v cbs.
                 if v > ucast CBS_ASN1_TAG_NUMBER_MASK \<or> v < 0x1f then (None, cbs)
                 else (Some (tag OR ucast v), cbs))
          else (Some (tag OR tag_number), cbs))"

text \<open>
  The header is read from a copy of \<open>cbs\<close>; \<open>cbs\<close> itself only moves in the final
  \<open>CBS_get_bytes\<close>. The value is \<open>(*out, *out_tag, *out_header_len)\<close>.
\<close>

definition cbs_get_any_asn1_element :: "bool \<Rightarrow> CBS \<Rightarrow> (CBS \<times> u32 \<times> nat) option \<times> CBS" where
  "cbs_get_any_asn1_element ber_ok cbs =
     (case parse_asn1_tag cbs of
        (None, _) \<Rightarrow> (None, cbs)
      | (Some tag, header) \<Rightarrow>
        (case CBS_get_u8 header of
           (None, _) \<Rightarrow> (None, cbs)
         | (Some length_byte, header) \<Rightarrow>
           (let header_len = CBS_len cbs - CBS_len header
            in if length_byte AND 0x80 = 0
               then and_then (CBS_get_bytes (unat length_byte + header_len) cbs)
                      (\<lambda>out cbs. (Some (out, tag, header_len), cbs))
               else
                 let num_bytes = unat (length_byte AND 0x7f)
                 in if ber_ok \<and> tag AND CBS_ASN1_CONSTRUCTED \<noteq> 0 \<and> num_bytes = 0
                    then and_then (CBS_get_bytes header_len cbs)
                           (\<lambda>out cbs. (Some (out, tag, header_len), cbs))
                    else if num_bytes = 0 \<or> num_bytes > 4 then (None, cbs)
                    else case cbs_get_u num_bytes header of
                           (None, _) \<Rightarrow> (None, cbs)
                         | (Some len64, _) \<Rightarrow>
                           if len64 < 128 then (None, cbs)
                           else if drop_bit ((num_bytes - 1) * 8) len64 = 0 then (None, cbs)
                           else let len = unat len64
                                in if sz (len + header_len + num_bytes) < len then (None, cbs)
                                   else and_then
                                          (CBS_get_bytes (sz (len + (header_len + num_bytes))) cbs)
                                          (\<lambda>out cbs. (Some (out, tag, header_len + num_bytes), cbs)))))"

definition CBS_get_any_asn1_element :: "CBS \<Rightarrow> (CBS \<times> u32 \<times> nat) option \<times> CBS" where
  "CBS_get_any_asn1_element cbs = cbs_get_any_asn1_element False cbs"

definition CBS_get_any_ber_asn1_element :: "CBS \<Rightarrow> (CBS \<times> u32 \<times> nat) option \<times> CBS" where
  "CBS_get_any_ber_asn1_element cbs = cbs_get_any_asn1_element True cbs"

definition CBS_get_any_asn1 :: "CBS \<Rightarrow> (CBS \<times> u32) option \<times> CBS" where
  "CBS_get_any_asn1 cbs =
     and_then (CBS_get_any_asn1_element cbs) (\<lambda>(out, tag, header_len) cbs.
       case CBS_skip header_len out of
         (None, _) \<Rightarrow> (None, cbs)
       | (Some _, out) \<Rightarrow> (Some (out, tag), cbs))"

definition cbs_get_asn1 :: "u32 \<Rightarrow> bool \<Rightarrow> CBS \<Rightarrow> CBS option \<times> CBS" where
  "cbs_get_asn1 tag_value skip_header cbs =
     and_then (CBS_get_any_asn1_element cbs) (\<lambda>(out, tag, header_len) cbs.
       if tag \<noteq> tag_value then (None, cbs)
       else if skip_header
            then case CBS_skip header_len out of
                   (None, _) \<Rightarrow> (None, cbs)
                 | (Some _, out) \<Rightarrow> (Some out, cbs)
            else (Some out, cbs))"

definition CBS_get_asn1 :: "u32 \<Rightarrow> CBS \<Rightarrow> CBS option \<times> CBS" where
  "CBS_get_asn1 tag_value cbs = cbs_get_asn1 tag_value True cbs"

definition CBS_get_asn1_element :: "u32 \<Rightarrow> CBS \<Rightarrow> CBS option \<times> CBS" where
  "CBS_get_asn1_element tag_value cbs = cbs_get_asn1 tag_value False cbs"

definition CBS_peek_asn1_tag :: "CBS \<Rightarrow> u32 \<Rightarrow> bool" where
  "CBS_peek_asn1_tag cbs tag_value =
     (if CBS_len cbs < 1 then False
      else case fst (parse_asn1_tag cbs) of
             None \<Rightarrow> False
           | Some actual_tag \<Rightarrow> tag_value = actual_tag)"

section \<open>ASN.1 values\<close>

fun asn1_uint64_loop :: "u64 \<Rightarrow> u8 list \<Rightarrow> u64 option" where
  "asn1_uint64_loop out [] = Some out"
| "asn1_uint64_loop out (b # data) =
     (if drop_bit 56 out \<noteq> 0 then None
      else asn1_uint64_loop (push_bit 8 out OR ucast b) data)"

definition asn1_uint64_of :: "u8 list \<Rightarrow> u64 option" where
  "asn1_uint64_of data =
     (if length data = 0 then None
      else if data ! 0 AND 0x80 \<noteq> 0 then None
      else if data ! 0 = 0 \<and> length data > 1 \<and> data ! 1 AND 0x80 = 0 then None
      else asn1_uint64_loop 0 data)"

definition CBS_get_asn1_uint64 :: "CBS \<Rightarrow> u64 option \<times> CBS" where
  "CBS_get_asn1_uint64 cbs =
     and_then (CBS_get_asn1 CBS_ASN1_INTEGER cbs) (\<lambda>bytes cbs. (asn1_uint64_of (CBS_data bytes), cbs))"

text \<open>
  The \<open>union\<close> of \<open>CBS_get_asn1_int64\<close>: eight bytes, sign-extended by \<open>memset\<close>, the low
  \<open>len\<close> of them overwritten in the loop; read back on a little-endian machine. The result is
  the \<open>int64_t\<close> with these bits, whose value is \<^const>\<open>sint\<close>.
\<close>

definition int64_fill :: "u8 list \<Rightarrow> u8 list \<Rightarrow> u8 list" where
  "int64_fill data u = foldl (\<lambda>u i. u[i := data ! (length data - i - 1)]) u [0..<length data]"

definition asn1_int64_of :: "u8 list \<Rightarrow> u64 option" where
  "asn1_int64_of data =
     (if length data = 0 \<or> length data > 8 then None
      else if length data > 1 \<and> data ! 0 = 0 \<and> data ! 1 AND 0x80 = 0 then None
      else if length data > 1 \<and> data ! 0 = 0xff \<and> data ! 1 AND 0x80 \<noteq> 0 then None
      else let is_negative = data ! 0 AND 0x80 \<noteq> 0;
               u = replicate 8 (if is_negative then 0xff else 0)
           in Some (of_nat (le_nat (int64_fill data u))))"

definition CBS_get_asn1_int64 :: "CBS \<Rightarrow> u64 option \<times> CBS" where
  "CBS_get_asn1_int64 cbs =
     and_then (CBS_get_asn1 CBS_ASN1_INTEGER cbs) (\<lambda>bytes cbs. (asn1_int64_of (CBS_data bytes), cbs))"

definition CBS_get_asn1_bool :: "CBS \<Rightarrow> int option \<times> CBS" where
  "CBS_get_asn1_bool cbs =
     and_then (CBS_get_asn1 CBS_ASN1_BOOLEAN cbs) (\<lambda>bytes cbs.
       if CBS_len bytes \<noteq> 1 then (None, cbs)
       else let v = hd (CBS_data bytes)
            in if v \<noteq> 0 \<and> v \<noteq> 0xff then (None, cbs)
               else (Some (if v \<noteq> 0 then 1 else 0), cbs))"

section \<open>Optional elements\<close>

text \<open>The value is \<open>Some out\<close> when the element is present, \<open>None\<close> (inside) when it is absent.\<close>

definition CBS_get_optional_asn1 :: "u32 \<Rightarrow> CBS \<Rightarrow> CBS option option \<times> CBS" where
  "CBS_get_optional_asn1 tag cbs =
     (if CBS_peek_asn1_tag cbs tag
      then and_then (CBS_get_asn1 tag cbs) (\<lambda>out cbs. (Some (Some out), cbs))
      else (Some None, cbs))"

text \<open>An absent octet string is stored as the empty \<open>CBS\<close>; the flag is \<open>*out_present\<close>.\<close>

definition CBS_get_optional_asn1_octet_string :: "u32 \<Rightarrow> CBS \<Rightarrow> (CBS \<times> bool) option \<times> CBS" where
  "CBS_get_optional_asn1_octet_string tag cbs =
     and_then (CBS_get_optional_asn1 tag cbs) (\<lambda>r cbs.
       case r of
         Some child \<Rightarrow>
           (case CBS_get_asn1 CBS_ASN1_OCTETSTRING child of
              (None, _) \<Rightarrow> (None, cbs)
            | (Some out, child) \<Rightarrow>
                if CBS_len child \<noteq> 0 then (None, cbs) else (Some (out, True), cbs))
       | None \<Rightarrow> (Some (CBS_init [], False), cbs))"

definition CBS_get_optional_asn1_uint64 :: "u32 \<Rightarrow> u64 \<Rightarrow> CBS \<Rightarrow> u64 option \<times> CBS" where
  "CBS_get_optional_asn1_uint64 tag default_value cbs =
     and_then (CBS_get_optional_asn1 tag cbs) (\<lambda>r cbs.
       case r of
         Some child \<Rightarrow>
           (case CBS_get_asn1_uint64 child of
              (None, _) \<Rightarrow> (None, cbs)
            | (Some out, child) \<Rightarrow> if CBS_len child \<noteq> 0 then (None, cbs) else (Some out, cbs))
       | None \<Rightarrow> (Some default_value, cbs))"

definition CBS_get_optional_asn1_bool :: "u32 \<Rightarrow> int \<Rightarrow> CBS \<Rightarrow> int option \<times> CBS" where
  "CBS_get_optional_asn1_bool tag default_value cbs =
     and_then (CBS_get_optional_asn1 tag cbs) (\<lambda>r cbs.
       case r of
         Some child \<Rightarrow>
           (case CBS_get_asn1 CBS_ASN1_BOOLEAN child of
              (None, _) \<Rightarrow> (None, cbs)
            | (Some child2, child) \<Rightarrow>
                if CBS_len child2 \<noteq> 1 \<or> CBS_len child \<noteq> 0 then (None, cbs)
                else let boolean = CBS_data child2 ! 0
                     in if boolean = 0 then (Some 0, cbs)
                        else if boolean = 0xff then (Some 1, cbs)
                        else (None, cbs))
       | None \<Rightarrow> (Some default_value, cbs))"

section \<open>Bit strings\<close>

definition CBS_is_valid_asn1_bitstring :: "CBS \<Rightarrow> bool" where
  "CBS_is_valid_asn1_bitstring cbs =
     (case CBS_get_u8 cbs of
        (None, _) \<Rightarrow> False
      | (Some num_unused_bits, inp) \<Rightarrow>
          if num_unused_bits > 7 then False
          else if num_unused_bits = 0 then True
          else case CBS_get_last_u8 inp of
                 (None, _) \<Rightarrow> False
               | (Some lst, _) \<Rightarrow> lst AND (push_bit (unat num_unused_bits) 1 - 1) = 0)"

definition CBS_asn1_bitstring_has_bit :: "CBS \<Rightarrow> u32 \<Rightarrow> bool" where
  "CBS_asn1_bitstring_has_bit cbs bt =
     (if \<not> CBS_is_valid_asn1_bitstring cbs then False
      else let byte_num = unat (drop_bit 3 bt + 1);
               bit_num = 7 - unat (bt AND 7)
           in byte_num < CBS_len cbs \<and> CBS_data cbs ! byte_num AND push_bit bit_num 1 \<noteq> 0)"

end
