(* ===== verification/Der.thy ===== *)
theory Der
  imports Cbs
begin

text \<open>
  The abstract specification of the DER framing the reader and the writer both promise
  (X.690, sections 8.1 and 10.1): the minimal base-128 form of a number, the identifier
  octets of a tag, the length octets and the header they make. The lemmas show that
  \<open>crypto/bytestring/cbs.c\<close> accepts exactly these encodings and nothing else.
\<close>

section \<open>Specification\<close>

fun base128_hi :: "nat \<Rightarrow> u8 list" where
  "base128_hi n = (if n = 0 then [] else base128_hi (n div 128) @ [of_nat (n mod 128 + 128)])"

declare base128_hi.simps [simp del]

definition der_base128 :: "nat \<Rightarrow> u8 list" where
  "der_base128 n = base128_hi (n div 128) @ [of_nat (n mod 128)]"

definition tag_class :: "u32 \<Rightarrow> nat" where
  "tag_class tag = unat tag div 2 ^ 29"

definition tag_num :: "u32 \<Rightarrow> nat" where
  "tag_num tag = unat tag mod 2 ^ 29"

definition der_tag :: "u32 \<Rightarrow> u8 list" where
  "der_tag tag =
     (if tag_num tag < 31 then [of_nat (tag_class tag * 32 + tag_num tag)]
      else of_nat (tag_class tag * 32 + 31) # der_base128 (tag_num tag))"

definition len_octets :: "nat \<Rightarrow> nat" where
  "len_octets n = (if n < 2 ^ 8 then 1 else if n < 2 ^ 16 then 2 else if n < 2 ^ 24 then 3 else 4)"

definition der_length :: "nat \<Rightarrow> u8 list" where
  "der_length n =
     (if n < 128 then [of_nat n] else of_nat (128 + len_octets n) # be_bytes (len_octets n) n)"

definition der_header :: "u32 \<Rightarrow> nat \<Rightarrow> u8 list" where
  "der_header tag n = der_tag tag @ der_length n"

definition der_element :: "u32 \<Rightarrow> u8 list \<Rightarrow> u8 list" where
  "der_element tag body = der_header tag (length body) @ body"

section \<open>Base-128 integers\<close>

lemma base128_step:
  fixes v :: u64 and b :: u8
  assumes "unat v < 2 ^ 57"
  shows "unat (push_bit 7 v OR ucast (b AND 0x7f) :: u64) = unat v * 128 + unat b mod 128"
proof -
  have "unat (ucast (b AND 0x7f) :: u64) = unat b mod 128"
    by (simp add: unat_ucast_up octet_lo)
  moreover have "unat b mod 128 < 128" by simp
  ultimately show ?thesis
    using assms by (subst unat_push_or) simp_all
qed

lemma base128_guard: "drop_bit 57 (v :: u64) = 0 \<longleftrightarrow> unat v < 2 ^ 57"
proof -
  have "drop_bit 57 v = 0 \<longleftrightarrow> unat v div 2 ^ 57 = 0"
    by (simp add: word_unat_eq_iff unat_drop_bit_div)
  then show ?thesis by (simp add: div_eq_0_iff)
qed

lemma base128_loop_hi:
  "m < 2 ^ 57 \<Longrightarrow> base128_loop 0 (base128_hi m @ cbs) = base128_loop (of_nat m) cbs"
proof (induction m arbitrary: cbs rule: base128_hi.induct)
  case (1 m)
  show ?case
  proof (cases "m = 0")
    case False
    define d where "d = (of_nat (m mod 128 + 128) :: u8)"
    have d: "unat d = m mod 128 + 128"
      unfolding d_def by (rule unat_of_nat_u8_id) simp
    have q: "m div 128 < 2 ^ 57" using "1.prems" by (simp add: div_less_dividend)
    then have v: "unat (of_nat (m div 128) :: u64) = m div 128"
      by (intro unat_of_nat_u64_id) simp
    have m: "unat (of_nat m :: u64) = m"
      using "1.prems" by (intro unat_of_nat_u64_id) simp
    have step: "push_bit 7 (of_nat (m div 128)) OR ucast (d AND 0x7f) = (of_nat m :: u64)"
      using base128_step [of "of_nat (m div 128)" d] q
      by (simp add: word_unat_eq_iff v d m mod_add_self2)
    have nz: "\<not> (of_nat (m div 128) = (0 :: u64) \<and> d = 0x80)"
      using False d v by (auto simp: word_unat_eq_iff)
    have "base128_loop 0 (base128_hi m @ cbs) = base128_loop (of_nat (m div 128)) (d # cbs)"
      using False 1 q by (simp add: base128_hi.simps [of m] d_def)
    also have "\<dots> = base128_loop (of_nat m) cbs"
      using q nz step by (auto simp add: base128_guard v octet_hi_iff d Let_def)
    finally show ?thesis .
  qed (simp add: base128_hi.simps)
qed

lemma parse_der_base128:
  assumes "n < 2 ^ 64"
  shows "parse_base128_integer (der_base128 n @ cbs) = (Some (of_nat n), cbs)"
proof -
  let ?m = "n div 128" and ?d = "of_nat (n mod 128) :: u8"
  have q: "?m < 2 ^ 57" using assms by (intro less_mult_imp_div_less) simp
  then have v: "unat (of_nat ?m :: u64) = ?m" by (intro unat_of_nat_u64_id) simp
  have d: "unat ?d = n mod 128" by (rule unat_of_nat_u8_id) simp
  have n: "unat (of_nat n :: u64) = n" using assms by (rule unat_of_nat_u64_id)
  have step: "push_bit 7 (of_nat ?m) OR ucast (?d AND 0x7f) = (of_nat n :: u64)"
    using base128_step [of "of_nat ?m" ?d] q by (simp add: word_unat_eq_iff v d n)
  have nz: "?d \<noteq> 0x80" using d by (auto simp: word_unat_eq_iff)
  have "parse_base128_integer (der_base128 n @ cbs) = base128_loop (of_nat ?m) (?d # cbs)"
    using q by (simp add: parse_base128_integer_def der_base128_def base128_loop_hi)
  then show ?thesis
    using q nz step by (simp add: base128_guard v octet_hi_iff d Let_def)
qed

lemma base128_loop_sound:
  "base128_loop v cbs = (Some w, rest) \<Longrightarrow> base128_hi (unat v) @ cbs = der_base128 (unat w) @ rest"
proof (induction v cbs rule: base128_loop.induct)
  case (2 v b cbs)
  let ?v' = "push_bit 7 v OR ucast (b AND 0x7f) :: u64"
  from "2.prems" have lt: "unat v < 2 ^ 57" and nz: "\<not> (v = 0 \<and> b = 0x80)"
    by (auto simp: base128_guard split: if_splits)
  have v': "unat ?v' = unat v * 128 + unat b mod 128"
    using lt by (rule base128_step)
  have b: "unat b = unat b mod 128 + (if b AND 0x80 = 0 then 0 else 128)"
    using mod_128_split [OF unat_u8_less [of b]] unfolding octet_hi_iff .
  have db: "unat ?v' div 128 = unat v" "unat ?v' mod 128 = unat b mod 128"
    by (simp_all add: v')
  show ?case
  proof (cases "b AND 0x80 = 0")
    case True
    with "2.prems" lt nz have "w = ?v'" "rest = cbs"
      by (auto simp: base128_guard Let_def)
    moreover have "of_nat (unat b mod 128) = b"
      using b True by simp
    ultimately show ?thesis
      by (simp add: der_base128_def db)
  next
    case False
    with "2.prems" lt nz have "base128_loop ?v' cbs = (Some w, rest)"
      by (auto simp: base128_guard Let_def)
    with 2 lt nz False have IH: "base128_hi (unat ?v') @ cbs = der_base128 (unat w) @ rest"
      by (auto simp: base128_guard)
    have "unat ?v' \<noteq> 0"
      using nz b False by (auto simp: v' word_unat_eq_iff)
    then have "base128_hi (unat ?v') = base128_hi (unat v) @ [of_nat (unat b mod 128 + 128)]"
      by (simp add: base128_hi.simps [of "unat ?v'"] db)
    moreover have "of_nat (unat b mod 128 + 128) = b"
      using b False by (intro of_nat_unat_id) simp
    ultimately show ?thesis
      using IH by simp
  qed
qed simp

lemma parse_base128_iff:
  "parse_base128_integer cbs = (Some v, rest) \<longleftrightarrow> cbs = der_base128 (unat v) @ rest"
proof
  assume "parse_base128_integer cbs = (Some v, rest)"
  then show "cbs = der_base128 (unat v) @ rest"
    using base128_loop_sound [of 0 cbs v rest]
    by (simp add: parse_base128_integer_def base128_hi.simps [of 0])
next
  assume "cbs = der_base128 (unat v) @ rest"
  then show "parse_base128_integer cbs = (Some v, rest)"
    using parse_der_base128 [of "unat v" rest] unsigned_less [where ?'a = nat, of v] by simp
qed

section \<open>Identifier octets\<close>

lemma tag_bits_shift:
  "push_bit 24 (ucast (b :: u8)) AND 0xe0000000 = (push_bit 29 (drop_bit 5 (ucast b)) :: u32)"
proof -
  have *: "(0xe0000000 :: u32) = push_bit 29 (mask 3)"
    by (simp add: mask_eq_exp_minus_1)
  show ?thesis
    unfolding * by (rule bit_word_eqI) (auto simp: bit_simps dest: bit_imp_le_length)
qed

lemma tag_word_parts:
  assumes "unat num < 2 ^ 29"
  shows "tag_class (push_bit 24 (ucast (b :: u8) AND 0xe0) OR num) = unat b div 32"
    and "tag_num (push_bit 24 (ucast (b :: u8) AND 0xe0) OR num) = unat num"
proof -
  let ?h = "drop_bit 5 (ucast b) :: u32"
  have h: "unat ?h = unat b div 32"
    by (simp add: unat_drop_bit_div unat_ucast_up)
  have "unat b div 32 < 8"
    using unat_u8_less [of b] by (intro less_mult_imp_div_less) simp
  then have "unat ?h * 2 ^ 29 + unat num < 2 ^ 32"
    using assms by (simp add: h)
  then have "unat (push_bit 24 (ucast b AND 0xe0) OR num) = unat b div 32 * 2 ^ 29 + unat num"
    using assms by (simp add: tag_bits_shift unat_push_or h)
  then show "tag_class (push_bit 24 (ucast b AND 0xe0) OR num) = unat b div 32"
    and "tag_num (push_bit 24 (ucast b AND 0xe0) OR num) = unat num"
    using assms by (simp_all add: tag_class_def tag_num_def)
qed

lemma tag_eqI: "tag_class s = tag_class t \<Longrightarrow> tag_num s = tag_num t \<Longrightarrow> s = t"
  unfolding tag_class_def tag_num_def word_unat_eq_iff by (metis div_mult_mod_eq)

lemma tag_class_less: "tag_class tag < 8"
  unfolding tag_class_def using unsigned_less [where ?'a = nat, of tag]
  by (intro less_mult_imp_div_less) simp

lemma tag_num_less: "tag_num tag < 2 ^ 29"
  by (simp add: tag_num_def)

lemma octet_of_parts: "c < 8 \<Longrightarrow> n < 32 \<Longrightarrow> unat (of_nat (c * 32 + n) :: u8) = c * 32 + n"
  by (rule unat_of_nat_u8_id) simp

lemma low_tag_number: "(ucast ((b :: u8) AND 0x1f) :: u32) = 0x1f \<longleftrightarrow> unat b mod 32 = 31"
proof -
  have "(ucast (b AND 0x1f) :: u32) = 0x1f \<longleftrightarrow> unat (ucast (b AND 0x1f) :: u32) = 31"
    by (simp add: word_unat_eq_iff)
  then show ?thesis by (simp add: unat_ucast_up octet_lo5)
qed

lemma parse_asn1_tag_sound:
  assumes "parse_asn1_tag cbs = (Some tag, rest)"
  shows "cbs = der_tag tag @ rest"
proof -
  obtain b cbs1 where cbs: "cbs = b # cbs1"
    using assms by (cases cbs) (auto simp: parse_asn1_tag_def)
  have parts: "unat b = unat b div 32 * 32 + unat b mod 32" by simp
  show ?thesis
  proof (cases "unat b mod 32 = 31")
    case True
    then obtain v where v: "parse_base128_integer cbs1 = (Some v, rest)"
      and range: "\<not> v > ucast CBS_ASN1_TAG_NUMBER_MASK" "\<not> v < 0x1f"
      and tag: "tag = push_bit 24 (ucast b AND 0xe0) OR ucast v"
      using assms unfolding cbs parse_asn1_tag_def
      by (auto simp: low_tag_number Let_def and_then_Some_iff CBS_ASN1_TAG_SHIFT_def split: if_splits)
    have uv: "31 \<le> unat v" "unat v < 2 ^ 29"
      using range by (simp_all add: word_less_nat_alt CBS_ASN1_TAG_NUMBER_MASK_def not_less)
    have "unat (ucast v :: u32) = unat v"
      using uv by (simp add: unsigned_ucast_eq take_bit_eq_mod)
    with uv tag have "tag_class tag = unat b div 32" "tag_num tag = unat v"
      using tag_word_parts [of "ucast v" b] by simp_all
    moreover have "of_nat (unat b div 32 * 32 + 31) = b"
      using parts True by (intro of_nat_unat_id) simp
    ultimately show ?thesis
      using v uv by (simp add: cbs der_tag_def parse_base128_iff)
  next
    case False
    then have tag: "tag = push_bit 24 (ucast b AND 0xe0) OR ucast (b AND 0x1f)" and "rest = cbs1"
      using assms unfolding cbs parse_asn1_tag_def
      by (auto simp: low_tag_number Let_def CBS_ASN1_TAG_SHIFT_def split: if_splits)
    moreover have n: "unat (ucast (b AND 0x1f) :: u32) = unat b mod 32"
      by (simp add: unat_ucast_up octet_lo5)
    moreover have "unat b mod 32 < 31" using False by presburger
    ultimately have "tag_class tag = unat b div 32" "tag_num tag = unat b mod 32"
      using tag_word_parts [of "ucast (b AND 0x1f)" b] by simp_all
    moreover have "of_nat (unat b div 32 * 32 + unat b mod 32) = b"
      using parts by (intro of_nat_unat_id) simp
    ultimately show ?thesis
      using \<open>unat b mod 32 < 31\<close> \<open>rest = cbs1\<close> by (simp add: cbs der_tag_def)
  qed
qed

lemma parse_asn1_tag_complete: "parse_asn1_tag (der_tag tag @ rest) = (Some tag, rest)"
proof (cases "tag_num tag < 31")
  case True
  define b where "b = (of_nat (tag_class tag * 32 + tag_num tag) :: u8)"
  have b: "unat b = tag_class tag * 32 + tag_num tag"
    unfolding b_def using True tag_class_less [of tag] by (intro octet_of_parts) simp_all
  have n: "unat (ucast (b AND 0x1f) :: u32) = tag_num tag"
    using True by (simp add: unat_ucast_up octet_lo5 b)
  have "push_bit 24 (ucast b AND 0xe0) OR ucast (b AND 0x1f) = tag"
    using True tag_word_parts [of "ucast (b AND 0x1f)" b] by (intro tag_eqI) (simp_all add: n b)
  moreover have "unat b mod 32 \<noteq> 31" using True by (simp add: b)
  moreover have "der_tag tag = [b]"
    unfolding der_tag_def b_def using True by (simp only: if_True)
  ultimately show ?thesis
    by (simp add: parse_asn1_tag_def low_tag_number Let_def CBS_ASN1_TAG_SHIFT_def)
next
  case False
  define b where "b = (of_nat (tag_class tag * 32 + 31) :: u8)"
  have b: "unat b = tag_class tag * 32 + 31"
    unfolding b_def using tag_class_less [of tag] by (intro octet_of_parts) simp_all
  define v where "v = (of_nat (tag_num tag) :: u64)"
  have v: "unat v = tag_num tag"
    unfolding v_def using tag_num_less [of tag] by (intro unat_of_nat_u64_id) simp
  have uv: "unat (ucast v :: u32) = tag_num tag"
    using tag_num_less [of tag] v by (simp add: unsigned_ucast_eq take_bit_eq_mod)
  have "push_bit 24 (ucast b AND 0xe0) OR ucast v = tag"
    using tag_word_parts [of "ucast v" b] tag_num_less [of tag] by (intro tag_eqI) (simp_all add: uv b)
  moreover have "unat b mod 32 = 31" by (simp add: b)
  moreover have "\<not> v > ucast CBS_ASN1_TAG_NUMBER_MASK" "\<not> v < 0x1f"
    using False tag_num_less [of tag]
    by (simp_all add: word_less_nat_alt CBS_ASN1_TAG_NUMBER_MASK_def v)
  moreover have "parse_base128_integer (der_base128 (tag_num tag) @ rest) = (Some v, rest)"
    by (simp add: parse_base128_iff v)
  moreover have "der_tag tag = b # der_base128 (tag_num tag)"
    unfolding der_tag_def b_def using False by (simp only: if_False)
  ultimately show ?thesis
    by (simp add: parse_asn1_tag_def low_tag_number Let_def CBS_ASN1_TAG_SHIFT_def)
qed

lemma parse_asn1_tag_iff: "parse_asn1_tag cbs = (Some tag, rest) \<longleftrightarrow> cbs = der_tag tag @ rest"
  using parse_asn1_tag_sound parse_asn1_tag_complete by metis

section \<open>Length octets and elements\<close>

lemma len_octets_bounds: "n < 2 ^ 32 \<Longrightarrow> 1 \<le> len_octets n \<and> len_octets n \<le> 4 \<and> n < 256 ^ len_octets n"
  by (auto simp: len_octets_def)

lemma len_octets_minimal: "128 \<le> n \<Longrightarrow> 256 ^ (len_octets n - 1) \<le> n"
  by (auto simp: len_octets_def)

lemma len_octets_unique:
  assumes "1 \<le> k" "k \<le> 4" "256 ^ (k - 1) \<le> n" "n < 256 ^ k"
  shows "len_octets n = k"
proof -
  have "k = 1 \<or> k = 2 \<or> k = 3 \<or> k = 4" using assms(1,2) by linarith
  then show ?thesis
    using assms(3,4) by (elim disjE) (simp_all add: len_octets_def)
qed

lemma der_length_long:
  assumes "length lbs = k" "1 \<le> k" "k \<le> 4" "unat lb = 128 + k"
    and "128 \<le> be_nat lbs" "256 ^ (k - 1) \<le> be_nat lbs"
  shows "der_length (be_nat lbs) = lb # lbs"
proof -
  have "len_octets (be_nat lbs) = k"
    using assms be_nat_bound [of lbs] by (intro len_octets_unique) auto
  moreover have "of_nat (128 + k) = lb"
    using assms by (intro of_nat_unat_id)
  moreover have "be_bytes k (be_nat lbs) = lbs"
    using be_bytes_be_nat [of lbs] assms(1) by simp
  ultimately show ?thesis
    using assms(5) by (simp only: der_length_def not_less [symmetric]) simp
qed

text \<open>What the reader does once the identifier octets \<open>T\<close> and the first length octet are read.\<close>

lemma element_short:
  assumes "cbs = der_tag tag @ lb # h" "unat lb < 128"
  shows "cbs_get_any_asn1_element ok cbs =
    and_then (CBS_get_bytes (unat lb + (length (der_tag tag) + 1)) cbs)
      (\<lambda>out cbs. (Some (out, tag, length (der_tag tag) + 1), cbs))"
  using assms
  by (simp add: cbs_get_any_asn1_element_def parse_asn1_tag_complete CBS_len_def octet_hi_iff)

lemma element_long:
  assumes cbs: "cbs = der_tag tag @ lb # h" and hi: "\<not> unat lb < 128"
    and k: "k = unat lb mod 128" and def: "\<not> (ok \<and> tag AND CBS_ASN1_CONSTRUCTED \<noteq> 0 \<and> k = 0)"
    and small: "length (der_tag tag) < 2 ^ 32"
  shows "cbs_get_any_asn1_element ok cbs =
    (if k = 0 \<or> k > 4 \<or> length h < k then (None, cbs)
     else let n = be_nat (take k h)
          in if n < 128 \<or> n < 256 ^ (k - 1) then (None, cbs)
             else and_then (CBS_get_bytes (n + (length (der_tag tag) + 1 + k)) cbs)
                    (\<lambda>out cbs. (Some (out, tag, length (der_tag tag) + 1 + k), cbs)))"
proof (cases "k = 0 \<or> k > 4")
  case True
  with cbs hi def show ?thesis
    by (auto simp: cbs_get_any_asn1_element_def parse_asn1_tag_complete CBS_len_def octet_hi_iff
        octet_lo Let_def simp flip: k)
next
  case k4: False
  show ?thesis
  proof (cases "length h < k")
    case True
    then have "cbs_get_u k h = (None, h)" by (simp add: cbs_get_u_None_iff)
    with cbs hi k4 True show ?thesis
      by (simp add: cbs_get_any_asn1_element_def parse_asn1_tag_complete CBS_len_def octet_hi_iff
          octet_lo Let_def flip: k)
  next
    case False
    define n where "n = be_nat (take k h)"
    have "n < 256 ^ k" using be_nat_bound [of "take k h"] False by (simp add: n_def)
    moreover have "(256 :: nat) ^ k \<le> 256 ^ 4" using k4 by (intro power_increasing) auto
    ultimately have n32: "n < 2 ^ 32" by simp
    then have un: "unat (of_nat n :: u64) = n" by (intro unat_of_nat_u64_id) simp
    have get: "cbs_get_u k h = (Some (of_nat n), drop k h)"
      using cbs_get_u_append [of "take k h" k "drop k h"] False k4 by (simp add: n_def)
    have lt: "of_nat n < (128 :: u64) \<longleftrightarrow> n < 128"
      by (simp add: word_less_nat_alt un)
    have "drop_bit ((k - 1) * 8) (of_nat n :: u64) = 0 \<longleftrightarrow> n div 2 ^ ((k - 1) * 8) = 0"
      by (simp add: word_unat_eq_iff unat_drop_bit_div un)
    also have "(2 :: nat) ^ ((k - 1) * 8) = 256 ^ (k - 1)"
      by (simp add: power_mult power_mult [symmetric] mult.commute [of _ 8] power_mult [of 2 8])
    finally have dz: "drop_bit ((k - 1) * 8) (of_nat n :: u64) = 0 \<longleftrightarrow> n < 256 ^ (k - 1)"
      by (simp add: div_eq_0_iff)
    have sz1: "sz (Suc (n + length (der_tag tag) + k)) = Suc (n + length (der_tag tag) + k)"
      and sz2: "sz (Suc (n + (length (der_tag tag) + k))) = Suc (n + (length (der_tag tag) + k))"
      using n32 small k4 by simp_all
    show ?thesis
      using cbs hi k4 False get
      by (simp add: cbs_get_any_asn1_element_def parse_asn1_tag_complete CBS_len_def octet_hi_iff
          octet_lo Let_def lt dz [simplified] un sz1 sz2 flip: k n_def)
  qed
qed

text \<open>Identifier octets take at most six bytes.\<close>

lemma length_base128_hi: "n < 128 ^ k \<Longrightarrow> length (base128_hi n) \<le> k"
proof (induction k arbitrary: n)
  case (Suc k)
  then have "n div 128 < 128 ^ k"
    by (intro less_mult_imp_div_less) (simp add: mult.commute)
  with Suc.IH show ?case
    by (simp add: base128_hi.simps [of n])
qed (simp add: base128_hi.simps)

lemma length_der_tag: "1 \<le> length (der_tag tag) \<and> length (der_tag tag) \<le> 6"
proof -
  have "tag_num tag div 128 < 128 ^ 4"
    using tag_num_less [of tag] by (intro less_mult_imp_div_less) simp
  then show ?thesis
    using length_base128_hi [of "tag_num tag div 128" 4] by (simp add: der_tag_def der_base128_def)
qed

lemma length_der_length: "1 \<le> length (der_length n) \<and> length (der_length n) \<le> 5"
  by (simp add: der_length_def len_octets_def)

lemma length_der_header: "2 \<le> length (der_header tag n) \<and> length (der_header tag n) \<le> 11"
  using length_der_tag [of tag] length_der_length [of n] by (simp add: der_header_def)

lemma element_sound:
  assumes "cbs_get_any_asn1_element False cbs = (Some (out, tag, hl), rest)"
  shows "\<exists>body. length body < 2 ^ 32 \<and> out = der_element tag body
    \<and> hl = length (der_header tag (length body)) \<and> cbs = out @ rest"
proof -
  obtain lb h where cbs: "cbs = der_tag tag @ lb # h"
    using assms
    by (auto simp: cbs_get_any_asn1_element_def parse_asn1_tag_iff CBS_get_u8_def cbs_get_def Let_def
        and_then_Some_iff neq_Nil_conv split: prod.splits option.splits if_splits list.splits)
  show ?thesis
  proof (cases "unat lb < 128")
    case True
    then have "CBS_get_bytes (unat lb + (length (der_tag tag) + 1)) cbs = (Some out, rest)"
      and hl: "hl = length (der_tag tag) + 1"
      using assms by (auto simp: element_short [OF cbs] and_then_Some_iff)
    then have len: "length out = unat lb + (length (der_tag tag) + 1)" and split: "cbs = out @ rest"
      by (auto simp: CBS_get_bytes_Some_iff)
    have "(der_tag tag @ [lb]) @ h = out @ rest"
      using split cbs by simp
    then obtain body where out: "out = (der_tag tag @ [lb]) @ body"
      by (rule append_prefix_split) (use len in simp)
    with len have n: "length body = unat lb" by simp
    have "of_nat (unat lb) = lb" by (rule of_nat_unat_id) simp
    with True have "der_length (unat lb) = [lb]" by (simp add: der_length_def)
    with out n hl split True show ?thesis
      by (intro exI [of _ body]) (simp add: der_element_def der_header_def)
  next
    case False
    define k where "k = unat lb mod 128"
    have lb: "unat lb = 128 + k"
      using mod_128_split [OF unat_u8_less [of lb]] False by (simp add: k_def)
    have small: "length (der_tag tag) < 2 ^ 32" using length_der_tag [of tag] by simp
    define lbs where "lbs = take k h"
    have k: "\<not> (k = 0 \<or> k > 4 \<or> length h < k)"
      and n: "\<not> (be_nat lbs < 128 \<or> be_nat lbs < 256 ^ (k - 1))"
      and get: "and_then (CBS_get_bytes (be_nat lbs + (length (der_tag tag) + 1 + k)) cbs)
          (\<lambda>out cbs. (Some (out, tag, length (der_tag tag) + 1 + k), cbs)) = (Some (out, tag, hl), rest)"
      using assms by (auto simp: element_long [OF cbs False k_def _ small] Let_def lbs_def split: if_splits)
    have lbs: "length lbs = k" "h = lbs @ drop k h" using k by (simp_all add: lbs_def)
    from get have len: "length out = be_nat lbs + (length (der_tag tag) + 1 + k)"
      and split: "cbs = out @ rest" and hl: "hl = length (der_tag tag) + 1 + k"
      by (auto simp: CBS_get_bytes_Some_iff and_then_Some_iff)
    have "(der_tag tag @ lb # lbs) @ drop k h = out @ rest"
      using split cbs lbs(2) by simp
    then obtain body where out: "out = (der_tag tag @ lb # lbs) @ body"
      by (rule append_prefix_split) (use len lbs in simp)
    with len lbs have nb: "length body = be_nat lbs" by simp
    have "be_nat lbs < 256 ^ k" using be_nat_bound [of lbs] lbs by simp
    also have "(256 :: nat) ^ k \<le> 256 ^ 4" using k by (intro power_increasing) auto
    finally have "length body < 2 ^ 32" by (simp add: nb)
    moreover have "der_length (length body) = lb # lbs"
      unfolding nb using lbs k n lb by (intro der_length_long) auto
    ultimately show ?thesis
      using out hl split lbs by (intro exI [of _ body]) (simp add: der_element_def der_header_def)
  qed
qed

lemma element_complete:
  assumes "length body < 2 ^ 32"
  shows "cbs_get_any_asn1_element ok (der_element tag body @ rest)
    = (Some (der_element tag body, tag, length (der_header tag (length body))), rest)"
proof (cases "length body < 128")
  case True
  define lb where "lb = (of_nat (length body) :: u8)"
  have ub: "unat lb = length body"
    unfolding lb_def using True by (intro unat_of_nat_u8_id) simp
  have "der_element tag body @ rest = der_tag tag @ lb # body @ rest"
    using True by (simp add: der_element_def der_header_def der_length_def lb_def)
  note short = element_short [OF this, of ok]
  have hl: "length (der_header tag (length body)) = length (der_tag tag) + 1"
    using True by (simp add: der_header_def der_length_def)
  then have "length (der_element tag body) = unat lb + (length (der_tag tag) + 1)"
    by (simp add: der_element_def ub)
  then show ?thesis
    using short True ub by (simp add: hl)
next
  case False
  define k where "k = len_octets (length body)"
  have k: "1 \<le> k" "k \<le> 4" "length body < 256 ^ k" and kmin: "256 ^ (k - 1) \<le> length body"
    using len_octets_bounds [OF assms] len_octets_minimal [of "length body"] False
    by (simp_all add: k_def)
  define lb where "lb = (of_nat (128 + k) :: u8)"
  have lb: "unat lb = 128 + k"
    unfolding lb_def using k by (intro unat_of_nat_u8_id) simp
  define lbs where "lbs = be_bytes k (length body)"
  have lbs: "length lbs = k" "be_nat lbs = length body"
    using k by (simp_all add: lbs_def be_nat_be_bytes)
  have len: "der_length (length body) = lb # lbs"
    unfolding der_length_def lbs_def lb_def k_def using False by (simp only: if_False)
  have eq: "der_element tag body @ rest = der_tag tag @ lb # (lbs @ body @ rest)"
    by (simp add: der_element_def der_header_def len)
  have "k = unat lb mod 128" using k by (simp add: lb)
  note long = element_long [OF eq _ this, of ok]
  have hl: "length (der_header tag (length body)) = length (der_tag tag) + 1 + k"
    using lbs by (simp add: der_header_def len)
  then have "length (der_element tag body) = length body + (length (der_tag tag) + 1 + k)"
    by (simp add: der_element_def)
  then show ?thesis
    using long k kmin False lb lbs length_der_tag [of tag] by (simp add: hl Let_def)
qed

text \<open>
  The consequences every client uses: an element is read back whole, its contents after the
  header is skipped, and a successful read always consumes at least two octets.
\<close>

lemma CBS_get_any_asn1_element_iff:
  "CBS_get_any_asn1_element cbs = (Some (out, tag, hl), rest) \<longleftrightarrow>
     (\<exists>body. length body < 2 ^ 32 \<and> out = der_element tag body
       \<and> hl = length (der_header tag (length body)) \<and> cbs = out @ rest)"
  unfolding CBS_get_any_asn1_element_def
  using element_sound [of cbs out tag hl rest] element_complete [of _ False tag rest] by metis

lemma length_der_element: "length (der_element tag body) = length (der_header tag (length body)) + length body"
  by (simp add: der_element_def)

lemma CBS_skip_der_header [simp]:
  "CBS_skip (length (der_header tag (length body))) (der_element tag body) = (Some (), body)"
  by (simp add: der_element_def)

lemma cbs_get_asn1_der_element [simp]:
  "length body < 2 ^ 32 \<Longrightarrow> CBS_get_asn1 tag (der_element tag body @ rest) = (Some body, rest)"
  by (simp add: CBS_get_asn1_def cbs_get_asn1_def CBS_get_any_asn1_element_def element_complete)

lemma CBS_get_asn1_iff:
  "CBS_get_asn1 tag cbs = (Some body, rest) \<longleftrightarrow>
     length body < 2 ^ 32 \<and> cbs = der_element tag body @ rest"
proof
  assume "CBS_get_asn1 tag cbs = (Some body, rest)"
  then obtain out hl cbs' where el: "CBS_get_any_asn1_element cbs = (Some (out, tag, hl), rest)"
    and skip: "CBS_skip hl out = (Some (), body)"
    by (auto simp: CBS_get_asn1_def cbs_get_asn1_def and_then_Some_iff split: if_splits option.splits prod.splits)
  from el obtain b where "length b < 2 ^ 32" "out = der_element tag b"
      "hl = length (der_header tag (length b))" "cbs = out @ rest"
    unfolding CBS_get_any_asn1_element_iff by blast
  with skip show "length body < 2 ^ 32 \<and> cbs = der_element tag body @ rest" by simp
qed simp

lemma CBS_get_asn1_element_iff:
  "CBS_get_asn1_element tag cbs = (Some out, rest) \<longleftrightarrow>
     (\<exists>body. length body < 2 ^ 32 \<and> out = der_element tag body \<and> cbs = out @ rest)"
  by (auto simp: CBS_get_asn1_element_def cbs_get_asn1_def and_then_Some_iff
      CBS_get_any_asn1_element_iff split: if_splits)

lemma CBS_get_any_asn1_iff:
  "CBS_get_any_asn1 cbs = (Some (body, tag), rest) \<longleftrightarrow>
     length body < 2 ^ 32 \<and> cbs = der_element tag body @ rest"
proof
  assume "CBS_get_any_asn1 cbs = (Some (body, tag), rest)"
  then obtain out tag' hl cbs' where el: "CBS_get_any_asn1_element cbs = (Some (out, tag', hl), cbs')"
    and skip: "(case CBS_skip hl out of (None, _) \<Rightarrow> (None, cbs') | (Some _, out) \<Rightarrow> (Some (out, tag'), cbs'))
      = (Some (body, tag), rest)"
    by (auto simp: CBS_get_any_asn1_def and_then_Some_iff)
  from el obtain b where "length b < 2 ^ 32" "out = der_element tag' b"
      "hl = length (der_header tag' (length b))" "cbs = out @ cbs'"
    unfolding CBS_get_any_asn1_element_iff by blast
  with skip show "length body < 2 ^ 32 \<and> cbs = der_element tag body @ rest" by simp
qed (simp add: CBS_get_any_asn1_def CBS_get_any_asn1_element_def element_complete)

lemma CBS_peek_asn1_tag_iff: "CBS_peek_asn1_tag cbs tag \<longleftrightarrow> (\<exists>rest. cbs = der_tag tag @ rest)"
proof
  assume "CBS_peek_asn1_tag cbs tag"
  then show "\<exists>rest. cbs = der_tag tag @ rest"
    by (cases "parse_asn1_tag cbs")
      (auto simp: CBS_peek_asn1_tag_def parse_asn1_tag_iff split: if_splits option.splits)
next
  assume "\<exists>rest. cbs = der_tag tag @ rest"
  then show "CBS_peek_asn1_tag cbs tag"
    using length_der_tag [of tag]
    by (auto simp: CBS_peek_asn1_tag_def parse_asn1_tag_complete CBS_len_def not_less)
qed

end
