(* ===== verification/Cbb.thy ===== *)
theory Cbb
  imports Der
begin

text \<open>
  \<open>crypto/bytestring/cbb.c\<close>: the writer. A \<open>struct cbb_buffer_st\<close> is \<open>cbb_buffer\<close>, whose
  \<open>buf\<close> holds the first \<open>len\<close> bytes; the \<open>CBB\<close> objects that share it form a chain through
  their \<open>child\<close> pointers, modelled as the list \<open>kids\<close> of the open children below the
  top-level \<open>CBB\<close>. A \<open>CBB*\<close> argument is its depth \<open>d\<close> in that chain, 0 for the top-level
  object; a depth with no open child is a handle whose \<open>base\<close> was reset to \<open>NULL\<close>. The
  parameter \<open>os\<close> says which allocations succeed.
\<close>

section \<open>State\<close>

record cbb_buffer =
  bb_buf :: "u8 list"
  bb_cap :: nat
  bb_can_resize :: bool
  bb_error :: bool

record cbb_child =
  cc_offset :: nat
  cc_pending_len_len :: nat
  cc_pending_is_asn1 :: bool

record CBB =
  cbb_base :: "cbb_buffer option"
  cbb_kids :: "cbb_child list"

abbreviation bb_len :: "cbb_buffer \<Rightarrow> nat" where
  "bb_len b \<equiv> length (bb_buf b)"

definition CBB_zero :: CBB where
  "CBB_zero = \<lparr>cbb_base = None, cbb_kids = []\<rparr>"

text \<open>\<open>sizeof(struct cbb_buffer_st)\<close>, the first allocation of every \<open>CBB\<close>.\<close>

definition sizeof_cbb_buffer :: nat where
  "sizeof_cbb_buffer = 32"

definition cbb_init :: "(nat \<Rightarrow> bool) \<Rightarrow> nat \<Rightarrow> CBB \<Rightarrow> bool \<times> CBB" where
  "cbb_init os cap cbb =
     (if malloc_ok os sizeof_cbb_buffer
      then (True, cbb\<lparr>cbb_base := Some \<lparr>bb_buf = [], bb_cap = cap, bb_can_resize = True, bb_error = False\<rparr>,
                     cbb_kids := []\<rparr>)
      else (False, cbb))"

definition CBB_init :: "(nat \<Rightarrow> bool) \<Rightarrow> nat \<Rightarrow> bool \<times> CBB" where
  "CBB_init os initial_capacity =
     (if initial_capacity > 0 \<and> \<not> malloc_ok os initial_capacity then (False, CBB_zero)
      else cbb_init os initial_capacity CBB_zero)"

definition CBB_init_fixed :: "(nat \<Rightarrow> bool) \<Rightarrow> nat \<Rightarrow> bool \<times> CBB" where
  "CBB_init_fixed os n =
     (case cbb_init os n CBB_zero of
        (False, cbb) \<Rightarrow> (False, cbb)
      | (True, cbb) \<Rightarrow> (True, cbb\<lparr>cbb_base := map_option (bb_can_resize_update (\<lambda>_. False)) (cbb_base cbb)\<rparr>))"

text \<open>Only the top-level object is cleaned up; on a child the call does nothing.\<close>

definition CBB_cleanup :: "nat \<Rightarrow> CBB \<Rightarrow> CBB" where
  "CBB_cleanup d cbb = (if d \<noteq> 0 then cbb else cbb\<lparr>cbb_base := None\<rparr>)"

section \<open>The buffer\<close>

definition bb_fail :: "cbb_buffer \<Rightarrow> bool \<times> cbb_buffer" where
  "bb_fail b = (False, b\<lparr>bb_error := True\<rparr>)"

definition cbb_buffer_reserve :: "(nat \<Rightarrow> bool) \<Rightarrow> cbb_buffer \<Rightarrow> nat \<Rightarrow> bool \<times> cbb_buffer" where
  "cbb_buffer_reserve os b n =
     (let newlen = sz (bb_len b + n)
      in if newlen < bb_len b then bb_fail b
         else if newlen > bb_cap b
         then let newcap = sz (bb_cap b * 2)
              in if \<not> bb_can_resize b then bb_fail b
                 else let newcap = (if newcap < bb_cap b \<or> newcap < newlen then newlen else newcap)
                      in if malloc_ok os newcap then (True, b\<lparr>bb_cap := newcap\<rparr>) else bb_fail b
         else (True, b))"

text \<open>\<open>ws\<close> is what the caller writes through the pointer \<open>cbb_buffer_add\<close> hands out.\<close>

definition cbb_buffer_add :: "(nat \<Rightarrow> bool) \<Rightarrow> cbb_buffer \<Rightarrow> u8 list \<Rightarrow> bool \<times> cbb_buffer" where
  "cbb_buffer_add os b ws =
     (case cbb_buffer_reserve os b (length ws) of
        (False, b) \<Rightarrow> (False, b)
      | (True, b) \<Rightarrow> (True, b\<lparr>bb_buf := bb_buf b @ ws\<rparr>))"

text \<open>The loop \<open>buf[i] = v; v >>= 8\<close> from the last byte to the first: the bytes and what is left of \<open>v\<close>.\<close>

fun put_u :: "nat \<Rightarrow> u64 \<Rightarrow> u8 list \<times> u64" where
  "put_u 0 v = ([], v)"
| "put_u (Suc n) v = (let (bs, w) = put_u n (drop_bit 8 v) in (bs @ [ucast v], w))"

definition cbb_buffer_add_u :: "(nat \<Rightarrow> bool) \<Rightarrow> cbb_buffer \<Rightarrow> u64 \<Rightarrow> nat \<Rightarrow> bool \<times> cbb_buffer" where
  "cbb_buffer_add_u os b v len_len =
     (if len_len = 0 then (True, b)
      else let (bytes, v') = put_u len_len v
           in case cbb_buffer_add os b bytes of
                (False, b) \<Rightarrow> (False, b)
              | (True, b) \<Rightarrow> if v' \<noteq> 0 then bb_fail b else (True, b))"

section \<open>Flushing\<close>

text \<open>\<open>OPENSSL_memmove(buf + dst, buf + src, n)\<close> and the stores of the length loop.\<close>

definition memmove :: "u8 list \<Rightarrow> nat \<Rightarrow> nat \<Rightarrow> nat \<Rightarrow> u8 list" where
  "memmove buf dst src n = take dst buf @ take n (drop src buf) @ drop (dst + n) buf"

definition store_at :: "u8 list \<Rightarrow> nat \<Rightarrow> u8 list \<Rightarrow> u8 list" where
  "store_at buf i bs = take i buf @ bs @ drop (i + length bs) buf"

text \<open>Number of length octets and the initial octet for ASN.1 contents of \<open>n\<close> bytes.\<close>

definition asn1_len_len :: "nat \<Rightarrow> nat \<times> u8" where
  "asn1_len_len n =
     (if n > 0xffffff then (5, 0x80 OR 4)
      else if n > 0xffff then (4, 0x80 OR 3)
      else if n > 0xff then (3, 0x80 OR 2)
      else if n > 0x7f then (2, 0x80 OR 1)
      else (1, of_nat n))"

text \<open>
  The part of \<open>CBB_flush\<close> after the recursive call: the pending prefix of child \<open>c\<close> is
  written. The \<open>extra\<close> bytes added for a long ASN.1 length are uninitialised in C; the
  \<open>memmove\<close> overwrites all of them.
\<close>

definition flush_child :: "(nat \<Rightarrow> bool) \<Rightarrow> cbb_buffer \<Rightarrow> cbb_child \<Rightarrow> bool \<times> cbb_buffer" where
  "flush_child os b c =
     (let child_start = sz (cc_offset c + cc_pending_len_len c)
      in if child_start < cc_offset c \<or> bb_len b < child_start then bb_fail b
         else
           let n = bb_len b - child_start
           in if cc_pending_is_asn1 c
              then if n > 0xfffffffe then bb_fail b
                   else
                     let (len_len, initial_length_byte) = asn1_len_len n;
                         n' = (if len_len = 1 then 0 else n);
                         extra_bytes = len_len - 1
                     in case (if len_len \<noteq> 1
                              then (case cbb_buffer_add os b (replicate extra_bytes 0) of
                                      (False, b) \<Rightarrow> (False, b)
                                    | (True, b) \<Rightarrow>
                                        (True, b\<lparr>bb_buf := memmove (bb_buf b) (child_start + extra_bytes) child_start n\<rparr>))
                              else (True, b)) of
                          (False, b) \<Rightarrow> bb_fail b
                        | (True, b) \<Rightarrow>
                            (let buf = (bb_buf b)[cc_offset c := initial_length_byte];
                                 (bytes, rest) = put_u extra_bytes (of_nat n')
                             in if rest \<noteq> 0 then bb_fail (b\<lparr>bb_buf := store_at buf (cc_offset c + 1) bytes\<rparr>)
                                else (True, b\<lparr>bb_buf := store_at buf (cc_offset c + 1) bytes\<rparr>))
              else let (bytes, rest) = put_u (cc_pending_len_len c) (of_nat n);
                       b' = b\<lparr>bb_buf := store_at (bb_buf b) (cc_offset c) bytes\<rparr>
                   in if rest \<noteq> 0 then bb_fail b' else (True, b'))"

fun flush_kids :: "(nat \<Rightarrow> bool) \<Rightarrow> cbb_buffer \<Rightarrow> cbb_child list \<Rightarrow> bool \<times> cbb_buffer \<times> cbb_child list" where
  "flush_kids os b [] = (if bb_error b then (False, b, []) else (True, b, []))"
| "flush_kids os b (c # cs) =
     (if bb_error b then (False, b, c # cs)
      else if cc_pending_len_len c = 0 then (True, b, c # cs)
      else case flush_kids os b cs of
             (False, b, cs) \<Rightarrow> (False, b\<lparr>bb_error := True\<rparr>, c # cs)
           | (True, b, cs) \<Rightarrow>
               (case flush_child os b c of
                  (False, b) \<Rightarrow> (False, b, c # cs)
                | (True, b) \<Rightarrow> (True, b, [])))"

definition CBB_flush :: "(nat \<Rightarrow> bool) \<Rightarrow> nat \<Rightarrow> CBB \<Rightarrow> bool \<times> CBB" where
  "CBB_flush os d cbb =
     (case cbb_base cbb of
        None \<Rightarrow> (False, cbb)
      | Some b \<Rightarrow>
          if length (cbb_kids cbb) < d then (False, cbb)
          else case flush_kids os b (drop d (cbb_kids cbb)) of
                 (ok, b, cs) \<Rightarrow> (ok, cbb\<lparr>cbb_base := Some b, cbb_kids := take d (cbb_kids cbb) @ cs\<rparr>))"

section \<open>Writing\<close>

definition cbb_seq :: "bool \<times> CBB \<Rightarrow> (CBB \<Rightarrow> bool \<times> CBB) \<Rightarrow> bool \<times> CBB" where
  "cbb_seq r f = (case r of (False, cbb) \<Rightarrow> (False, cbb) | (True, cbb) \<Rightarrow> f cbb)"

definition on_base :: "(cbb_buffer \<Rightarrow> bool \<times> cbb_buffer) \<Rightarrow> CBB \<Rightarrow> bool \<times> CBB" where
  "on_base f cbb =
     (case cbb_base cbb of
        None \<Rightarrow> (False, cbb)
      | Some b \<Rightarrow> (case f b of (ok, b) \<Rightarrow> (ok, cbb\<lparr>cbb_base := Some b\<rparr>)))"

definition cbb_add_u :: "(nat \<Rightarrow> bool) \<Rightarrow> nat \<Rightarrow> u64 \<Rightarrow> nat \<Rightarrow> CBB \<Rightarrow> bool \<times> CBB" where
  "cbb_add_u os d v n cbb = cbb_seq (CBB_flush os d cbb) (on_base (\<lambda>b. cbb_buffer_add_u os b v n))"

definition CBB_add_u8 :: "(nat \<Rightarrow> bool) \<Rightarrow> nat \<Rightarrow> u8 \<Rightarrow> CBB \<Rightarrow> bool \<times> CBB" where
  "CBB_add_u8 os d v = cbb_add_u os d (ucast v) 1"

definition CBB_add_u16 :: "(nat \<Rightarrow> bool) \<Rightarrow> nat \<Rightarrow> u16 \<Rightarrow> CBB \<Rightarrow> bool \<times> CBB" where
  "CBB_add_u16 os d v = cbb_add_u os d (ucast v) 2"

definition CBB_add_u24 :: "(nat \<Rightarrow> bool) \<Rightarrow> nat \<Rightarrow> u32 \<Rightarrow> CBB \<Rightarrow> bool \<times> CBB" where
  "CBB_add_u24 os d v = cbb_add_u os d (ucast v) 3"

definition CBB_add_u32 :: "(nat \<Rightarrow> bool) \<Rightarrow> nat \<Rightarrow> u32 \<Rightarrow> CBB \<Rightarrow> bool \<times> CBB" where
  "CBB_add_u32 os d v = cbb_add_u os d (ucast v) 4"

definition CBB_add_u64 :: "(nat \<Rightarrow> bool) \<Rightarrow> nat \<Rightarrow> u64 \<Rightarrow> CBB \<Rightarrow> bool \<times> CBB" where
  "CBB_add_u64 os d v = cbb_add_u os d v 8"

definition CBB_add_u16le :: "(nat \<Rightarrow> bool) \<Rightarrow> nat \<Rightarrow> u16 \<Rightarrow> CBB \<Rightarrow> bool \<times> CBB" where
  "CBB_add_u16le os d v = CBB_add_u16 os d (CRYPTO_bswap2 v)"

definition CBB_add_u32le :: "(nat \<Rightarrow> bool) \<Rightarrow> nat \<Rightarrow> u32 \<Rightarrow> CBB \<Rightarrow> bool \<times> CBB" where
  "CBB_add_u32le os d v = CBB_add_u32 os d (CRYPTO_bswap4 v)"

definition CBB_add_u64le :: "(nat \<Rightarrow> bool) \<Rightarrow> nat \<Rightarrow> u64 \<Rightarrow> CBB \<Rightarrow> bool \<times> CBB" where
  "CBB_add_u64le os d v = CBB_add_u64 os d (CRYPTO_bswap8 v)"

definition CBB_add_bytes :: "(nat \<Rightarrow> bool) \<Rightarrow> nat \<Rightarrow> u8 list \<Rightarrow> CBB \<Rightarrow> bool \<times> CBB" where
  "CBB_add_bytes os d data cbb =
     cbb_seq (CBB_flush os d cbb) (on_base (\<lambda>b. cbb_buffer_add os b data))"

text \<open>
  \<open>CBB_add_space\<close> returns a pointer the caller fills with \<open>ws\<close>. \<open>CBB_reserve\<close> returns room
  for \<open>n\<close> bytes without adding them; the caller writes \<open>ws\<close> there and \<open>CBB_did_write\<close>
  commits its \<open>length ws\<close> bytes.
\<close>

definition CBB_add_space :: "(nat \<Rightarrow> bool) \<Rightarrow> nat \<Rightarrow> u8 list \<Rightarrow> CBB \<Rightarrow> bool \<times> CBB" where
  "CBB_add_space os d ws cbb =
     cbb_seq (CBB_flush os d cbb) (on_base (\<lambda>b. cbb_buffer_add os b ws))"

definition CBB_reserve :: "(nat \<Rightarrow> bool) \<Rightarrow> nat \<Rightarrow> nat \<Rightarrow> CBB \<Rightarrow> bool \<times> CBB" where
  "CBB_reserve os d n cbb =
     cbb_seq (CBB_flush os d cbb) (on_base (\<lambda>b. cbb_buffer_reserve os b n))"

definition CBB_did_write :: "nat \<Rightarrow> u8 list \<Rightarrow> CBB \<Rightarrow> bool \<times> CBB" where
  "CBB_did_write d ws cbb =
     on_base (\<lambda>b. let newlen = sz (bb_len b + length ws)
                  in if length (cbb_kids cbb) \<noteq> d \<or> newlen < bb_len b \<or> newlen > bb_cap b
                     then (False, b) else (True, b\<lparr>bb_buf := bb_buf b @ ws\<rparr>)) cbb"

section \<open>Children\<close>

definition push_child :: "nat \<Rightarrow> nat \<Rightarrow> nat \<Rightarrow> bool \<Rightarrow> CBB \<Rightarrow> CBB" where
  "push_child d off n is_asn1 cbb =
     cbb\<lparr>cbb_kids := take d (cbb_kids cbb) @
          [\<lparr>cc_offset = off, cc_pending_len_len = n, cc_pending_is_asn1 = is_asn1\<rparr>]\<rparr>"

definition base_len :: "CBB \<Rightarrow> nat" where
  "base_len cbb = (case cbb_base cbb of None \<Rightarrow> 0 | Some b \<Rightarrow> bb_len b)"

text \<open>A successful call makes depth \<open>Suc d\<close> the handle of the new child.\<close>

definition cbb_add_length_prefixed :: "(nat \<Rightarrow> bool) \<Rightarrow> nat \<Rightarrow> nat \<Rightarrow> CBB \<Rightarrow> bool \<times> CBB" where
  "cbb_add_length_prefixed os d len_len cbb =
     cbb_seq (CBB_flush os d cbb) (\<lambda>cbb.
       let offset = base_len cbb
       in cbb_seq (on_base (\<lambda>b. cbb_buffer_add os b (replicate len_len 0)) cbb)
            (\<lambda>cbb. (True, push_child d offset len_len False cbb)))"

definition CBB_add_u8_length_prefixed :: "(nat \<Rightarrow> bool) \<Rightarrow> nat \<Rightarrow> CBB \<Rightarrow> bool \<times> CBB" where
  "CBB_add_u8_length_prefixed os d = cbb_add_length_prefixed os d 1"

definition CBB_add_u16_length_prefixed :: "(nat \<Rightarrow> bool) \<Rightarrow> nat \<Rightarrow> CBB \<Rightarrow> bool \<times> CBB" where
  "CBB_add_u16_length_prefixed os d = cbb_add_length_prefixed os d 2"

definition CBB_add_u24_length_prefixed :: "(nat \<Rightarrow> bool) \<Rightarrow> nat \<Rightarrow> CBB \<Rightarrow> bool \<times> CBB" where
  "CBB_add_u24_length_prefixed os d = cbb_add_length_prefixed os d 3"

function base128_len :: "u64 \<Rightarrow> nat" where
  "base128_len copy = (if copy = 0 then 0 else Suc (base128_len (drop_bit 7 copy)))"
  by pat_completeness auto
termination
proof (relation "measure unat")
  fix copy :: u64
  assume "copy \<noteq> 0"
  then have "unat copy div 2 ^ 7 < unat copy"
    by (intro div_less_dividend) (simp_all add: unat_gt_0)
  then show "(drop_bit 7 copy, copy) \<in> measure unat"
    by (simp add: unat_drop_bit_div)
qed simp

declare base128_len.simps [simp del]

text \<open>
  The octet of index \<open>i\<close>, counted from the last one, with the continuation bit on all but
  that one; in the loop \<open>Suc i\<close> octets are still to be written.
\<close>

definition base128_octet :: "u64 \<Rightarrow> nat \<Rightarrow> u8" where
  "base128_octet v i =
     (let byte = ucast (drop_bit (7 * i) v AND 0x7f) :: u8
      in if i \<noteq> 0 then byte OR 0x80 else byte)"

fun add_base128_loop :: "(nat \<Rightarrow> bool) \<Rightarrow> nat \<Rightarrow> u64 \<Rightarrow> nat \<Rightarrow> CBB \<Rightarrow> bool \<times> CBB" where
  "add_base128_loop os d v 0 cbb = (True, cbb)"
| "add_base128_loop os d v (Suc i) cbb =
     cbb_seq (CBB_add_u8 os d (base128_octet v i) cbb) (add_base128_loop os d v i)"

definition add_base128_integer :: "(nat \<Rightarrow> bool) \<Rightarrow> nat \<Rightarrow> u64 \<Rightarrow> CBB \<Rightarrow> bool \<times> CBB" where
  "add_base128_integer os d v cbb =
     (let len_len = base128_len v;
          len_len = (if len_len = 0 then 1 else len_len)
      in add_base128_loop os d v len_len cbb)"

definition CBB_add_asn1 :: "(nat \<Rightarrow> bool) \<Rightarrow> nat \<Rightarrow> u32 \<Rightarrow> CBB \<Rightarrow> bool \<times> CBB" where
  "CBB_add_asn1 os d tag cbb =
     cbb_seq (CBB_flush os d cbb) (\<lambda>cbb.
       let tag_bits = ucast (drop_bit CBS_ASN1_TAG_SHIFT tag AND 0xe0) :: u8;
           tag_number = tag AND CBS_ASN1_TAG_NUMBER_MASK
       in cbb_seq
            (if tag_number \<ge> 0x1f
             then cbb_seq (CBB_add_u8 os d (tag_bits OR 0x1f) cbb)
                    (add_base128_integer os d (ucast tag_number))
             else CBB_add_u8 os d (tag_bits OR ucast tag_number) cbb)
            (\<lambda>cbb.
              let offset = base_len cbb
              in cbb_seq (CBB_add_u8 os d 0 cbb)
                   (\<lambda>cbb. (True, push_child d offset 1 True cbb))))"

definition CBB_discard_child :: "nat \<Rightarrow> CBB \<Rightarrow> CBB" where
  "CBB_discard_child d cbb =
     (if length (cbb_kids cbb) \<le> d then cbb
      else cbb\<lparr>cbb_base := map_option (\<lambda>b. b\<lparr>bb_buf := take (cc_offset (cbb_kids cbb ! d)) (bb_buf b)\<rparr>) (cbb_base cbb),
               cbb_kids := take d (cbb_kids cbb)\<rparr>)"

section \<open>Reading back and finishing\<close>

definition cbb_start :: "nat \<Rightarrow> CBB \<Rightarrow> nat" where
  "cbb_start d cbb =
     (if d = 0 then 0
      else cc_offset (cbb_kids cbb ! (d - 1)) + cc_pending_len_len (cbb_kids cbb ! (d - 1)))"

definition CBB_data :: "nat \<Rightarrow> CBB \<Rightarrow> u8 list" where
  "CBB_data d cbb = (case cbb_base cbb of None \<Rightarrow> [] | Some b \<Rightarrow> drop (cbb_start d cbb) (bb_buf b))"

definition CBB_len :: "nat \<Rightarrow> CBB \<Rightarrow> nat" where
  "CBB_len d cbb = base_len cbb - cbb_start d cbb"

text \<open>
  \<open>want\<close> is whether both out-pointers are given: a resizable buffer must be handed to the
  caller. The value is the finished buffer.
\<close>

definition CBB_finish :: "(nat \<Rightarrow> bool) \<Rightarrow> nat \<Rightarrow> bool \<Rightarrow> CBB \<Rightarrow> u8 list option \<times> CBB" where
  "CBB_finish os d want cbb =
     (if d \<noteq> 0 then (None, cbb)
      else case CBB_flush os d cbb of
             (False, cbb) \<Rightarrow> (None, cbb)
           | (True, cbb) \<Rightarrow>
               (case cbb_base cbb of
                  None \<Rightarrow> (None, cbb)
                | Some b \<Rightarrow>
                    if bb_can_resize b \<and> \<not> want then (None, cbb)
                    else (Some (bb_buf b), CBB_cleanup d cbb)))"

text \<open>\<open>CBB_finish_i2d\<close> (\<open>asn1_compat.c\<close>): the length returned, or \<open>-1\<close>, and the bytes written.\<close>

definition CBB_finish_i2d :: "(nat \<Rightarrow> bool) \<Rightarrow> CBB \<Rightarrow> int \<times> u8 list \<times> CBB" where
  "CBB_finish_i2d os cbb =
     (case CBB_finish os 0 True cbb of
        (None, cbb) \<Rightarrow> (-1, [], CBB_cleanup 0 cbb)
      | (Some der, cbb) \<Rightarrow>
          if length der > 2 ^ 31 - 1 then (-1, [], cbb) else (int (length der), der, cbb))"

end
