(* ===== verification/CbbSpec.thy ===== *)
theory CbbSpec
  imports Cbb
begin

text \<open>
  What the writer of \<open>cbb.c\<close> promises: each operation appends the specified bytes to the
  buffer, flushing a child replaces its placeholder by the length of what was written since,
  and a nested structure written through children is the DER or length-prefixed encoding of
  that structure. The invariant \<open>cbb_ok\<close> says when a handle may be written to.
\<close>

section \<open>The buffer invariant\<close>

definition bb_wf :: "cbb_buffer \<Rightarrow> bool" where
  "bb_wf b \<longleftrightarrow> bb_len b \<le> bb_cap b \<and> bb_cap b < 2 ^ 64 \<and> \<not> bb_error b"

definition cbb_ok :: "nat \<Rightarrow> CBB \<Rightarrow> cbb_buffer \<Rightarrow> bool" where
  "cbb_ok d cbb b \<longleftrightarrow> cbb_base cbb = Some b \<and> bb_wf b \<and> length (cbb_kids cbb) = d"

text \<open>Allocation never fails and the buffer may grow: the case in which every write succeeds.\<close>

definition roomy :: "(nat \<Rightarrow> bool) \<Rightarrow> cbb_buffer \<Rightarrow> nat \<Rightarrow> bool" where
  "roomy os b n \<longleftrightarrow> (\<forall>m. os m) \<and> bb_can_resize b \<and> bb_len b + n < 2 ^ 64"

lemma cbb_buffer_reserve_cases:
  assumes "bb_wf b" "n < 2 ^ 64" "cbb_buffer_reserve os b n = (ok, b')"
  shows "bb_buf b' = bb_buf b \<and> bb_can_resize b' = bb_can_resize b
    \<and> (if ok then bb_wf b' \<and> bb_len b + n \<le> bb_cap b' else bb_error b')"
proof (cases "bb_len b + n < 2 ^ 64")
  case True
  then show ?thesis
    using assms sz_less [of "bb_cap b * 2"]
    by (auto simp: cbb_buffer_reserve_def bb_wf_def bb_fail_def Let_def split: if_splits)
next
  case False
  have "sz (bb_len b + n) < bb_len b"
    using assms(1,2) False sz_add_overflow [of "bb_len b" n] by (simp add: bb_wf_def)
  then show ?thesis
    using assms by (auto simp: cbb_buffer_reserve_def bb_fail_def)
qed

lemma cbb_buffer_add_cases:
  assumes "bb_wf b" "length ws < 2 ^ 64" "cbb_buffer_add os b ws = (ok, b')"
  shows "bb_can_resize b' = bb_can_resize b
    \<and> (if ok then bb_wf b' \<and> bb_buf b' = bb_buf b @ ws else bb_error b' \<and> bb_buf b' = bb_buf b)"
proof -
  obtain ok1 b1 where r: "cbb_buffer_reserve os b (length ws) = (ok1, b1)" by fastforce
  show ?thesis
    using cbb_buffer_reserve_cases [OF assms(1,2) r] assms(3) r
    by (auto simp: cbb_buffer_add_def bb_wf_def split: bool.splits)
qed

lemma cbb_buffer_add_succeeds:
  assumes "bb_wf b" "roomy os b (length ws)"
  shows "fst (cbb_buffer_add os b ws)"
  using assms
  by (auto simp: cbb_buffer_add_def cbb_buffer_reserve_def roomy_def bb_wf_def Let_def
      OPENSSL_malloc_def split: bool.splits)

lemma put_u_eq: "put_u n v = (be_bytes n (unat v), of_nat (unat v div 256 ^ n))"
proof (induction n arbitrary: v)
  case (Suc n)
  have "unat (drop_bit 8 v) = unat v div 256"
    by (simp add: unat_drop_bit_div)
  moreover have "(of_nat (unat v) :: u8) = ucast v"
    by simp
  ultimately show ?case
    by (simp add: Suc be_bytes_Suc div_mult2_eq)
qed simp

lemma put_u_of_nat:
  assumes "v < 2 ^ 64"
  shows "put_u n (of_nat v) = (be_bytes n v, of_nat (v div 256 ^ n))"
  using assms by (simp add: put_u_eq unat_of_nat_u64_id)

lemma div_256_zero_iff:
  assumes "v < 2 ^ 64"
  shows "of_nat (v div 256 ^ n) = (0 :: u64) \<longleftrightarrow> v < 256 ^ n"
proof -
  have "v div 256 ^ n < 2 ^ 64" using assms by (meson div_le_dividend le_less_trans)
  then show ?thesis
    by (simp add: word_unat_eq_iff unat_of_nat_u64_id div_eq_0_iff)
qed

section \<open>Flushing one child\<close>

lemma asn1_len_len_spec:
  assumes "n \<le> 0xfffffffe"
  shows "der_length n = snd (asn1_len_len n) # be_bytes (fst (asn1_len_len n) - 1) n"
    and "n \<le> 127 \<Longrightarrow> asn1_len_len n = (1, of_nat n)"
    and "n > 127 \<Longrightarrow> fst (asn1_len_len n) = Suc (len_octets n)"
  using assms by (auto simp: asn1_len_len_def der_length_def len_octets_def)

lemma store_at_append: "length p = i \<Longrightarrow> length q = length bs \<Longrightarrow> store_at (p @ q @ r) i bs = p @ bs @ r"
  by (simp add: store_at_def)

lemma memmove_make_room:
  assumes "length p = off + 1" "length z = extra"
  shows "\<exists>q. length q = extra \<and> memmove (p @ body @ z) (off + 1 + extra) (off + 1) (length body) = p @ q @ body"
  using assms
  by (intro exI [of _ "take extra (body @ z)"]) (simp add: memmove_def)

lemma flush_child_prefixed:
  assumes "bb_wf b" "bb_buf b = pre @ ph @ body" "length pre = cc_offset c"
    and "length ph = cc_pending_len_len c" "\<not> cc_pending_is_asn1 c"
  shows "flush_child os b c =
    (if length body < 256 ^ cc_pending_len_len c
     then (True, b\<lparr>bb_buf := pre @ be_bytes (cc_pending_len_len c) (length body) @ body\<rparr>)
     else bb_fail (b\<lparr>bb_buf := pre @ be_bytes (cc_pending_len_len c) (length body) @ body\<rparr>))"
proof -
  have "length (pre @ ph @ body) < 2 ^ 64"
    using assms(1,2) by (simp add: bb_wf_def)
  then have lt: "cc_offset c + cc_pending_len_len c < 2 ^ 64" "length body < 2 ^ 64"
    using assms(3,4) by simp_all
  show ?thesis
    using assms lt
    by (simp add: flush_child_def put_u_of_nat div_256_zero_iff store_at_append Let_def)
qed

lemma flush_child_asn1:
  assumes "bb_wf b" "bb_buf b = pre @ ph # body" "length pre = cc_offset c"
    and "cc_pending_len_len c = 1" "cc_pending_is_asn1 c" "flush_child os b c = (ok, b')"
  shows "bb_can_resize b' = bb_can_resize b
    \<and> (if ok then length body \<le> 0xfffffffe \<and> bb_wf b' \<and> bb_buf b' = pre @ der_length (length body) @ body
       else bb_error b')"
    and "length body \<le> 0xfffffffe \<Longrightarrow> roomy os b 4 \<Longrightarrow> ok"
proof -
  have "length (pre @ ph # body) < 2 ^ 64"
    using assms(1,2) by (simp add: bb_wf_def)
  then have lt: "cc_offset c + 1 < 2 ^ 64" "length body < 2 ^ 64"
    using assms(3) by simp_all
  define k where "k = fst (asn1_len_len (length body))"
  define ini where "ini = snd (asn1_len_len (length body))"
  have ll: "asn1_len_len (length body) = (k, ini)" by (simp add: k_def ini_def)
  have goal: "(bb_can_resize b' = bb_can_resize b
      \<and> (if ok then length body \<le> 0xfffffffe \<and> bb_wf b' \<and> bb_buf b' = pre @ der_length (length body) @ body
         else bb_error b'))
    \<and> (length body \<le> 0xfffffffe \<longrightarrow> roomy os b 4 \<longrightarrow> ok)"
  proof (cases "length body > 0xfffffffe")
    case True
    with assms lt show ?thesis
      by (auto simp: flush_child_def bb_fail_def Let_def)
  next
    case small: False
    show ?thesis
    proof (cases "length body \<le> 127")
      case True
      then have "flush_child os b c = (True, b\<lparr>bb_buf := pre @ of_nat (length body) # body\<rparr>)"
        using assms lt small
        by (simp add: flush_child_def asn1_len_len_spec(2) Let_def store_at_def list_update_append2)
      with True assms show ?thesis
        by (auto simp: der_length_def bb_wf_def)
    next
      case False
      have k: "k = Suc (len_octets (length body))"
        using asn1_len_len_spec(3) [of "length body"] small False by (simp add: k_def)
      have oct: "1 \<le> len_octets (length body)" "len_octets (length body) \<le> 4"
          "length body < 256 ^ len_octets (length body)"
        using len_octets_bounds [of "length body"] small by simp_all
      let ?z = "replicate (k - 1) (0 :: u8)"
      obtain ok1 b1 where add: "cbb_buffer_add os b ?z = (ok1, b1)" by fastforce
      have zlt: "length ?z < 2 ^ 64" using k oct by simp
      note c1 = cbb_buffer_add_cases [OF assms(1) zlt add]
      have suc: "roomy os b 4 \<Longrightarrow> ok1"
        using cbb_buffer_add_succeeds [OF assms(1), of os ?z] add k oct by (simp add: roomy_def)
      show ?thesis
      proof (cases ok1)
        case nok: False
        then have "flush_child os b c = bb_fail b1"
          using assms lt small add k oct by (simp add: flush_child_def ll Let_def)
        with assms c1 nok suc show ?thesis by (auto simp: bb_fail_def)
      next
        case True
        then have b1: "bb_wf b1" "bb_can_resize b1 = bb_can_resize b"
            "bb_buf b1 = (pre @ [ph]) @ body @ ?z"
          using c1 assms(2) by simp_all
        obtain q where q: "length q = k - 1"
          and mv: "memmove (bb_buf b1) (cc_offset c + 1 + (k - 1)) (cc_offset c + 1) (length body)
            = (pre @ [ph]) @ q @ body"
          using memmove_make_room [of "pre @ [ph]" "cc_offset c" ?z "k - 1" body] assms(3) b1 by auto
        have upd: "((pre @ [ph]) @ q @ body)[cc_offset c := ini] = (pre @ [ini]) @ q @ body"
          using assms(3) by (simp add: list_update_append2)
        have st: "store_at ((pre @ [ini]) @ q @ body) (cc_offset c + 1) (be_bytes (k - 1) (length body))
            = (pre @ [ini]) @ be_bytes (k - 1) (length body) @ body"
          using assms(3) q by (intro store_at_append) simp_all
        have der: "der_length (length body) = ini # be_bytes (k - 1) (length body)"
          using asn1_len_len_spec(1) [of "length body"] small by (simp add: k_def ini_def)
        have "flush_child os b c = (True, b1\<lparr>bb_buf := pre @ der_length (length body) @ body\<rparr>)"
          using assms lt small add k oct True mv upd st
          by (simp add: flush_child_def ll Let_def put_u_of_nat div_256_zero_iff der)
        moreover have "length (pre @ der_length (length body) @ body) = bb_len b1"
          using b1 q by (simp add: der)
        ultimately show ?thesis
          using assms b1 small by (auto simp: bb_wf_def)
      qed
    qed
  qed
  then show "bb_can_resize b' = bb_can_resize b
    \<and> (if ok then length body \<le> 0xfffffffe \<and> bb_wf b' \<and> bb_buf b' = pre @ der_length (length body) @ body
       else bb_error b')" by blast
  from goal show "length body \<le> 0xfffffffe \<Longrightarrow> roomy os b 4 \<Longrightarrow> ok" by blast
qed

section \<open>Operations on an idle handle\<close>

lemma CBB_flush_idle: "cbb_ok d cbb b \<Longrightarrow> CBB_flush os d cbb = (True, cbb)"
  by (simp add: CBB_flush_def cbb_ok_def bb_wf_def)

lemma CBB_flush_one:
  assumes "cbb_ok (Suc d) cbb b" "cbb_kids cbb = ks @ [c]" "cc_pending_len_len c \<noteq> 0"
  shows "CBB_flush os d cbb =
    (case flush_child os b c of
       (ok, b') \<Rightarrow> (ok, cbb\<lparr>cbb_base := Some b', cbb_kids := ks @ (if ok then [] else [c])\<rparr>))"
  using assms by (auto simp: CBB_flush_def cbb_ok_def bb_wf_def split: prod.splits bool.splits)

text \<open>
  \<open>writes os d f ws n\<close>: on an idle handle of depth \<open>d\<close> the operation \<open>f\<close>, when it
  succeeds, appends exactly \<open>ws\<close>, and with room for \<open>n\<close> more bytes it does succeed.
\<close>

definition writes :: "(nat \<Rightarrow> bool) \<Rightarrow> nat \<Rightarrow> (CBB \<Rightarrow> bool \<times> CBB) \<Rightarrow> u8 list \<Rightarrow> nat \<Rightarrow> bool" where
  "writes os d f ws n \<longleftrightarrow> length ws \<le> n \<and>
     (\<forall>cbb b. cbb_ok d cbb b \<longrightarrow>
        (fst (f cbb) \<longrightarrow>
           (\<exists>b'. cbb_ok d (snd (f cbb)) b' \<and> cbb_kids (snd (f cbb)) = cbb_kids cbb
              \<and> bb_buf b' = bb_buf b @ ws \<and> bb_can_resize b' = bb_can_resize b))
        \<and> (roomy os b n \<longrightarrow> fst (f cbb)))"

lemma writesD:
  assumes "writes os d f ws n" "cbb_ok d cbb b" "f cbb = (True, cbb')"
  obtains b' where "cbb_ok d cbb' b'" "cbb_kids cbb' = cbb_kids cbb" "bb_buf b' = bb_buf b @ ws"
    "bb_can_resize b' = bb_can_resize b"
  using assms unfolding writes_def by fastforce

lemma writes_succeeds: "writes os d f ws n \<Longrightarrow> cbb_ok d cbb b \<Longrightarrow> roomy os b n \<Longrightarrow> fst (f cbb)"
  by (simp add: writes_def)

lemma cbb_seq_True_iff:
  "cbb_seq r f = (True, cbb') \<longleftrightarrow> (\<exists>cbb. r = (True, cbb) \<and> f cbb = (True, cbb'))"
  by (auto simp: cbb_seq_def split: prod.splits bool.splits)

lemma writes_seq:
  assumes f: "writes os d f ws n" and g: "writes os d g vs m"
  shows "writes os d (\<lambda>cbb. cbb_seq (f cbb) g) (ws @ vs) (n + m)"
  unfolding writes_def
proof (intro conjI allI impI)
  show "length (ws @ vs) \<le> n + m"
    using f g by (simp add: writes_def)
next
  fix cbb b
  assume ok: "cbb_ok d cbb b" and succ: "fst (cbb_seq (f cbb) g)"
  obtain cbb1 where 1: "f cbb = (True, cbb1)"
    using succ by (cases "f cbb") (auto simp: cbb_seq_def split: bool.splits)
  obtain cbb2 where 2: "g cbb1 = (True, cbb2)"
    using succ 1 by (cases "g cbb1") (auto simp: cbb_seq_def)
  from writesD [OF f ok 1] obtain b1 where b1: "cbb_ok d cbb1 b1" "cbb_kids cbb1 = cbb_kids cbb"
    "bb_buf b1 = bb_buf b @ ws" "bb_can_resize b1 = bb_can_resize b" .
  from writesD [OF g b1(1) 2] obtain b2 where "cbb_ok d cbb2 b2" "cbb_kids cbb2 = cbb_kids cbb1"
    "bb_buf b2 = bb_buf b1 @ vs" "bb_can_resize b2 = bb_can_resize b1" .
  with b1 1 2
  show "\<exists>b'. cbb_ok d (snd (cbb_seq (f cbb) g)) b' \<and> cbb_kids (snd (cbb_seq (f cbb) g)) = cbb_kids cbb
      \<and> bb_buf b' = bb_buf b @ ws @ vs \<and> bb_can_resize b' = bb_can_resize b"
    by (intro exI [of _ b2]) (simp add: cbb_seq_def)
next
  fix cbb b
  assume ok: "cbb_ok d cbb b" and room: "roomy os b (n + m)"
  then have "fst (f cbb)"
    using f by (auto intro!: writes_succeeds simp: roomy_def)
  then obtain cbb1 where 1: "f cbb = (True, cbb1)" by (metis prod.collapse)
  from writesD [OF f ok 1] obtain b1 where b1: "cbb_ok d cbb1 b1"
    "bb_buf b1 = bb_buf b @ ws" "bb_can_resize b1 = bb_can_resize b" .
  have "roomy os b1 m"
    using room f b1 by (auto simp: roomy_def writes_def)
  then show "fst (cbb_seq (f cbb) g)"
    using writes_succeeds [OF g b1(1)] 1 by (simp add: cbb_seq_def)
qed

lemma writes_nothing: "writes os d (\<lambda>cbb. (True, cbb)) [] 0"
  by (auto simp: writes_def)

lemma writes_mono: "writes os d f ws n \<Longrightarrow> n \<le> m \<Longrightarrow> writes os d f ws m"
  by (auto simp: writes_def roomy_def)

lemma writes_base:
  assumes "length ws < 2 ^ 64"
  shows "writes os d (\<lambda>cbb. cbb_seq (CBB_flush os d cbb) (on_base (\<lambda>b. cbb_buffer_add os b ws))) ws (length ws)"
  unfolding writes_def
proof (intro conjI allI impI)
  fix cbb b
  assume ok: "cbb_ok d cbb b"
  obtain ok' b' where add: "cbb_buffer_add os b ws = (ok', b')" by fastforce
  have eq: "cbb_seq (CBB_flush os d cbb) (on_base (\<lambda>b. cbb_buffer_add os b ws))
      = (ok', cbb\<lparr>cbb_base := Some b'\<rparr>)"
    using ok add by (simp add: CBB_flush_idle cbb_seq_def on_base_def) (simp add: cbb_ok_def)
  have wf: "bb_wf b" using ok by (simp add: cbb_ok_def)
  note cases = cbb_buffer_add_cases [OF wf assms add]
  show "\<exists>b''. cbb_ok d (snd (cbb_seq (CBB_flush os d cbb) (on_base (\<lambda>b. cbb_buffer_add os b ws)))) b''
      \<and> cbb_kids (snd (cbb_seq (CBB_flush os d cbb) (on_base (\<lambda>b. cbb_buffer_add os b ws)))) = cbb_kids cbb
      \<and> bb_buf b'' = bb_buf b @ ws \<and> bb_can_resize b'' = bb_can_resize b"
    if "fst (cbb_seq (CBB_flush os d cbb) (on_base (\<lambda>b. cbb_buffer_add os b ws)))"
    using that cases ok by (simp add: eq cbb_ok_def)
  show "fst (cbb_seq (CBB_flush os d cbb) (on_base (\<lambda>b. cbb_buffer_add os b ws)))"
    if "roomy os b (length ws)"
    using cbb_buffer_add_succeeds [OF wf that] add by (simp add: eq)
qed simp

lemma writes_CBB_add_bytes: "length ws < 2 ^ 64 \<Longrightarrow> writes os d (CBB_add_bytes os d ws) ws (length ws)"
  using writes_base [of ws os d] by (simp add: CBB_add_bytes_def [abs_def])

lemma writes_CBB_add_space: "length ws < 2 ^ 64 \<Longrightarrow> writes os d (CBB_add_space os d ws) ws (length ws)"
  using writes_base [of ws os d] by (simp add: CBB_add_space_def [abs_def])

lemma cbb_buffer_add_u_fits:
  assumes "unat v < 256 ^ n" "n \<noteq> 0"
  shows "cbb_buffer_add_u os b v n = cbb_buffer_add os b (be_bytes n (unat v))"
  using assms
  by (auto simp: cbb_buffer_add_u_def put_u_eq split: prod.splits bool.splits)

lemma writes_cbb_add_u:
  assumes "unat v < 256 ^ n" "n \<noteq> 0" "n < 2 ^ 64"
  shows "writes os d (cbb_add_u os d v n) (be_bytes n (unat v)) n"
  using writes_base [of "be_bytes n (unat v)" os d] assms
  by (simp add: cbb_add_u_def [abs_def] cbb_buffer_add_u_fits)

lemma writes_CBB_add_u8: "writes os d (CBB_add_u8 os d v) [v] 1"
proof -
  have "unat (ucast v :: u64) = unat v" by (simp add: unat_ucast_up)
  then show ?thesis
    using writes_cbb_add_u [of "ucast v" 1 os d] by (simp add: CBB_add_u8_def [abs_def] be_bytes_Suc)
qed

end
