(* ===== verification/CbbTree.thy ===== *)
theory CbbTree
  imports CbbSpec
begin

text \<open>
  The protocol of \<open>cbb.c\<close> as a whole: a client opens children, writes into them and flushes
  the parent. \<open>item\<close> is the tree of such calls, \<open>emit\<close> the calls themselves and
  \<open>encode\<close> the bytes they stand for; the lemmas show that the writer produces exactly these
  bytes, and refuses exactly the trees that have no encoding.
\<close>

section \<open>Fixed-width integers\<close>

lemma unat_lt_256_pow:
  assumes "LENGTH('a) \<le> 8 * n"
  shows "unat (v :: 'a::len word) < 256 ^ n"
proof -
  have "unat v < 2 ^ LENGTH('a)" by (rule unsigned_less)
  also have "\<dots> \<le> 2 ^ (8 * n)" using assms by (rule power_increasing) simp
  finally show ?thesis by (simp add: power_mult)
qed

lemma writes_CBB_add_u16: "writes os d (CBB_add_u16 os d v) (be_bytes 2 (unat v)) 2"
  using writes_cbb_add_u [of "ucast v" 2 os d] unat_lt_256_pow [of 2 v]
  by (simp add: CBB_add_u16_def [abs_def] unat_ucast_up)

lemma writes_CBB_add_u24:
  "unat v < 2 ^ 24 \<Longrightarrow> writes os d (CBB_add_u24 os d v) (be_bytes 3 (unat v)) 3"
  using writes_cbb_add_u [of "ucast v" 3 os d]
  by (simp add: CBB_add_u24_def [abs_def] unat_ucast_up)

lemma writes_CBB_add_u32: "writes os d (CBB_add_u32 os d v) (be_bytes 4 (unat v)) 4"
  using writes_cbb_add_u [of "ucast v" 4 os d] unat_lt_256_pow [of 4 v]
  by (simp add: CBB_add_u32_def [abs_def] unat_ucast_up)

lemma writes_CBB_add_u64: "writes os d (CBB_add_u64 os d v) (be_bytes 8 (unat v)) 8"
  using writes_cbb_add_u [of v 8 os d] unat_lt_256_pow [of 8 v]
  by (simp add: CBB_add_u64_def [abs_def])

section \<open>Base-128 integers and identifier octets\<close>

text \<open>The octets the loop of \<open>add_base128_integer\<close> stores, most significant group first.\<close>

lemma unat_base128_octet:
  "unat (base128_octet v i) = unat v div 128 ^ i mod 128 + (if i \<noteq> 0 then 128 else 0)"
proof -
  define w where "w = drop_bit (7 * i) v AND 0x7f"
  have "unat w = unat (drop_bit (7 * i) v) mod 2 ^ 7"
    unfolding w_def by (rule unat_and_mask) (simp add: mask_eq_exp_minus_1)
  then have w: "unat w = unat v div 128 ^ i mod 128"
    by (simp add: unat_drop_bit_div power_mult)
  then have u: "unat (ucast w :: u8) = unat v div 128 ^ i mod 128"
    by (simp add: unat_ucast_u8)
  have "unat (push_bit 7 (1 :: u8) OR ucast w) = unat (1 :: u8) * 2 ^ 7 + unat (ucast w :: u8)"
    by (rule unat_push_or) (simp_all add: u)
  then have "unat (ucast w OR 0x80 :: u8) = unat v div 128 ^ i mod 128 + 128"
    by (simp add: u or.commute)
  with u show ?thesis
    unfolding base128_octet_def w_def [symmetric] by simp
qed

fun base128_octets :: "u64 \<Rightarrow> nat \<Rightarrow> u8 list" where
  "base128_octets v 0 = []"
| "base128_octets v (Suc i) = base128_octet v i # base128_octets v i"

lemma length_base128_octets [simp]: "length (base128_octets v k) = k"
  by (induction k) auto

lemma writes_add_base128_loop:
  "writes os d (add_base128_loop os d v k) (base128_octets v k) k"
proof (induction k)
  case 0
  have "add_base128_loop os d v 0 = (\<lambda>cbb. (True, cbb))" by (rule ext) simp
  then show ?case using writes_nothing by simp
next
  case (Suc k)
  have "add_base128_loop os d v (Suc k)
      = (\<lambda>cbb. cbb_seq (CBB_add_u8 os d (base128_octet v k) cbb) (add_base128_loop os d v k))"
    by (rule ext) simp
  then show ?case
    using writes_seq [OF writes_CBB_add_u8 Suc] by simp
qed

text \<open>All groups but the last carry the continuation bit: the octets above the last one.\<close>

lemma unat_drop_bit_7: "unat (drop_bit 7 v) = unat (v :: u64) div 128"
  using unat_drop_bit_div [of 7 v] by simp

lemma base128_octet_shift:
  "base128_octet v (Suc (Suc i)) = base128_octet (drop_bit 7 v) (Suc i)"
  by (rule iffD2 [OF word_unat_eq_iff])
    (simp only: unat_base128_octet unat_drop_bit_7 power_Suc div_mult2_eq nat.simps(3) not_False_eq_True)

lemma base128_octets_shift:
  "base128_octets v (Suc k) = map (\<lambda>i. base128_octet v (Suc i)) (rev [0..<k]) @ [base128_octet v 0]"
  by (induction k) (simp_all del: upt_Suc add: upt_Suc_append)

lemma hi_octets:
  "k = base128_len (drop_bit 7 v)
    \<Longrightarrow> map (\<lambda>i. base128_octet v (Suc i)) (rev [0..<k]) = base128_hi (unat v div 128)"
proof (induction k arbitrary: v)
  case 0
  then have "unat (drop_bit 7 v) = 0"
    by (simp add: base128_len.simps [of "drop_bit 7 v"] split: if_splits)
  then show ?case by (simp add: unat_drop_bit_7 base128_hi.simps)
next
  case (Suc k)
  have nz: "drop_bit 7 v \<noteq> 0" and k: "k = base128_len (drop_bit 7 (drop_bit 7 v))"
    using Suc.prems by (simp_all add: base128_len.simps [of "drop_bit 7 v"] split: if_splits)
  have "map (\<lambda>i. base128_octet v (Suc i)) (rev [0..<Suc k])
      = map (\<lambda>i. base128_octet v (Suc (Suc i))) (rev [0..<k]) @ [base128_octet v 1]"
    by (simp add: upt_conv_Cons map_Suc_upt [symmetric] rev_map comp_def del: upt_Suc)
  also have "\<dots> = base128_hi (unat v div 128 div 128) @ [base128_octet v 1]"
    using Suc.IH [OF k] by (simp only: base128_octet_shift unat_drop_bit_7)
  also have "base128_octet v 1 = of_nat (unat v div 128 mod 128 + 128)"
    using unat_base128_octet [of v 1] by (intro of_nat_unat_id [symmetric]) simp
  also have "base128_hi (unat v div 128 div 128) @ [of_nat (unat v div 128 mod 128 + 128)]
      = base128_hi (unat v div 128)"
  proof -
    have "unat v div 128 \<noteq> 0" using nz by (simp only: word_unat_eq_iff unat_drop_bit_7) simp
    then show ?thesis by (simp only: base128_hi.simps [of "unat v div 128"] if_False)
  qed
  finally show ?case .
qed

lemma base128_octets_der:
  "base128_octets v (if base128_len v = 0 then 1 else base128_len v) = der_base128 (unat v)"
proof -
  have len: "(if base128_len v = 0 then 1 else base128_len v) = Suc (base128_len (drop_bit 7 v))"
    by (cases "v = 0") (simp_all add: base128_len.simps [of v] base128_len.simps [of 0])
  have "base128_octet v 0 = of_nat (unat v mod 128)"
    using unat_base128_octet [of v 0] by (intro of_nat_unat_id [symmetric]) simp
  then show ?thesis
    unfolding len base128_octets_shift by (simp only: hi_octets [OF refl] der_base128_def)
qed

lemma writes_add_base128_integer:
  "writes os d (add_base128_integer os d v) (der_base128 (unat v)) (length (der_base128 (unat v)))"
proof -
  define k where "k = (if base128_len v = 0 then 1 else base128_len v)"
  have o: "base128_octets v k = der_base128 (unat v)"
    unfolding k_def by (rule base128_octets_der)
  then have "length (der_base128 (unat v)) = k"
    by (metis length_base128_octets)
  moreover have "add_base128_integer os d v = add_base128_loop os d v k"
    by (rule ext) (simp add: add_base128_integer_def k_def)
  ultimately show ?thesis
    using writes_add_base128_loop [of os d v k] by (simp only: o)
qed

text \<open>The identifier octets \<open>CBB_add_asn1\<close> writes before it opens the child.\<close>

definition add_tag :: "(nat \<Rightarrow> bool) \<Rightarrow> nat \<Rightarrow> u32 \<Rightarrow> CBB \<Rightarrow> bool \<times> CBB" where
  "add_tag os d tag cbb =
     (let tag_bits = ucast (drop_bit CBS_ASN1_TAG_SHIFT tag AND 0xe0) :: u8;
          tag_number = tag AND CBS_ASN1_TAG_NUMBER_MASK
      in if tag_number \<ge> 0x1f
         then cbb_seq (CBB_add_u8 os d (tag_bits OR 0x1f) cbb)
                (add_base128_integer os d (ucast tag_number))
         else CBB_add_u8 os d (tag_bits OR ucast tag_number) cbb)"

lemma CBB_add_asn1_alt:
  "CBB_add_asn1 os d tag cbb =
     cbb_seq (CBB_flush os d cbb) (\<lambda>cbb. cbb_seq (add_tag os d tag cbb) (\<lambda>cbb.
       cbb_seq (CBB_add_u8 os d 0 cbb) (\<lambda>cbb'. (True, push_child d (base_len cbb) 1 True cbb'))))"
  by (simp add: CBB_add_asn1_def add_tag_def Let_def)

lemma tag_number_mask: "unat (tag AND CBS_ASN1_TAG_NUMBER_MASK) = tag_num tag"
  using unat_and_mask [of "0x1fffffff" 29 tag]
  by (simp add: mask_eq_exp_minus_1 CBS_ASN1_TAG_NUMBER_MASK_def tag_num_def)

lemma tag_bits_octet:
  assumes "unat x < 32"
  shows "(ucast (drop_bit 24 (tag :: u32) AND 0xe0) :: u8) OR x = of_nat (tag_class tag * 32 + unat x)"
proof -
  have e0: "(0xe0 :: u32) = push_bit 5 (mask 3)"
    by (simp add: mask_eq_exp_minus_1)
  have "(ucast (drop_bit 24 tag AND 0xe0) :: u8) = push_bit 5 (ucast (drop_bit 29 tag))"
    unfolding e0 by (rule bit_word_eqI) (auto simp: bit_simps dest: bit_imp_le_length)
  moreover have u: "unat (ucast (drop_bit 29 tag) :: u8) = tag_class tag"
    using tag_class_less [of tag] by (simp add: unat_ucast_u8 unat_drop_bit_div tag_class_def)
  moreover have "unat (push_bit 5 (ucast (drop_bit 29 tag) :: u8) OR x)
      = unat (ucast (drop_bit 29 tag) :: u8) * 2 ^ 5 + unat x"
    using assms tag_class_less [of tag] by (intro unat_push_or) (simp_all add: u)
  ultimately show ?thesis
    by (intro of_nat_unat_id [symmetric]) simp
qed

lemma writes_add_tag: "writes os d (add_tag os d tag) (der_tag tag) (length (der_tag tag))"
proof -
  let ?n = "tag AND CBS_ASN1_TAG_NUMBER_MASK"
  have big: "?n \<ge> 0x1f \<longleftrightarrow> \<not> tag_num tag < 31"
    using tag_number_mask [of tag] by (simp add: word_le_nat_alt not_less)
  show ?thesis
  proof (cases "tag_num tag < 31")
    case True
    then have "unat (ucast ?n :: u8) = tag_num tag"
      by (simp add: unat_ucast_u8 tag_number_mask)
    then have "add_tag os d tag = CBB_add_u8 os d (of_nat (tag_class tag * 32 + tag_num tag))"
      using True tag_bits_octet [of "ucast ?n" tag] big
      by (intro ext) (simp add: add_tag_def Let_def CBS_ASN1_TAG_SHIFT_def del: of_nat_add)
    then show ?thesis
      using True writes_CBB_add_u8 [of os d "of_nat (tag_class tag * 32 + tag_num tag)"]
      by (simp add: der_tag_def)
  next
    case False
    have u: "unat (ucast ?n :: u64) = tag_num tag"
      by (simp add: unat_ucast_up tag_number_mask)
    have "add_tag os d tag = (\<lambda>cbb. cbb_seq (CBB_add_u8 os d (of_nat (tag_class tag * 32 + 31)) cbb)
        (add_base128_integer os d (ucast ?n)))"
      using False tag_bits_octet [of "0x1f" tag] big
      by (intro ext) (simp add: add_tag_def Let_def CBS_ASN1_TAG_SHIFT_def del: of_nat_add)
    then show ?thesis
      using False writes_seq [OF writes_CBB_add_u8 writes_add_base128_integer,
          of os d "of_nat (tag_class tag * 32 + 31)" "ucast ?n"] u
      by (simp add: der_tag_def)
  qed
qed

section \<open>Opening and closing a child\<close>

text \<open>
  The prefix a closed child gets for \<open>n\<close> bytes of contents, \<open>None\<close> when its length does
  not fit the octets reserved for it.
\<close>

definition closed_prefix :: "bool \<Rightarrow> nat \<Rightarrow> nat \<Rightarrow> u8 list option" where
  "closed_prefix is_asn1 k n =
     (if is_asn1 then (if n \<le> 0xfffffffe then Some (der_length n) else None)
      else if n < 256 ^ k then Some (be_bytes k n) else None)"

lemma flush_child_spec:
  assumes wf: "bb_wf b" and buf: "bb_buf b = pre @ ph @ body"
    and c: "c = \<lparr>cc_offset = length pre, cc_pending_len_len = length ph, cc_pending_is_asn1 = is\<rparr>"
    and one: "is \<Longrightarrow> length ph = 1" and f: "flush_child os b c = (ok, b')"
  shows "ok \<Longrightarrow> \<exists>l. closed_prefix is (length ph) (length body) = Some l \<and> bb_wf b'
      \<and> bb_buf b' = pre @ l @ body \<and> bb_can_resize b' = bb_can_resize b"
    and "closed_prefix is (length ph) (length body) \<noteq> None \<Longrightarrow> roomy os b 4 \<Longrightarrow> ok"
proof -
  have "(ok \<longrightarrow> (\<exists>l. closed_prefix is (length ph) (length body) = Some l \<and> bb_wf b'
      \<and> bb_buf b' = pre @ l @ body \<and> bb_can_resize b' = bb_can_resize b))
    \<and> (closed_prefix is (length ph) (length body) \<noteq> None \<longrightarrow> roomy os b 4 \<longrightarrow> ok)"
  proof (cases "is")
    case True
    then obtain p where "ph = [p]" using one by (auto simp: length_Suc_conv)
    with True c buf have "bb_buf b = pre @ p # body" "length pre = cc_offset c"
      "cc_pending_len_len c = 1" "cc_pending_is_asn1 c" by simp_all
    from flush_child_asn1 [OF wf this f] True show ?thesis
      by (auto simp: closed_prefix_def split: if_splits)
  next
    case False
    then have "length pre = cc_offset c" "length ph = cc_pending_len_len c" "\<not> cc_pending_is_asn1 c"
      using c by simp_all
    from flush_child_prefixed [OF wf buf this, of os] f False c buf wf show ?thesis
      by (auto simp: closed_prefix_def bb_fail_def bb_wf_def split: if_splits)
  qed
  then show "ok \<Longrightarrow> \<exists>l. closed_prefix is (length ph) (length body) = Some l \<and> bb_wf b'
      \<and> bb_buf b' = pre @ l @ body \<and> bb_can_resize b' = bb_can_resize b"
    and "closed_prefix is (length ph) (length body) \<noteq> None \<Longrightarrow> roomy os b 4 \<Longrightarrow> ok" by blast+
qed

text \<open>
  \<open>opens os d f pre k is\<close>: on an idle handle of depth \<open>d\<close> the operation \<open>f\<close> appends
  \<open>pre\<close> and \<open>k\<close> placeholder octets and leaves their child as the handle of depth \<open>Suc d\<close>.
\<close>

definition opens :: "(nat \<Rightarrow> bool) \<Rightarrow> nat \<Rightarrow> (CBB \<Rightarrow> bool \<times> CBB) \<Rightarrow> u8 list \<Rightarrow> nat \<Rightarrow> bool \<Rightarrow> bool" where
  "opens os d f pre k is \<longleftrightarrow>
     (\<forall>cbb b. cbb_ok d cbb b \<longrightarrow>
        (fst (f cbb) \<longrightarrow>
           (\<exists>b' ph. cbb_ok (Suc d) (snd (f cbb)) b' \<and> length ph = k
              \<and> cbb_kids (snd (f cbb)) = cbb_kids cbb @
                  [\<lparr>cc_offset = bb_len b + length pre, cc_pending_len_len = k, cc_pending_is_asn1 = is\<rparr>]
              \<and> bb_buf b' = bb_buf b @ pre @ ph \<and> bb_can_resize b' = bb_can_resize b))
        \<and> (roomy os b (length pre + k) \<longrightarrow> fst (f cbb)))"

text \<open>The two openers share their last step, the registration of the child.\<close>

lemma opens_push_child:
  assumes w: "writes os d f (pre @ ph) n" and n: "n = length pre + length ph"
    and off: "\<And>cbb b. cbb_ok d cbb b \<Longrightarrow> off cbb = bb_len b + length pre"
    and eq: "\<And>cbb b. cbb_ok d cbb b \<Longrightarrow>
      g cbb = cbb_seq (f cbb) (\<lambda>cbb'. (True, push_child d (off cbb) (length ph) is cbb'))"
  shows "opens os d g pre (length ph) is"
  unfolding opens_def
proof (intro allI impI conjI)
  fix cbb b
  assume ok: "cbb_ok d cbb b" and succ: "fst (g cbb)"
  obtain cbb1 where 1: "f cbb = (True, cbb1)"
    using succ eq [OF ok] by (cases "f cbb") (auto simp: cbb_seq_def split: bool.splits)
  from writesD [OF w ok 1] obtain b1 where "cbb_ok d cbb1 b1" "cbb_kids cbb1 = cbb_kids cbb"
    "bb_buf b1 = bb_buf b @ pre @ ph" "bb_can_resize b1 = bb_can_resize b" .
  then show "\<exists>b' ph'. cbb_ok (Suc d) (snd (g cbb)) b' \<and> length ph' = length ph
      \<and> cbb_kids (snd (g cbb)) = cbb_kids cbb @
          [\<lparr>cc_offset = bb_len b + length pre, cc_pending_len_len = length ph, cc_pending_is_asn1 = is\<rparr>]
      \<and> bb_buf b' = bb_buf b @ pre @ ph' \<and> bb_can_resize b' = bb_can_resize b"
    using eq [OF ok] 1 off [OF ok] ok
    by (intro exI [of _ b1] exI [of _ ph]) (auto simp: cbb_seq_def push_child_def cbb_ok_def)
next
  fix cbb b
  assume ok: "cbb_ok d cbb b" and "roomy os b (length pre + length ph)"
  then have "fst (f cbb)" using writes_succeeds [OF w ok] n by simp
  then show "fst (g cbb)" using eq [OF ok] by (auto simp: cbb_seq_def split: prod.splits)
qed

lemma base_len_ok: "cbb_ok d cbb b \<Longrightarrow> base_len cbb = bb_len b"
  by (simp add: base_len_def cbb_ok_def)

lemma opens_add_length_prefixed:
  assumes "k < 2 ^ 64"
  shows "opens os d (cbb_add_length_prefixed os d k) [] k False"
proof -
  have "opens os d (cbb_add_length_prefixed os d k) [] (length (replicate k (0 :: u8))) False"
  proof (rule opens_push_child)
    show "writes os d (\<lambda>cbb. cbb_seq (CBB_flush os d cbb) (on_base (\<lambda>b. cbb_buffer_add os b (replicate k 0))))
        ([] @ replicate k 0) (length (replicate k (0 :: u8)))"
      using writes_base [of "replicate k 0" os d] assms by simp
  next
    fix cbb b assume "cbb_ok d cbb b"
    then show "cbb_add_length_prefixed os d k cbb =
        cbb_seq (cbb_seq (CBB_flush os d cbb) (on_base (\<lambda>b. cbb_buffer_add os b (replicate k 0))))
          (\<lambda>cbb'. (True, push_child d (base_len cbb) (length (replicate k (0 :: u8))) False cbb'))"
      by (simp add: cbb_add_length_prefixed_def CBB_flush_idle cbb_seq_def)
  qed (simp_all add: base_len_ok)
  then show ?thesis by simp
qed

lemma opens_CBB_add_asn1: "opens os d (CBB_add_asn1 os d tag) (der_tag tag) 1 True"
proof -
  have "opens os d (CBB_add_asn1 os d tag) (der_tag tag) (length [0 :: u8]) True"
  proof (rule opens_push_child)
    show "writes os d (\<lambda>cbb. cbb_seq (add_tag os d tag cbb) (CBB_add_u8 os d 0))
        (der_tag tag @ [0]) (length (der_tag tag) + 1)"
      by (rule writes_seq [OF writes_add_tag writes_CBB_add_u8])
  next
    fix cbb b assume ok: "cbb_ok d cbb b"
    show "CBB_add_asn1 os d tag cbb =
        cbb_seq (cbb_seq (add_tag os d tag cbb) (CBB_add_u8 os d 0))
          (\<lambda>cbb'. (True, push_child d (base_len cbb + length (der_tag tag)) (length [0 :: u8]) True cbb'))"
    proof (cases "add_tag os d tag cbb")
      case (Pair ok1 cbb1)
      show ?thesis
      proof (cases ok1)
        case True
        with Pair have "add_tag os d tag cbb = (True, cbb1)" by simp
        from writesD [OF writes_add_tag ok this] obtain b1 where "cbb_ok d cbb1 b1"
          "bb_buf b1 = bb_buf b @ der_tag tag" .
        then have "base_len cbb1 = base_len cbb + length (der_tag tag)"
          using ok by (simp add: base_len_ok)
        with Pair True ok show ?thesis
          by (auto simp: CBB_add_asn1_alt CBB_flush_idle cbb_seq_def split: prod.splits bool.splits)
      next
        case False
        with Pair ok show ?thesis
          by (simp add: CBB_add_asn1_alt CBB_flush_idle cbb_seq_def)
      qed
    qed
  qed (simp_all add: base_len_ok)
  then show ?thesis by simp
qed

text \<open>The outcome of an operation: it writes \<open>ws\<close>, or there is nothing it could write.\<close>

definition outcome :: "(nat \<Rightarrow> bool) \<Rightarrow> nat \<Rightarrow> (CBB \<Rightarrow> bool \<times> CBB) \<Rightarrow> u8 list option \<Rightarrow> nat \<Rightarrow> bool" where
  "outcome os d f r n =
     (case r of
        Some ws \<Rightarrow> writes os d f ws n
      | None \<Rightarrow> (\<forall>cbb b. cbb_ok d cbb b \<longrightarrow> \<not> fst (f cbb)))"

lemma outcome_seq:
  assumes f: "outcome os d f r n" and g: "outcome os d g s m"
  shows "outcome os d (\<lambda>cbb. cbb_seq (f cbb) g)
    (case r of None \<Rightarrow> None | Some ws \<Rightarrow> map_option ((@) ws) s) (n + m)"
proof (cases r)
  case None
  with f show ?thesis
    by (auto simp: outcome_def cbb_seq_def split: prod.splits bool.splits)
next
  case (Some ws)
  with f have w: "writes os d f ws n" by (simp add: outcome_def)
  show ?thesis
  proof (cases s)
    case None
    have "\<not> fst (cbb_seq (f cbb) g)" if ok: "cbb_ok d cbb b" for cbb b
    proof (cases "f cbb")
      case (Pair ok1 cbb1)
      show ?thesis
      proof (cases ok1)
        case True
        from writesD [OF w ok, of cbb1] Pair True obtain b1 where "cbb_ok d cbb1 b1" by auto
        with g None have "\<not> fst (g cbb1)" by (auto simp: outcome_def)
        with Pair True show ?thesis by (simp add: cbb_seq_def)
      qed (use Pair in \<open>simp add: cbb_seq_def\<close>)
    qed
    with Some None show ?thesis by (auto simp: outcome_def)
  next
    case (Some vs)
    with g have "writes os d g vs m" by (simp add: outcome_def)
    with writes_seq [OF w this] \<open>r = Some ws\<close> Some show ?thesis by (simp add: outcome_def)
  qed
qed

definition enclose :: "u8 list \<Rightarrow> bool \<Rightarrow> nat \<Rightarrow> u8 list \<Rightarrow> u8 list option" where
  "enclose pre is k body = map_option (\<lambda>l. pre @ l @ body) (closed_prefix is k (length body))"

definition in_child :: "(nat \<Rightarrow> bool) \<Rightarrow> nat \<Rightarrow> (CBB \<Rightarrow> bool \<times> CBB) \<Rightarrow> (CBB \<Rightarrow> bool \<times> CBB) \<Rightarrow> CBB \<Rightarrow> bool \<times> CBB" where
  "in_child os d f g cbb = cbb_seq (f cbb) (\<lambda>cbb. cbb_seq (g cbb) (CBB_flush os d))"

text \<open>Closing: the parent's flush after the contents were written.\<close>

lemma close_child:
  assumes ok: "cbb_ok (Suc d) cbb b" and buf: "bb_buf b = pre @ ph @ body"
    and kids: "cbb_kids cbb = ks @ [\<lparr>cc_offset = length pre, cc_pending_len_len = length ph, cc_pending_is_asn1 = is\<rparr>]"
    and k: "length ph \<noteq> 0" "is \<Longrightarrow> length ph = 1"
  shows "fst (CBB_flush os d cbb) \<Longrightarrow> \<exists>l b'. closed_prefix is (length ph) (length body) = Some l
      \<and> cbb_ok d (snd (CBB_flush os d cbb)) b' \<and> cbb_kids (snd (CBB_flush os d cbb)) = ks
      \<and> bb_buf b' = pre @ l @ body \<and> bb_can_resize b' = bb_can_resize b"
    and "closed_prefix is (length ph) (length body) \<noteq> None \<Longrightarrow> roomy os b 4 \<Longrightarrow> fst (CBB_flush os d cbb)"
proof -
  let ?c = "\<lparr>cc_offset = length pre, cc_pending_len_len = length ph, cc_pending_is_asn1 = is\<rparr>"
  obtain ok' b' where f: "flush_child os b ?c = (ok', b')" by fastforce
  have wf: "bb_wf b" and ks: "length ks = d" using ok kids by (simp_all add: cbb_ok_def)
  have eq: "CBB_flush os d cbb = (ok', cbb\<lparr>cbb_base := Some b', cbb_kids := ks @ (if ok' then [] else [?c])\<rparr>)"
    using CBB_flush_one [OF ok kids] k f by simp
  note sp = flush_child_spec [OF wf buf refl k(2) f]
  show "\<exists>l b'. closed_prefix is (length ph) (length body) = Some l
      \<and> cbb_ok d (snd (CBB_flush os d cbb)) b' \<and> cbb_kids (snd (CBB_flush os d cbb)) = ks
      \<and> bb_buf b' = pre @ l @ body \<and> bb_can_resize b' = bb_can_resize b"
    if "fst (CBB_flush os d cbb)"
    using that sp(1) ks by (auto simp: eq cbb_ok_def)
  show "fst (CBB_flush os d cbb)"
    if "closed_prefix is (length ph) (length body) \<noteq> None" "roomy os b 4"
    using that sp(2) by (simp add: eq)
qed

lemma in_child_sound:
  assumes f: "opens os d f pre k is" and g: "outcome os (Suc d) g r n"
    and k: "k \<noteq> 0" "is \<Longrightarrow> k = 1"
    and ok: "cbb_ok d cbb b" and succ: "fst (in_child os d f g cbb)"
  shows "\<exists>body l b'. r = Some body \<and> closed_prefix is k (length body) = Some l
      \<and> cbb_ok d (snd (in_child os d f g cbb)) b'
      \<and> cbb_kids (snd (in_child os d f g cbb)) = cbb_kids cbb
      \<and> bb_buf b' = bb_buf b @ pre @ l @ body \<and> bb_can_resize b' = bb_can_resize b"
proof -
  obtain cbb1 where 1: "f cbb = (True, cbb1)"
    using succ by (cases "f cbb") (auto simp: in_child_def cbb_seq_def split: bool.splits)
  obtain cbb2 where 2: "g cbb1 = (True, cbb2)"
    using succ 1 by (cases "g cbb1") (auto simp: in_child_def cbb_seq_def split: bool.splits)
  have 3: "in_child os d f g cbb = CBB_flush os d cbb2"
    using 1 2 by (simp add: in_child_def cbb_seq_def)
  from f ok 1 obtain b1 ph where b1: "cbb_ok (Suc d) cbb1 b1" and ph: "length ph = k"
    and kids1: "cbb_kids cbb1 = cbb_kids cbb @
        [\<lparr>cc_offset = bb_len b + length pre, cc_pending_len_len = k, cc_pending_is_asn1 = is\<rparr>]"
    and buf1: "bb_buf b1 = bb_buf b @ pre @ ph" "bb_can_resize b1 = bb_can_resize b"
    unfolding opens_def by (metis fst_conv snd_conv)
  obtain body where r: "r = Some body"
    using g b1 2 by (cases r) (auto simp: outcome_def)
  with g have w: "writes os (Suc d) g body n" by (simp add: outcome_def)
  from writesD [OF w b1 2] obtain b2 where b2: "cbb_ok (Suc d) cbb2 b2" "cbb_kids cbb2 = cbb_kids cbb1"
    "bb_buf b2 = bb_buf b1 @ body" "bb_can_resize b2 = bb_can_resize b1" .
  from close_child(1) [OF b2(1), of "bb_buf b @ pre" ph body "cbb_kids cbb" "is"]
  show ?thesis
    using b2 buf1 ph k r succ 3 kids1 by auto
qed

lemma in_child_total:
  assumes f: "opens os d f pre k is" and w: "writes os (Suc d) g body n"
    and k: "k \<noteq> 0" "is \<Longrightarrow> k = 1"
    and ok: "cbb_ok d cbb b" and room: "roomy os b (length pre + k + n + 4)"
    and fits: "closed_prefix is k (length body) \<noteq> None"
  shows "fst (in_child os d f g cbb)"
proof -
  have "roomy os b (length pre + k)" using room by (auto simp: roomy_def)
  then have "fst (f cbb)" using f ok by (auto simp: opens_def)
  then obtain cbb1 where 1: "f cbb = (True, cbb1)" by (metis prod.collapse)
  from f ok 1 obtain b1 ph where b1: "cbb_ok (Suc d) cbb1 b1" and ph: "length ph = k"
    and kids1: "cbb_kids cbb1 = cbb_kids cbb @
        [\<lparr>cc_offset = bb_len b + length pre, cc_pending_len_len = k, cc_pending_is_asn1 = is\<rparr>]"
    and buf1: "bb_buf b1 = bb_buf b @ pre @ ph" "bb_can_resize b1 = bb_can_resize b"
    unfolding opens_def by (metis fst_conv snd_conv)
  have "roomy os b1 n" using room buf1 ph by (auto simp: roomy_def)
  then have "fst (g cbb1)" by (rule writes_succeeds [OF w b1])
  then obtain cbb2 where 2: "g cbb1 = (True, cbb2)" by (metis prod.collapse)
  from writesD [OF w b1 2] obtain b2 where b2: "cbb_ok (Suc d) cbb2 b2" "cbb_kids cbb2 = cbb_kids cbb1"
    "bb_buf b2 = bb_buf b1 @ body" "bb_can_resize b2 = bb_can_resize b1" .
  have "roomy os b2 4"
    using room b2 buf1 ph w by (auto simp: roomy_def writes_def)
  then have "fst (CBB_flush os d cbb2)"
    using close_child(2) [OF b2(1), of "bb_buf b @ pre" ph body "cbb_kids cbb" "is"] b2 buf1 ph k fits kids1
    by auto
  then show ?thesis using 1 2 by (simp add: in_child_def cbb_seq_def)
qed

lemma closed_prefix_length:
  "closed_prefix is k n = Some l \<Longrightarrow> (is \<Longrightarrow> k = 1) \<Longrightarrow> length l \<le> k + 4"
  using length_der_length [of n] by (auto simp: closed_prefix_def split: if_splits)

lemma outcome_in_child:
  assumes f: "opens os d f pre k is" and g: "outcome os (Suc d) g r n"
    and k: "k \<noteq> 0" "is \<Longrightarrow> k = 1"
  shows "outcome os d (in_child os d f g) (case r of None \<Rightarrow> None | Some body \<Rightarrow> enclose pre is k body)
    (length pre + k + n + 4)"
proof (cases "case r of None \<Rightarrow> None | Some body \<Rightarrow> enclose pre is k body")
  case None
  then show ?thesis
    using in_child_sound [OF f g k] by (fastforce simp: outcome_def enclose_def split: option.splits)
next
  case (Some ws)
  then obtain body l where r: "r = Some body" and l: "closed_prefix is k (length body) = Some l"
    and ws: "ws = pre @ l @ body"
    by (auto simp: enclose_def split: option.splits)
  with g have w: "writes os (Suc d) g body n" by (simp add: outcome_def)
  have "length ws \<le> length pre + k + n + 4"
    using closed_prefix_length [OF l k(2)] w ws by (simp add: writes_def)
  moreover have "\<exists>b'. cbb_ok d (snd (in_child os d f g cbb)) b'
      \<and> cbb_kids (snd (in_child os d f g cbb)) = cbb_kids cbb
      \<and> bb_buf b' = bb_buf b @ ws \<and> bb_can_resize b' = bb_can_resize b"
    if "cbb_ok d cbb b" "fst (in_child os d f g cbb)" for cbb b
    using in_child_sound [OF f g k that] r l ws by auto
  ultimately have "writes os d (in_child os d f g) ws (length pre + k + n + 4)"
    using in_child_total [OF f w k] l by (auto simp: writes_def)
  with Some show ?thesis by (simp add: outcome_def)
qed

section \<open>Trees of calls\<close>

datatype item =
    Raw "u8 list"
  | Prefixed nat "item list"
  | Asn1 u32 "item list"

fun emit :: "(nat \<Rightarrow> bool) \<Rightarrow> nat \<Rightarrow> item \<Rightarrow> CBB \<Rightarrow> bool \<times> CBB"
  and emits :: "(nat \<Rightarrow> bool) \<Rightarrow> nat \<Rightarrow> item list \<Rightarrow> CBB \<Rightarrow> bool \<times> CBB" where
  "emit os d (Raw bs) cbb = CBB_add_bytes os d bs cbb"
| "emit os d (Prefixed k its) cbb =
     cbb_seq (cbb_add_length_prefixed os d k cbb)
       (\<lambda>cbb. cbb_seq (emits os (Suc d) its cbb) (CBB_flush os d))"
| "emit os d (Asn1 tag its) cbb =
     cbb_seq (CBB_add_asn1 os d tag cbb)
       (\<lambda>cbb. cbb_seq (emits os (Suc d) its cbb) (CBB_flush os d))"
| "emits os d [] cbb = (True, cbb)"
| "emits os d (it # its) cbb = cbb_seq (emit os d it cbb) (emits os d its)"

fun encode :: "item \<Rightarrow> u8 list option" and encodes :: "item list \<Rightarrow> u8 list option" where
  "encode (Raw bs) = Some bs"
| "encode (Prefixed k its) =
     (case encodes its of
        None \<Rightarrow> None
      | Some body \<Rightarrow>
          if length body < 256 ^ k then Some (be_bytes k (length body) @ body) else None)"
| "encode (Asn1 tag its) =
     (case encodes its of
        None \<Rightarrow> None
      | Some body \<Rightarrow> if length body \<le> 0xfffffffe then Some (der_element tag body) else None)"
| "encodes [] = Some []"
| "encodes (it # its) =
     (case encode it of None \<Rightarrow> None | Some ws \<Rightarrow> map_option ((@) ws) (encodes its))"

text \<open>
  The trees a C client can build: byte strings that fit the address space and the three
  prefix widths of the API. \<open>room\<close> bounds the bytes written, placeholders included.
\<close>

fun c_item :: "item \<Rightarrow> bool" where
  "c_item (Raw bs) = (length bs < 2 ^ 64)"
| "c_item (Prefixed k its) = (1 \<le> k \<and> k \<le> 3 \<and> list_all c_item its)"
| "c_item (Asn1 tag its) = list_all c_item its"

fun room :: "item \<Rightarrow> nat" and rooms :: "item list \<Rightarrow> nat" where
  "room (Raw bs) = length bs"
| "room (Prefixed k its) = k + rooms its + 4"
| "room (Asn1 tag its) = length (der_tag tag) + 1 + rooms its + 4"
| "rooms [] = 0"
| "rooms (it # its) = room it + rooms its"

lemma encode_enclose:
  "encode (Prefixed k its) =
     (case encodes its of None \<Rightarrow> None | Some body \<Rightarrow> enclose [] False k body)"
  "encode (Asn1 tag its) =
     (case encodes its of None \<Rightarrow> None | Some body \<Rightarrow> enclose (der_tag tag) True 1 body)"
  by (simp_all add: enclose_def closed_prefix_def der_element_def der_header_def split: option.splits)

lemma emit_outcome:
  "c_item it \<Longrightarrow> outcome os d (emit os d it) (encode it) (room it)"
  "list_all c_item its \<Longrightarrow> outcome os d (emits os d its) (encodes its) (rooms its)"
proof (induction it and its arbitrary: d and d rule: room_rooms.induct)
  case (1 bs)
  have "emit os d (Raw bs) = CBB_add_bytes os d bs" by (rule ext) simp
  with 1 show ?case by (simp add: outcome_def writes_CBB_add_bytes)
next
  case (2 k its)
  have "emit os d (Prefixed k its) = in_child os d (cbb_add_length_prefixed os d k) (emits os (Suc d) its)"
    by (rule ext) (simp add: in_child_def)
  moreover have "k \<noteq> 0" "k < 2 ^ 64" using 2 by simp_all
  ultimately show ?case
    using outcome_in_child [OF opens_add_length_prefixed 2(1), of k d] 2(2)
    by (simp add: encode_enclose(1) del: encode.simps)
next
  case (3 tag its)
  have "emit os d (Asn1 tag its) = in_child os d (CBB_add_asn1 os d tag) (emits os (Suc d) its)"
    by (rule ext) (simp add: in_child_def)
  then show ?case
    using outcome_in_child [OF opens_CBB_add_asn1 3(1), of d] 3(2)
    by (simp add: encode_enclose(2) del: encode.simps)
next
  case 4
  have "emits os d [] = (\<lambda>cbb. (True, cbb))" by (rule ext) simp
  then show ?case by (simp add: outcome_def writes_nothing)
next
  case (5 it its)
  have "emits os d (it # its) = (\<lambda>cbb. cbb_seq (emit os d it cbb) (emits os d its))" by (rule ext) simp
  with 5 outcome_seq [OF 5(1) 5(2)] show ?case by simp
qed

section \<open>From initialisation to the finished buffer\<close>

definition write_tree :: "(nat \<Rightarrow> bool) \<Rightarrow> nat \<Rightarrow> item list \<Rightarrow> u8 list option" where
  "write_tree os cap its =
     (case CBB_init os cap of
        (False, _) \<Rightarrow> None
      | (True, cbb) \<Rightarrow>
          (case emits os 0 its cbb of
             (False, _) \<Rightarrow> None
           | (True, cbb) \<Rightarrow> fst (CBB_finish os 0 True cbb)))"

definition fresh_buffer :: "nat \<Rightarrow> cbb_buffer" where
  "fresh_buffer cap = \<lparr>bb_buf = [], bb_cap = cap, bb_can_resize = True, bb_error = False\<rparr>"

lemma CBB_init_ok:
  "cap < 2 ^ 64 \<Longrightarrow> CBB_init os cap = (True, cbb) \<Longrightarrow> cbb_ok 0 cbb (fresh_buffer cap)"
  by (auto simp: CBB_init_def cbb_init_def CBB_zero_def cbb_ok_def bb_wf_def fresh_buffer_def
      split: if_splits)

lemma CBB_init_succeeds: "(\<And>m. os m) \<Longrightarrow> fst (CBB_init os cap)"
  by (simp add: CBB_init_def cbb_init_def OPENSSL_malloc_def)

lemma CBB_finish_idle:
  "cbb_ok 0 cbb b \<Longrightarrow> bb_can_resize b \<longrightarrow> want \<Longrightarrow> fst (CBB_finish os 0 want cbb) = Some (bb_buf b)"
  by (auto simp: CBB_finish_def CBB_flush_idle) (auto simp: cbb_ok_def)

lemma write_tree_sound:
  assumes c: "list_all c_item its" "cap < 2 ^ 64" and w: "write_tree os cap its = Some out"
  shows "encodes its = Some out"
proof -
  obtain cbb cbb1 where 1: "CBB_init os cap = (True, cbb)" and 2: "emits os 0 its cbb = (True, cbb1)"
    and 3: "fst (CBB_finish os 0 True cbb1) = Some out"
    using w by (auto simp: write_tree_def split: prod.splits bool.splits)
  have ok: "cbb_ok 0 cbb (fresh_buffer cap)" using CBB_init_ok c 1 by simp
  note o = emit_outcome(2) [OF c(1), of os 0]
  obtain ws where r: "encodes its = Some ws"
    using o ok 2 by (cases "encodes its") (auto simp: outcome_def)
  with o have wr: "writes os 0 (emits os 0 its) ws (rooms its)" by (simp add: outcome_def)
  from writesD [OF wr ok 2] obtain b where "cbb_ok 0 cbb1 b" "bb_buf b = bb_buf (fresh_buffer cap) @ ws" .
  with 3 r show ?thesis
    using CBB_finish_idle [of cbb1 b True os] by (simp add: fresh_buffer_def)
qed

lemma write_tree_total:
  assumes c: "list_all c_item its" "cap < 2 ^ 64"
    and os: "\<And>m. os m" and small: "rooms its < 2 ^ 64"
  shows "write_tree os cap its = encodes its"
proof -
  obtain cbb where 1: "CBB_init os cap = (True, cbb)"
    using CBB_init_succeeds [of os cap] os by (metis prod.collapse)
  have ok: "cbb_ok 0 cbb (fresh_buffer cap)" using CBB_init_ok c 1 by simp
  note o = emit_outcome(2) [OF c(1), of os 0]
  show ?thesis
  proof (cases "encodes its")
    case None
    then have "\<not> fst (emits os 0 its cbb)" using o ok by (auto simp: outcome_def)
    then show ?thesis using 1 None by (auto simp: write_tree_def split: prod.splits)
  next
    case (Some ws)
    with o have wr: "writes os 0 (emits os 0 its) ws (rooms its)" by (simp add: outcome_def)
    have "roomy os (fresh_buffer cap) (rooms its)"
      using os small by (simp add: roomy_def fresh_buffer_def)
    with writes_succeeds [OF wr ok] obtain cbb1 where 2: "emits os 0 its cbb = (True, cbb1)"
      by (metis prod.collapse)
    from writesD [OF wr ok 2] obtain b where "cbb_ok 0 cbb1 b" "bb_buf b = bb_buf (fresh_buffer cap) @ ws" .
    then show ?thesis
      using 1 2 Some CBB_finish_idle [of cbb1 b True os]
      by (simp add: fresh_buffer_def write_tree_def)
  qed
qed

section \<open>Reading a tree back\<close>

text \<open>
  The calls of a client that expects a given tree in its input: each structure is read with
  the matching reader of \<open>cbs.c\<close>, its contents must be the expected ones and nothing else.
\<close>

fun expect :: "item \<Rightarrow> CBS \<Rightarrow> bool \<times> CBS" and expects :: "item list \<Rightarrow> CBS \<Rightarrow> bool \<times> CBS" where
  "expect (Raw bs) cbs =
     (case CBS_get_bytes (length bs) cbs of
        (None, cbs) \<Rightarrow> (False, cbs)
      | (Some out, cbs) \<Rightarrow> (CBS_mem_equal out bs, cbs))"
| "expect (Prefixed k its) cbs =
     (case cbs_get_length_prefixed k cbs of
        (None, cbs) \<Rightarrow> (False, cbs)
      | (Some child, cbs) \<Rightarrow>
          (case expects its child of (ok, child) \<Rightarrow> (ok \<and> CBS_len child = 0, cbs)))"
| "expect (Asn1 tag its) cbs =
     (case CBS_get_asn1 tag cbs of
        (None, cbs) \<Rightarrow> (False, cbs)
      | (Some child, cbs) \<Rightarrow>
          (case expects its child of (ok, child) \<Rightarrow> (ok \<and> CBS_len child = 0, cbs)))"
| "expects [] cbs = (True, cbs)"
| "expects (it # its) cbs =
     (case expect it cbs of (False, cbs) \<Rightarrow> (False, cbs) | (True, cbs) \<Rightarrow> expects its cbs)"

lemma cbs_get_length_prefixed_iff:
  assumes "k \<le> 8"
  shows "cbs_get_length_prefixed k cbs = (Some body, rest) \<longleftrightarrow>
     length body < 256 ^ k \<and> cbs = be_bytes k (length body) @ body @ rest"
proof
  assume "cbs_get_length_prefixed k cbs = (Some body, rest)"
  then obtain n cbs1 where "cbs_get_u k cbs = (Some n, cbs1)" "CBS_get_bytes (unat n) cbs1 = (Some body, rest)"
    by (auto simp: cbs_get_length_prefixed_def and_then_Some_iff)
  then obtain bs where "length bs = k" "cbs = bs @ body @ rest" "length body = be_nat bs"
    using assms by (auto simp: cbs_get_u_Some_iff CBS_get_bytes_Some_iff)
  then show "length body < 256 ^ k \<and> cbs = be_bytes k (length body) @ body @ rest"
    using be_nat_bound [of bs] be_bytes_be_nat [of bs] by auto
qed (use assms cbs_get_length_prefixed_append in auto)

lemma expect_child_iff:
  "expect (Prefixed k its) cbs = (True, rest) \<longleftrightarrow>
     (\<exists>child. cbs_get_length_prefixed k cbs = (Some child, rest) \<and> expects its child = (True, []))"
  "expect (Asn1 tag its) cbs = (True, rest) \<longleftrightarrow>
     (\<exists>child. CBS_get_asn1 tag cbs = (Some child, rest) \<and> expects its child = (True, []))"
  by (auto simp: CBS_len_def split: prod.splits option.splits)

lemma encode_Some_iff:
  "encode (Prefixed k its) = Some ws \<longleftrightarrow>
     (\<exists>body. encodes its = Some body \<and> length body < 256 ^ k \<and> ws = be_bytes k (length body) @ body)"
  "encode (Asn1 tag its) = Some ws \<longleftrightarrow>
     (\<exists>body. encodes its = Some body \<and> length body < 0xffffffff \<and> ws = der_element tag body)"
  by (auto split: option.splits if_splits)

lemma expect_iff:
  "c_item it \<Longrightarrow> length cbs < 0xffffffff \<Longrightarrow>
     expect it cbs = (True, rest) \<longleftrightarrow> (\<exists>ws. encode it = Some ws \<and> cbs = ws @ rest)"
  "list_all c_item its \<Longrightarrow> length cbs < 0xffffffff \<Longrightarrow>
     expects its cbs = (True, rest) \<longleftrightarrow> (\<exists>ws. encodes its = Some ws \<and> cbs = ws @ rest)"
proof (induction it and its arbitrary: cbs rest and cbs rest rule: room_rooms.induct)
  case (1 bs)
  then show ?case
    by (auto simp: CBS_mem_equal_iff CBS_get_bytes_Some_iff split: prod.splits option.splits)
next
  case (2 k its)
  then have "k \<le> 8" by simp
  have IH: "expects its child = (True, []) \<longleftrightarrow> encodes its = Some child"
    if "length child < 0xffffffff" for child
    using 2 that by simp
  have "length child < 0xffffffff" if "cbs_get_length_prefixed k cbs = (Some child, rest)" for child
    using 2(3) that \<open>k \<le> 8\<close> by (auto simp: cbs_get_length_prefixed_iff)
  then show ?case
    unfolding expect_child_iff encode_Some_iff
    using IH cbs_get_length_prefixed_iff [OF \<open>k \<le> 8\<close>, of cbs _ rest] by auto
next
  case (3 tag its)
  have IH: "expects its child = (True, []) \<longleftrightarrow> encodes its = Some child"
    if "length child < 0xffffffff" for child
    using 3 that by simp
  have len: "length child < 0xffffffff" if "cbs = der_element tag child @ rest" for child
    using 3(3) that by (auto simp: length_der_element)
  have "(length child < 2 ^ 32 \<and> cbs = der_element tag child @ rest) \<and> expects its child = (True, [])
      \<longleftrightarrow> encodes its = Some child \<and> length child < 0xffffffff \<and> cbs = der_element tag child @ rest" for child
    using IH [of child] len [of child] by auto
  then show ?case
    unfolding expect_child_iff encode_Some_iff CBS_get_asn1_iff by blast
next
  case 4
  then show ?case by auto
next
  case (5 it its)
  have "expects (it # its) cbs = (True, rest)
      \<longleftrightarrow> (\<exists>cbs1. expect it cbs = (True, cbs1) \<and> expects its cbs1 = (True, rest))"
    by (auto split: prod.splits bool.splits)
  also have "\<dots> \<longleftrightarrow> (\<exists>ws vs. encode it = Some ws \<and> encodes its = Some vs \<and> cbs = ws @ vs @ rest)"
    using 5 by (auto dest!: arg_cong [of cbs _ length])
  also have "\<dots> \<longleftrightarrow> (\<exists>ws. encodes (it # its) = Some ws \<and> cbs = ws @ rest)"
    by (auto split: option.splits)
  finally show ?case .
qed

end
