(* ===== verification/Integer.thy ===== *)
theory Integer
  imports CbbTree
begin

text \<open>
  ASN.1 INTEGER, BOOLEAN and OCTET STRING values: the writers of \<open>cbb.c\<close>
  (\<open>CBB_add_asn1_uint64\<close>, \<open>CBB_add_asn1_int64\<close>, \<open>CBB_add_asn1_octet_string\<close>,
  \<open>CBB_add_asn1_bool\<close>) beside the readers of \<open>cbs.c\<close>, and the abstract contents
  octets \<open>int_octets\<close> (X.690, section 8.3) that both implement.
\<close>

section \<open>Specification: shortest two's complement octets\<close>

function int_octets :: "int \<Rightarrow> u8 list" where
  "int_octets i =
     (if -128 \<le> i \<and> i < 128 then [of_int i] else int_octets (i div 256) @ [of_int i])"
  by pat_completeness auto
termination
  by (relation "measure (\<lambda>i. nat (if i < 0 then -i else i))") auto

declare int_octets.simps [simp del]

text \<open>The sign bit of an octet.\<close>

definition hi :: "u8 \<Rightarrow> bool" where
  "hi b \<longleftrightarrow> 128 \<le> unat b"

definition be_int :: "u8 list \<Rightarrow> int" where
  "be_int bs = int (be_nat bs) - (if bs \<noteq> [] \<and> hi (hd bs) then 256 ^ length bs else 0)"

definition shortest :: "u8 list \<Rightarrow> bool" where
  "shortest bs \<longleftrightarrow> bs \<noteq> [] \<and>
     (length bs > 1 \<longrightarrow> \<not> (hd bs = 0 \<and> \<not> hi (bs ! 1)) \<and> \<not> (hd bs = 0xff \<and> hi (bs ! 1)))"

lemma uint_u8_bounds: "0 \<le> uint (b :: u8)" "uint (b :: u8) < 256"
  using uint_bounded [of b] by simp_all

lemma hi_uint: "hi b \<longleftrightarrow> 128 \<le> uint b"
proof -
  have "uint b = int (unat b)" by simp
  then show ?thesis unfolding hi_def by linarith
qed

lemma hi_and: "b AND 0x80 = 0 \<longleftrightarrow> \<not> hi b"
  by (simp add: octet_hi_iff hi_def not_le)

lemma be_int_single: "be_int [b] = uint b - (if hi b then 256 else 0)"
  by (simp add: be_int_def)

lemma be_int_single_range: "-128 \<le> be_int [b]" "be_int [b] < 128"
  unfolding be_int_single hi_uint using uint_u8_bounds [of b]
  by (cases "128 \<le> uint b"; simp only: if_True if_False; linarith)+

lemma be_int_snoc: "bs \<noteq> [] \<Longrightarrow> be_int (bs @ [b]) = be_int bs * 256 + uint b"
  by (simp add: be_int_def)

lemma of_int_octet: "of_int (i * 256 + uint b) = (b :: u8)"
proof -
  have "(of_int (i * 256) :: u8) = 0"
    by (simp only: word_of_int_eq_0_iff) simp
  then show ?thesis by (simp only: of_int_add) simp
qed

lemma int_octets_snoc:
  "\<not> (-128 \<le> i \<and> i < 128) \<Longrightarrow> int_octets i = int_octets (i div 256) @ [of_int i]"
  by (subst int_octets.simps) (simp only: if_False)

lemma int_octets_single: "-128 \<le> i \<Longrightarrow> i < 128 \<Longrightarrow> int_octets i = [of_int i]"
  by (subst int_octets.simps) simp

lemma int_octets_not_Nil [simp]: "int_octets i \<noteq> []"
  by (cases "-128 \<le> i \<and> i < 128") (simp_all add: int_octets_single int_octets_snoc)

lemma uint_of_int_u8: "uint (of_int i :: u8) = i mod 256"
  by (simp add: uint_word_of_int)

lemma be_int_int_octets: "be_int (int_octets i) = i"
proof (induction i rule: int_octets.induct)
  case (1 i)
  show ?case
  proof (cases "-128 \<le> i \<and> i < 128")
    case True
    then have "i mod 256 = (if i < 0 then i + 256 else i)"
      using mod_pos_pos_trivial [of "i + 256" 256] by (simp add: mod_pos_pos_trivial)
    with True show ?thesis
      by (simp add: int_octets_single be_int_single uint_of_int_u8 hi_uint)
  next
    case False
    then show ?thesis
      using 1 by (simp add: int_octets_snoc be_int_snoc uint_of_int_u8)
  qed
qed

lemma shortest_snoc: "bs \<noteq> [] \<Longrightarrow> shortest (bs @ [b]) \<Longrightarrow> shortest bs"
  by (cases bs; cases "tl bs") (auto simp: shortest_def)

lemma be_int_small_cases:
  fixes b :: u8
  assumes "int_octets (be_int bs) = bs" "-128 \<le> be_int bs * 256 + uint b" "be_int bs * 256 + uint b < 128"
  shows "bs = [0] \<and> \<not> hi b \<or> bs = [0xff] \<and> hi b"
proof -
  have "be_int bs = 0 \<and> \<not> hi b \<or> be_int bs = -1 \<and> hi b"
    using assms(2,3) uint_u8_bounds [of b] unfolding hi_uint by arith
  moreover have "int_octets 0 = [0]" "int_octets (-1) = [0xff]"
    by (simp_all add: int_octets_single)
  ultimately show ?thesis
    using assms(1) by auto
qed

lemma int_octets_be_int: "shortest bs \<Longrightarrow> int_octets (be_int bs) = bs"
proof (induction bs rule: rev_induct)
  case (snoc b bs)
  show ?case
  proof (cases "bs = []")
    case True
    have "of_int (uint b - 256) = b" using of_int_octet [of "-1" b] by simp
    moreover have "-128 \<le> be_int [b]" "be_int [b] < 128" by (rule be_int_single_range)+
    ultimately show ?thesis
      using True by (simp only: int_octets_single append_Nil) (simp add: be_int_single)
  next
    case False
    with snoc have IH: "int_octets (be_int bs) = bs" by (auto dest: shortest_snoc)
    define i where "i = be_int (bs @ [b])"
    have i: "i = be_int bs * 256 + uint b"
      unfolding i_def using False by (rule be_int_snoc)
    have "\<not> (-128 \<le> i \<and> i < 128)"
      using be_int_small_cases [OF IH, of b] snoc.prems by (auto simp: i shortest_def)
    moreover have "i div 256 = be_int bs" using i uint_u8_bounds [of b] by simp
    moreover have "of_int i = b" unfolding i by (rule of_int_octet)
    ultimately show ?thesis using IH by (simp add: int_octets_snoc flip: i_def)
  qed
qed (simp add: shortest_def)

lemma shortest_snocI:
  fixes b :: u8
  assumes "shortest bs" "\<not> (bs = [0] \<and> \<not> hi b)" "\<not> (bs = [0xff] \<and> hi b)"
  shows "shortest (bs @ [b])"
proof (cases "length bs = 1")
  case True
  then obtain c where c: "bs = [c]" by (auto simp: length_Suc_conv)
  with assms show ?thesis
    by (auto simp: shortest_def)
next
  case False
  with assms(1) have "length bs > 1" by (cases bs) (auto simp: shortest_def)
  with assms(1) show ?thesis by (auto simp: shortest_def nth_append)
qed

lemma shortest_int_octets: "shortest (int_octets i)"
proof (induction i rule: int_octets.induct)
  case (1 i)
  show ?case
  proof (cases "-128 \<le> i \<and> i < 128")
    case True
    then show ?thesis by (simp add: int_octets_single shortest_def)
  next
    case False
    have v: "be_int (int_octets (i div 256)) = i div 256" by (rule be_int_int_octets)
    have u: "uint (of_int i :: u8) = i mod 256" by (rule uint_of_int_u8)
    have i: "i = i div 256 * 256 + i mod 256" by simp
    have "be_int [0] = 0" "be_int [0xff] = -1" by (simp_all add: be_int_single hi_def)
    then have "int_octets (i div 256) = [0] \<Longrightarrow> i div 256 = 0"
      and "int_octets (i div 256) = [0xff] \<Longrightarrow> i div 256 = -1"
      using v by auto
    then have "int_octets (i div 256) = [0] \<Longrightarrow> i = i mod 256"
      and "int_octets (i div 256) = [0xff] \<Longrightarrow> i = i mod 256 - 256"
      using i by linarith+
    then have "\<not> (int_octets (i div 256) = [0] \<and> \<not> hi (of_int i))"
      and "\<not> (int_octets (i div 256) = [0xff] \<and> hi (of_int i))"
      unfolding hi_uint using u False pos_mod_bound [of 256 i] pos_mod_sign [of 256 i] by auto
    with 1 False show ?thesis
      by (simp add: int_octets_snoc shortest_snocI)
  qed
qed

lemma int_octets_iff: "bs = int_octets i \<longleftrightarrow> shortest bs \<and> be_int bs = i"
  using shortest_int_octets be_int_int_octets int_octets_be_int by auto

lemma be_int_hi: "bs \<noteq> [] \<Longrightarrow> hi (hd bs) \<Longrightarrow> be_int bs < 0"
proof -
  assume "bs \<noteq> []" "hi (hd bs)"
  moreover have "int (be_nat bs) < 256 ^ length bs"
    using be_nat_bound [of bs] by (metis of_nat_less_iff of_nat_numeral of_nat_power)
  ultimately show ?thesis by (simp add: be_int_def)
qed

lemma be_int_lo: "\<not> (bs \<noteq> [] \<and> hi (hd bs)) \<Longrightarrow> be_int bs = int (be_nat bs)"
  by (simp only: be_int_def if_False)

section \<open>The readers\<close>

lemma top_byte_clear: "drop_bit 56 (v :: u64) = 0 \<longleftrightarrow> unat v < 2 ^ 56"
proof -
  have "drop_bit 56 v = 0 \<longleftrightarrow> unat v div 2 ^ 56 = 0"
    by (simp add: word_unat_eq_iff unat_drop_bit_div)
  then show ?thesis by (simp add: div_eq_0_iff)
qed

lemma asn1_uint64_loop_iff:
  "asn1_uint64_loop out data = Some v \<longleftrightarrow>
     unat v = unat out * 256 ^ length data + be_nat data"
proof (induction data arbitrary: out)
  case Nil
  then show ?case by (auto simp: word_unat_eq_iff)
next
  case (Cons b data)
  show ?case
  proof (cases "drop_bit 56 out = 0")
    case True
    then have "unat out < 2 ^ 56" by (simp add: top_byte_clear)
    then have "unat out * 2 ^ 8 + unat b < 2 ^ 64"
      using byte_append_less [OF _ unat_u8_less] by fastforce
    then have small: "unat out * 2 ^ 8 + unat (ucast b :: u64) < 2 ^ 64"
      by (subst unat_ucast_up) simp_all
    have "unat (push_bit 8 out OR ucast b) = unat out * 2 ^ 8 + unat b"
      using small unat_u8_less [of b] by (subst unat_push_or) (simp_all add: unat_ucast_up)
    with True Cons.IH [of "push_bit 8 out OR ucast b"] show ?thesis
      by (simp add: be_nat_Cons algebra_simps)
  next
    case False
    then have "2 ^ 56 * 256 \<le> unat out * 256" by (simp add: top_byte_clear not_less)
    also have "\<dots> \<le> unat out * 256 ^ length (b # data)"
      using power_increasing [of 1 "length (b # data)" "256 :: nat"] by (intro mult_left_mono) simp_all
    also have "\<dots> \<le> unat out * 256 ^ length (b # data) + be_nat (b # data)" by simp
    finally have "unat v \<noteq> unat out * 256 ^ length (b # data) + be_nat (b # data)"
      using unsigned_less [where ?'a = nat, of v] by auto
    with False show ?thesis by simp
  qed
qed

lemma asn1_uint64_of_iff: "asn1_uint64_of data = Some v \<longleftrightarrow> data = int_octets (int (unat v))"
proof (cases "data = [] \<or> hi (hd data)")
  case True
  then have "data \<noteq> int_octets (int (unat v))"
    using be_int_int_octets [of "int (unat v)"] be_int_hi [of data] by auto
  with True show ?thesis
    by (auto simp: asn1_uint64_of_def hi_and hd_conv_nth)
next
  case False
  then have "be_int data = int (be_nat data)" by (simp add: be_int_lo)
  moreover have "hd data \<noteq> 0xff" using False by (auto simp: hi_def)
  moreover have "int (be_nat data) = uint v \<longleftrightarrow> unat v = be_nat data"
  proof -
    have "uint v = int (unat v)" by simp
    then show ?thesis by linarith
  qed
  ultimately show ?thesis
    using False
    by (auto simp: asn1_uint64_of_def asn1_uint64_loop_iff hi_and hd_conv_nth int_octets_iff shortest_def)
qed

text \<open>The stores into the \<open>union\<close> of \<open>CBS_get_asn1_int64\<close>: the data reversed, then the sign octets.\<close>

lemma foldl_stores:
  "n \<le> length u \<Longrightarrow> foldl (\<lambda>u i. u[i := f i]) u [0..<n] = map f [0..<n] @ drop n u"
proof (induction n)
  case (Suc n)
  then have "drop n u = u ! n # drop (Suc n) u" by (simp add: Cons_nth_drop_Suc)
  with Suc show ?case by (simp add: list_update_append)
qed simp

lemma int64_fill_eq: "length data \<le> length u \<Longrightarrow> int64_fill data u = rev data @ drop (length data) u"
proof -
  assume "length data \<le> length u"
  moreover have "map (\<lambda>i. data ! (length data - i - 1)) [0..<length data] = rev data"
    by (intro nth_equalityI) (simp_all add: rev_nth)
  ultimately show ?thesis by (simp only: int64_fill_def foldl_stores)
qed

lemma le_nat_ones: "int (le_nat (replicate n 0xff)) = 256 ^ n - 1"
  by (induction n) simp_all

lemma le_nat_zeros: "le_nat (replicate n 0) = 0"
  by (induction n) simp_all

lemma int64_value:
  assumes "length data \<le> 8" "data \<noteq> []"
  shows "(of_nat (le_nat (int64_fill data (replicate 8 (if hi (hd data) then 0xff else 0)))) :: u64)
    = of_int (be_int data)"
proof -
  define k where "k = length data"
  have "le_nat (rev data) = be_nat data" using be_nat_rev [of "rev data"] by simp
  then have "int (le_nat (int64_fill data (replicate 8 (if hi (hd data) then 0xff else 0))))
      = int (be_nat data) + 256 ^ k * (if hi (hd data) then 256 ^ (8 - k) - 1 else 0)"
    using assms by (simp add: int64_fill_eq le_nat_append le_nat_ones le_nat_zeros k_def)
  also have "\<dots> = be_int data + (if hi (hd data) then 2 ^ 64 else 0)"
    using assms by (simp add: be_int_def k_def right_diff_distrib flip: power_add)
  finally have "(of_int (int (le_nat (int64_fill data (replicate 8 (if hi (hd data) then 0xff else 0))))) :: u64)
      = of_int (be_int data) + of_int (if hi (hd data) then 2 ^ 64 else 0)"
    by (simp only: of_int_add)
  moreover have "(of_int (2 ^ 64) :: u64) = 0" by (simp only: word_of_int_eq_0_iff) simp
  ultimately show ?thesis by (simp split: if_splits)
qed

lemma length_int_octets:
  "- (128 * 256 ^ k) \<le> i \<Longrightarrow> i < 128 * 256 ^ k \<Longrightarrow> length (int_octets i) \<le> Suc k"
proof (induction k arbitrary: i)
  case (Suc k)
  show ?case
  proof (cases "-128 \<le> i \<and> i < 128")
    case False
    have "- (128 * 256 ^ k) \<le> i div 256" "i div 256 < 128 * 256 ^ k"
      using Suc.prems by (simp_all add: div_less_iff_less_mult)
    with Suc.IH False show ?thesis by (simp add: int_octets_snoc)
  qed (simp add: int_octets_single)
qed (simp add: int_octets_single)

lemma be_int_range:
  assumes "bs \<noteq> []" "length bs \<le> Suc k"
  shows "- (128 * 256 ^ k) \<le> be_int bs \<and> be_int bs < 128 * 256 ^ k"
  using assms
proof (induction bs arbitrary: k rule: rev_induct)
  case (snoc b bs)
  have b: "0 \<le> uint b" "uint b < 256" by (rule uint_u8_bounds)+
  show ?case
  proof (cases "bs = []")
    case True
    have "-128 \<le> be_int [b]" "be_int [b] < 128" by (rule be_int_single_range)+
    moreover have "(1 :: int) \<le> 256 ^ k" by simp
    ultimately have "- (128 * 256 ^ k) \<le> be_int [b]" "be_int [b] < 128 * 256 ^ k" by linarith+
    with True show ?thesis by simp
  next
    case False
    then obtain j where k: "k = Suc j" using snoc.prems by (cases k) auto
    with False snoc have "- (128 * 256 ^ j) \<le> be_int bs \<and> be_int bs < 128 * 256 ^ j" by simp
    with b have "- (128 * 256 ^ Suc j) \<le> be_int bs * 256 + uint b"
      "be_int bs * 256 + uint b < 128 * 256 ^ Suc j"
      unfolding power_Suc by linarith+
    then show ?thesis unfolding k be_int_snoc [OF False] by (rule conjI)
  qed
qed simp

lemma asn1_int64_of_iff: "asn1_int64_of data = Some v \<longleftrightarrow> data = int_octets (sint v)"
proof (cases "data = [] \<or> length data > 8")
  case True
  have "- (128 * 256 ^ 7) \<le> sint v" "sint v < 128 * 256 ^ 7"
    using sint_ge [of v] sint_lt [of v] by simp_all
  then have "length (int_octets (sint v)) \<le> 8"
    using length_int_octets [of 7 "sint v"] by simp
  with True show ?thesis by (auto simp: asn1_int64_of_def)
next
  case False
  then have "- (128 * 256 ^ 7) \<le> be_int data \<and> be_int data < 128 * 256 ^ 7"
    by (intro be_int_range) simp_all
  then have "sint (of_int (be_int data) :: u64) = be_int data"
    by (simp add: sint_sbintrunc' signed_take_bit_int_eq_self)
  then have "(of_int (be_int data) :: u64) = v \<longleftrightarrow> be_int data = sint v"
    by auto
  with False show ?thesis
    using int64_value [of data]
    by (auto simp: asn1_int64_of_def hi_and hd_conv_nth int_octets_iff shortest_def Let_def)
qed

lemma CBS_get_asn1_uint64_iff:
  "CBS_get_asn1_uint64 cbs = (Some v, rest) \<longleftrightarrow>
     cbs = der_element CBS_ASN1_INTEGER (int_octets (int (unat v))) @ rest"
proof -
  have "length (int_octets (int (unat v))) \<le> Suc 8"
    using unsigned_less [where ?'a = int, of v]
    by (intro length_int_octets order_trans [OF _ of_nat_0_le_iff]) simp_all
  then show ?thesis
    unfolding CBS_get_asn1_uint64_def and_then_Some_iff CBS_get_asn1_iff CBS_data_def
    by (auto simp: asn1_uint64_of_iff)
qed

lemma CBS_get_asn1_int64_iff:
  "CBS_get_asn1_int64 cbs = (Some v, rest) \<longleftrightarrow>
     cbs = der_element CBS_ASN1_INTEGER (int_octets (sint v)) @ rest"
proof -
  have "length (int_octets (sint v)) \<le> Suc 7"
    using sint_ge [of v] sint_lt [of v] by (intro length_int_octets) simp_all
  then show ?thesis
    unfolding CBS_get_asn1_int64_def and_then_Some_iff CBS_get_asn1_iff CBS_data_def
    by (auto simp: asn1_int64_of_iff)
qed

section \<open>The writers\<close>

text \<open>
  The loop of \<open>CBB_add_asn1_uint64\<close>; \<open>n\<close> octets of \<open>value\<close> are still to come, so the next
  one is \<open>value >> 8 * (n - 1)\<close>. After the loop a value of which nothing was written gets
  its single zero octet.
\<close>

fun asn1_uint64_put :: "(nat \<Rightarrow> bool) \<Rightarrow> nat \<Rightarrow> u64 \<Rightarrow> nat \<Rightarrow> bool \<Rightarrow> CBB \<Rightarrow> bool \<times> CBB" where
  "asn1_uint64_put os d value 0 started cbb =
     (if \<not> started then CBB_add_u8 os d 0 cbb else (True, cbb))"
| "asn1_uint64_put os d value (Suc n) started cbb =
     (let byte = ucast (drop_bit (8 * n) value) :: u8
      in if \<not> started
         then if byte = 0 then asn1_uint64_put os d value n False cbb
              else cbb_seq (if byte AND 0x80 \<noteq> 0 then CBB_add_u8 os d 0 cbb else (True, cbb))
                     (\<lambda>cbb. cbb_seq (CBB_add_u8 os d byte cbb) (asn1_uint64_put os d value n True))
         else cbb_seq (CBB_add_u8 os d byte cbb) (asn1_uint64_put os d value n True))"

definition CBB_add_asn1_uint64 :: "(nat \<Rightarrow> bool) \<Rightarrow> nat \<Rightarrow> u64 \<Rightarrow> CBB \<Rightarrow> bool \<times> CBB" where
  "CBB_add_asn1_uint64 os d value cbb =
     cbb_seq (CBB_add_asn1 os d CBS_ASN1_INTEGER cbb) (\<lambda>cbb.
     cbb_seq (asn1_uint64_put os (Suc d) value 8 False cbb) (CBB_flush os d))"

text \<open>\<open>start\<close> after the loop that skips redundant sign octets of the little-endian \<open>bytes\<close>.\<close>

fun int64_start :: "u8 list \<Rightarrow> nat \<Rightarrow> nat" where
  "int64_start bytes 0 = 0"
| "int64_start bytes (Suc s) =
     (if bytes ! Suc s = 0xff \<and> bytes ! s AND 0x80 \<noteq> 0 then int64_start bytes s else Suc s)"

fun int64_put :: "(nat \<Rightarrow> bool) \<Rightarrow> nat \<Rightarrow> u8 list \<Rightarrow> nat \<Rightarrow> CBB \<Rightarrow> bool \<times> CBB" where
  "int64_put os d bytes 0 cbb = (True, cbb)"
| "int64_put os d bytes (Suc i) cbb =
     cbb_seq (CBB_add_u8 os d (bytes ! i) cbb) (int64_put os d bytes i)"

definition CBB_add_asn1_int64 :: "(nat \<Rightarrow> bool) \<Rightarrow> nat \<Rightarrow> u64 \<Rightarrow> CBB \<Rightarrow> bool \<times> CBB" where
  "CBB_add_asn1_int64 os d value cbb =
     (if sint value \<ge> 0 then CBB_add_asn1_uint64 os d value cbb
      else let bytes = le_bytes 8 (unat value);
               start = int64_start bytes 7
           in cbb_seq (CBB_add_asn1 os d CBS_ASN1_INTEGER cbb) (\<lambda>cbb.
              cbb_seq (int64_put os (Suc d) bytes (Suc start) cbb) (CBB_flush os d)))"

definition CBB_add_asn1_octet_string :: "(nat \<Rightarrow> bool) \<Rightarrow> nat \<Rightarrow> u8 list \<Rightarrow> CBB \<Rightarrow> bool \<times> CBB" where
  "CBB_add_asn1_octet_string os d data cbb =
     cbb_seq (CBB_add_asn1 os d CBS_ASN1_OCTETSTRING cbb) (\<lambda>cbb.
     cbb_seq (CBB_add_bytes os (Suc d) data cbb) (CBB_flush os d))"

definition CBB_add_asn1_bool :: "(nat \<Rightarrow> bool) \<Rightarrow> nat \<Rightarrow> int \<Rightarrow> CBB \<Rightarrow> bool \<times> CBB" where
  "CBB_add_asn1_bool os d value cbb =
     cbb_seq (CBB_add_asn1 os d CBS_ASN1_BOOLEAN cbb) (\<lambda>cbb.
     cbb_seq (CBB_add_u8 os (Suc d) (if value \<noteq> 0 then 0xff else 0) cbb) (CBB_flush os d))"

section \<open>What the writers write\<close>

lemma writes_asn1:
  assumes "writes os (Suc d) g body n" "length body \<le> 0xfffffffe"
  shows "writes os d (in_child os d (CBB_add_asn1 os d tag) g) (der_element tag body) (n + 11)"
proof -
  have "writes os d (in_child os d (CBB_add_asn1 os d tag) g) (der_element tag body)
      (length (der_tag tag) + 1 + n + 4)"
    using outcome_in_child [OF opens_CBB_add_asn1, of os d g "Some body" n tag] assms
    by (simp add: outcome_def enclose_def closed_prefix_def der_element_def der_header_def)
  then show ?thesis
    by (rule writes_mono) (use length_der_tag [of tag] in simp)
qed

lemma writes_u8_seq:
  "writes os d g ws n \<Longrightarrow> writes os d (\<lambda>cbb. cbb_seq (CBB_add_u8 os d b cbb) g) (b # ws) (Suc n)"
  using writes_seq [OF writes_CBB_add_u8] by fastforce

lemma be_bytes_Cons: "be_bytes (Suc n) v = of_nat (v div 256 ^ n) # be_bytes n v"
  by (induction n arbitrary: v) (simp_all add: be_bytes_Suc div_mult2_eq flip: power_Suc2)

lemma octet_of_shift: "(ucast (drop_bit (8 * n) (v :: u64)) :: u8) = of_nat (unat v div 256 ^ n)"
  by (simp only: word_unat_eq_iff unat_of_nat_u8 unat_ucast_u8 unat_drop_bit_div power_mult) simp

lemma writes_uint64_put_started:
  "writes os d (asn1_uint64_put os d v n True) (be_bytes n (unat v)) n"
proof (induction n)
  case 0
  have "asn1_uint64_put os d v 0 True = (\<lambda>cbb. (True, cbb))" by (rule ext) simp
  then show ?case by (simp add: writes_nothing)
next
  case (Suc n)
  have "asn1_uint64_put os d v (Suc n) True
      = (\<lambda>cbb. cbb_seq (CBB_add_u8 os d (of_nat (unat v div 256 ^ n)) cbb) (asn1_uint64_put os d v n True))"
    by (rule ext) (simp add: octet_of_shift)
  then show ?case using writes_u8_seq [OF Suc] by (simp add: be_bytes_Cons)
qed

lemma int_octets_be_bytes:
  assumes "of_nat (m div 256 ^ n) \<noteq> (0 :: u8)"
  shows "int_octets (int (m mod 256 ^ Suc n)) =
    (if hi (of_nat (m div 256 ^ n)) then [0] else []) @ be_bytes (Suc n) m" (is "_ = ?bs")
proof -
  have "be_nat ?bs = m mod 256 ^ Suc n"
    using be_nat_be_bytes [of "Suc n" m] by (simp add: be_nat_Cons)
  moreover have "be_int ?bs = int (be_nat ?bs)"
    by (rule be_int_lo) (simp add: be_bytes_Cons hi_def)
  moreover have "shortest ?bs"
    using assms by (auto simp: shortest_def be_bytes_Cons) (auto simp: hi_def)
  ultimately show ?thesis by (metis int_octets_be_int)
qed

lemma writes_uint64_put:
  "writes os d (asn1_uint64_put os d v n False) (int_octets (int (unat v mod 256 ^ n))) (n + 2)"
proof (induction n)
  case 0
  have "asn1_uint64_put os d v 0 False = CBB_add_u8 os d 0" by (rule ext) simp
  then show ?case
    using writes_mono [OF writes_CBB_add_u8, of "Suc (Suc 0)" os d 0] by (simp add: int_octets_single)
next
  case (Suc n)
  define b where "b = (of_nat (unat v div 256 ^ n) :: u8)"
  have step: "asn1_uint64_put os d v (Suc n) False cbb =
      (if b = 0 then asn1_uint64_put os d v n False cbb
       else cbb_seq (if hi b then CBB_add_u8 os d 0 cbb else (True, cbb))
              (\<lambda>cbb. cbb_seq (CBB_add_u8 os d b cbb) (asn1_uint64_put os d v n True)))" for cbb
    by (simp add: octet_of_shift b_def hi_and Let_def)
  show ?case
  proof (cases "b = 0")
    case True
    then have "unat b = 0" by simp
    then have "unat v div 256 ^ n mod 256 = 0" unfolding b_def by (simp add: unat_of_nat_u8)
    then have "unat v mod 256 ^ Suc n = unat v mod 256 ^ n"
      by (simp only: power_Suc2 mod_mult2_eq mult_0_right add_0)
    moreover have "asn1_uint64_put os d v (Suc n) False = asn1_uint64_put os d v n False"
      by (rule ext) (simp only: step True simp_thms if_True)
    ultimately show ?thesis using writes_mono [OF Suc] by simp
  next
    case False
    have body: "writes os d (\<lambda>cbb. cbb_seq (CBB_add_u8 os d b cbb) (asn1_uint64_put os d v n True))
        (be_bytes (Suc n) (unat v)) (Suc n)"
      using writes_u8_seq [OF writes_uint64_put_started] by (simp only: be_bytes_Cons b_def)
    have oct: "int_octets (int (unat v mod 256 ^ Suc n)) = (if hi b then [0] else []) @ be_bytes (Suc n) (unat v)"
      using int_octets_be_bytes False unfolding b_def by blast
    show ?thesis
    proof (cases "hi b")
      case True
      then have "asn1_uint64_put os d v (Suc n) False = (\<lambda>cbb. cbb_seq (CBB_add_u8 os d 0 cbb)
          (\<lambda>cbb. cbb_seq (CBB_add_u8 os d b cbb) (asn1_uint64_put os d v n True)))"
        using False by (intro ext) (simp only: step if_True if_False)
      then show ?thesis using writes_mono [OF writes_u8_seq [OF body]] True by (simp only: oct) simp
    next
      case lo: False
      then have "asn1_uint64_put os d v (Suc n) False =
          (\<lambda>cbb. cbb_seq (CBB_add_u8 os d b cbb) (asn1_uint64_put os d v n True))"
        using False by (intro ext) (simp only: step if_False cbb_seq_def [of "(True, _)"] prod.case bool.case)
      then show ?thesis using writes_mono [OF body] lo by (simp only: oct) simp
    qed
  qed
qed

lemma uint64_octets_length: "length (int_octets (int (unat (v :: u64)))) \<le> Suc 8"
  using unsigned_less [where ?'a = int, of v]
  by (intro length_int_octets order_trans [OF _ of_nat_0_le_iff]) simp_all

lemma writes_CBB_add_asn1_uint64:
  "writes os d (CBB_add_asn1_uint64 os d v)
     (der_element CBS_ASN1_INTEGER (int_octets (int (unat v)))) 21"
proof -
  have "unat v mod 256 ^ 8 = unat v" using unsigned_less [where ?'a = nat, of v] by simp
  then have "writes os (Suc d) (asn1_uint64_put os (Suc d) v 8 False) (int_octets (int (unat v))) 10"
    using writes_uint64_put [of os "Suc d" v 8] by simp
  moreover have "CBB_add_asn1_uint64 os d v
      = in_child os d (CBB_add_asn1 os d CBS_ASN1_INTEGER) (asn1_uint64_put os (Suc d) v 8 False)"
    by (rule ext) (simp add: CBB_add_asn1_uint64_def in_child_def)
  ultimately show ?thesis
    using writes_asn1 [of os d _ _ 10 CBS_ASN1_INTEGER] uint64_octets_length [of v] by simp
qed

text \<open>Skipping a redundant sign octet keeps the value; at the end none is left.\<close>

lemma be_int_drop_sign: "hi c \<Longrightarrow> be_int (0xff # c # cs) = be_int (c # cs)"
  by (simp add: be_int_def be_nat_Cons hi_def)

lemma int64_start_spec:
  assumes "s < length bytes" "hi (bytes ! s)" "r = int64_start bytes s"
  shows "r \<le> s \<and> shortest (rev (take (Suc r) bytes))
    \<and> be_int (rev (take (Suc r) bytes)) = be_int (rev (take (Suc s) bytes))"
  using assms
proof (induction s arbitrary: r)
  case 0
  then show ?case by (simp add: shortest_def take_Suc_conv_app_nth)
next
  case (Suc s)
  have rt: "rev (take (Suc (Suc s)) bytes) = bytes ! Suc s # bytes ! s # rev (take s bytes)"
    using Suc.prems by (simp add: take_Suc_conv_app_nth)
  show ?case
  proof (cases "bytes ! Suc s = 0xff \<and> hi (bytes ! s)")
    case True
    then have "be_int (rev (take (Suc (Suc s)) bytes)) = be_int (rev (take (Suc s) bytes))"
      using Suc.prems(1) by (simp add: rt be_int_drop_sign take_Suc_conv_app_nth)
    with True Suc show ?thesis by (simp add: hi_and)
  next
    case False
    have "bytes ! Suc s \<noteq> 0" using Suc.prems by (auto simp: hi_def)
    moreover have "r = Suc s" using False Suc.prems(3) by (auto simp: hi_and)
    ultimately show ?thesis using False rt by (simp add: shortest_def)
  qed
qed

lemma writes_int64_put:
  "n \<le> length bytes \<Longrightarrow> writes os d (int64_put os d bytes n) (rev (take n bytes)) n"
proof (induction n)
  case 0
  have "int64_put os d bytes 0 = (\<lambda>cbb. (True, cbb))" by (rule ext) simp
  then show ?case by (simp add: writes_nothing)
next
  case (Suc n)
  have "int64_put os d bytes (Suc n) = (\<lambda>cbb. cbb_seq (CBB_add_u8 os d (bytes ! n) cbb) (int64_put os d bytes n))"
    by (rule ext) simp
  with writes_u8_seq [OF Suc.IH] Suc.prems show ?case by (simp add: take_Suc_conv_app_nth)
qed

lemma sint_of_int_small:
  "- (128 * 256 ^ 7) \<le> i \<Longrightarrow> i < 128 * 256 ^ 7 \<Longrightarrow> sint (of_int i :: u64) = i"
  by (simp add: sint_sbintrunc' signed_take_bit_int_eq_self)

lemma be_int_le_bytes: "be_int (rev (le_bytes 8 (unat (v :: u64)))) = sint v"
proof -
  let ?d = "rev (le_bytes 8 (unat v))"
  have "le_nat (le_bytes 8 (unat v)) = unat v"
    using unsigned_less [where ?'a = nat, of v] by (simp add: le_nat_le_bytes)
  then have v: "v = of_int (be_int ?d)"
    using int64_value [of ?d] by (simp add: int64_fill_eq) (metis list.size(3) length_le_bytes numeral_neq_zero)
  have "- (128 * 256 ^ 7) \<le> be_int ?d \<and> be_int ?d < 128 * 256 ^ 7"
    by (rule be_int_range) (auto dest: arg_cong [of _ _ length])
  with v show ?thesis using sint_of_int_small by metis
qed

lemma CBB_add_asn1_int64_negative:
  assumes "sint v < 0"
  shows "writes os d (CBB_add_asn1_int64 os d v)
     (der_element CBS_ASN1_INTEGER (int_octets (sint v))) 21"
proof -
  let ?b = "le_bytes 8 (unat v)"
  define r where "r = int64_start ?b 7"
  have full: "take (Suc 7) ?b = ?b" by simp
  have "rev ?b \<noteq> []" by (auto dest: arg_cong [of _ _ length])
  moreover from this have "hd (rev ?b) = ?b ! 7" by (simp add: hd_rev last_conv_nth)
  ultimately have "hi (?b ! 7)"
    using assms be_int_lo [of "rev ?b"] be_int_le_bytes [of v] by auto
  then have r: "r \<le> 7" "rev (take (Suc r) ?b) = int_octets (sint v)"
    using int64_start_spec [of 7 ?b r] full be_int_le_bytes [of v] by (simp_all add: r_def int_octets_iff)
  then have "writes os (Suc d) (int64_put os (Suc d) ?b (Suc r)) (int_octets (sint v)) 10"
    using writes_mono [OF writes_int64_put, of "Suc r" ?b 10 os "Suc d"] by simp
  moreover have "CBB_add_asn1_int64 os d v
      = in_child os d (CBB_add_asn1 os d CBS_ASN1_INTEGER) (int64_put os (Suc d) ?b (Suc r))"
    using assms by (intro ext) (simp add: CBB_add_asn1_int64_def in_child_def r_def Let_def)
  moreover have "length (int_octets (sint v)) \<le> 8"
    using r(1) by (simp flip: r(2))
  ultimately show ?thesis
    using writes_asn1 [of os d _ _ 10 CBS_ASN1_INTEGER] by simp
qed

lemma writes_CBB_add_asn1_int64:
  "writes os d (CBB_add_asn1_int64 os d v)
     (der_element CBS_ASN1_INTEGER (int_octets (sint v))) 21"
proof (cases "sint v < 0")
  case False
  let ?b = "le_bytes 8 (unat v)"
  have "le_nat ?b = unat v"
    using unsigned_less [where ?'a = nat, of v] by (simp add: le_nat_le_bytes)
  moreover have "\<not> (rev ?b \<noteq> [] \<and> hi (hd (rev ?b)))"
    using False be_int_hi [of "rev ?b"] be_int_le_bytes [of v] by auto
  ultimately have "sint v = int (unat v)"
    using be_int_lo [of "rev ?b"] be_int_le_bytes [of v] by (simp add: be_nat_rev)
  moreover have "CBB_add_asn1_int64 os d v = CBB_add_asn1_uint64 os d v"
    using False by (intro ext) (simp add: CBB_add_asn1_int64_def)
  ultimately show ?thesis using writes_CBB_add_asn1_uint64 by metis
qed (rule CBB_add_asn1_int64_negative)

lemma writes_CBB_add_asn1_octet_string:
  "length data \<le> 0xfffffffe \<Longrightarrow> writes os d (CBB_add_asn1_octet_string os d data)
     (der_element CBS_ASN1_OCTETSTRING data) (length data + 11)"
proof -
  assume "length data \<le> 0xfffffffe"
  moreover have "CBB_add_asn1_octet_string os d data
      = in_child os d (CBB_add_asn1 os d CBS_ASN1_OCTETSTRING) (CBB_add_bytes os (Suc d) data)"
    by (rule ext) (simp add: CBB_add_asn1_octet_string_def in_child_def)
  ultimately show ?thesis
    using writes_asn1 [OF writes_CBB_add_bytes] by simp
qed

lemma writes_CBB_add_asn1_bool:
  "writes os d (CBB_add_asn1_bool os d v)
     (der_element CBS_ASN1_BOOLEAN [if v \<noteq> 0 then 0xff else 0]) 12"
proof -
  have "CBB_add_asn1_bool os d v
      = in_child os d (CBB_add_asn1 os d CBS_ASN1_BOOLEAN) (CBB_add_u8 os (Suc d) (if v \<noteq> 0 then 0xff else 0))"
    by (rule ext) (simp add: CBB_add_asn1_bool_def in_child_def)
  then show ?thesis
    using writes_asn1 [OF writes_CBB_add_u8] by simp
qed

text \<open>A Boolean is read exactly when it is one of the two DER forms.\<close>

lemma CBS_get_asn1_bool_iff:
  "CBS_get_asn1_bool cbs = (Some v, rest) \<longleftrightarrow>
     (v = 0 \<or> v = 1) \<and> cbs = der_element CBS_ASN1_BOOLEAN [if v \<noteq> 0 then 0xff else 0] @ rest"
proof
  assume "CBS_get_asn1_bool cbs = (Some v, rest)"
  then obtain body where "CBS_get_asn1 CBS_ASN1_BOOLEAN cbs = (Some body, rest)" "length body = 1"
    "hd body = 0 \<or> hd body = 0xff" "v = (if hd body \<noteq> 0 then 1 else 0)"
    by (auto simp: CBS_get_asn1_bool_def and_then_Some_iff CBS_len_def CBS_data_def Let_def split: if_splits)
  then show "(v = 0 \<or> v = 1) \<and> cbs = der_element CBS_ASN1_BOOLEAN [if v \<noteq> 0 then 0xff else 0] @ rest"
    by (auto simp: CBS_get_asn1_iff length_Suc_conv)
qed (auto simp: CBS_get_asn1_bool_def CBS_len_def CBS_data_def)

end
