(* ===== verification/Oid.thy ===== *)
theory Oid
  imports Integer "HOL-Library.Multiset"
begin

text \<open>
  Object identifiers: \<open>CBB_add_asn1_oid_from_text\<close> of \<open>cbb.c\<close> turns dotted decimal text
  into the contents octets of an OID and \<open>CBS_asn1_oid_to_text\<close> of \<open>cbs.c\<close> turns them back.
  Both are shown to implement one specification over lists of components, so that the texts
  the one accepts are exactly the texts the other prints.
\<close>

section \<open>Specification\<close>

fun decimal :: "nat \<Rightarrow> u8 list" where
  "decimal n = (if n < 10 then [of_nat (48 + n)] else decimal (n div 10) @ [of_nat (48 + n mod 10)])"

declare decimal.simps [simp del]

fun dotted :: "nat list \<Rightarrow> u8 list" where
  "dotted [] = []"
| "dotted (n # ns) = decimal n @ (if ns = [] then [] else 46 # dotted ns)"

fun oid_octets :: "nat list \<Rightarrow> u8 list" where
  "oid_octets (a # b # ns) = der_base128 (40 * a + b) @ concat (map der_base128 ns)"
| "oid_octets _ = []"

fun valid_oid :: "nat list \<Rightarrow> bool" where
  "valid_oid (a # b # ns) =
     (a \<le> 2 \<and> (a < 2 \<longrightarrow> b \<le> 39) \<and> b + 80 < 2 ^ 64 \<and> list_all (\<lambda>n. n < 2 ^ 64) ns)"
| "valid_oid _ = False"

section \<open>Text to octets\<close>

definition UINT64_MAX :: u64 where
  "UINT64_MAX = 0xffffffffffffffff"

fun dotted_loop :: "bool \<Rightarrow> u64 \<Rightarrow> CBS \<Rightarrow> u64 option \<times> CBS" where
  "dotted_loop seen_digit out [] = (if seen_digit then Some out else None, [])"
| "dotted_loop seen_digit out (u # cbs) =
     (if u = 46 \<and> CBS_len cbs > 0 then (if seen_digit then Some out else None, cbs)
      else if u < 48 \<or> u > 57 \<or> (seen_digit \<and> out = 0)
         \<or> out > UINT64_MAX div 10 \<or> out * 10 > UINT64_MAX - (ucast u - 48)
      then (None, cbs)
      else dotted_loop True (out * 10 + (ucast u - 48)) cbs)"

definition parse_dotted_decimal :: "CBS \<Rightarrow> u64 option \<times> CBS" where
  "parse_dotted_decimal cbs = dotted_loop False 0 cbs"

lemma dotted_loop_shrinks: "length (snd (dotted_loop seen out cbs)) \<le> length cbs"
proof (induction seen out cbs rule: dotted_loop.induct)
  case (2 seen out u cbs)
  then show ?case by (auto simp: le_SucI)
qed simp

lemma parse_dotted_shrinks:
  assumes "parse_dotted_decimal cbs = (Some v, cbs')"
  shows "length cbs' < length cbs"
proof (cases cbs)
  case Nil
  with assms show ?thesis by (simp add: parse_dotted_decimal_def)
next
  case (Cons u cbs1)
  have "length cbs' \<le> length cbs1" if "dotted_loop True out cbs1 = (Some v, cbs')" for out
    using dotted_loop_shrinks [of True out cbs1] that by simp
  with Cons assms show ?thesis
    by (auto simp: parse_dotted_decimal_def less_Suc_eq_le split: if_splits)
qed

function oid_text_loop :: "(nat \<Rightarrow> bool) \<Rightarrow> nat \<Rightarrow> CBS \<Rightarrow> CBB \<Rightarrow> bool \<times> CBB" where
  "oid_text_loop os d cbs cbb =
     (if CBS_len cbs = 0 then (True, cbb)
      else case parse_dotted_decimal cbs of
             (None, _) \<Rightarrow> (False, cbb)
           | (Some a, cbs) \<Rightarrow> cbb_seq (add_base128_integer os d a cbb) (oid_text_loop os d cbs))"
  by pat_completeness auto
termination
  by (relation "measure (\<lambda>(os, d, cbs, cbb). length cbs)") (auto intro: parse_dotted_shrinks dest: sym)

declare oid_text_loop.simps [simp del]

definition CBB_add_asn1_oid_from_text :: "(nat \<Rightarrow> bool) \<Rightarrow> nat \<Rightarrow> u8 list \<Rightarrow> CBB \<Rightarrow> bool \<times> CBB" where
  "CBB_add_asn1_oid_from_text os d text cbb =
     cbb_seq (CBB_flush os d cbb) (\<lambda>cbb.
       case parse_dotted_decimal (CBS_init text) of
         (None, _) \<Rightarrow> (False, cbb)
       | (Some a, cbs) \<Rightarrow>
           (case parse_dotted_decimal cbs of
              (None, _) \<Rightarrow> (False, cbb)
            | (Some b, cbs) \<Rightarrow>
                if a > 2 \<or> (a < 2 \<and> b > 39) \<or> b > UINT64_MAX - 80 then (False, cbb)
                else cbb_seq (add_base128_integer os d (40 * a + b) cbb) (oid_text_loop os d cbs)))"

section \<open>Octets to text\<close>

text \<open>\<open>add_decimal\<close> prints with \<open>%PRIu64\<close> into a buffer that holds every 64-bit number.\<close>

definition add_decimal :: "(nat \<Rightarrow> bool) \<Rightarrow> nat \<Rightarrow> u64 \<Rightarrow> CBB \<Rightarrow> bool \<times> CBB" where
  "add_decimal os d v = CBB_add_bytes os d (decimal (unat v))"

lemma base128_loop_shrinks: "length (snd (base128_loop v cbs)) \<le> length cbs"
  by (induction v cbs rule: base128_loop.induct) (auto simp: Let_def le_SucI)

lemma parse_base128_shrinks:
  assumes "parse_base128_integer cbs = (Some v, cbs')"
  shows "length cbs' < length cbs"
  using assms by (simp add: parse_base128_iff der_base128_def)

function oid_octets_loop :: "(nat \<Rightarrow> bool) \<Rightarrow> nat \<Rightarrow> CBS \<Rightarrow> CBB \<Rightarrow> bool \<times> CBB" where
  "oid_octets_loop os d copy cbb =
     (if CBS_len copy = 0 then (True, cbb)
      else case parse_base128_integer copy of
             (None, _) \<Rightarrow> (False, cbb)
           | (Some v, copy) \<Rightarrow>
               cbb_seq (CBB_add_u8 os d 46 cbb) (\<lambda>cbb.
               cbb_seq (add_decimal os d v cbb) (oid_octets_loop os d copy)))"
  by pat_completeness auto
termination
  by (relation "measure (\<lambda>(os, d, cbs, cbb). length cbs)") (auto intro: parse_base128_shrinks dest: sym)

declare oid_octets_loop.simps [simp del]

text \<open>The result is the C string returned, its terminator included.\<close>

definition put_first_components :: "(nat \<Rightarrow> bool) \<Rightarrow> nat \<Rightarrow> u64 \<Rightarrow> CBB \<Rightarrow> bool \<times> CBB" where
  "put_first_components os d v cbb =
     (if v \<ge> 80
      then cbb_seq (CBB_add_bytes os d [50, 46] cbb) (add_decimal os d (v - 80))
      else cbb_seq (add_decimal os d (v div 40) cbb) (\<lambda>cbb.
           cbb_seq (CBB_add_u8 os d 46 cbb) (add_decimal os d (v mod 40))))"

definition CBS_asn1_oid_to_text :: "(nat \<Rightarrow> bool) \<Rightarrow> CBS \<Rightarrow> u8 list option" where
  "CBS_asn1_oid_to_text os cbs =
     (case CBB_init os 32 of
        (False, _) \<Rightarrow> None
      | (True, cbb) \<Rightarrow>
        (case parse_base128_integer cbs of
           (None, _) \<Rightarrow> None
         | (Some v, copy) \<Rightarrow>
           (case cbb_seq (put_first_components os 0 v cbb)
                   (\<lambda>cbb. cbb_seq (oid_octets_loop os 0 copy cbb) (CBB_add_u8 os 0 0)) of
              (False, _) \<Rightarrow> None
            | (True, cbb) \<Rightarrow> fst (CBB_finish os 0 True cbb))))"

section \<open>The decimal parser\<close>

lemma decimal_snoc: "n \<noteq> 0 \<Longrightarrow> m < 10 \<Longrightarrow> decimal (n * 10 + m) = decimal n @ [of_nat (48 + m)]"
  by (subst decimal.simps) simp

lemma decimal_digit: "m < 10 \<Longrightarrow> decimal m = [of_nat (48 + m)]"
  by (subst decimal.simps) simp

lemma unat_digit: "m < 10 \<Longrightarrow> unat (of_nat (48 + m) :: u8) = 48 + m"
  by (rule unat_of_nat_u8_id) simp

lemma digit_overflow:
  assumes "m < 10"
  shows "out > UINT64_MAX div 10 \<or> out * 10 > UINT64_MAX - of_nat m \<longleftrightarrow> 2 ^ 64 \<le> unat out * 10 + m"
proof -
  have um: "unat (of_nat m :: u64) = m" using assms by (intro unat_of_nat_u64_id) simp
  have max: "unat UINT64_MAX = 18446744073709551615" by (simp add: UINT64_MAX_def)
  have 1: "out > UINT64_MAX div 10 \<longleftrightarrow> unat out > 1844674407370955161"
    by (simp add: word_less_nat_alt unat_div max)
  show ?thesis
  proof (cases "unat out > 1844674407370955161")
    case True
    with 1 show ?thesis by simp
  next
    case False
    then have "unat (out * 10) = unat out * 10"
      by (simp add: unat_word_ariths)
    moreover have "unat (UINT64_MAX - of_nat m) = 18446744073709551615 - m"
      using assms by (subst unat_sub) (simp_all add: word_le_nat_alt um max)
    ultimately have "out * 10 > UINT64_MAX - of_nat m \<longleftrightarrow> 18446744073709551615 - m < unat out * 10"
      by (simp add: word_less_nat_alt)
    with 1 False assms show ?thesis by auto
  qed
qed

lemma dotted_step:
  assumes m: "m < 10"
  shows "dotted_loop seen out (of_nat (48 + m) # cbs) =
    (if seen \<and> out = 0 \<or> 2 ^ 64 \<le> unat out * 10 + m then (None, cbs)
     else dotted_loop True (of_nat (unat out * 10 + m)) cbs)"
proof -
  define u where "u = (of_nat (48 + m) :: u8)"
  have u: "unat u = 48 + m" unfolding u_def using m by (rule unat_digit)
  have um: "unat (of_nat m :: u64) = m" using m by (intro unat_of_nat_u64_id) simp
  have sub: "(ucast u - 48 :: u64) = of_nat m"
  proof -
    have "unat (ucast u :: u64) = 48 + m" by (simp add: unat_ucast_up u)
    then have "(ucast u :: u64) = of_nat (48 + m)" by (metis of_nat_unat_id)
    then show ?thesis by simp
  qed
  have rng: "u \<noteq> 46" "\<not> u < 48" "\<not> u > 57"
    using m u by (auto simp: word_less_nat_alt word_unat_eq_iff)
  have val: "out * 10 + of_nat m = of_nat (unat out * 10 + m)" by simp
  show ?thesis
    unfolding u_def [symmetric]
    using rng digit_overflow [OF m, of out] by (simp add: sub val del: of_nat_add of_nat_mult)
qed

lemma dotted_loop_decimal:
  "n < 2 ^ 64 \<Longrightarrow> dotted_loop False 0 (decimal n @ t) = dotted_loop True (of_nat n) t"
proof (induction n arbitrary: t rule: decimal.induct)
  case (1 n)
  show ?case
  proof (cases "n < 10")
    case True
    then show ?thesis using dotted_step [of n False 0 t] by (simp add: decimal_digit)
  next
    case False
    have n: "n = n div 10 * 10 + n mod 10" by simp
    have q: "n div 10 < 2 ^ 64" using "1.prems" by (meson div_le_dividend le_less_trans)
    then have u: "unat (of_nat (n div 10) :: u64) = n div 10" by (rule unat_of_nat_u64_id)
    have nz: "(of_nat (n div 10) :: u64) \<noteq> 0" using False u by (metis div_eq_0_iff unat_0 zero_neq_numeral)
    have "decimal n = decimal (n div 10) @ [of_nat (48 + n mod 10)]"
      using False by (subst decimal.simps) (simp only: if_False)
    then have "dotted_loop False 0 (decimal n @ t) = dotted_loop True (of_nat (n div 10)) (of_nat (48 + n mod 10) # t)"
      using 1(1) [OF False q] by simp
    also have "\<dots> = dotted_loop True (of_nat n) t"
      using dotted_step [of "n mod 10" True "of_nat (n div 10)" t] nz "1.prems" by (simp only: u simp_thms flip: n) simp
    finally show ?thesis .
  qed
qed

lemma dotted_loop_sound:
  assumes "dotted_loop seen out cbs = (Some v, rest)" "\<not> seen \<Longrightarrow> out = 0"
  shows "(if seen then decimal (unat out) else []) @ cbs
    = decimal (unat v) @ (if rest = [] then [] else 46 # rest)"
  using assms
proof (induction cbs arbitrary: seen out)
  case Nil
  then show ?case by (auto split: if_splits)
next
  case (Cons u cbs)
  show ?case
  proof (cases "u = 46 \<and> CBS_len cbs > 0")
    case True
    with Cons.prems show ?thesis by (auto simp: CBS_len_def split: if_splits)
  next
    case False
    define m where "m = unat u - 48"
    have rng: "\<not> u < 48" "\<not> u > 57"
      using Cons.prems False by (auto split: if_splits)
    then have m: "m < 10" and um: "unat u = 48 + m"
      by (auto simp: m_def word_less_nat_alt not_less)
    have u: "u = of_nat (48 + m)" by (rule of_nat_unat_id [OF um, symmetric])
    note step = dotted_step [OF m, of seen out cbs, folded u]
    have nz: "\<not> (seen \<and> out = 0)" and ov: "\<not> 2 ^ 64 \<le> unat out * 10 + m"
      and rec: "dotted_loop True (of_nat (unat out * 10 + m)) cbs = (Some v, rest)"
      using Cons.prems(1) unfolding step by (auto split: if_splits simp del: of_nat_add of_nat_mult)
    have uo: "unat (of_nat (unat out * 10 + m) :: u64) = unat out * 10 + m"
      using ov by (intro unat_of_nat_u64_id) simp
    have "decimal (unat (of_nat (unat out * 10 + m) :: u64)) @ cbs
        = decimal (unat v) @ (if rest = [] then [] else 46 # rest)"
      using Cons.IH [OF rec] by simp
    moreover have "decimal (unat out * 10 + m) = (if seen then decimal (unat out) else []) @ [u]"
      using nz m Cons.prems(2) by (auto simp: decimal_snoc decimal_digit u unat_eq_zero)
    ultimately show ?thesis unfolding uo by simp
  qed
qed

lemma parse_dotted_decimal_iff:
  "parse_dotted_decimal cbs = (Some v, rest) \<longleftrightarrow>
     cbs = decimal (unat v) @ (if rest = [] then [] else 46 # rest)"
proof
  assume "parse_dotted_decimal cbs = (Some v, rest)"
  then show "cbs = decimal (unat v) @ (if rest = [] then [] else 46 # rest)"
    using dotted_loop_sound [of False 0 cbs v rest] by (simp add: parse_dotted_decimal_def)
next
  assume cbs: "cbs = decimal (unat v) @ (if rest = [] then [] else 46 # rest)"
  have "parse_dotted_decimal cbs = dotted_loop True v (if rest = [] then [] else 46 # rest)"
    unfolding parse_dotted_decimal_def cbs
    using dotted_loop_decimal [of "unat v"] unsigned_less [where ?'a = nat, of v] by simp
  then show "parse_dotted_decimal cbs = (Some v, rest)"
    by (simp add: CBS_len_def)
qed

lemma decimal_not_Nil [simp]: "decimal n \<noteq> []"
  by (subst decimal.simps) simp

lemma dotted_Nil_iff [simp]: "dotted ns = [] \<longleftrightarrow> ns = []"
  by (cases ns) auto

lemma parse_dotted [simp]:
  "n < 2 ^ 64 \<Longrightarrow> parse_dotted_decimal (dotted (n # ns)) = (Some (of_nat n), dotted ns)"
  by (simp add: parse_dotted_decimal_iff unat_of_nat_u64_id)

section \<open>The writer\<close>

lemma unat_u64_less: "unat (v :: u64) < 18446744073709551616"
  using unsigned_less [where ?'a = nat, of v] by simp

lemma writes_oid_text_loop:
  "list_all (\<lambda>n. n < 2 ^ 64) ns \<Longrightarrow>
     writes os d (oid_text_loop os d (dotted ns)) (concat (map der_base128 ns))
       (length (concat (map der_base128 ns)))"
proof (induction ns)
  case Nil
  have "oid_text_loop os d (dotted []) = (\<lambda>cbb. (True, cbb))"
    by (rule ext) (subst oid_text_loop.simps, simp add: CBS_len_def)
  then show ?case by (simp add: writes_nothing)
next
  case (Cons n ns)
  then have n: "n < 2 ^ 64" by simp
  then have u: "unat (of_nat n :: u64) = n" by (rule unat_of_nat_u64_id)
  have "oid_text_loop os d (dotted (n # ns))
      = (\<lambda>cbb. cbb_seq (add_base128_integer os d (of_nat n) cbb) (oid_text_loop os d (dotted ns)))"
    using parse_dotted [OF n, of ns]
    by (intro ext) (subst oid_text_loop.simps, simp add: CBS_len_def del: dotted.simps)
  then show ?case
    using writes_seq [OF writes_add_base128_integer [of os d "of_nat n"]] Cons by (simp add: u)
qed

lemma oid_text_loop_sound:
  "fst (oid_text_loop os d cbs cbb) \<Longrightarrow> \<exists>ns. list_all (\<lambda>n. n < 2 ^ 64) ns \<and> cbs = dotted ns"
proof (induction os d cbs cbb rule: oid_text_loop.induct)
  case (1 os d cbs cbb)
  show ?case
  proof (cases "cbs = []")
    case True
    then show ?thesis by (intro exI [of _ "[]"]) simp
  next
    case False
    then obtain a cbs' cbb' where a: "parse_dotted_decimal cbs = (Some a, cbs')"
      and rec: "fst (oid_text_loop os d cbs' cbb')"
      using "1.prems" unfolding oid_text_loop.simps [of os d cbs cbb]
      by (auto simp: CBS_len_def cbb_seq_def split: prod.splits option.splits bool.splits)
    with False obtain ns where "list_all (\<lambda>n. n < 2 ^ 64) ns" "cbs' = dotted ns"
      using 1(1) [OF _ a [symmetric] refl rec] by (auto simp: CBS_len_def)
    with a show ?thesis
      by (intro exI [of _ "unat a # ns"]) (auto simp: parse_dotted_decimal_iff unat_u64_less)
  qed
qed

text \<open>The parser's side conditions are those of \<open>valid_oid\<close>.\<close>

lemma first_components:
  fixes a b :: u64
  shows
  "a \<le> 2 \<and> (a < 2 \<longrightarrow> b \<le> 39) \<and> \<not> b > UINT64_MAX - 80
    \<longleftrightarrow> unat a \<le> 2 \<and> (unat a < 2 \<longrightarrow> unat b \<le> 39) \<and> unat b + 80 < 2 ^ 64"
  by (auto simp: word_le_nat_alt word_less_nat_alt UINT64_MAX_def)

lemma first_subidentifier:
  "unat a \<le> 2 \<Longrightarrow> unat b + 80 < 2 ^ 64 \<Longrightarrow> unat (40 * a + b :: u64) = 40 * unat a + unat b"
  by (simp add: unat_word_ariths)

lemma oid_from_text_dotted:
  assumes "valid_oid (a # b # ns)" and ok: "cbb_ok d cbb bb"
  shows "CBB_add_asn1_oid_from_text os d (dotted (a # b # ns)) cbb
    = cbb_seq (add_base128_integer os d (of_nat (40 * a + b)) cbb) (oid_text_loop os d (dotted ns))"
proof -
  have a: "a < 2 ^ 64" and b: "b < 2 ^ 64" using assms(1) by simp_all
  then have u: "unat (of_nat a :: u64) = a" "unat (of_nat b :: u64) = b"
    by (simp_all add: unat_of_nat_u64_id)
  have "(40 * of_nat a + of_nat b :: u64) = of_nat (40 * a + b)" by simp
  moreover have "\<not> (of_nat a > (2 :: u64) \<or> (of_nat a < (2 :: u64) \<and> of_nat b > (39 :: u64))
      \<or> of_nat b > UINT64_MAX - 80)"
    using first_components [of "of_nat a" "of_nat b", unfolded u] assms(1) by auto
  ultimately show ?thesis
    using parse_dotted [OF a, of "b # ns"] parse_dotted [OF b, of ns] ok
    by (auto simp: CBB_add_asn1_oid_from_text_def CBB_flush_idle cbb_seq_def [of "(True, _)"] CBS_init_def
        simp del: dotted.simps of_nat_add of_nat_mult)
qed

lemma writes_oid_from_text:
  assumes v: "valid_oid ns"
  shows "writes os d (CBB_add_asn1_oid_from_text os d (dotted ns)) (oid_octets ns) (length (oid_octets ns))"
proof -
  obtain a b ms where ns: "ns = a # b # ms" using v by (cases ns rule: valid_oid.cases) auto
  have u: "unat (of_nat (40 * a + b) :: u64) = 40 * a + b"
    using v ns by (intro unat_of_nat_u64_id) auto
  have "writes os d (\<lambda>cbb. cbb_seq (add_base128_integer os d (of_nat (40 * a + b)) cbb) (oid_text_loop os d (dotted ms)))
      (oid_octets ns) (length (oid_octets ns))"
    using writes_seq [OF writes_add_base128_integer [of os d "of_nat (40 * a + b)"] writes_oid_text_loop [of ms]] v ns
    by (simp add: u del: of_nat_add of_nat_mult)
  then show ?thesis
    unfolding writes_def using oid_from_text_dotted [of a b ms d _ _ os] v unfolding ns by simp
qed

lemma oid_from_text_sound:
  assumes ok: "cbb_ok d cbb bb" and succ: "fst (CBB_add_asn1_oid_from_text os d text cbb)"
  shows "\<exists>ns. valid_oid ns \<and> text = dotted ns"
proof -
  obtain a b cbs1 cbs2 cbb' where 1: "parse_dotted_decimal text = (Some a, cbs1)"
    and 2: "parse_dotted_decimal cbs1 = (Some b, cbs2)"
    and rng: "a \<le> 2 \<and> (a < 2 \<longrightarrow> b \<le> 39) \<and> \<not> b > UINT64_MAX - 80"
    and rest: "fst (oid_text_loop os d cbs2 cbb')"
    using succ ok
    by (auto simp: CBB_add_asn1_oid_from_text_def CBB_flush_idle cbb_seq_def CBS_init_def not_less
        split: prod.splits option.splits bool.splits if_splits)
  obtain ns where "list_all (\<lambda>n. n < 2 ^ 64) ns" "cbs2 = dotted ns"
    using oid_text_loop_sound [OF rest] by blast
  then show ?thesis
    using 1 2 rng unfolding first_components
    by (intro exI [of _ "unat a # unat b # ns"]) (auto simp: parse_dotted_decimal_iff)
qed

section \<open>The printer\<close>

lemma length_decimal: "n < 10 ^ Suc k \<Longrightarrow> length (decimal n) \<le> Suc k"
proof (induction k arbitrary: n)
  case (Suc k)
  then have "n div 10 < 10 ^ Suc k" by (intro less_mult_imp_div_less) (simp add: mult.commute)
  then show ?case
    using Suc.IH by (cases "n < 10") (simp_all add: decimal_digit decimal.simps [of n])
qed (simp add: decimal_digit)

lemma writes_add_decimal: "writes os d (add_decimal os d v) (decimal (unat v)) (length (decimal (unat v)))"
proof -
  have "unat v < 10 ^ Suc 19" using unat_u64_less [of v] by (rule less_le_trans) simp
  then have "length (decimal (unat v)) < 2 ^ 64" using length_decimal by fastforce
  then show ?thesis unfolding add_decimal_def by (rule writes_CBB_add_bytes)
qed

abbreviation dot_decimals :: "nat list \<Rightarrow> u8 list" where
  "dot_decimals ns \<equiv> concat (map (\<lambda>n. 46 # decimal n) ns)"

lemma dotted_Cons: "dotted (n # ns) = decimal n @ dot_decimals ns"
  by (induction ns arbitrary: n) auto

lemma der_base128_not_Nil [simp]: "der_base128 n \<noteq> []"
  by (simp add: der_base128_def)

lemma writes_oid_octets_loop:
  "list_all (\<lambda>n. n < 2 ^ 64) ns \<Longrightarrow>
     writes os d (oid_octets_loop os d (concat (map der_base128 ns))) (dot_decimals ns) (length (dot_decimals ns))"
proof (induction ns)
  case Nil
  have "oid_octets_loop os d [] = (\<lambda>cbb. (True, cbb))"
    by (rule ext) (subst oid_octets_loop.simps, simp add: CBS_len_def)
  then show ?case by (simp add: writes_nothing)
next
  case (Cons n ns)
  then have u: "unat (of_nat n :: u64) = n" by (intro unat_of_nat_u64_id) simp
  then have "parse_base128_integer (concat (map der_base128 (n # ns))) = (Some (of_nat n), concat (map der_base128 ns))"
    by (simp add: parse_base128_iff)
  then have "oid_octets_loop os d (concat (map der_base128 (n # ns)))
      = (\<lambda>cbb. cbb_seq (CBB_add_u8 os d 46 cbb) (\<lambda>cbb.
          cbb_seq (add_decimal os d (of_nat n) cbb) (oid_octets_loop os d (concat (map der_base128 ns)))))"
    by (intro ext) (subst oid_octets_loop.simps, simp add: CBS_len_def)
  then show ?case
    using writes_u8_seq [OF writes_seq [OF writes_add_decimal [of os d "of_nat n"]]] Cons by (simp add: u)
qed

lemma oid_octets_loop_sound:
  "fst (oid_octets_loop os d cbs cbb)
    \<Longrightarrow> \<exists>ns. list_all (\<lambda>n. n < 2 ^ 64) ns \<and> cbs = concat (map der_base128 ns)"
proof (induction "length cbs" arbitrary: cbs cbb rule: less_induct)
  case less
  show ?case
  proof (cases "cbs = []")
    case True
    then show ?thesis by (intro exI [of _ "[]"]) simp
  next
    case False
    then obtain v cbs' cbb' where v: "parse_base128_integer cbs = (Some v, cbs')"
      and rec: "fst (oid_octets_loop os d cbs' cbb')"
      using less.prems unfolding oid_octets_loop.simps [of os d cbs cbb]
      by (auto simp: CBS_len_def cbb_seq_def split: prod.splits option.splits bool.splits)
    obtain ns where "list_all (\<lambda>n. n < 2 ^ 64) ns" "cbs' = concat (map der_base128 ns)"
      using less.hyps [OF parse_base128_shrinks [OF v] rec] by blast
    with v show ?thesis
      by (intro exI [of _ "unat v # ns"]) (auto simp: parse_base128_iff unat_u64_less)
  qed
qed

text \<open>The two components the first subidentifier stands for.\<close>

definition first_two :: "nat \<Rightarrow> nat \<times> nat" where
  "first_two v = (if v \<ge> 80 then (2, v - 80) else (v div 40, v mod 40))"

lemma valid_oid_first_two:
  "valid_oid (a # b # ns) \<Longrightarrow> first_two (40 * a + b) = (a, b)"
  by (cases "a < 2") (auto simp: first_two_def)

lemma first_two_valid:
  assumes "v < 2 ^ 64" "list_all (\<lambda>n. n < 2 ^ 64) ns" "first_two v = (a, b)"
  shows "valid_oid (a # b # ns) \<and> 40 * a + b = v"
proof (cases "v \<ge> 80")
  case False
  then have "v div 40 < 2" "v mod 40 < 40" by (simp_all add: less_mult_imp_div_less)
  with False assms show ?thesis by (auto simp: first_two_def)
qed (use assms in \<open>auto simp: first_two_def\<close>)

lemma writes_first_components:
  assumes "first_two (unat v) = (a, b)"
  shows "writes os d (put_first_components os d v) (decimal a @ 46 # decimal b) (length (decimal a @ 46 # decimal b))"
proof (cases "v \<ge> 80")
  case True
  then have u: "unat v \<ge> 80" "unat (v - 80) = unat v - 80" by (simp_all add: word_le_nat_alt unat_sub)
  have "put_first_components os d v
      = (\<lambda>cbb. cbb_seq (CBB_add_bytes os d [50, 46] cbb) (add_decimal os d (v - 80)))"
    using True by (intro ext) (simp add: put_first_components_def)
  moreover have "decimal 2 = [50]" by (simp add: decimal_digit)
  ultimately show ?thesis
    using writes_seq [OF writes_CBB_add_bytes [of "[50, 46]"] writes_add_decimal [of os d "v - 80"]] assms u
    by (auto simp: first_two_def)
next
  case False
  then have u: "\<not> unat v \<ge> 80" by (simp add: word_le_nat_alt)
  have "put_first_components os d v
      = (\<lambda>cbb. cbb_seq (add_decimal os d (v div 40) cbb) (\<lambda>cbb.
           cbb_seq (CBB_add_u8 os d 46 cbb) (add_decimal os d (v mod 40))))"
    using False by (intro ext) (simp add: put_first_components_def)
  then show ?thesis
    using writes_seq [OF writes_add_decimal [of os d "v div 40"] writes_u8_seq [OF writes_add_decimal [of os d "v mod 40"]]] assms u
    by (auto simp: first_two_def unat_div unat_mod)
qed

lemma writes_oid_text:
  assumes v: "first_two (unat v) = (a, b)" and ns: "list_all (\<lambda>n. n < 2 ^ 64) ns"
  shows "writes os d (\<lambda>cbb. cbb_seq (put_first_components os d v cbb)
      (\<lambda>cbb. cbb_seq (oid_octets_loop os d (concat (map der_base128 ns)) cbb) (CBB_add_u8 os d 0)))
    (dotted (a # b # ns) @ [0]) (length (dotted (a # b # ns) @ [0]))"
  using writes_seq [OF writes_first_components [OF v]
      writes_seq [OF writes_oid_octets_loop [OF ns] writes_CBB_add_u8 [of os d 0]]]
  by (simp add: dotted_Cons add.assoc del: dotted.simps)

lemma CBS_asn1_oid_to_text_sound:
  assumes "CBS_asn1_oid_to_text os cbs = Some txt"
  shows "\<exists>ns. valid_oid ns \<and> cbs = oid_octets ns \<and> txt = dotted ns @ [0]"
proof -
  obtain cbb v copy cbb2 where 0: "CBB_init os 32 = (True, cbb)"
    and 1: "parse_base128_integer cbs = (Some v, copy)"
    and 2: "cbb_seq (put_first_components os 0 v cbb)
      (\<lambda>cbb. cbb_seq (oid_octets_loop os 0 copy cbb) (CBB_add_u8 os 0 0)) = (True, cbb2)"
    and 3: "fst (CBB_finish os 0 True cbb2) = Some txt"
    using assms
    by (auto simp: CBS_asn1_oid_to_text_def split: prod.splits option.splits bool.splits)
  from 2 obtain cbb1 where 4: "fst (oid_octets_loop os 0 copy cbb1)"
    by (auto simp: cbb_seq_True_iff) (metis fst_conv)
  obtain ns where ns: "list_all (\<lambda>n. n < 2 ^ 64) ns" "copy = concat (map der_base128 ns)"
    using oid_octets_loop_sound [OF 4] by blast
  obtain a b where ab: "first_two (unat v) = (a, b)" by fastforce
  then have valid: "valid_oid (a # b # ns) \<and> 40 * a + b = unat v"
    using first_two_valid [OF _ ns(1) ab] unat_u64_less by simp
  have ok: "cbb_ok 0 cbb (fresh_buffer 32)" using CBB_init_ok [OF _ 0] by simp
  from writesD [OF writes_oid_text [OF ab ns(1)] ok 2 [unfolded ns(2)]] obtain bb where
    "cbb_ok 0 cbb2 bb" "bb_buf bb = bb_buf (fresh_buffer 32) @ dotted (a # b # ns) @ [0]" .
  then have "txt = dotted (a # b # ns) @ [0]"
    using 3 CBB_finish_idle [of cbb2 bb True os] by (simp add: fresh_buffer_def)
  with valid 1 ns show ?thesis
    by (intro exI [of _ "a # b # ns"]) (simp add: parse_base128_iff)
qed

lemma CBS_asn1_oid_to_text_total:
  assumes v: "valid_oid ns" and os: "\<And>m. os m" and len: "length (dotted ns) + 1 < 2 ^ 64"
  shows "CBS_asn1_oid_to_text os (oid_octets ns) = Some (dotted ns @ [0])"
proof -
  obtain a b ms where ns: "ns = a # b # ms" using v by (cases ns rule: valid_oid.cases) auto
  define w where "w = (of_nat (40 * a + b) :: u64)"
  have u: "unat w = 40 * a + b"
    unfolding w_def using v ns by (intro unat_of_nat_u64_id) auto
  then have ab: "first_two (unat w) = (a, b)" using valid_oid_first_two v ns by metis
  have ms: "list_all (\<lambda>n. n < 2 ^ 64) ms" using v ns by simp
  obtain cbb where 0: "CBB_init os 32 = (True, cbb)"
    using CBB_init_succeeds [of os 32] os by (metis prod.collapse)
  have ok: "cbb_ok 0 cbb (fresh_buffer 32)" using CBB_init_ok [OF _ 0] by simp
  have 1: "parse_base128_integer (oid_octets ns) = (Some w, concat (map der_base128 ms))"
    by (simp add: parse_base128_iff u ns)
  note w = writes_oid_text [OF ab ms, of os 0]
  have "roomy os (fresh_buffer 32) (length (dotted (a # b # ms) @ [0]))"
    using os len ns by (simp add: roomy_def fresh_buffer_def)
  from writes_succeeds [OF w ok this] obtain cbb2 where
    2: "cbb_seq (put_first_components os 0 w cbb)
      (\<lambda>cbb. cbb_seq (oid_octets_loop os 0 (concat (map der_base128 ms)) cbb) (CBB_add_u8 os 0 0)) = (True, cbb2)"
    by (metis prod.collapse)
  from writesD [OF w ok 2] obtain bb where "cbb_ok 0 cbb2 bb" "bb_buf bb = dotted ns @ [0]"
    by (auto simp: fresh_buffer_def ns)
  then show ?thesis
    using 0 1 2 CBB_finish_idle [of cbb2 bb True os] by (simp add: CBS_asn1_oid_to_text_def)
qed

section \<open>Sorting a SET OF\<close>

text \<open>libc's \<open>memcmp\<close> on equally many bytes, as the sign of the first difference.\<close>

fun OPENSSL_memcmp :: "u8 list \<Rightarrow> u8 list \<Rightarrow> int" where
  "OPENSSL_memcmp (x # xs) (y # ys) = (if x < y then -1 else if y < x then 1 else OPENSSL_memcmp xs ys)"
| "OPENSSL_memcmp _ _ = 0"

definition compare_set_of_element :: "CBS \<Rightarrow> CBS \<Rightarrow> int" where
  "compare_set_of_element a b =
     (let a_len = CBS_len a; b_len = CBS_len b;
          min_len = (if a_len < b_len then a_len else b_len);
          ret = OPENSSL_memcmp (take min_len (CBS_data a)) (take min_len (CBS_data b))
      in if ret \<noteq> 0 then ret
         else if a_len = b_len then 0
         else if a_len < b_len then -1 else 1)"

text \<open>\<open>qsort\<close> with a comparison function: the sorted permutation of the array.\<close>

fun insert_by :: "('a \<Rightarrow> 'a \<Rightarrow> int) \<Rightarrow> 'a \<Rightarrow> 'a list \<Rightarrow> 'a list" where
  "insert_by cmp x [] = [x]"
| "insert_by cmp x (y # ys) = (if cmp x y \<le> 0 then x # y # ys else y # insert_by cmp x ys)"

definition qsort :: "('a \<Rightarrow> 'a \<Rightarrow> int) \<Rightarrow> 'a list \<Rightarrow> 'a list" where
  "qsort cmp xs = foldr (insert_by cmp) xs []"

text \<open>Both parsing loops: the elements the buffer consists of.\<close>

lemma any_asn1_element_shrinks:
  assumes "CBS_get_any_asn1_element cbs = (Some r, rest)"
  shows "length rest < length cbs"
proof -
  obtain out tag hl where "r = (out, tag, hl)" by (cases r)
  with assms obtain body where "out = der_element tag body" "cbs = out @ rest"
    by (auto simp: CBS_get_any_asn1_element_iff)
  then show ?thesis
    using length_der_header [of tag "length body"] by (auto simp: length_der_element)
qed

function set_of_children :: "CBS \<Rightarrow> CBS list option" where
  "set_of_children cbs =
     (if CBS_len cbs = 0 then Some []
      else case CBS_get_any_asn1_element cbs of
             (None, _) \<Rightarrow> None
           | (Some (child, _, _), cbs) \<Rightarrow> map_option ((#) child) (set_of_children cbs))"
  by pat_completeness auto
termination
  by (relation "measure length") (auto intro: any_asn1_element_shrinks dest: sym)

declare set_of_children.simps [simp del]


text \<open>The children written back in their new order.\<close>

fun add_children :: "(nat \<Rightarrow> bool) \<Rightarrow> nat \<Rightarrow> CBS list \<Rightarrow> CBB \<Rightarrow> bool \<times> CBB" where
  "add_children os d [] cbb = (True, cbb)"
| "add_children os d (c # cs) cbb = cbb_seq (CBB_add_bytes os d c cbb) (add_children os d cs)"

definition sizeof_CBS :: nat where
  "sizeof_CBS = 16"

definition CBB_flush_asn1_set_of :: "(nat \<Rightarrow> bool) \<Rightarrow> nat \<Rightarrow> CBB \<Rightarrow> bool \<times> CBB" where
  "CBB_flush_asn1_set_of os d cbb =
     cbb_seq (CBB_flush os d cbb) (\<lambda>cbb.
       case set_of_children (CBS_init (CBB_data d cbb)) of
         None \<Rightarrow> (False, cbb)
       | Some children \<Rightarrow>
           if length children < 2 then (True, cbb)
           else if length children > (2 ^ 64 - 1) div sizeof_CBS then (False, cbb)
           else if OPENSSL_memdup os (CBB_data d cbb) = None
             \<or> \<not> malloc_ok os (length children * sizeof_CBS) then (False, cbb)
           else add_children os d (qsort compare_set_of_element children)
                  (cbb\<lparr>cbb_base := map_option (\<lambda>b. b\<lparr>bb_buf := take (cbb_start d cbb) (bb_buf b)\<rparr>) (cbb_base cbb)\<rparr>))"

text \<open>The order of X.690, section 11.6: lexicographic on the octets.\<close>

fun octets_le :: "u8 list \<Rightarrow> u8 list \<Rightarrow> bool" where
  "octets_le [] ys = True"
| "octets_le (x # xs) [] = False"
| "octets_le (x # xs) (y # ys) = (x < y \<or> x = y \<and> octets_le xs ys)"

lemma compare_set_of_element_Nil:
  "compare_set_of_element [] ys = (if ys = [] then 0 else -1)"
  "compare_set_of_element (x # xs) [] = 1"
  by (cases ys) (auto simp: compare_set_of_element_def CBS_len_def CBS_data_def)

lemma compare_set_of_element_Cons:
  "compare_set_of_element (x # xs) (y # ys) =
     (if x < y then -1 else if y < x then 1 else compare_set_of_element xs ys)"
  by (simp add: compare_set_of_element_def CBS_len_def CBS_data_def Let_def)

lemma compare_set_of_element_le: "compare_set_of_element xs ys \<le> 0 \<longleftrightarrow> octets_le xs ys"
  by (induction xs ys rule: octets_le.induct)
    (auto simp: compare_set_of_element_Nil compare_set_of_element_Cons)

lemma octets_le_total: "octets_le xs ys \<or> octets_le ys xs"
  by (induction xs ys rule: octets_le.induct) auto

lemma octets_le_trans: "octets_le xs ys \<Longrightarrow> octets_le ys zs \<Longrightarrow> octets_le xs zs"
proof (induction xs ys arbitrary: zs rule: octets_le.induct)
  case (3 x xs y ys)
  then show ?case by (cases zs) auto
qed auto

lemma octets_le_antisym: "octets_le xs ys \<Longrightarrow> octets_le ys xs \<Longrightarrow> xs = ys"
  by (induction xs ys rule: octets_le.induct) (auto elim: octets_le.elims)

lemma set_insert_by [simp]: "set (insert_by cmp x ys) = insert x (set ys)"
  by (induction ys) auto

lemma mset_insert_by [simp]: "mset (insert_by cmp x ys) = add_mset x (mset ys)"
  by (induction ys) auto

text \<open>
  What \<open>qsort\<close> and binary search rely on in a comparison function: a total preorder, given by
  the sign of the result.
\<close>

locale cmp_order =
  fixes cmp :: "'e \<Rightarrow> 'e \<Rightarrow> int"
  assumes flip: "cmp x y < 0 \<longleftrightarrow> 0 < cmp y x"
    and le_trans: "cmp x y \<le> 0 \<Longrightarrow> cmp y z \<le> 0 \<Longrightarrow> cmp x z \<le> 0"
begin

definition ascending :: "'e list \<Rightarrow> bool" where
  "ascending = sorted_wrt (\<lambda>x y. cmp x y \<le> 0)"

lemma insert_by_ascending:
  assumes "ascending xs"
  shows "ascending (insert_by cmp x xs)"
  using assms
proof (induction xs)
  case (Cons y ys)
  have "cmp y x \<le> 0" if "\<not> cmp x y \<le> 0" using that flip [of y x] by simp
  then show ?case
    using Cons by (auto simp: ascending_def intro: le_trans)
qed (simp add: ascending_def)

lemma qsort_ascending: "ascending (qsort cmp xs)"
  by (induction xs) (simp_all add: qsort_def insert_by_ascending, simp add: ascending_def)

end

lemma compare_set_of_element_flip: "compare_set_of_element x y < 0 \<longleftrightarrow> 0 < compare_set_of_element y x"
proof (induction x y rule: octets_le.induct)
  case (1 ys)
  then show ?case by (cases ys) (simp_all add: compare_set_of_element_Nil)
qed (auto simp: compare_set_of_element_Nil compare_set_of_element_Cons)

interpretation set_of: cmp_order compare_set_of_element
  by unfold_locales (auto simp: compare_set_of_element_flip compare_set_of_element_le intro: octets_le_trans)

lemma mset_qsort: "mset (qsort cmp xs) = mset xs"
  by (induction xs) (simp_all add: qsort_def)

lemma qsort_spec:
  "mset (qsort cmp xs) = mset xs" "sorted_wrt octets_le (qsort compare_set_of_element xs)"
  using mset_qsort [of cmp xs] set_of.qsort_ascending [of xs]
  by (simp_all add: set_of.ascending_def compare_set_of_element_le)

definition der_elements :: "u8 list list \<Rightarrow> bool" where
  "der_elements cs \<longleftrightarrow> (\<forall>c \<in> set cs. \<exists>tag body. length body < 2 ^ 32 \<and> c = der_element tag body)"

lemma set_of_children_iff:
  "set_of_children cbs = Some cs \<longleftrightarrow> cbs = concat cs \<and> der_elements cs"
proof (induction cs arbitrary: cbs)
  case Nil
  show ?case
    by (subst set_of_children.simps)
      (auto simp: CBS_len_def der_elements_def split: prod.splits option.splits)
next
  case (Cons c cs)
  have "set_of_children cbs = Some (c # cs) \<longleftrightarrow>
      (\<exists>tag hl rest. CBS_get_any_asn1_element cbs = (Some (c, tag, hl), rest) \<and> set_of_children rest = Some cs)"
    by (subst set_of_children.simps)
      (auto simp: CBS_len_def dest: any_asn1_element_shrinks split: prod.splits option.splits)
  also have "\<dots> \<longleftrightarrow> cbs = concat (c # cs) \<and> der_elements (c # cs)"
    unfolding Cons.IH CBS_get_any_asn1_element_iff by (auto simp: der_elements_def)
  finally show ?case .
qed

lemma writes_add_children:
  "list_all (\<lambda>c. length c < 2 ^ 64) cs \<Longrightarrow>
     writes os d (add_children os d cs) (concat cs) (length (concat cs))"
proof (induction cs)
  case Nil
  have "add_children os d [] = (\<lambda>cbb. (True, cbb))" by (rule ext) simp
  then show ?case by (simp add: writes_nothing)
next
  case (Cons c cs)
  have "add_children os d (c # cs) = (\<lambda>cbb. cbb_seq (CBB_add_bytes os d c cbb) (add_children os d cs))"
    by (rule ext) simp
  then show ?case using writes_seq [OF writes_CBB_add_bytes] Cons by simp
qed

lemma flush_asn1_set_of_sorts:
  assumes ok: "cbb_ok d cbb b" and succ: "CBB_flush_asn1_set_of os d cbb = (True, cbb')"
  shows "\<exists>cs cs' b'. drop (cbb_start d cbb) (bb_buf b) = concat cs \<and> der_elements cs
    \<and> mset cs' = mset cs \<and> sorted_wrt octets_le cs'
    \<and> cbb_ok d cbb' b' \<and> bb_buf b' = take (cbb_start d cbb) (bb_buf b) @ concat cs'"
proof -
  let ?k = "cbb_start d cbb"
  have data: "CBB_data d cbb = drop ?k (bb_buf b)" using ok by (simp add: CBB_data_def cbb_ok_def)
  obtain cs where cs: "set_of_children (drop ?k (bb_buf b)) = Some cs"
    using succ by (auto simp: CBB_flush_asn1_set_of_def cbb_seq_True_iff CBB_flush_idle [OF ok] CBS_init_def data
        split: option.splits)
  then have split: "drop ?k (bb_buf b) = concat cs" and el: "der_elements cs"
    by (simp_all add: set_of_children_iff)
  show ?thesis
  proof (cases "length cs < 2")
    case True
    then have "cbb' = cbb" using succ cs
      by (auto simp: CBB_flush_asn1_set_of_def cbb_seq_True_iff CBB_flush_idle [OF ok] CBS_init_def data)
    moreover have "sorted_wrt octets_le cs" using True by (cases cs; cases "tl cs") auto
    ultimately show ?thesis
      using split el ok by (intro exI [of _ cs] exI [of _ b]) (simp flip: split)
  next
    case False
    let ?b = "b\<lparr>bb_buf := take ?k (bb_buf b)\<rparr>"
    let ?cbb = "cbb\<lparr>cbb_base := Some ?b\<rparr>"
    let ?cs = "qsort compare_set_of_element cs"
    have add: "add_children os d ?cs ?cbb = (True, cbb')"
      using succ cs False ok
      by (auto simp: CBB_flush_asn1_set_of_def cbb_seq_True_iff CBB_flush_idle [OF ok] CBS_init_def data cbb_ok_def
          split: if_splits)
    have "length c < 2 ^ 64" if "c \<in> set cs" for c
    proof -
      have "length c \<le> length (concat cs)" using that by (induction cs) auto
      also have "\<dots> \<le> bb_len b" unfolding split [symmetric] by simp
      also have "\<dots> < 2 ^ 64" using ok by (simp add: cbb_ok_def bb_wf_def)
      finally show ?thesis .
    qed
    moreover have "set ?cs = set cs" using qsort_spec(1) by (metis set_mset_mset)
    ultimately have w: "writes os d (add_children os d ?cs) (concat ?cs) (length (concat ?cs))"
      by (intro writes_add_children) (simp add: list_all_iff)
    have "cbb_ok d ?cbb ?b" using ok by (auto simp: cbb_ok_def bb_wf_def)
    from writesD [OF w this add] obtain b' where "cbb_ok d cbb' b'" "bb_buf b' = take ?k (bb_buf b) @ concat ?cs"
      by auto
    then show ?thesis
      using split el qsort_spec by blast
  qed
qed

end
