(* ===== verification/Unicode.thy ===== *)
theory Unicode
  imports Oid
begin

text \<open>
  \<open>crypto/bytestring/unicode.c\<close>: reading and writing one code point as UTF-8, Latin-1,
  UCS-2 or UTF-32. The four pairs share one contract, the locale \<open>codec\<close>: the reader accepts
  exactly the octets the writer produces. The locale is interpreted on each of the pairs.
\<close>

section \<open>The code\<close>

definition is_valid_code_point :: "u32 \<Rightarrow> bool" where
  "is_valid_code_point v =
     (\<not> (v > 0x10ffff \<or> v AND 0xfffe = 0xfffe \<or> (v \<ge> 0xfdd0 \<and> v \<le> 0xfdef)
         \<or> (v \<ge> 0xd800 \<and> v \<le> 0xdfff)))"

definition BOTTOM_BITS :: "nat \<Rightarrow> u8" where
  "BOTTOM_BITS n = push_bit n 1 - 1"

definition TOP_BITS :: "nat \<Rightarrow> u8" where
  "TOP_BITS n = NOT (BOTTOM_BITS (8 - n))"

text \<open>The loop over the continuation octets, \<open>n\<close> of which are still expected.\<close>

fun utf8_continue :: "nat \<Rightarrow> u32 \<Rightarrow> CBS \<Rightarrow> u32 option \<times> CBS" where
  "utf8_continue 0 v cbs = (Some v, cbs)"
| "utf8_continue (Suc n) v cbs =
     and_then (CBS_get_u8 cbs) (\<lambda>c cbs.
       if c AND TOP_BITS 2 \<noteq> TOP_BITS 1 then (None, cbs)
       else utf8_continue n (push_bit 6 v OR ucast (c AND BOTTOM_BITS 6)) cbs)"

definition cbs_get_utf8 :: "CBS \<Rightarrow> u32 option \<times> CBS" where
  "cbs_get_utf8 cbs =
     and_then (CBS_get_u8 cbs) (\<lambda>c cbs.
       if c \<le> 0x7f then (Some (ucast c), cbs)
       else case (if c AND TOP_BITS 3 = TOP_BITS 2 then Some (ucast (c AND BOTTOM_BITS 5), 1, 0x80)
                  else if c AND TOP_BITS 4 = TOP_BITS 3 then Some (ucast (c AND BOTTOM_BITS 4), 2, 0x800)
                  else if c AND TOP_BITS 5 = TOP_BITS 4 then Some (ucast (c AND BOTTOM_BITS 3), 3, 0x10000)
                  else None) of
              None \<Rightarrow> (None, cbs)
            | Some (v, len, lower_bound) \<Rightarrow>
                and_then (utf8_continue len v cbs) (\<lambda>v cbs.
                  if \<not> is_valid_code_point v \<or> v < lower_bound then (None, cbs) else (Some v, cbs)))"

definition cbs_get_latin1 :: "CBS \<Rightarrow> u32 option \<times> CBS" where
  "cbs_get_latin1 cbs = and_then (CBS_get_u8 cbs) (\<lambda>c cbs. (Some (ucast c), cbs))"

definition cbs_get_ucs2_be :: "CBS \<Rightarrow> u32 option \<times> CBS" where
  "cbs_get_ucs2_be cbs =
     and_then (CBS_get_u16 cbs) (\<lambda>c cbs.
       if \<not> is_valid_code_point (ucast c) then (None, cbs) else (Some (ucast c), cbs))"

definition cbs_get_utf32_be :: "CBS \<Rightarrow> u32 option \<times> CBS" where
  "cbs_get_utf32_be cbs =
     and_then (CBS_get_u32 cbs) (\<lambda>out cbs. if is_valid_code_point out then (Some out, cbs) else (None, cbs))"

definition cbb_get_utf8_len :: "u32 \<Rightarrow> nat" where
  "cbb_get_utf8_len u = (if u \<le> 0x7f then 1 else if u \<le> 0x7ff then 2 else if u \<le> 0xffff then 3 else 4)"

text \<open>The octet \<open>TOP_BITS(k) | (u >> n)\<close> passed as a \<open>uint8_t\<close>, and a continuation octet.\<close>

definition lead_octet :: "nat \<Rightarrow> nat \<Rightarrow> u32 \<Rightarrow> u8" where
  "lead_octet k n u = ucast (ucast (TOP_BITS k) OR drop_bit n u)"

definition cont_octet :: "nat \<Rightarrow> u32 \<Rightarrow> u8" where
  "cont_octet n u = ucast (ucast (TOP_BITS 1) OR (drop_bit n u AND ucast (BOTTOM_BITS 6)))"

definition cbb_add_utf8 :: "(nat \<Rightarrow> bool) \<Rightarrow> nat \<Rightarrow> u32 \<Rightarrow> CBB \<Rightarrow> bool \<times> CBB" where
  "cbb_add_utf8 os d u cbb =
     (if \<not> is_valid_code_point u then (False, cbb)
      else if u \<le> 0x7f then CBB_add_u8 os d (ucast u) cbb
      else if u \<le> 0x7ff
      then cbb_seq (CBB_add_u8 os d (lead_octet 2 6 u) cbb)
                   (CBB_add_u8 os d (cont_octet 0 u))
      else if u \<le> 0xffff
      then cbb_seq (CBB_add_u8 os d (lead_octet 3 12 u) cbb) (\<lambda>cbb.
           cbb_seq (CBB_add_u8 os d (cont_octet 6 u) cbb)
                   (CBB_add_u8 os d (cont_octet 0 u)))
      else if u \<le> 0x10ffff
      then cbb_seq (CBB_add_u8 os d (lead_octet 4 18 u) cbb) (\<lambda>cbb.
           cbb_seq (CBB_add_u8 os d (cont_octet 12 u) cbb) (\<lambda>cbb.
           cbb_seq (CBB_add_u8 os d (cont_octet 6 u) cbb)
                   (CBB_add_u8 os d (cont_octet 0 u))))
      else (False, cbb))"

definition cbb_add_latin1 :: "(nat \<Rightarrow> bool) \<Rightarrow> nat \<Rightarrow> u32 \<Rightarrow> CBB \<Rightarrow> bool \<times> CBB" where
  "cbb_add_latin1 os d u cbb =
     (if u \<le> 0xff then CBB_add_u8 os d (ucast u) cbb else (False, cbb))"

definition cbb_add_ucs2_be :: "(nat \<Rightarrow> bool) \<Rightarrow> nat \<Rightarrow> u32 \<Rightarrow> CBB \<Rightarrow> bool \<times> CBB" where
  "cbb_add_ucs2_be os d u cbb =
     (if u \<le> 0xffff \<and> is_valid_code_point u then CBB_add_u16 os d (ucast u) cbb else (False, cbb))"

definition cbb_add_utf32_be :: "(nat \<Rightarrow> bool) \<Rightarrow> nat \<Rightarrow> u32 \<Rightarrow> CBB \<Rightarrow> bool \<times> CBB" where
  "cbb_add_utf32_be os d u cbb =
     (if is_valid_code_point u then CBB_add_u32 os d u cbb else (False, cbb))"

section \<open>The contract of a character encoding\<close>

locale codec =
  fixes get :: "CBS \<Rightarrow> u32 option \<times> CBS"
    and add :: "(nat \<Rightarrow> bool) \<Rightarrow> nat \<Rightarrow> u32 \<Rightarrow> CBB \<Rightarrow> bool \<times> CBB"
    and enc :: "u32 \<Rightarrow> u8 list"
    and accepts :: "u32 \<Rightarrow> bool"
  assumes get_iff: "get cbs = (Some v, rest) \<longleftrightarrow> accepts v \<and> cbs = enc v @ rest"
    and add_outcome: "outcome os d (add os d u) (if accepts u then Some (enc u) else None) 4"
    and enc_not_Nil: "accepts u \<Longrightarrow> enc u \<noteq> []"
begin

lemma get_enc: "accepts v \<Longrightarrow> get (enc v @ rest) = (Some v, rest)"
  by (simp add: get_iff)

lemma get_shrinks:
  assumes "get cbs = (Some v, rest)"
  shows "length rest < length cbs"
proof -
  have "accepts v" "cbs = enc v @ rest" using assms unfolding get_iff by blast+
  with enc_not_Nil [of v] show ?thesis by simp
qed

lemma enc_inj:
  assumes "accepts u" "accepts v" "enc u @ r = enc v @ s"
  shows "u = v \<and> r = s"
  using get_enc [OF assms(1), of r] get_enc [OF assms(2), of s] unfolding assms(3) by simp

lemma text_unique:
  "list_all accepts us \<Longrightarrow> list_all accepts vs \<Longrightarrow> concat (map enc us) = concat (map enc vs) \<Longrightarrow> us = vs"
proof (induction us arbitrary: vs)
  case Nil
  then show ?case by (cases vs) (simp_all add: enc_not_Nil)
next
  case (Cons u us)
  then have "enc u \<noteq> []" by (simp add: enc_not_Nil)
  then obtain v ws where vs: "vs = v # ws"
    using Cons.prems(3) by (cases vs) simp_all
  have "u = v \<and> concat (map enc us) = concat (map enc ws)"
    using Cons.prems vs by (intro enc_inj) simp_all
  with Cons vs show ?case by simp
qed

end

section \<open>The octet patterns\<close>

lemma bottom_bits: "unat (c AND BOTTOM_BITS n) = unat c mod 2 ^ n"
  by (rule unat_and_mask) (simp add: BOTTOM_BITS_def mask_eq_exp_minus_1 push_bit_of_1)

lemma top_bits_test:
  assumes "TOP_BITS m AND TOP_BITS n = TOP_BITS m"
  shows "c AND TOP_BITS n = TOP_BITS m \<longleftrightarrow> unat c div 2 ^ (8 - n) = unat (TOP_BITS m) div 2 ^ (8 - n)"
proof -
  have "BOTTOM_BITS (8 - n) = mask (8 - n)"
    by (simp add: BOTTOM_BITS_def mask_eq_exp_minus_1 push_bit_of_1)
  then have top: "x AND TOP_BITS n = push_bit (8 - n) (drop_bit (8 - n) x)" for x
    unfolding TOP_BITS_def by (intro bit_word_eqI) (auto simp: bit_simps)
  have "c AND TOP_BITS n = TOP_BITS m \<longleftrightarrow> c AND TOP_BITS n = TOP_BITS m AND TOP_BITS n"
    using assms by simp
  also have "\<dots> \<longleftrightarrow> drop_bit (8 - n) c = drop_bit (8 - n) (TOP_BITS m)"
  proof -
    have "drop_bit (8 - n) (push_bit (8 - n) (drop_bit (8 - n) x)) = drop_bit (8 - n) x" for x :: u8
      by (rule bit_word_eqI) (auto simp: bit_simps dest: bit_imp_le_length)
    then show ?thesis unfolding top by metis
  qed
  finally show ?thesis by (simp add: word_unat_eq_iff unat_drop_bit_div)
qed

text \<open>The continuation octets of the last \<open>n\<close> groups of six bits.\<close>

fun conts :: "nat \<Rightarrow> nat \<Rightarrow> u8 list" where
  "conts 0 w = []"
| "conts (Suc n) w = of_nat (128 + w div 64 ^ n mod 64) # conts n w"

lemma top_bits_values:
  "TOP_BITS 1 = 0x80" "TOP_BITS 2 = 0xc0" "TOP_BITS 3 = 0xe0" "TOP_BITS 4 = 0xf0" "TOP_BITS 5 = 0xf8"
  by (simp_all add: TOP_BITS_def BOTTOM_BITS_def)

lemma continuation_test: "c AND TOP_BITS 2 = TOP_BITS (Suc 0) \<longleftrightarrow> unat c div 64 = 2"
  using top_bits_test [of 1 2 c] unfolding One_nat_def [symmetric] top_bits_values by simp

lemma continuation_arith:
  fixes c :: u8
  shows "unat c div 64 = 2 \<and> x = v * 64 + unat c mod 64
    \<longleftrightarrow> c = of_nat (128 + x mod 64) \<and> x div 64 = v"
proof
  assume l: "unat c div 64 = 2 \<and> x = v * 64 + unat c mod 64"
  then have "unat c = 128 + x mod 64" using div_mult_mod_eq [of "unat c" 64] by simp
  then show "c = of_nat (128 + x mod 64) \<and> x div 64 = v"
    using l of_nat_unat_id [of c "128 + x mod 64"] by simp
next
  assume r: "c = of_nat (128 + x mod 64) \<and> x div 64 = v"
  have "x mod 64 < 64" by simp
  then have "128 + x mod 64 < 256" by linarith
  from unat_of_nat_u8_id [OF this] have uc: "unat c = 128 + x mod 64"
    unfolding conjunct1 [OF r] .
  have "(128 + y) div 64 = 2 \<and> (128 + y) mod 64 = y" if "y < 64" for y :: nat
    using that by (auto intro: div_nat_eqI mod_nat_eqI)
  from this [of "x mod 64"] have "(128 + x mod 64) div 64 = 2" "(128 + x mod 64) mod 64 = x mod 64" by simp_all
  moreover have "x = v * 64 + x mod 64"
    unfolding conjunct2 [OF r, symmetric] by (rule div_mult_mod_eq [symmetric])
  ultimately show "unat c div 64 = 2 \<and> x = v * 64 + unat c mod 64"
    unfolding uc by (simp only: simp_thms)
qed

lemma utf8_continue_iff:
  "(unat v + 1) * 64 ^ n \<le> 2 ^ 32 \<Longrightarrow>
     utf8_continue n v cbs = (Some w, rest) \<longleftrightarrow> cbs = conts n (unat w) @ rest \<and> unat w div 64 ^ n = unat v"
proof (induction n arbitrary: v cbs)
  case 0
  then show ?case by (auto simp: word_unat_eq_iff)
next
  case (Suc n)
  show ?case
  proof (cases cbs)
    case Nil
    then show ?thesis by simp
  next
    case (Cons c cs)
    define v' where "v' = push_bit 6 v OR ucast (c AND BOTTOM_BITS 6)"
    have c6: "unat (ucast (c AND BOTTOM_BITS 6) :: u32) = unat c mod 64"
      by (simp add: unat_ucast_up bottom_bits)
    have le: "(unat v * 64 + 64) * 64 ^ n \<le> 2 ^ 32" using Suc.prems by (simp add: algebra_simps)
    have "unat v * 64 + 64 \<le> (unat v * 64 + 64) * 64 ^ n" by simp
    also note le
    finally have "unat v * 64 + 64 \<le> 2 ^ 32" .
    moreover have "unat c mod 64 < 64" by simp
    ultimately have v': "unat v' = unat v * 64 + unat c mod 64"
      unfolding v'_def by (subst unat_push_or) (simp_all add: c6)
    have "(unat v' + 1) * 64 ^ n \<le> (unat v * 64 + 64) * 64 ^ n"
      unfolding v' by (intro mult_right_mono) (simp_all add: Suc_le_eq)
    with le have "(unat v' + 1) * 64 ^ n \<le> 2 ^ 32" by linarith
    note IH = Suc.IH [OF this, of cs]
    have "utf8_continue (Suc n) v cbs = (Some w, rest) \<longleftrightarrow>
        unat c div 64 = 2 \<and> cs = conts n (unat w) @ rest \<and> unat w div 64 ^ n = unat v'"
      using IH by (auto simp: Cons continuation_test v'_def)
    also have "\<dots> \<longleftrightarrow> cbs = conts (Suc n) (unat w) @ rest \<and> unat w div 64 ^ Suc n = unat v"
    proof -
      have "unat c div 64 = 2 \<and> unat w div 64 ^ n = unat v'
          \<longleftrightarrow> c = of_nat (128 + unat w div 64 ^ n mod 64) \<and> unat w div 64 ^ n div 64 = unat v"
        unfolding v' by (rule continuation_arith)
      moreover have "unat w div 64 ^ Suc n = unat w div 64 ^ n div 64"
        by (simp only: power_Suc2 div_mult2_eq)
      ultimately show ?thesis unfolding Cons conts.simps(2) append_Cons list.inject by metis
    qed
    finally show ?thesis .
  qed
qed

section \<open>UTF-8\<close>

definition utf8 :: "u32 \<Rightarrow> u8 list" where
  "utf8 u =
     (let n = unat u
      in if n < 0x80 then [of_nat n]
         else if n < 0x800 then of_nat (192 + n div 64) # conts 1 n
         else if n < 0x10000 then of_nat (224 + n div 64 ^ 2) # conts 2 n
         else of_nat (240 + n div 64 ^ 3) # conts 3 n)"

lemma valid_code_point_bound: "is_valid_code_point v \<Longrightarrow> unat v \<le> 0x10ffff"
  by (simp add: is_valid_code_point_def word_less_nat_alt)

lemma lead_tests:
  "c AND TOP_BITS 3 = TOP_BITS 2 \<longleftrightarrow> unat c div 32 = 6"
  "c AND TOP_BITS 4 = TOP_BITS 3 \<longleftrightarrow> unat c div 16 = 14"
  "c AND TOP_BITS 5 = TOP_BITS 4 \<longleftrightarrow> unat c div 8 = 30"
  using top_bits_test [of 2 3 c] top_bits_test [of 3 4 c] top_bits_test [of 4 5 c]
  unfolding top_bits_values by simp_all

text \<open>The reader after its first octet: the class of the lead octet decides all the rest.\<close>

lemma get_utf8_multi:
  assumes "unat c \<ge> 128"
  shows "cbs_get_utf8 (c # cbs) = (Some w, rest) \<longleftrightarrow> is_valid_code_point w \<and>
    (unat c div 32 = 6 \<and> cbs = conts 1 (unat w) @ rest \<and> unat w div 64 = unat c mod 32 \<and> unat w \<ge> 0x80
     \<or> unat c div 16 = 14 \<and> cbs = conts 2 (unat w) @ rest \<and> unat w div 64 ^ 2 = unat c mod 16 \<and> unat w \<ge> 0x800
     \<or> unat c div 8 = 30 \<and> cbs = conts 3 (unat w) @ rest \<and> unat w div 64 ^ 3 = unat c mod 8 \<and> unat w \<ge> 0x10000)"
proof -
  have hi: "\<not> c \<le> 0x7f" using assms by (simp add: word_le_nat_alt)
  have cont: "utf8_continue n (ucast (c AND BOTTOM_BITS k)) cbs = (Some w, rest)
      \<longleftrightarrow> cbs = conts n (unat w) @ rest \<and> unat w div 64 ^ n = unat c mod 2 ^ k"
    if "2 ^ k * 64 ^ n \<le> (2 ^ 32 :: nat)" for n k
  proof -
    have u: "unat (ucast (c AND BOTTOM_BITS k) :: u32) = unat c mod 2 ^ k"
      by (simp add: unat_ucast_up bottom_bits)
    have "(unat c mod 2 ^ k + 1) * 64 ^ n \<le> 2 ^ k * 64 ^ n" by (intro mult_right_mono) (simp_all add: Suc_le_eq)
    then show ?thesis using utf8_continue_iff [of "ucast (c AND BOTTOM_BITS k)" n cbs w rest] that by (simp add: u)
  qed
  have last: "and_then (utf8_continue n v0 cbs)
        (\<lambda>v cbs. if \<not> is_valid_code_point v \<or> v < lb then (None, cbs) else (Some v, cbs)) = (Some w, rest)
      \<longleftrightarrow> utf8_continue n v0 cbs = (Some w, rest) \<and> is_valid_code_point w \<and> unat lb \<le> unat w" for n v0 lb
    by (auto simp: and_then_Some_iff word_le_nat_alt not_less split: if_splits)
  have excl: "unat c div 32 = 6 \<Longrightarrow> unat c div 16 \<noteq> 14 \<and> unat c div 8 \<noteq> 30"
    "unat c div 16 = 14 \<Longrightarrow> unat c div 8 \<noteq> 30" by auto
  consider "unat c div 32 = 6" | "unat c div 32 \<noteq> 6" "unat c div 16 = 14"
    | "unat c div 32 \<noteq> 6" "unat c div 16 \<noteq> 14" "unat c div 8 = 30"
    | "unat c div 32 \<noteq> 6" "unat c div 16 \<noteq> 14" "unat c div 8 \<noteq> 30" by blast
  then show ?thesis
  proof cases
    case 1
    then have "cbs_get_utf8 (c # cbs) = and_then (utf8_continue 1 (ucast (c AND BOTTOM_BITS 5)) cbs)
        (\<lambda>v cbs. if \<not> is_valid_code_point v \<or> v < 0x80 then (None, cbs) else (Some v, cbs))"
      by (simp only: cbs_get_utf8_def CBS_get_u8_simps and_then_simps hi if_False lead_tests if_True option.case prod.case simp_thms)
    note eq = this
    have cont': "utf8_continue 1 (ucast (c AND BOTTOM_BITS 5)) cbs = (Some w, rest)
        \<longleftrightarrow> cbs = conts 1 (unat w) @ rest \<and> unat w div 64 ^ 1 = unat c mod 2 ^ 5" by (rule cont) simp
    show ?thesis unfolding eq last cont' using 1 excl by (auto simp del: conts.simps)
  next
    case 2
    then have "cbs_get_utf8 (c # cbs) = and_then (utf8_continue 2 (ucast (c AND BOTTOM_BITS 4)) cbs)
        (\<lambda>v cbs. if \<not> is_valid_code_point v \<or> v < 0x800 then (None, cbs) else (Some v, cbs))"
      by (simp only: cbs_get_utf8_def CBS_get_u8_simps and_then_simps hi if_False lead_tests if_True option.case prod.case simp_thms)
    note eq = this
    have cont': "utf8_continue 2 (ucast (c AND BOTTOM_BITS 4)) cbs = (Some w, rest)
        \<longleftrightarrow> cbs = conts 2 (unat w) @ rest \<and> unat w div 64 ^ 2 = unat c mod 2 ^ 4" by (rule cont) simp
    show ?thesis unfolding eq last cont' using 2 excl by (auto simp del: conts.simps)
  next
    case 3
    then have "cbs_get_utf8 (c # cbs) = and_then (utf8_continue 3 (ucast (c AND BOTTOM_BITS 3)) cbs)
        (\<lambda>v cbs. if \<not> is_valid_code_point v \<or> v < 0x10000 then (None, cbs) else (Some v, cbs))"
      by (simp only: cbs_get_utf8_def CBS_get_u8_simps and_then_simps hi if_False lead_tests if_True option.case prod.case simp_thms)
    note eq = this
    have cont': "utf8_continue 3 (ucast (c AND BOTTOM_BITS 3)) cbs = (Some w, rest)
        \<longleftrightarrow> cbs = conts 3 (unat w) @ rest \<and> unat w div 64 ^ 3 = unat c mod 2 ^ 3" by (rule cont) simp
    show ?thesis unfolding eq last cont' using 3 excl by (auto simp del: conts.simps)
  next
    case 4
    then have "cbs_get_utf8 (c # cbs) = (None, cbs)"
      by (simp only: cbs_get_utf8_def CBS_get_u8_simps and_then_simps hi if_False lead_tests option.case simp_thms)
    then show ?thesis using 4 by simp
  qed
qed

lemma utf8_ascii: "unat v < 0x80 \<Longrightarrow> is_valid_code_point v \<and> utf8 v = [ucast v]"
proof -
  assume v: "unat v < 0x80"
  have "v AND 0xfffe \<noteq> 0xfffe"
  proof
    assume "v AND 0xfffe = 0xfffe"
    then have "unat (v AND 0xfffe) = 0xfffe" by simp
    moreover have "unat (v AND 0xfffe) \<le> unat v" unfolding word_le_nat_alt [symmetric] by (rule word_and_le2)
    ultimately show False using v by simp
  qed
  moreover have "of_nat (unat v) = (ucast v :: u8)" by simp
  ultimately show ?thesis
    using v by (simp add: is_valid_code_point_def utf8_def word_less_nat_alt word_le_nat_alt Let_def)
qed

lemma lead_value:
  fixes c :: u8
  shows "q * m + x < 256 \<Longrightarrow> x < m \<Longrightarrow> c = of_nat (q * m + x) \<longleftrightarrow> unat c div m = q \<and> unat c mod m = x"
proof -
  assume a: "q * m + x < 256" "x < m"
  then have "c = of_nat (q * m + x) \<longleftrightarrow> unat c = q * m + x"
    using unat_of_nat_u8_id [OF a(1)] of_nat_unat_id [of c "q * m + x"] by auto
  also have "\<dots> \<longleftrightarrow> unat c div m = q \<and> unat c mod m = x"
    using a by (metis add_cancel_right_left add.commute div_mult_mod_eq div_mult_self3 div_less mod_mult_self3
        mod_less bot_nat_0.not_eq_extremum less_zeroE)
  finally show ?thesis .
qed

text \<open>The four lengths of \<open>utf8\<close>, with the lead octet split into class and payload.\<close>

lemma utf8_cases:
  assumes "unat w \<le> 0x10ffff"
  shows "c # cs = utf8 w @ rest \<longleftrightarrow>
    (if unat w < 0x80 then unat c = unat w \<and> cs = rest
     else if unat w < 0x800 then unat c div 32 = 6 \<and> unat c mod 32 = unat w div 64 \<and> cs = conts 1 (unat w) @ rest
     else if unat w < 0x10000
     then unat c div 16 = 14 \<and> unat c mod 16 = unat w div 64 ^ 2 \<and> cs = conts 2 (unat w) @ rest
     else unat c div 8 = 30 \<and> unat c mod 8 = unat w div 64 ^ 3 \<and> cs = conts 3 (unat w) @ rest)"
proof -
  have 1: "unat w < 0x80 \<Longrightarrow> c = of_nat (unat w) \<longleftrightarrow> unat c = unat w"
    using unat_of_nat_u8_id [of "unat w"] of_nat_unat_id [of c "unat w"] by auto
  have 2: "c = of_nat (192 + unat w div 64) \<longleftrightarrow> unat c div 32 = 6 \<and> unat c mod 32 = unat w div 64"
    if "unat w < 0x800"
  proof -
    have "unat w div 64 < 32" using that by (intro less_mult_imp_div_less) simp
    then show ?thesis using lead_value [of 6 32 "unat w div 64" c] by simp
  qed
  have 3: "c = of_nat (224 + unat w div 64 ^ 2) \<longleftrightarrow> unat c div 16 = 14 \<and> unat c mod 16 = unat w div 64 ^ 2"
    if "unat w < 0x10000"
  proof -
    have "unat w div 64 ^ 2 < 16" using that by (intro less_mult_imp_div_less) simp
    then show ?thesis using lead_value [of 14 16 "unat w div 64 ^ 2" c] by simp
  qed
  have 4: "c = of_nat (240 + unat w div 64 ^ 3) \<longleftrightarrow> unat c div 8 = 30 \<and> unat c mod 8 = unat w div 64 ^ 3"
  proof -
    have "unat w div 64 ^ 3 < 8" using assms by (intro less_mult_imp_div_less) simp
    then show ?thesis using lead_value [of 30 8 "unat w div 64 ^ 3" c] by simp
  qed
  consider "unat w < 0x80" | "0x80 \<le> unat w" "unat w < 0x800"
    | "0x800 \<le> unat w" "unat w < 0x10000" | "0x10000 \<le> unat w" by linarith
  then show ?thesis
  proof cases
    case 1
    then show ?thesis using \<open>unat w < 0x80 \<Longrightarrow> _\<close> by (simp add: utf8_def Let_def)
  next
    case 2
    then show ?thesis using \<open>unat w < 0x800 \<Longrightarrow> _\<close> by (simp add: utf8_def Let_def del: conts.simps of_nat_add)
  next
    case 3
    then show ?thesis using \<open>unat w < 0x10000 \<Longrightarrow> _\<close> by (simp add: utf8_def Let_def del: conts.simps of_nat_add)
  next
    case 4
    then show ?thesis using \<open>c = of_nat (240 + _) \<longleftrightarrow> _\<close> by (simp add: utf8_def Let_def del: conts.simps of_nat_add)
  qed
qed

lemma cbs_get_utf8_iff:
  "cbs_get_utf8 cbs = (Some w, rest) \<longleftrightarrow> is_valid_code_point w \<and> cbs = utf8 w @ rest"
proof (cases cbs)
  case Nil
  have "utf8 w \<noteq> []" by (simp add: utf8_def Let_def)
  then show ?thesis by (simp add: Nil cbs_get_utf8_def)
next
  case (Cons c cs)
  show ?thesis
  proof (cases "unat c < 128")
    case True
    then have get: "cbs_get_utf8 (c # cs) = (Some (ucast c), cs)"
      by (simp add: cbs_get_utf8_def word_le_nat_alt)
    have uc: "unat (ucast c :: u32) = unat c" by (simp add: unat_ucast_up)
    have "is_valid_code_point w \<and> c # cs = utf8 w @ rest \<longleftrightarrow> unat w = unat c \<and> cs = rest"
    proof
      assume "is_valid_code_point w \<and> c # cs = utf8 w @ rest"
      then show "unat w = unat c \<and> cs = rest"
        using True utf8_cases [OF valid_code_point_bound] by (fastforce split: if_splits)
    next
      assume "unat w = unat c \<and> cs = rest"
      then show "is_valid_code_point w \<and> c # cs = utf8 w @ rest"
        using True utf8_ascii [of w] utf8_cases [of w c cs rest] by simp
    qed
    then show ?thesis
      using get uc by (auto simp: Cons word_unat_eq_iff)
  next
    case False
    show ?thesis
    proof (cases "is_valid_code_point w")
      case True
      note b = valid_code_point_bound [OF True]
      have m: "unat c mod 32 < 32" "unat c mod 16 < 16" "unat c mod 8 < 8" by simp_all
      have "unat w div 64 = unat c mod 32 \<Longrightarrow> unat w < 0x800"
        "unat w div 64 ^ 2 = unat c mod 16 \<Longrightarrow> unat w < 0x10000"
        using m by (auto simp: div_less_iff_less_mult dest!: sym [of _ "unat c mod _"])
      then show ?thesis
        unfolding Cons utf8_cases [OF b] using False True by (subst get_utf8_multi) auto
    next
      case inv: False
      then show ?thesis using False get_utf8_multi [of c cs w rest] by (simp add: Cons)
    qed
  qed
qed

text \<open>The octets the writer composes.\<close>

lemma or_octet:
  fixes x t :: u32
  assumes "unat x < 2 ^ m" "unat t * 2 ^ m + unat x < 256"
  shows "(ucast (push_bit m t OR x) :: u8) = of_nat (unat t * 2 ^ m + unat x)"
proof -
  have "unat (push_bit m t OR x) = unat t * 2 ^ m + unat x"
    using assms by (intro unat_push_or) simp_all
  then have "unat (ucast (push_bit m t OR x) :: u8) = unat t * 2 ^ m + unat x"
    using assms(2) by (simp add: unat_ucast_u8)
  then show ?thesis by (rule of_nat_unat_id [symmetric])
qed

lemma cont_octet_eq: "cont_octet n u = of_nat (128 + unat u div 2 ^ n mod 64)"
proof -
  let ?x = "drop_bit n u AND 0x3f"
  have "unat ?x = unat (drop_bit n u) mod 2 ^ 6"
    by (rule unat_and_mask) (simp add: mask_eq_exp_minus_1)
  then have x: "unat ?x = unat u div 2 ^ n mod 64" by (simp add: unat_drop_bit_div)
  have "unat ?x < 64" unfolding x by simp
  then have "(ucast (push_bit 6 2 OR ?x) :: u8) = of_nat (unat (2 :: u32) * 2 ^ 6 + unat ?x)"
    by (intro or_octet) simp_all
  moreover have "(ucast (TOP_BITS 1) :: u32) = push_bit 6 2" "(ucast (BOTTOM_BITS 6) :: u32) = 0x3f"
    unfolding top_bits_values by (simp_all add: BOTTOM_BITS_def)
  ultimately show ?thesis unfolding cont_octet_def x by simp
qed

lemma lead_octet_eq:
  "unat u < 0x800 \<Longrightarrow> lead_octet 2 6 u = of_nat (192 + unat u div 64)"
  "unat u < 0x10000 \<Longrightarrow> lead_octet 3 12 u = of_nat (224 + unat u div 64 ^ 2)"
  "unat u < 0x200000 \<Longrightarrow> lead_octet 4 18 u = of_nat (240 + unat u div 64 ^ 3)"
proof -
  assume a: "unat u < 0x800"
  have d: "unat (drop_bit 6 u) = unat u div 64" by (simp add: unat_drop_bit_div)
  have "unat u div 64 < 32" using a by (intro less_mult_imp_div_less) simp
  then have "(ucast (push_bit 6 3 OR drop_bit 6 u) :: u8) = of_nat (unat (3 :: u32) * 2 ^ 6 + unat (drop_bit 6 u))"
    by (intro or_octet) (simp_all add: d)
  moreover have "(ucast (TOP_BITS 2) :: u32) = push_bit 6 3" unfolding top_bits_values by simp
  ultimately show "lead_octet 2 6 u = of_nat (192 + unat u div 64)"
    unfolding lead_octet_def d by simp
next
  assume a: "unat u < 0x10000"
  have d: "unat (drop_bit 12 u) = unat u div 64 ^ 2" by (simp add: unat_drop_bit_div)
  have "unat u div 64 ^ 2 < 16" using a by (intro less_mult_imp_div_less) simp
  then have "(ucast (push_bit 5 7 OR drop_bit 12 u) :: u8) = of_nat (unat (7 :: u32) * 2 ^ 5 + unat (drop_bit 12 u))"
    by (intro or_octet) (simp_all add: d)
  moreover have "(ucast (TOP_BITS 3) :: u32) = push_bit 5 7" unfolding top_bits_values by simp
  ultimately show "lead_octet 3 12 u = of_nat (224 + unat u div 64 ^ 2)"
    unfolding lead_octet_def d by simp
next
  assume a: "unat u < 0x200000"
  have d: "unat (drop_bit 18 u) = unat u div 64 ^ 3" by (simp add: unat_drop_bit_div)
  have "unat u div 64 ^ 3 < 8" using a by (intro less_mult_imp_div_less) simp
  then have "(ucast (push_bit 4 15 OR drop_bit 18 u) :: u8) = of_nat (unat (15 :: u32) * 2 ^ 4 + unat (drop_bit 18 u))"
    by (intro or_octet) (simp_all add: d)
  moreover have "(ucast (TOP_BITS 4) :: u32) = push_bit 4 15" unfolding top_bits_values by simp
  ultimately show "lead_octet 4 18 u = of_nat (240 + unat u div 64 ^ 3)"
    unfolding lead_octet_def d by simp
qed

text \<open>Up to four octets written one by one.\<close>

lemma writes_octets:
  "writes os d (CBB_add_u8 os d p) [p] 4"
  "writes os d (\<lambda>cbb. cbb_seq (CBB_add_u8 os d p cbb) (CBB_add_u8 os d q)) [p, q] 4"
  "writes os d (\<lambda>cbb. cbb_seq (CBB_add_u8 os d p cbb) (\<lambda>cbb.
     cbb_seq (CBB_add_u8 os d q cbb) (CBB_add_u8 os d r))) [p, q, r] 4"
  "writes os d (\<lambda>cbb. cbb_seq (CBB_add_u8 os d p cbb) (\<lambda>cbb.
     cbb_seq (CBB_add_u8 os d q cbb) (\<lambda>cbb.
     cbb_seq (CBB_add_u8 os d r cbb) (CBB_add_u8 os d s)))) [p, q, r, s] 4"
  by (rule writes_mono, (rule writes_u8_seq writes_CBB_add_u8)+, simp)+

lemma conts_octets:
  "conts 1 (unat u) = [cont_octet 0 u]"
  "conts 2 (unat u) = [cont_octet 6 u, cont_octet 0 u]"
  "conts 3 (unat u) = [cont_octet 12 u, cont_octet 6 u, cont_octet 0 u]"
  unfolding numeral_3_eq_3 numeral_2_eq_2 One_nat_def conts.simps by (simp_all add: cont_octet_eq)

lemma utf8_outcome: "outcome os d (cbb_add_utf8 os d u) (if is_valid_code_point u then Some (utf8 u) else None) 4"
proof (cases "is_valid_code_point u")
  case False
  then show ?thesis by (simp add: outcome_def cbb_add_utf8_def)
next
  case True
  note b = valid_code_point_bound [OF True]
  consider "unat u < 0x80" | "0x80 \<le> unat u" "unat u < 0x800"
    | "0x800 \<le> unat u" "unat u < 0x10000" | "0x10000 \<le> unat u" by linarith
  then show ?thesis
  proof cases
    case 1
    then have "cbb_add_utf8 os d u = CBB_add_u8 os d (ucast u)"
      using True by (intro ext) (simp add: cbb_add_utf8_def word_le_nat_alt)
    then show ?thesis
      using True utf8_ascii [OF 1] writes_octets(1) by (simp add: outcome_def)
  next
    case 2
    then have "cbb_add_utf8 os d u = (\<lambda>cbb. cbb_seq (CBB_add_u8 os d (lead_octet 2 6 u) cbb) (CBB_add_u8 os d (cont_octet 0 u)))"
      using True by (intro ext) (simp add: cbb_add_utf8_def word_le_nat_alt)
    moreover have "utf8 u = [lead_octet 2 6 u, cont_octet 0 u]"
      using 2 by (simp add: utf8_def Let_def lead_octet_eq(1) conts_octets del: conts.simps One_nat_def of_nat_add)
    ultimately show ?thesis
      using True writes_octets(2) by (simp add: outcome_def)
  next
    case 3
    then have "cbb_add_utf8 os d u = (\<lambda>cbb. cbb_seq (CBB_add_u8 os d (lead_octet 3 12 u) cbb) (\<lambda>cbb.
        cbb_seq (CBB_add_u8 os d (cont_octet 6 u) cbb) (CBB_add_u8 os d (cont_octet 0 u))))"
      using True by (intro ext) (simp add: cbb_add_utf8_def word_le_nat_alt)
    moreover have "utf8 u = [lead_octet 3 12 u, cont_octet 6 u, cont_octet 0 u]"
      using 3 by (simp add: utf8_def Let_def lead_octet_eq(2) conts_octets del: conts.simps of_nat_add)
    ultimately show ?thesis
      using True writes_octets(3) by (simp add: outcome_def)
  next
    case 4
    then have "cbb_add_utf8 os d u = (\<lambda>cbb. cbb_seq (CBB_add_u8 os d (lead_octet 4 18 u) cbb) (\<lambda>cbb.
        cbb_seq (CBB_add_u8 os d (cont_octet 12 u) cbb) (\<lambda>cbb.
        cbb_seq (CBB_add_u8 os d (cont_octet 6 u) cbb) (CBB_add_u8 os d (cont_octet 0 u)))))"
      using True b by (intro ext) (simp add: cbb_add_utf8_def word_le_nat_alt)
    moreover have "utf8 u = [lead_octet 4 18 u, cont_octet 12 u, cont_octet 6 u, cont_octet 0 u]"
      using 4 b by (simp add: utf8_def Let_def lead_octet_eq(3) conts_octets del: conts.simps of_nat_add)
    ultimately show ?thesis
      using True writes_octets(4) by (simp add: outcome_def)
  qed
qed

section \<open>The four encodings meet the contract\<close>

interpretation utf8: codec cbs_get_utf8 cbb_add_utf8 utf8 is_valid_code_point
  by unfold_locales (auto simp: cbs_get_utf8_iff utf8_outcome utf8_def Let_def)

lemma latin1_outcome:
  "outcome os d (cbb_add_latin1 os d u) (if u \<le> 0xff then Some [ucast u] else None) 4"
proof (cases "u \<le> 0xff")
  case True
  then have "cbb_add_latin1 os d u = CBB_add_u8 os d (ucast u)"
    by (intro ext) (simp add: cbb_add_latin1_def)
  then show ?thesis using True writes_octets(1) by (simp add: outcome_def)
qed (simp add: outcome_def cbb_add_latin1_def)

lemma cbs_get_latin1_iff:
  "cbs_get_latin1 cbs = (Some v, rest) \<longleftrightarrow> v \<le> 0xff \<and> cbs = [ucast v] @ rest"
proof (cases cbs)
  case (Cons c cs)
  have "v = ucast c \<longleftrightarrow> v \<le> 0xff \<and> c = ucast v"
    by (auto simp: word_unat_eq_iff word_le_nat_alt unat_ucast_up unat_ucast_u8)
  then show ?thesis by (auto simp: cbs_get_latin1_def Cons)
qed (simp add: cbs_get_latin1_def)

interpretation latin1: codec cbs_get_latin1 cbb_add_latin1 "\<lambda>u. [ucast u]" "\<lambda>u. u \<le> 0xff"
  by unfold_locales (auto simp: cbs_get_latin1_iff latin1_outcome)

lemma cbs_get_u_iff:
  assumes "n \<le> 8"
  shows "cbs_get_u n cbs = (Some w, rest) \<longleftrightarrow> unat w < 256 ^ n \<and> cbs = be_bytes n (unat w) @ rest"
proof
  assume "cbs_get_u n cbs = (Some w, rest)"
  then obtain bs where "length bs = n" "cbs = bs @ rest" "unat w = be_nat bs"
    using assms by (auto simp: cbs_get_u_Some_iff)
  then show "unat w < 256 ^ n \<and> cbs = be_bytes n (unat w) @ rest"
    using be_nat_bound [of bs] be_bytes_be_nat [of bs] by simp
qed (use assms in \<open>auto simp: cbs_get_u_append be_nat_be_bytes\<close>)

lemma CBS_get_u16_iff: "CBS_get_u16 cbs = (Some v, rest) \<longleftrightarrow> cbs = be_bytes 2 (unat v) @ rest"
proof -
  have "(\<exists>w. cbs_get_u 2 cbs = (Some w, rest) \<and> v = ucast w) \<longleftrightarrow> cbs = be_bytes 2 (unat v) @ rest"
  proof
    assume "\<exists>w. cbs_get_u 2 cbs = (Some w, rest) \<and> v = ucast w"
    then show "cbs = be_bytes 2 (unat v) @ rest"
      by (auto simp: cbs_get_u_iff unsigned_ucast_eq take_bit_eq_mod)
  next
    assume "cbs = be_bytes 2 (unat v) @ rest"
    then show "\<exists>w. cbs_get_u 2 cbs = (Some w, rest) \<and> v = ucast w"
      using unat_lt_256_pow [of 2 v] by (intro exI [of _ "ucast v"]) (simp add: cbs_get_u_iff unat_ucast_up ucast_ucast_back)
  qed
  then show ?thesis by (auto simp: CBS_get_u16_def and_then_Some_iff)
qed

lemma CBS_get_u32_iff: "CBS_get_u32 cbs = (Some v, rest) \<longleftrightarrow> cbs = be_bytes 4 (unat v) @ rest"
proof -
  have "(\<exists>w. cbs_get_u 4 cbs = (Some w, rest) \<and> v = ucast w) \<longleftrightarrow> cbs = be_bytes 4 (unat v) @ rest"
  proof
    assume "\<exists>w. cbs_get_u 4 cbs = (Some w, rest) \<and> v = ucast w"
    then show "cbs = be_bytes 4 (unat v) @ rest"
      by (auto simp: cbs_get_u_iff unsigned_ucast_eq take_bit_eq_mod)
  next
    assume "cbs = be_bytes 4 (unat v) @ rest"
    then show "\<exists>w. cbs_get_u 4 cbs = (Some w, rest) \<and> v = ucast w"
      using unat_lt_256_pow [of 4 v] by (intro exI [of _ "ucast v"]) (simp add: cbs_get_u_iff unat_ucast_up ucast_ucast_back)
  qed
  then show ?thesis by (auto simp: CBS_get_u32_def and_then_Some_iff)
qed

lemma be_bytes_not_Nil: "be_bytes n v = [] \<longleftrightarrow> n = 0"
  by (metis length_be_bytes length_0_conv)

definition ucs2 :: "u32 \<Rightarrow> u8 list" where
  "ucs2 u = be_bytes 2 (unat u)"

definition utf32 :: "u32 \<Rightarrow> u8 list" where
  "utf32 u = be_bytes 4 (unat u)"

lemma cbs_get_ucs2_be_iff:
  "cbs_get_ucs2_be cbs = (Some v, rest) \<longleftrightarrow> (v \<le> 0xffff \<and> is_valid_code_point v) \<and> cbs = ucs2 v @ rest"
proof
  assume "cbs_get_ucs2_be cbs = (Some v, rest)"
  then obtain c cs where get: "CBS_get_u16 cbs = (Some c, cs)"
    and chk: "(if \<not> is_valid_code_point (ucast c) then (None, cs) else (Some (ucast c), cs)) = (Some v, rest)"
    unfolding cbs_get_ucs2_be_def and_then_Some_iff by blast
  have c: "CBS_get_u16 cbs = (Some c, rest)" "is_valid_code_point v" "v = ucast c"
    using get chk by (simp_all split: if_splits)
  have "unat v = unat c" using c(3) by (simp add: unat_ucast_up)
  then show "(v \<le> 0xffff \<and> is_valid_code_point v) \<and> cbs = ucs2 v @ rest"
    using c unat_lt_256_pow [of 2 c] by (simp add: CBS_get_u16_iff ucs2_def word_le_nat_alt)
next
  assume r: "(v \<le> 0xffff \<and> is_valid_code_point v) \<and> cbs = ucs2 v @ rest"
  then have v: "unat v < 2 ^ LENGTH(16)" by (simp add: word_le_nat_alt)
  have u: "unat (ucast v :: u16) = unat v" using v by (rule unat_ucast_fits)
  have uu: "(ucast (ucast v :: u16) :: u32) = v" using v by (rule ucast_ucast_fits) simp
  have "CBS_get_u16 cbs = (Some (ucast v), rest)" using r by (simp add: CBS_get_u16_iff ucs2_def u)
  then show "cbs_get_ucs2_be cbs = (Some v, rest)" using r by (simp add: cbs_get_ucs2_be_def uu)
qed

lemma ucs2_outcome:
  "outcome os d (cbb_add_ucs2_be os d u) (if u \<le> 0xffff \<and> is_valid_code_point u then Some (ucs2 u) else None) 4"
proof (cases "u \<le> 0xffff \<and> is_valid_code_point u")
  case True
  then have "unat (ucast u :: u16) = unat u"
    by (simp add: unsigned_ucast_eq take_bit_eq_mod word_le_nat_alt)
  moreover have "cbb_add_ucs2_be os d u = CBB_add_u16 os d (ucast u)"
    using True by (intro ext) (simp add: cbb_add_ucs2_be_def)
  ultimately show ?thesis
    using True writes_mono [OF writes_CBB_add_u16, of 4 os d "ucast u"] by (simp add: outcome_def ucs2_def)
qed (auto simp: outcome_def cbb_add_ucs2_be_def)

lemma utf32_outcome:
  "outcome os d (cbb_add_utf32_be os d u) (if is_valid_code_point u then Some (utf32 u) else None) 4"
proof (cases "is_valid_code_point u")
  case True
  then have "cbb_add_utf32_be os d u = CBB_add_u32 os d u"
    by (intro ext) (simp add: cbb_add_utf32_be_def)
  then show ?thesis using True writes_CBB_add_u32 by (simp add: outcome_def utf32_def)
qed (simp add: outcome_def cbb_add_utf32_be_def)

lemma cbs_get_utf32_be_iff:
  "cbs_get_utf32_be cbs = (Some v, rest) \<longleftrightarrow> is_valid_code_point v \<and> cbs = utf32 v @ rest"
  by (auto simp: cbs_get_utf32_be_def and_then_Some_iff CBS_get_u32_iff utf32_def split: if_splits)

interpretation ucs2: codec cbs_get_ucs2_be cbb_add_ucs2_be ucs2 "\<lambda>u. u \<le> 0xffff \<and> is_valid_code_point u"
  by unfold_locales (auto simp: cbs_get_ucs2_be_iff ucs2_outcome ucs2_def be_bytes_not_Nil)

interpretation utf32: codec cbs_get_utf32_be cbb_add_utf32_be utf32 is_valid_code_point
  by unfold_locales (auto simp: cbs_get_utf32_be_iff utf32_outcome utf32_def be_bytes_not_Nil)

text \<open>The size estimate is the size.\<close>

lemma cbb_get_utf8_len_eq: "cbb_get_utf8_len u = length (utf8 u)"
proof -
  have "length (conts n w) = n" for n w by (induction n) auto
  then show ?thesis
    by (auto simp: cbb_get_utf8_len_def utf8_def Let_def word_le_nat_alt)
qed

end
