(* ===== verification/MbString.thy ===== *)
theory MbString
  imports Unicode
begin

text \<open>
  \<open>crypto/asn1/a_mbstr.c\<close>: \<open>ASN1_mbstring_ncopy\<close> decodes a string, chooses the smallest
  permitted ASN.1 string type that can hold it and converts it to that type. It is the client
  of the four encodings of \<open>unicode.c\<close>, which it reaches through function pointers; the pointer
  is the encoding's number here. The error queue is not modelled: the reason of a failure is a
  value of \<open>mb_error\<close>.
\<close>

section \<open>Constants\<close>

definition MBSTRING_UTF8 :: nat where "MBSTRING_UTF8 = 0x1000"
definition MBSTRING_ASC :: nat where "MBSTRING_ASC = 0x1001"
definition MBSTRING_BMP :: nat where "MBSTRING_BMP = 0x1002"
definition MBSTRING_UNIV :: nat where "MBSTRING_UNIV = 0x1004"

definition B_ASN1_PRINTABLESTRING :: u64 where "B_ASN1_PRINTABLESTRING = 0x0002"
definition B_ASN1_T61STRING :: u64 where "B_ASN1_T61STRING = 0x0004"
definition B_ASN1_IA5STRING :: u64 where "B_ASN1_IA5STRING = 0x0010"
definition B_ASN1_UNIVERSALSTRING :: u64 where "B_ASN1_UNIVERSALSTRING = 0x0100"
definition B_ASN1_BMPSTRING :: u64 where "B_ASN1_BMPSTRING = 0x0800"
definition B_ASN1_UTF8STRING :: u64 where "B_ASN1_UTF8STRING = 0x2000"

definition DIRSTRING_TYPE :: u64 where
  "DIRSTRING_TYPE = B_ASN1_PRINTABLESTRING OR B_ASN1_T61STRING OR B_ASN1_BMPSTRING OR B_ASN1_UTF8STRING"

definition V_ASN1_UTF8STRING :: int where "V_ASN1_UTF8STRING = 12"
definition V_ASN1_PRINTABLESTRING :: int where "V_ASN1_PRINTABLESTRING = 19"
definition V_ASN1_T61STRING :: int where "V_ASN1_T61STRING = 20"
definition V_ASN1_IA5STRING :: int where "V_ASN1_IA5STRING = 22"
definition V_ASN1_UNIVERSALSTRING :: int where "V_ASN1_UNIVERSALSTRING = 28"
definition V_ASN1_BMPSTRING :: int where "V_ASN1_BMPSTRING = 30"

section \<open>State\<close>

record ASN1_STRING =
  as_length :: int
  as_type :: int
  as_data :: "u8 list option"

text \<open>The out-parameter \<open>*out\<close>: it may be left pointing to a string that was freed.\<close>

datatype out_ptr = Null | Str ASN1_STRING | Freed

datatype mb_error =
    Unknown_format | Invalid_string | Illegal_characters | String_too_short | String_too_long
  | Malloc_failure | Internal_error

section \<open>Characters\<close>

definition strchr_set :: "u8 list" where
  "strchr_set = [39, 40, 41, 43, 44, 45, 46, 47, 58, 61, 63]"

text \<open>\<open>strchr\<close> finds the terminator of its string too.\<close>

definition strchr_found :: "u8 list \<Rightarrow> u32 \<Rightarrow> bool" where
  "strchr_found s ch = list_ex (\<lambda>c. c = ucast ch) (s @ [0])"

definition is_printable :: "u32 \<Rightarrow> bool" where
  "is_printable value =
     (if value > 0x7f then False
      else (value \<ge> 97 \<and> value \<le> 122) \<or> (value \<ge> 65 \<and> value \<le> 90) \<or> (value \<ge> 48 \<and> value \<le> 57)
        \<or> value = 32 \<or> strchr_found strchr_set value)"

definition mb_decode :: "nat \<Rightarrow> CBS \<Rightarrow> u32 option \<times> CBS" where
  "mb_decode inform =
     (if inform = MBSTRING_BMP then cbs_get_ucs2_be
      else if inform = MBSTRING_UNIV then cbs_get_utf32_be
      else if inform = MBSTRING_UTF8 then cbs_get_utf8
      else cbs_get_latin1)"

definition mb_encode :: "nat \<Rightarrow> (nat \<Rightarrow> bool) \<Rightarrow> nat \<Rightarrow> u32 \<Rightarrow> CBB \<Rightarrow> bool \<times> CBB" where
  "mb_encode outform =
     (if outform = MBSTRING_BMP then cbb_add_ucs2_be
      else if outform = MBSTRING_UNIV then cbb_add_utf32_be
      else if outform = MBSTRING_UTF8 then cbb_add_utf8
      else cbb_add_latin1)"

lemma mb_decode_shrinks: "mb_decode inform cbs = (Some c, rest) \<Longrightarrow> length rest < length cbs"
  using ucs2.get_shrinks utf32.get_shrinks utf8.get_shrinks latin1.get_shrinks
  by (auto simp: mb_decode_def split: if_splits)

section \<open>The code\<close>

definition drop_type :: "u64 \<Rightarrow> bool \<Rightarrow> u64 \<Rightarrow> u64" where
  "drop_type bt unfit msk = (if msk AND bt \<noteq> 0 \<and> unfit then msk AND NOT bt else msk)"

definition mb_narrow :: "u64 \<Rightarrow> u32 \<Rightarrow> u64" where
  "mb_narrow msk c =
     (let msk = drop_type B_ASN1_PRINTABLESTRING (\<not> is_printable c) msk;
          msk = drop_type B_ASN1_IA5STRING (c > 127) msk;
          msk = drop_type B_ASN1_T61STRING (c > 0xff) msk
      in drop_type B_ASN1_BMPSTRING (c > 0xffff) msk)"

function mb_scan :: "nat \<Rightarrow> CBS \<Rightarrow> u64 \<Rightarrow> nat \<Rightarrow> nat \<Rightarrow> mb_error + u64 \<times> nat \<times> nat" where
  "mb_scan inform cbs msk nchar utf8_len =
     (if CBS_len cbs = 0 then Inr (msk, nchar, utf8_len)
      else case mb_decode inform cbs of
             (None, _) \<Rightarrow> Inl Invalid_string
           | (Some c, cbs) \<Rightarrow>
               if nchar = 0 \<and> (inform = MBSTRING_BMP \<or> inform = MBSTRING_UNIV) \<and> c = 0xfeff
               then Inl Illegal_characters
               else let msk = mb_narrow msk c
                    in if msk = 0 then Inl Illegal_characters
                       else mb_scan inform cbs msk (nchar + 1) (utf8_len + cbb_get_utf8_len c))"
  by pat_completeness auto
termination
  by (relation "measure (\<lambda>(_, cbs, _). length cbs)") (auto intro: mb_decode_shrinks dest: sym)

declare mb_scan.simps [simp del]

text \<open>The output type, its encoding and the size estimate.\<close>

definition mb_choose :: "u64 \<Rightarrow> nat \<Rightarrow> nat \<Rightarrow> int \<times> nat \<times> nat" where
  "mb_choose msk nchar utf8_len =
     (if msk AND B_ASN1_PRINTABLESTRING \<noteq> 0 then (V_ASN1_PRINTABLESTRING, MBSTRING_ASC, nchar)
      else if msk AND B_ASN1_IA5STRING \<noteq> 0 then (V_ASN1_IA5STRING, MBSTRING_ASC, nchar)
      else if msk AND B_ASN1_T61STRING \<noteq> 0 then (V_ASN1_T61STRING, MBSTRING_ASC, nchar)
      else if msk AND B_ASN1_BMPSTRING \<noteq> 0 then (V_ASN1_BMPSTRING, MBSTRING_BMP, 2 * nchar)
      else if msk AND B_ASN1_UNIVERSALSTRING \<noteq> 0 then (V_ASN1_UNIVERSALSTRING, MBSTRING_UNIV, 4 * nchar)
      else (V_ASN1_UTF8STRING, MBSTRING_UTF8, utf8_len))"

function mb_convert :: "nat \<Rightarrow> nat \<Rightarrow> (nat \<Rightarrow> bool) \<Rightarrow> CBS \<Rightarrow> CBB \<Rightarrow> bool \<times> CBB" where
  "mb_convert inform outform os cbs cbb =
     (if CBS_len cbs = 0 then (True, cbb)
      else case mb_decode inform cbs of
             (None, _) \<Rightarrow> (False, cbb)
           | (Some c, cbs) \<Rightarrow> cbb_seq (mb_encode outform os 0 c cbb) (mb_convert inform outform os cbs))"
  by pat_completeness auto
termination
  by (relation "measure (\<lambda>(_, _, _, cbs, _). length cbs)") (auto intro: mb_decode_shrinks dest: sym)

declare mb_convert.simps [simp del]

text \<open>The bytes \<open>in\<close>, \<open>len\<close> stands for: \<open>len = -1\<close> is a C string.\<close>

definition mb_input :: "u8 list \<Rightarrow> int \<Rightarrow> u8 list" where
  "mb_input inp len = (if len = -1 then take (strlen inp) inp else take (nat len) inp)"

definition sizeof_ASN1_STRING :: nat where
  "sizeof_ASN1_STRING = 24"

text \<open>\<open>ASN1_STRING_set\<close> (\<open>asn1_lib.c\<close>) on a string whose data pointer is \<open>NULL\<close>, as it is here.\<close>

definition ASN1_STRING_set :: "(nat \<Rightarrow> bool) \<Rightarrow> ASN1_STRING \<Rightarrow> u8 list \<Rightarrow> bool \<times> ASN1_STRING" where
  "ASN1_STRING_set os str data =
     (if \<not> malloc_ok os (length data + 1) then (False, str)
      else (True, str\<lparr>as_length := int (length data), as_data := Some (data @ [0])\<rparr>))"

definition mb_finish ::
    "(nat \<Rightarrow> bool) \<Rightarrow> nat \<Rightarrow> nat \<Rightarrow> nat \<Rightarrow> u8 list \<Rightarrow> (nat \<times> u8 list) option" where
  "mb_finish os inform outform size_estimate data =
     (case CBB_init os (size_estimate + 1) of
        (False, _) \<Rightarrow> None
      | (True, cbb) \<Rightarrow>
          (case cbb_seq (mb_convert inform outform os (CBS_init data) cbb) (CBB_add_u8 os 0 0) of
             (False, _) \<Rightarrow> None
           | (True, cbb) \<Rightarrow>
               (case fst (CBB_finish os 0 True cbb) of
                  None \<Rightarrow> None
                | Some out \<Rightarrow>
                    if length out < 1 \<or> length out > 2 ^ 31 - 1 then None else Some (length out - 1, out))))"

text \<open>The second half of the function: the destination string is prepared and filled.\<close>

definition mb_store ::
    "(nat \<Rightarrow> bool) \<Rightarrow> ASN1_STRING option \<Rightarrow> nat \<Rightarrow> u8 list \<Rightarrow> int \<times> nat \<times> nat
      \<Rightarrow> (mb_error + int) \<times> out_ptr" where
  "mb_store os old inform data choice =
     (case choice of (str_type, outform, size_estimate) \<Rightarrow>
        if old = None \<and> \<not> malloc_ok os sizeof_ASN1_STRING then (Inl Malloc_failure, Null)
        else
          let free_out = (old = None);
              dest = (case old of
                        Some s \<Rightarrow> (if as_data s \<noteq> None then s\<lparr>as_length := 0, as_data := None\<rparr> else s)
                                    \<lparr>as_type := str_type\<rparr>
                      | None \<Rightarrow> \<lparr>as_length = 0, as_type = str_type, as_data = None\<rparr>)
          in if inform = outform
             then (case ASN1_STRING_set os dest data of
                     (False, dest) \<Rightarrow> (Inl Malloc_failure, Str dest)
                   | (True, dest) \<Rightarrow> (Inr str_type, Str dest))
             else case mb_finish os inform outform size_estimate data of
                    None \<Rightarrow> (Inl Internal_error, if free_out then Freed else Str dest)
                  | Some (n, bytes) \<Rightarrow>
                      (Inr str_type, Str (dest\<lparr>as_length := int n, as_data := Some bytes\<rparr>)))"

text \<open>
  \<open>out\<close> is \<open>None\<close> when the caller passes \<open>NULL\<close>, else the string \<open>*out\<close> points to, if any.
  The result is the type, or the reason the function returned \<open>-1\<close>, and \<open>*out\<close> afterwards.
\<close>

definition ASN1_mbstring_ncopy ::
    "(nat \<Rightarrow> bool) \<Rightarrow> ASN1_STRING option option \<Rightarrow> u8 list \<Rightarrow> int \<Rightarrow> nat \<Rightarrow> u64 \<Rightarrow> int \<Rightarrow> int
      \<Rightarrow> (mb_error + int) \<times> out_ptr" where
  "ASN1_mbstring_ncopy os out inp len inform msk minsize maxsize =
     (let data = mb_input inp len;
          msk = (if msk = 0 then DIRSTRING_TYPE else msk);
          before = (case out of Some (Some s) \<Rightarrow> Str s | _ \<Rightarrow> Null)
      in if inform \<notin> {MBSTRING_BMP, MBSTRING_UNIV, MBSTRING_UTF8, MBSTRING_ASC} then (Inl Unknown_format, before)
         else case mb_scan inform (CBS_init data) msk 0 0 of
           Inl e \<Rightarrow> (Inl e, before)
         | Inr (msk, nchar, utf8_len) \<Rightarrow>
           if minsize > 0 \<and> int nchar < minsize then (Inl String_too_short, before)
           else if maxsize > 0 \<and> int nchar > maxsize then (Inl String_too_long, before)
           else case out of
                  None \<Rightarrow> (Inr (fst (mb_choose msk nchar utf8_len)), Null)
                | Some old \<Rightarrow> mb_store os old inform data (mb_choose msk nchar utf8_len))"

definition ASN1_mbstring_copy ::
    "(nat \<Rightarrow> bool) \<Rightarrow> ASN1_STRING option option \<Rightarrow> u8 list \<Rightarrow> int \<Rightarrow> nat \<Rightarrow> u64
      \<Rightarrow> (mb_error + int) \<times> out_ptr" where
  "ASN1_mbstring_copy os out inp len inform msk = ASN1_mbstring_ncopy os out inp len inform msk 0 0"

section \<open>Specification\<close>

definition mb_accepts :: "nat \<Rightarrow> u32 \<Rightarrow> bool" where
  "mb_accepts form u =
     (if form = MBSTRING_BMP then u \<le> 0xffff \<and> is_valid_code_point u
      else if form = MBSTRING_UNIV then is_valid_code_point u
      else if form = MBSTRING_UTF8 then is_valid_code_point u
      else u \<le> 0xff)"

definition mb_enc :: "nat \<Rightarrow> u32 \<Rightarrow> u8 list" where
  "mb_enc form u =
     (if form = MBSTRING_BMP then ucs2 u
      else if form = MBSTRING_UNIV then utf32 u
      else if form = MBSTRING_UTF8 then utf8 u
      else [ucast u])"

definition mb_text :: "nat \<Rightarrow> u32 list \<Rightarrow> u8 list" where
  "mb_text form us = concat (map (mb_enc form) us)"

text \<open>The smallest type of the mask that holds every character, UTF8String if none does.\<close>

definition smallest_type :: "u64 \<Rightarrow> u32 list \<Rightarrow> int" where
  "smallest_type msk us =
     (if bit msk 1 \<and> list_all is_printable us then V_ASN1_PRINTABLESTRING
      else if bit msk 4 \<and> list_all (\<lambda>u. u \<le> 127) us then V_ASN1_IA5STRING
      else if bit msk 2 \<and> list_all (\<lambda>u. u \<le> 0xff) us then V_ASN1_T61STRING
      else if bit msk 11 \<and> list_all (\<lambda>u. u \<le> 0xffff) us then V_ASN1_BMPSTRING
      else if bit msk 8 then V_ASN1_UNIVERSALSTRING
      else V_ASN1_UTF8STRING)"

definition type_form :: "int \<Rightarrow> nat" where
  "type_form t =
     (if t = V_ASN1_BMPSTRING then MBSTRING_BMP
      else if t = V_ASN1_UNIVERSALSTRING then MBSTRING_UNIV
      else if t = V_ASN1_UTF8STRING then MBSTRING_UTF8
      else MBSTRING_ASC)"

lemma mb_decode_iff:
  "mb_decode form cbs = (Some v, rest) \<longleftrightarrow> mb_accepts form v \<and> cbs = mb_enc form v @ rest"
  by (simp add: mb_decode_def mb_accepts_def mb_enc_def cbs_get_ucs2_be_iff cbs_get_utf32_be_iff
      cbs_get_utf8_iff cbs_get_latin1_iff)

lemma mb_encode_outcome:
  "outcome os d (mb_encode form os d u) (if mb_accepts form u then Some (mb_enc form u) else None) 4"
  unfolding mb_encode_def mb_accepts_def mb_enc_def
  using ucs2_outcome [of os d u] utf32_outcome [of os d u] utf8_outcome [of os d u] latin1_outcome [of os d u]
  by (cases "form = MBSTRING_BMP"; cases "form = MBSTRING_UNIV"; cases "form = MBSTRING_UTF8")
    (simp_all only: if_True if_False simp_thms)

lemma mb_enc_not_Nil: "mb_enc form u \<noteq> []"
  by (simp add: mb_enc_def ucs2_def utf32_def be_bytes_not_Nil) (simp add: utf8_def Let_def)

section \<open>The scan\<close>

lemma and_one_bit: "(m :: u64) AND push_bit k 1 \<noteq> 0 \<longleftrightarrow> bit m k"
  using and_exp_eq_0_iff_not_bit [of m k] by (simp add: push_bit_of_1)

lemma bit_drop_type:
  "bit (drop_type (push_bit k 1) unfit m) j \<longleftrightarrow> bit m j \<and> \<not> (unfit \<and> j = k)"
  using and_one_bit [of m k] by (auto simp: drop_type_def bit_simps dest: bit_imp_le_length)

lemma type_bits:
  "B_ASN1_PRINTABLESTRING = push_bit 1 1" "B_ASN1_T61STRING = push_bit 2 1" "B_ASN1_IA5STRING = push_bit 4 1"
  "B_ASN1_UNIVERSALSTRING = push_bit 8 1" "B_ASN1_BMPSTRING = push_bit 11 1"
  by (simp_all add: B_ASN1_PRINTABLESTRING_def B_ASN1_T61STRING_def B_ASN1_IA5STRING_def
      B_ASN1_UNIVERSALSTRING_def B_ASN1_BMPSTRING_def)

lemma bit_mb_narrow:
  "bit (mb_narrow m c) j \<longleftrightarrow> bit m j \<and> (j = 1 \<longrightarrow> is_printable c) \<and> (j = 4 \<longrightarrow> c \<le> 127)
     \<and> (j = 2 \<longrightarrow> c \<le> 0xff) \<and> (j = 11 \<longrightarrow> c \<le> 0xffff)"
  unfolding mb_narrow_def type_bits Let_def by (simp only: bit_drop_type) (auto simp: not_less)

lemma bit_mb_narrows:
  "bit (foldl mb_narrow m us) j \<longleftrightarrow> bit m j \<and> (j = 1 \<longrightarrow> list_all is_printable us)
     \<and> (j = 4 \<longrightarrow> list_all (\<lambda>u. u \<le> 127) us) \<and> (j = 2 \<longrightarrow> list_all (\<lambda>u. u \<le> 0xff) us)
     \<and> (j = 11 \<longrightarrow> list_all (\<lambda>u. u \<le> 0xffff) us)"
  by (induction us arbitrary: m) (auto simp: bit_mb_narrow)

lemma mb_scan_sound:
  "mb_scan inform cbs m n l = Inr (m', n', l') \<Longrightarrow>
     \<exists>us. list_all (mb_accepts inform) us \<and> cbs = mb_text inform us \<and> m' = foldl mb_narrow m us
       \<and> n' = n + length us \<and> l' = l + length (mb_text MBSTRING_UTF8 us)"
proof (induction inform cbs m n l rule: mb_scan.induct)
  case (1 inform cbs m n l)
  show ?case
  proof (cases "cbs = []")
    case True
    with "1.prems" show ?thesis
      by (intro exI [of _ "[]"]) (simp add: mb_scan.simps CBS_len_def mb_text_def)
  next
    case False
    obtain c rest where c: "mb_decode inform cbs = (Some c, rest)"
      and rec: "mb_scan inform rest (mb_narrow m c) (n + 1) (l + cbb_get_utf8_len c) = Inr (m', n', l')"
      and bom: "\<not> (n = 0 \<and> (inform = MBSTRING_BMP \<or> inform = MBSTRING_UNIV) \<and> c = 0xfeff)"
      and nz: "mb_narrow m c \<noteq> 0"
      using "1.prems" False unfolding mb_scan.simps [of inform cbs]
      by (auto simp: CBS_len_def Let_def split: prod.splits option.splits if_splits)
    from 1(1) [OF _ c [symmetric] refl bom refl nz rec] False obtain us where
      "list_all (mb_accepts inform) us \<and> rest = mb_text inform us \<and> m' = foldl mb_narrow (mb_narrow m c) us
       \<and> n' = n + 1 + length us \<and> l' = l + cbb_get_utf8_len c + length (mb_text MBSTRING_UTF8 us)"
      by (auto simp: CBS_len_def)
    moreover have "mb_enc MBSTRING_UTF8 c = utf8 c"
      by (simp add: mb_enc_def MBSTRING_UTF8_def MBSTRING_BMP_def MBSTRING_UNIV_def)
    ultimately show ?thesis
      using c by (intro exI [of _ "c # us"]) (simp add: mb_decode_iff mb_text_def cbb_get_utf8_len_eq)
  qed
qed

lemma mb_choose_smallest:
  "mb_choose (foldl mb_narrow m us) n l = (t, form, est) \<Longrightarrow> t = smallest_type m us \<and> form = type_form t"
  unfolding mb_choose_def smallest_type_def type_bits and_one_bit
  by (auto simp: bit_mb_narrows type_form_def V_ASN1_PRINTABLESTRING_def V_ASN1_IA5STRING_def
      V_ASN1_T61STRING_def V_ASN1_BMPSTRING_def V_ASN1_UNIVERSALSTRING_def V_ASN1_UTF8STRING_def split: if_splits)

section \<open>The conversion\<close>

lemma mb_text_simps [simp]:
  "mb_text form [] = []" "mb_text form (u # us) = mb_enc form u @ mb_text form us"
  by (simp_all add: mb_text_def)

lemma mb_convert_Cons:
  assumes "mb_accepts inform u"
  shows "mb_convert inform outform os (mb_text inform (u # us))
    = (\<lambda>cbb. cbb_seq (mb_encode outform os 0 u cbb) (mb_convert inform outform os (mb_text inform us)))"
proof (rule ext)
  fix cbb
  have "mb_decode inform (mb_text inform (u # us)) = (Some u, mb_text inform us)"
    using assms by (simp add: mb_decode_iff)
  then show "mb_convert inform outform os (mb_text inform (u # us)) cbb
      = cbb_seq (mb_encode outform os 0 u cbb) (mb_convert inform outform os (mb_text inform us))"
    by (subst mb_convert.simps) (simp add: CBS_len_def mb_enc_not_Nil)
qed

lemma mb_convert_outcome:
  "list_all (mb_accepts inform) us \<Longrightarrow>
     outcome os 0 (mb_convert inform outform os (mb_text inform us))
       (if list_all (mb_accepts outform) us then Some (mb_text outform us) else None) (4 * length us)"
proof (induction us)
  case Nil
  have "mb_convert inform outform os [] = (\<lambda>cbb. (True, cbb))"
    by (rule ext) (subst mb_convert.simps, simp add: CBS_len_def)
  then show ?case by (simp add: outcome_def writes_nothing)
next
  case (Cons u us)
  then have "mb_accepts inform u" by simp
  note step = mb_convert_Cons [OF this, of outform os us]
  note out = outcome_seq [OF mb_encode_outcome [of os 0 outform u] Cons.IH]
  have "(case if mb_accepts outform u then Some (mb_enc outform u) else None of None \<Rightarrow> None
      | Some ws \<Rightarrow> map_option ((@) ws) (if list_all (mb_accepts outform) us then Some (mb_text outform us) else None))
    = (if list_all (mb_accepts outform) (u # us) then Some (mb_text outform (u # us)) else None)"
    by simp
  then show ?case using out Cons.prems unfolding step by simp
qed

lemma mb_finish_sound:
  assumes us: "list_all (mb_accepts inform) us" and est: "est + 1 < 2 ^ 64"
    and fin: "mb_finish os inform outform est (mb_text inform us) = Some (n, out)"
  shows "list_all (mb_accepts outform) us \<and> out = mb_text outform us @ [0] \<and> n = length (mb_text outform us)"
proof -
  obtain cbb cbb1 cbb2 where 0: "CBB_init os (est + 1) = (True, cbb)"
    and 1: "mb_convert inform outform os (mb_text inform us) cbb = (True, cbb1)"
    and 2: "CBB_add_u8 os 0 0 cbb1 = (True, cbb2)"
    and 3: "fst (CBB_finish os 0 True cbb2) = Some out" "n = length out - 1"
    using fin by (auto simp: mb_finish_def CBS_init_def cbb_seq_True_iff split: prod.splits bool.splits option.splits if_splits)
  note out = mb_convert_outcome [OF us, of os outform]
  have ok: "cbb_ok 0 cbb (fresh_buffer (est + 1))" using CBB_init_ok [OF est 0] .
  have acc: "list_all (mb_accepts outform) us"
    using out ok 1 by (auto simp: outcome_def split: if_splits)
  with out have w: "writes os 0 (mb_convert inform outform os (mb_text inform us)) (mb_text outform us) (4 * length us)"
    by (simp add: outcome_def)
  from writesD [OF w ok 1] obtain b1 where b1: "cbb_ok 0 cbb1 b1" "bb_buf b1 = mb_text outform us"
    by (auto simp: fresh_buffer_def)
  from writesD [OF writes_CBB_add_u8 b1(1) 2] obtain b2 where "cbb_ok 0 cbb2 b2" "bb_buf b2 = mb_text outform us @ [0]"
    using b1(2) by auto
  then have "out = mb_text outform us @ [0]" using 3(1) CBB_finish_idle [of cbb2 b2 True os] by simp
  with 3(2) acc show ?thesis by simp
qed

lemma utf8_length_le: "length (mb_text form us) \<le> 4 * length us"
proof (induction us)
  case (Cons u us)
  have "length (utf8 u) \<le> 4"
    unfolding cbb_get_utf8_len_eq [symmetric] by (simp add: cbb_get_utf8_len_def)
  then have "length (mb_enc form u) \<le> 4" by (simp add: mb_enc_def ucs2_def utf32_def)
  with Cons show ?case by simp
qed simp

lemma mb_text_length_ge: "length us \<le> length (mb_text form us)"
proof (induction us)
  case (Cons u us)
  then show ?case using mb_enc_not_Nil [of form u] by (cases "mb_enc form u") simp_all
qed simp

lemma mb_choose_estimate:
  "mb_choose m n l = (t, form, est) \<Longrightarrow> l \<le> 4 * n \<Longrightarrow> est \<le> 4 * n"
  by (auto simp: mb_choose_def split: if_splits)

lemma mb_store_sound:
  assumes us: "list_all (mb_accepts inform) us" and est: "est + 1 < 2 ^ 64"
    and run: "mb_store os old inform (mb_text inform us) (t', form, est) = (Inr t, dst)"
  shows "\<exists>s. dst = Str s \<and> t = t' \<and> as_type s = t
    \<and> as_data s = Some (mb_text form us @ [0]) \<and> as_length s = int (length (mb_text form us))"
proof (cases "inform = form")
  case True
  with run show ?thesis
    by (auto simp: mb_store_def ASN1_STRING_set_def Let_def split: if_splits option.splits)
next
  case False
  then obtain n out where fin: "mb_finish os inform form est (mb_text inform us) = Some (n, out)"
    using run by (auto simp: mb_store_def Let_def split: if_splits option.splits)
  with run False mb_finish_sound [OF us est fin] show ?thesis
    by (auto simp: mb_store_def Let_def split: if_splits option.splits)
qed

text \<open>What a caller of \<open>ASN1_mbstring_ncopy\<close> gets: the same characters, in the smallest type.\<close>

definition mb_result :: "nat \<Rightarrow> u64 \<Rightarrow> int \<Rightarrow> int \<Rightarrow> u8 list \<Rightarrow> int \<Rightarrow> ASN1_STRING \<Rightarrow> u32 list \<Rightarrow> bool" where
  "mb_result inform msk lo up data t s us \<longleftrightarrow>
     list_all (mb_accepts inform) us \<and> data = mb_text inform us
     \<and> (lo > 0 \<longrightarrow> lo \<le> int (length us)) \<and> (up > 0 \<longrightarrow> int (length us) \<le> up)
     \<and> t = smallest_type (if msk = 0 then DIRSTRING_TYPE else msk) us
     \<and> as_type s = t \<and> as_data s = Some (mb_text (type_form t) us @ [0])
     \<and> as_length s = int (length (mb_text (type_form t) us))"

lemma ASN1_mbstring_ncopy_sound:
  assumes len: "length (mb_input inp len) < 2 ^ 31"
    and run: "ASN1_mbstring_ncopy os (Some old) inp len inform msk lo up = (Inr t, dst)"
  shows "\<exists>us s. dst = Str s \<and> mb_result inform msk lo up (mb_input inp len) t s us"
proof -
  define m where "m = (if msk = 0 then DIRSTRING_TYPE else msk)"
  define data where "data = mb_input inp len"
  obtain m' n l where scan: "mb_scan inform data m 0 0 = Inr (m', n, l)"
    and lo: "lo > 0 \<longrightarrow> lo \<le> int n" and up: "up > 0 \<longrightarrow> int n \<le> up"
    and st: "mb_store os old inform data (mb_choose m' n l) = (Inr t, dst)"
    using run unfolding ASN1_mbstring_ncopy_def Let_def m_def [symmetric] data_def [symmetric] CBS_init_def
    by (auto split: sum.splits if_splits)
  obtain us where us: "list_all (mb_accepts inform) us" "data = mb_text inform us" "m' = foldl mb_narrow m us"
    "n = length us" "l = length (mb_text MBSTRING_UTF8 us)"
    using mb_scan_sound [OF scan] by auto
  obtain t' form est where ch: "mb_choose m' n l = (t', form, est)" by (cases "mb_choose m' n l")
  have t': "t' = smallest_type m us" "form = type_form t'"
    using mb_choose_smallest ch us(3) by auto
  have est: "est + 1 < 2 ^ 64"
  proof -
    have "est \<le> 4 * n" using mb_choose_estimate [OF ch] utf8_length_le us by simp
    also have "n \<le> length data" using mb_text_length_ge us by simp
    finally show ?thesis using len by (simp add: data_def)
  qed
  from mb_store_sound [OF us(1) est st [unfolded ch us(2)]] us t' lo up show ?thesis
    by (auto simp: mb_result_def m_def data_def)
qed

end
