(* ===== verification/ConstTime.thy ===== *)
theory ConstTime
  imports Prelude
begin

text \<open>
  The constant-time primitives of \<open>crypto/internal.h\<close>: comparisons and selections computed
  with arithmetic on \<open>crypto_word_t\<close> (64 bits on the targets) instead of branches. A true
  comparison is the word of all ones. The lemmas show that each computes the comparison or
  selection it is named after; \<open>value_barrier_w\<close> is the identity.
\<close>

section \<open>The code\<close>

definition constant_time_msb_w :: "u64 \<Rightarrow> u64" where
  "constant_time_msb_w a = 0 - drop_bit (64 - 1) a"

definition constant_time_lt_w :: "u64 \<Rightarrow> u64 \<Rightarrow> u64" where
  "constant_time_lt_w a b = constant_time_msb_w (a XOR ((a XOR b) OR ((a - b) XOR a)))"

definition constant_time_lt_8 :: "u64 \<Rightarrow> u64 \<Rightarrow> u8" where
  "constant_time_lt_8 a b = ucast (constant_time_lt_w a b)"

definition constant_time_ge_w :: "u64 \<Rightarrow> u64 \<Rightarrow> u64" where
  "constant_time_ge_w a b = NOT (constant_time_lt_w a b)"

definition constant_time_ge_8 :: "u64 \<Rightarrow> u64 \<Rightarrow> u8" where
  "constant_time_ge_8 a b = ucast (constant_time_ge_w a b)"

definition constant_time_is_zero_w :: "u64 \<Rightarrow> u64" where
  "constant_time_is_zero_w a = constant_time_msb_w (NOT a AND (a - 1))"

definition constant_time_is_zero_8 :: "u64 \<Rightarrow> u8" where
  "constant_time_is_zero_8 a = ucast (constant_time_is_zero_w a)"

definition constant_time_eq_w :: "u64 \<Rightarrow> u64 \<Rightarrow> u64" where
  "constant_time_eq_w a b = constant_time_is_zero_w (a XOR b)"

definition constant_time_eq_8 :: "u64 \<Rightarrow> u64 \<Rightarrow> u8" where
  "constant_time_eq_8 a b = ucast (constant_time_eq_w a b)"

definition constant_time_select_w :: "u64 \<Rightarrow> u64 \<Rightarrow> u64 \<Rightarrow> u64" where
  "constant_time_select_w msk a b = (msk AND a) OR (NOT msk AND b)"

definition constant_time_select_8 :: "u8 \<Rightarrow> u8 \<Rightarrow> u8 \<Rightarrow> u8" where
  "constant_time_select_8 msk a b = ucast (constant_time_select_w (ucast msk) (ucast a) (ucast b))"

section \<open>Masks\<close>

definition mask_of :: "bool \<Rightarrow> 'a::len word" where
  "mask_of p = (if p then -1 else 0)"

lemma mask_of_simps [simp]: "mask_of True = -1" "mask_of False = 0"
  by (simp_all add: mask_of_def)

lemma ucast_mask_of [simp]:
  "LENGTH('a::len) \<le> LENGTH('b::len) \<Longrightarrow> (ucast (mask_of p :: 'b word) :: 'a word) = mask_of p"
  by (cases p) (auto intro!: bit_word_eqI simp: bit_simps)

lemma not_mask_of: "NOT (mask_of p :: 'a::len word) = mask_of (\<not> p)"
  by (cases p) simp_all

lemma mask_of_inject [simp]: "mask_of p = (mask_of q :: 'a::len word) \<longleftrightarrow> p = q"
  by (cases p; cases q) simp_all

section \<open>Correctness\<close>

lemma drop_bit_63: "drop_bit 63 (a :: u64) = (if 2 ^ 63 \<le> unat a then 1 else 0)"
proof -
  have "unat a div 2 ^ 63 = (if 2 ^ 63 \<le> unat a then 1 else 0)"
    using unsigned_less [where ?'a = nat, of a] by (auto intro: div_nat_eqI)
  then have "unat (drop_bit 63 a) = (if 2 ^ 63 \<le> unat a then 1 else 0)"
    by (simp only: unat_drop_bit_div)
  then show ?thesis
    by (intro iffD2 [OF word_unat_eq_iff]) (simp split: if_splits)
qed

lemma top_bit_iff: "bit (a :: u64) 63 \<longleftrightarrow> 2 ^ 63 \<le> unat a"
proof -
  have "bit a 63 \<longleftrightarrow> bit (drop_bit 63 a) 0" by (simp add: bit_drop_bit_eq)
  then show ?thesis by (simp only: drop_bit_63) simp
qed

lemma constant_time_msb_w_mask: "constant_time_msb_w a = mask_of (bit a 63)"
  unfolding constant_time_msb_w_def top_bit_iff
  by (simp add: drop_bit_63 [simplified])

lemma constant_time_is_zero_w_mask: "constant_time_is_zero_w a = mask_of (a = 0)"
proof -
  have "\<not> bit a 63 \<and> bit (a - 1) 63 \<longleftrightarrow> a = 0"
  proof (cases "a = 0")
    case False
    then have "unat (a - 1) = unat a - 1"
      by (metis unat_minus_one)
    then show ?thesis using False by (simp only: top_bit_iff) auto
  next
    case True
    then show ?thesis by (simp only: top_bit_iff) (simp add: unsigned_minus_1_eq_mask mask_eq_exp_minus_1)
  qed
  then show ?thesis
    unfolding constant_time_is_zero_w_def constant_time_msb_w_mask by (simp add: bit_simps)
qed

lemma constant_time_eq_w_mask: "constant_time_eq_w a b = mask_of (a = b)"
  by (simp add: constant_time_eq_w_def constant_time_is_zero_w_mask)

lemma constant_time_lt_w_mask: "constant_time_lt_w a b = mask_of (a < b)"
proof -
  have bit_eq: "bit (a XOR ((a XOR b) OR ((a - b) XOR a))) 63
      \<longleftrightarrow> (if bit a 63 = bit b 63 then bit (a - b) 63 else \<not> bit a 63)"
    by (simp add: bit_simps) blast
  have ub: "unat a < 2 ^ 64" "unat b < 2 ^ 64"
    using unsigned_less [where ?'a = nat, of a] unsigned_less [where ?'a = nat, of b] by simp_all
  have "(if bit a 63 = bit b 63 then bit (a - b) 63 else \<not> bit a 63) \<longleftrightarrow> unat a < unat b"
  proof (cases "unat b \<le> unat a")
    case True
    then have "unat (a - b) = unat a - unat b" by (simp add: unat_sub word_le_nat_alt)
    with True ub show ?thesis by (simp only: top_bit_iff) auto
  next
    case False
    then have "unat (a - b) = 2 ^ 64 + unat a - unat b"
      by (simp add: unat_sub_if_size word_size)
    with False ub show ?thesis by (simp only: top_bit_iff) auto
  qed
  then show ?thesis
    unfolding constant_time_lt_w_def constant_time_msb_w_mask bit_eq by (simp add: word_less_nat_alt)
qed

lemma constant_time_ge_w_mask: "constant_time_ge_w a b = mask_of (a \<ge> b)"
  by (simp add: constant_time_ge_w_def constant_time_lt_w_mask not_mask_of not_less)

lemma constant_time_8_masks:
  "constant_time_lt_8 a b = mask_of (a < b)" "constant_time_ge_8 a b = mask_of (a \<ge> b)"
  "constant_time_is_zero_8 a = mask_of (a = 0)" "constant_time_eq_8 a b = mask_of (a = b)"
  by (simp_all add: constant_time_lt_8_def constant_time_lt_w_mask constant_time_ge_8_def constant_time_ge_w_mask
      constant_time_is_zero_8_def constant_time_is_zero_w_mask constant_time_eq_8_def constant_time_eq_w_mask)

lemma constant_time_select_w_mask: "constant_time_select_w (mask_of p) a b = (if p then a else b)"
  by (simp add: constant_time_select_w_def not_mask_of)

lemma constant_time_select_8_mask: "constant_time_select_8 (mask_of p) a b = (if p then a else b)"
  by (cases p) (auto intro!: bit_word_eqI simp: constant_time_select_8_def constant_time_select_w_def bit_simps
      dest: bit_imp_le_length)

end
