(* ===== verification/Base64.thy ===== *)
theory Base64
  imports ConstTime Mem
begin

text \<open>
  \<open>crypto/base64/base64.c\<close>: block and streaming encoding and decoding. Bytes written through
  the output pointer are returned as a list (the trailing NUL terminators left out); an
  \<open>EVP_ENCODE_CTX\<close> keeps its pending bytes, of which \<open>data_used\<close> counts the valid ones, as a
  list.
\<close>

section \<open>Characters\<close>

definition constant_time_lt_args_8 :: "u8 \<Rightarrow> u8 \<Rightarrow> u8" where
  "constant_time_lt_args_8 a b = ucast (constant_time_msb_w (ucast a - ucast b))"

definition constant_time_in_range_8 :: "u8 \<Rightarrow> u8 \<Rightarrow> u8 \<Rightarrow> u8" where
  "constant_time_in_range_8 a lo hi = constant_time_lt_args_8 (a - lo) (hi - lo + 1)"

definition conv_bin2ascii :: "u8 \<Rightarrow> u8" where
  "conv_bin2ascii a =
     (let a = a AND 0x3f;
          ret = constant_time_select_8 (constant_time_eq_8 (ucast a) 62) 43 47;
          ret = constant_time_select_8 (constant_time_lt_args_8 a 62) (a - 52 + 48) ret;
          ret = constant_time_select_8 (constant_time_lt_args_8 a 52) (a - 26 + 97) ret
      in constant_time_select_8 (constant_time_lt_args_8 a 26) (a + 65) ret)"

definition base64_ascii_to_bin :: "u8 \<Rightarrow> u8" where
  "base64_ascii_to_bin a =
     (let is_upper = constant_time_in_range_8 a 65 90;
          is_lower = constant_time_in_range_8 a 97 122;
          is_digit = constant_time_in_range_8 a 48 57;
          is_plus = constant_time_eq_8 (ucast a) 43;
          is_slash = constant_time_eq_8 (ucast a) 47;
          is_equals = constant_time_eq_8 (ucast a) 61;
          ret = 0xff;
          ret = constant_time_select_8 is_upper (a - 65) ret;
          ret = constant_time_select_8 is_lower (a - 97 + 26) ret;
          ret = constant_time_select_8 is_digit (a - 48 + 52) ret;
          ret = constant_time_select_8 is_plus 62 ret;
          ret = constant_time_select_8 is_slash 63 ret
      in constant_time_select_8 is_equals 0 ret)"

section \<open>Encoding\<close>

definition INT_MAX :: nat where
  "INT_MAX = 2 ^ 31 - 1"

definition EVP_EncodedLength :: "nat \<Rightarrow> nat option" where
  "EVP_EncodedLength len =
     (if sz (len + 2) < len then None
      else let len = sz (len + 2) div 3
           in if sz (len * 4) div 4 \<noteq> len then None
              else let len = sz (len * 4)
                   in if sz (len + 1) < len then None else Some (sz (len + 1)))"

fun EVP_EncodeBlock :: "u8 list \<Rightarrow> u8 list" where
  "EVP_EncodeBlock [] = []"
| "EVP_EncodeBlock [x] =
     (let l = push_bit 16 (ucast x) :: u32
      in [conv_bin2ascii (ucast (drop_bit 18 l)), conv_bin2ascii (ucast (drop_bit 12 l)), 61, 61])"
| "EVP_EncodeBlock [x, y] =
     (let l = push_bit 16 (ucast x) OR push_bit 8 (ucast y) :: u32
      in [conv_bin2ascii (ucast (drop_bit 18 l)), conv_bin2ascii (ucast (drop_bit 12 l)),
          conv_bin2ascii (ucast (drop_bit 6 l)), 61])"
| "EVP_EncodeBlock (x # y # z # src) =
     (let l = push_bit 16 (ucast x) OR push_bit 8 (ucast y) OR ucast z :: u32
      in [conv_bin2ascii (ucast (drop_bit 18 l)), conv_bin2ascii (ucast (drop_bit 12 l)),
          conv_bin2ascii (ucast (drop_bit 6 l)), conv_bin2ascii (ucast l)] @ EVP_EncodeBlock src)"

record EVP_ENCODE_CTX =
  ec_data :: "u8 list"
  ec_eof_seen :: bool
  ec_error_encountered :: bool

definition EVP_EncodeInit :: EVP_ENCODE_CTX where
  "EVP_EncodeInit = \<lparr>ec_data = [], ec_eof_seen = False, ec_error_encountered = False\<rparr>"

definition sizeof_data :: nat where
  "sizeof_data = 48"

text \<open>The loop over whole lines: did the total overflow, the total, the output and the input left.\<close>

function encode_lines :: "nat \<Rightarrow> u8 list \<Rightarrow> u8 list \<Rightarrow> bool \<times> nat \<times> u8 list \<times> u8 list" where
  "encode_lines tot out inp =
     (if length inp < sizeof_data then (False, tot, out, inp)
      else let enc = EVP_EncodeBlock (take sizeof_data inp);
               out = out @ enc @ [10]
           in if sz (tot + length enc + 1) < tot then (True, tot, out, drop sizeof_data inp)
              else encode_lines (sz (tot + length enc + 1)) out (drop sizeof_data inp))"
  by pat_completeness auto
termination
  by (relation "measure (\<lambda>(_, _, inp). length inp)") (auto simp: sizeof_data_def)

declare encode_lines.simps [simp del]

text \<open>The result is the context, the bytes written and \<open>*out_len\<close>.\<close>

definition EVP_EncodeUpdate :: "EVP_ENCODE_CTX \<Rightarrow> u8 list \<Rightarrow> EVP_ENCODE_CTX \<times> u8 list \<times> nat" where
  "EVP_EncodeUpdate ctx inp =
     (if length inp = 0 then (ctx, [], 0)
      else if sizeof_data - length (ec_data ctx) > length inp
      then (ctx\<lparr>ec_data := ec_data ctx @ inp\<rparr>, [], 0)
      else
        let todo = sizeof_data - length (ec_data ctx);
            (tot, out, inp) =
              (if length (ec_data ctx) \<noteq> 0
               then let enc = EVP_EncodeBlock (ec_data ctx @ take todo inp)
                    in (length enc + 1, enc @ [10], drop todo inp)
               else (0, [], inp))
        in case encode_lines tot out inp of
             (True, _, out, _) \<Rightarrow> (ctx\<lparr>ec_data := []\<rparr>, out, 0)
           | (False, tot, out, inp) \<Rightarrow>
               (ctx\<lparr>ec_data := inp\<rparr>, out, if tot > INT_MAX then 0 else tot))"

definition EVP_EncodeFinal :: "EVP_ENCODE_CTX \<Rightarrow> EVP_ENCODE_CTX \<times> u8 list \<times> nat" where
  "EVP_EncodeFinal ctx =
     (if length (ec_data ctx) = 0 then (ctx, [], 0)
      else let enc = EVP_EncodeBlock (ec_data ctx)
           in (ctx\<lparr>ec_data := []\<rparr>, enc @ [10], length enc + 1))"

section \<open>Decoding\<close>

definition EVP_DecodedLength :: "nat \<Rightarrow> nat option" where
  "EVP_DecodedLength len = (if len mod 4 \<noteq> 0 then None else Some (len div 4 * 3))"

definition EVP_DecodeInit :: EVP_ENCODE_CTX where
  "EVP_DecodeInit = \<lparr>ec_data = [], ec_eof_seen = False, ec_error_encountered = False\<rparr>"

definition base64_decode_quad :: "u8 \<Rightarrow> u8 \<Rightarrow> u8 \<Rightarrow> u8 \<Rightarrow> u8 list option" where
  "base64_decode_quad i0 i1 i2 i3 =
     (let a = base64_ascii_to_bin i0; b = base64_ascii_to_bin i1;
          c = base64_ascii_to_bin i2; d = base64_ascii_to_bin i3
      in if a = 0xff \<or> b = 0xff \<or> c = 0xff \<or> d = 0xff then None
         else let v = push_bit 18 (ucast a) OR push_bit 12 (ucast b) OR push_bit 6 (ucast c) OR ucast d :: u32
              in case (i0 = 61, i1 = 61, i2 = 61, i3 = 61) of
                   (False, False, False, False) \<Rightarrow>
                     Some [ucast (drop_bit 16 v), ucast (drop_bit 8 v), ucast v]
                 | (False, False, False, True) \<Rightarrow> Some [ucast (drop_bit 16 v), ucast (drop_bit 8 v)]
                 | (False, False, True, True) \<Rightarrow> Some [ucast (drop_bit 16 v)]
                 | _ \<Rightarrow> None)"

definition decode_blank :: "u8 \<Rightarrow> bool" where
  "decode_blank c \<longleftrightarrow> c = 32 \<or> c = 9 \<or> c = 13 \<or> c = 10"

definition decode_char :: "EVP_ENCODE_CTX \<Rightarrow> u8 \<Rightarrow> bool \<times> EVP_ENCODE_CTX \<times> u8 list" where
  "decode_char ctx c =
     (if decode_blank c then (True, ctx, [])
      else if ec_eof_seen ctx then (False, ctx\<lparr>ec_error_encountered := True\<rparr>, [])
      else let ctx = ctx\<lparr>ec_data := ec_data ctx @ [c]\<rparr>
           in if length (ec_data ctx) = 4
              then case base64_decode_quad (ec_data ctx ! 0) (ec_data ctx ! 1) (ec_data ctx ! 2) (ec_data ctx ! 3) of
                     None \<Rightarrow> (False, ctx\<lparr>ec_error_encountered := True\<rparr>, [])
                   | Some bytes \<Rightarrow>
                       (True, ctx\<lparr>ec_data := [], ec_eof_seen := (if length bytes < 3 then True else ec_eof_seen ctx)\<rparr>, bytes)
              else (True, ctx, []))"

fun decode_loop :: "EVP_ENCODE_CTX \<Rightarrow> u8 list \<Rightarrow> u8 list \<Rightarrow> bool \<times> EVP_ENCODE_CTX \<times> u8 list" where
  "decode_loop ctx out [] = (True, ctx, out)"
| "decode_loop ctx out (c # inp) =
     (case decode_char ctx c of
        (False, ctx, _) \<Rightarrow> (False, ctx, out)
      | (True, ctx, bytes) \<Rightarrow> decode_loop ctx (out @ bytes) inp)"

text \<open>The return value (\<open>-1\<close>, 0 after the end, 1), the context and the \<open>*out_len\<close> bytes decoded.\<close>

definition EVP_DecodeUpdate :: "EVP_ENCODE_CTX \<Rightarrow> u8 list \<Rightarrow> int \<times> EVP_ENCODE_CTX \<times> u8 list" where
  "EVP_DecodeUpdate ctx inp =
     (if ec_error_encountered ctx then (-1, ctx, [])
      else case decode_loop ctx [] inp of
             (False, ctx, _) \<Rightarrow> (-1, ctx, [])
           | (True, ctx, out) \<Rightarrow>
               if length out > INT_MAX then (-1, ctx\<lparr>ec_error_encountered := True\<rparr>, [])
               else (if ec_eof_seen ctx then 0 else 1, ctx, out))"

definition EVP_DecodeFinal :: "EVP_ENCODE_CTX \<Rightarrow> int" where
  "EVP_DecodeFinal ctx = (if ec_error_encountered ctx \<or> length (ec_data ctx) \<noteq> 0 then -1 else 1)"

text \<open>The loop of \<open>EVP_DecodeBase64\<close>: a short quad must be the last one.\<close>

fun decode_quads :: "u8 list \<Rightarrow> u8 list option" where
  "decode_quads (i0 # i1 # i2 # i3 # inp) =
     (case base64_decode_quad i0 i1 i2 i3 of
        None \<Rightarrow> None
      | Some bytes \<Rightarrow>
          if length bytes \<noteq> 3 \<and> inp \<noteq> [] then None
          else map_option ((@) bytes) (decode_quads inp))"
| "decode_quads inp = (if inp = [] then Some [] else None)"

definition EVP_DecodeBase64 :: "nat \<Rightarrow> u8 list \<Rightarrow> u8 list option" where
  "EVP_DecodeBase64 max_out inp =
     (if length inp mod 4 \<noteq> 0 then None
      else case EVP_DecodedLength (length inp) of
             None \<Rightarrow> None
           | Some max_len \<Rightarrow> if max_out < max_len then None else decode_quads inp)"

definition EVP_DecodeBlock :: "u8 list \<Rightarrow> u8 list option" where
  "EVP_DecodeBlock src =
     (let src = dropWhile (\<lambda>c. c = 32 \<or> c = 9) src;
          src = rev (dropWhile decode_blank (rev src))
      in case EVP_DecodedLength (length src) of
           None \<Rightarrow> None
         | Some dst_len \<Rightarrow>
             if dst_len > INT_MAX then None
             else case EVP_DecodeBase64 dst_len src of
                    None \<Rightarrow> None
                  | Some dst \<Rightarrow> Some (dst @ replicate ((3 - length dst mod 3) mod 3) 0))"

section \<open>The characters\<close>

lemma byte_difference:
  fixes x y lo hi :: nat
  shows "x < 256 \<Longrightarrow> y \<le> x \<Longrightarrow> 2 ^ 63 \<le> x - y \<longleftrightarrow> x < y"
    and "y < 256 \<Longrightarrow> \<not> y \<le> x \<Longrightarrow> 2 ^ 63 \<le> 2 ^ 64 + x - y \<longleftrightarrow> x < y"
    and "hi < 256 \<Longrightarrow> \<not> lo \<le> x \<Longrightarrow> lo \<le> hi \<Longrightarrow> 256 + x - lo < hi - lo + 1 \<longleftrightarrow> lo \<le> x \<and> x \<le> hi"
  by auto

lemma constant_time_lt_args_8_mask: "constant_time_lt_args_8 a b = mask_of (a < b)"
proof -
  have u: "unat (ucast a :: u64) = unat a" "unat (ucast b :: u64) = unat b"
    by (simp_all add: unat_ucast_up)
  have "bit (ucast a - ucast b :: u64) 63 \<longleftrightarrow> unat a < unat b"
  proof (cases "unat b \<le> unat a")
    case True
    then have "unat (ucast a - ucast b :: u64) = unat a - unat b"
      by (simp add: unat_sub word_le_nat_alt u)
    then show ?thesis
      using byte_difference(1) [OF unat_u8_less True] by (simp only: top_bit_iff)
  next
    case False
    then have "unat (ucast a - ucast b :: u64) = 2 ^ 64 + unat a - unat b"
      by (simp add: unat_sub_if_size word_size u)
    then show ?thesis
      using byte_difference(2) [OF unat_u8_less False] by (simp only: top_bit_iff)
  qed
  then show ?thesis
    by (simp add: constant_time_lt_args_8_def constant_time_msb_w_mask word_less_nat_alt)
qed

lemma constant_time_in_range_8_mask:
  assumes "lo \<le> hi" "unat hi - unat lo < 255"
  shows "constant_time_in_range_8 a lo hi = mask_of (lo \<le> a \<and> a \<le> hi)"
proof -
  have w: "unat (hi - lo + 1) = unat hi - unat lo + 1"
    using assms by (simp add: unat_word_ariths unat_sub)
  have le: "unat lo \<le> unat hi" using assms(1) by (simp add: word_le_nat_alt)
  have "unat (a - lo) < unat (hi - lo + 1) \<longleftrightarrow> unat lo \<le> unat a \<and> unat a \<le> unat hi"
  proof (cases "unat lo \<le> unat a")
    case True
    then have "unat (a - lo) = unat a - unat lo" by (simp add: unat_sub word_le_nat_alt)
    then show ?thesis unfolding w using True le by linarith
  next
    case False
    then have "unat (a - lo) = 256 + unat a - unat lo"
      by (simp add: unat_sub_if_size word_size)
    then show ?thesis
      unfolding w using byte_difference(3) [OF unat_u8_less False le] by simp
  qed
  then show ?thesis
    by (simp add: constant_time_in_range_8_def constant_time_lt_args_8_mask word_less_nat_alt word_le_nat_alt)
qed

lemma ucast_eq_char:
  fixes a :: u8
  shows "(ucast a :: u64) = 62 \<longleftrightarrow> a = 62" "(ucast a :: u64) = 43 \<longleftrightarrow> a = 43"
    "(ucast a :: u64) = 47 \<longleftrightarrow> a = 47" "(ucast a :: u64) = 61 \<longleftrightarrow> a = 61"
  by (simp_all add: word_unat_eq_iff unat_ucast_up)

lemma conv_bin2ascii_eq:
  "conv_bin2ascii a =
     (let v = a AND 0x3f
      in if v < 26 then v + 65 else if v < 52 then v - 26 + 97 else if v < 62 then v - 52 + 48
         else if v = 62 then 43 else 47)"
  by (simp only: conv_bin2ascii_def Let_def constant_time_lt_args_8_mask constant_time_8_masks
      constant_time_select_8_mask ucast_eq_char)

lemma base64_ascii_to_bin_eq:
  "base64_ascii_to_bin a =
     (if a = 61 then 0 else if a = 47 then 63 else if a = 43 then 62
      else if 48 \<le> a \<and> a \<le> 57 then a - 48 + 52
      else if 97 \<le> a \<and> a \<le> 122 then a - 97 + 26
      else if 65 \<le> a \<and> a \<le> 90 then a - 65 else 0xff)"
proof -
  have r: "constant_time_in_range_8 a 65 90 = mask_of (65 \<le> a \<and> a \<le> 90)"
    "constant_time_in_range_8 a 97 122 = mask_of (97 \<le> a \<and> a \<le> 122)"
    "constant_time_in_range_8 a 48 57 = mask_of (48 \<le> a \<and> a \<le> 57)"
    by (rule constant_time_in_range_8_mask; simp)+
  show ?thesis
    by (simp only: base64_ascii_to_bin_def Let_def r constant_time_8_masks constant_time_select_8_mask ucast_eq_char)
qed

text \<open>All 64 digits, checked one by one: the table is inverted, and no digit is padding or a blank.\<close>

lemma digits_invert:
  "list_all (\<lambda>n. base64_ascii_to_bin (conv_bin2ascii (of_nat n)) = of_nat n \<and> conv_bin2ascii (of_nat n) \<noteq> 61
     \<and> \<not> decode_blank (conv_bin2ascii (of_nat n))) [0..<64]"
  unfolding conv_bin2ascii_eq base64_ascii_to_bin_eq decode_blank_def Let_def
  by (simp add: upt_conv_Cons)

lemma conv_bin2ascii_digit:
  "base64_ascii_to_bin (conv_bin2ascii a) = a AND 0x3f \<and> conv_bin2ascii a \<noteq> 61 \<and> \<not> decode_blank (conv_bin2ascii a)"
proof -
  define n where "n = unat (a AND 0x3f)"
  have "n = unat a mod 2 ^ 6"
    unfolding n_def by (rule unat_and_mask) (simp add: mask_eq_exp_minus_1)
  then have "n \<in> set [0..<64]" by simp
  moreover have w: "of_nat n = a AND 0x3f" by (simp add: n_def)
  moreover have "conv_bin2ascii (a AND 0x3f) = conv_bin2ascii a"
    by (simp add: conv_bin2ascii_eq and.assoc)
  ultimately show ?thesis
    using digits_invert unfolding list_all_iff by (metis (no_types, lifting))
qed

text \<open>The six bits of \<open>l\<close> above bit \<open>k\<close>, through the alphabet and back.\<close>

lemma digit_back:
  fixes l :: u32
  assumes "d = base64_ascii_to_bin (conv_bin2ascii (ucast (drop_bit k l)))"
  shows "unat d = unat l div 2 ^ k mod 64" "d \<noteq> 0xff"
proof -
  have "d = ucast (drop_bit k l) AND 0x3f" unfolding assms using conv_bin2ascii_digit by blast
  then have "unat d = unat (ucast (drop_bit k l) :: u8) mod 2 ^ 6"
    by (simp only: unat_and_mask [of "0x3f :: u8" 6] mask_eq_exp_minus_1) (simp add: unat_and_mask [of _ 6] mask_eq_exp_minus_1)
  then show u: "unat d = unat l div 2 ^ k mod 64"
    by (simp add: unat_ucast_u8 unat_drop_bit_div mod_mod_cancel)
  then have "unat d < 64" by simp
  then show "d \<noteq> 0xff" by auto
qed

lemma join_sextets:
  fixes a b c d :: u32
  assumes "unat a < 64" "unat b < 64" "unat c < 64" "unat d < 64"
  shows "unat (push_bit 18 a OR push_bit 12 b OR push_bit 6 c OR d)
    = unat a * 2 ^ 18 + (unat b * 2 ^ 12 + (unat c * 2 ^ 6 + unat d))"
proof -
  have 1: "unat (push_bit 6 c OR d) = unat c * 2 ^ 6 + unat d"
    using assms by (intro unat_push_or) simp_all
  have "unat c * 2 ^ 6 + unat d < 2 ^ 12" using assms by simp
  then have 2: "unat (push_bit 12 b OR (push_bit 6 c OR d)) = unat b * 2 ^ 12 + (unat c * 2 ^ 6 + unat d)"
    using assms 1 by (subst unat_push_or) simp_all
  have "unat b * 2 ^ 12 + (unat c * 2 ^ 6 + unat d) < 2 ^ 18" using assms by simp
  then show ?thesis
    using assms 2 by (subst unat_push_or) simp_all
qed

lemma join_octets:
  fixes x y z :: u8
  shows "unat (push_bit 16 (ucast x) OR push_bit 8 (ucast y) OR ucast z :: u32)
    = unat x * 2 ^ 16 + (unat y * 2 ^ 8 + unat z)"
proof -
  have u: "unat (ucast b :: u32) = unat b" for b :: u8 by (simp add: unat_ucast_up)
  have b: "unat x < 256" "unat y < 256" "unat z < 256" by (rule unat_u8_less)+
  have lt: "unat y * 2 ^ 8 + unat z < 2 ^ (8 + 8)"
    by (rule byte_append_less) (use b in simp_all)
  then have lt32: "unat y * 2 ^ 8 + unat z < 2 ^ 32" by simp
  have 1: "unat (push_bit 8 (ucast y) OR ucast z :: u32) = unat y * 2 ^ 8 + unat z"
    using unat_push_or [of "ucast z :: u32" 8 "ucast y"] lt32 b(3) unfolding u by simp
  have "i < 256 \<Longrightarrow> j < 65536 \<Longrightarrow> i * 65536 + j < 4294967296" for i j :: nat by simp
  from this [OF b(1)] lt have "unat x * 2 ^ 16 + (unat y * 2 ^ 8 + unat z) < 2 ^ 32" by simp
  with lt show ?thesis
    using unat_push_or [of "push_bit 8 (ucast y) OR ucast z :: u32" 16 "ucast x"] unfolding u 1 by simp
qed

lemma sextets_sum:
  fixes n :: nat
  assumes "n < 2 ^ 24"
  shows "n div 2 ^ 18 mod 64 * 2 ^ 18 + (n div 2 ^ 12 mod 64 * 2 ^ 12 + (n div 2 ^ 6 mod 64 * 2 ^ 6 + n mod 64)) = n"
proof -
  define a where "a = n mod 64"
  define p where "p = n div 64"
  define b where "b = p mod 64"
  define q where "q = p div 64"
  define c where "c = q mod 64"
  define r where "r = q div 64"
  have "n = p * 64 + a" "p = q * 64 + b" "q = r * 64 + c"
    by (simp_all add: a_def p_def b_def q_def c_def r_def)
  moreover have r: "r = n div 2 ^ 18" and q: "q = n div 2 ^ 12" and p: "p = n div 2 ^ 6"
    by (simp_all add: p_def q_def r_def div_mult2_eq [symmetric])
  moreover have "n div 2 ^ 18 < 64" using assms by (intro less_mult_imp_div_less) simp
  ultimately have "r mod 64 * 262144 + (c * 4096 + (b * 64 + a)) = n" by simp
  then show ?thesis
    unfolding r [symmetric] q [symmetric] p [symmetric] a_def b_def c_def by simp
qed

text \<open>Sextets of a 24-bit group, through the alphabet and reassembled by the decoder.\<close>

lemma group_back:
  fixes l :: u32
  defines "s \<equiv> \<lambda>k. base64_ascii_to_bin (conv_bin2ascii (ucast (drop_bit k l)))"
  assumes "unat l < 2 ^ 24"
  shows "push_bit 18 (ucast (s 18)) OR push_bit 12 (ucast (s 12)) OR push_bit 6 (ucast (s 6)) OR ucast (s 0) = l"
    and "unat l mod 2 ^ 6 = 0 \<Longrightarrow>
      push_bit 18 (ucast (s 18)) OR push_bit 12 (ucast (s 12)) OR push_bit 6 (ucast (s 6)) OR ucast (0 :: u8) = l"
    and "unat l mod 2 ^ 12 = 0 \<Longrightarrow>
      push_bit 18 (ucast (s 18)) OR push_bit 12 (ucast (s 12)) OR push_bit 6 (ucast (0 :: u8)) OR ucast (0 :: u8) = l"
proof -
  have u: "unat (ucast (s k) :: u32) = unat l div 2 ^ k mod 64" for k
    unfolding s_def by (simp add: unat_ucast_up digit_back(1))
  have lt: "unat (ucast (s k) :: u32) < 64" for k unfolding u by simp
  have "unat l div 2 ^ 18 < 64" using assms(2) by (intro less_mult_imp_div_less) simp
  then have "unat l div 2 ^ 18 mod 64 = unat l div 2 ^ 18" by simp
  note sum = sextets_sum [OF assms(2)] sextets_sum [OF assms(2), unfolded this]
  have z: "unat (ucast (0 :: u8) :: u32) = 0" by simp
  show "push_bit 18 (ucast (s 18)) OR push_bit 12 (ucast (s 12)) OR push_bit 6 (ucast (s 6)) OR ucast (s 0) = l"
    by (rule iffD2 [OF word_unat_eq_iff], subst join_sextets) (use lt sum in \<open>simp_all only: u, simp\<close>)
  show "push_bit 18 (ucast (s 18)) OR push_bit 12 (ucast (s 12)) OR push_bit 6 (ucast (s 6)) OR ucast (0 :: u8) = l"
    if "unat l mod 2 ^ 6 = 0"
    by (rule iffD2 [OF word_unat_eq_iff], subst join_sextets) (use lt sum that in \<open>simp_all add: u\<close>)
  show "push_bit 18 (ucast (s 18)) OR push_bit 12 (ucast (s 12)) OR push_bit 6 (ucast (0 :: u8)) OR ucast (0 :: u8) = l"
    if "unat l mod 2 ^ 12 = 0"
  proof (rule iffD2 [OF word_unat_eq_iff], subst join_sextets)
    have "unat l mod (64 * 64) = 64 * (unat l div 64 mod 64) + unat l mod 64" by (rule mod_mult2_eq)
    then have "unat l mod 64 = 0" "unat l div 64 mod 64 = 0" using that by simp_all
    then show "unat (ucast (s 18) :: u32) * 2 ^ 18 + (unat (ucast (s 12) :: u32) * 2 ^ 12
        + (unat (ucast (0 :: u8) :: u32) * 2 ^ 6 + unat (ucast (0 :: u8) :: u32))) = unat l"
      using sum by (simp add: u)
  qed (use lt in simp_all)
qed

lemma three_octets:
  fixes i j k :: nat
  assumes "i < 256" "j < 256" "k < 256"
  defines "n \<equiv> i * 2 ^ 16 + (j * 2 ^ 8 + k)"
  shows "n div 2 ^ 16 = i" "n div 2 ^ 8 mod 256 = j" "n mod 256 = k" "n < 2 ^ 24"
    "k = 0 \<Longrightarrow> n mod 2 ^ 6 = 0" "j = 0 \<Longrightarrow> k = 0 \<Longrightarrow> n mod 2 ^ 12 = 0"
proof -
  show "n div 2 ^ 16 = i"
    by (rule div_nat_eqI) (use assms in simp_all)
  have "n div 2 ^ 8 = i * 256 + j"
    by (rule div_nat_eqI) (use assms in simp_all)
  then show "n div 2 ^ 8 mod 256 = j" using assms(2) by simp
  have "n = (i * 256 + j) * 256 + k" by (simp add: n_def)
  then show "n mod 256 = k" using assms(3) by (metis mod_less mod_mult_self3)
  show "n < 2 ^ 24" using assms by simp
  show "n mod 2 ^ 6 = 0" if "k = 0"
  proof -
    have "n = (i * 1024 + j * 4) * 2 ^ 6" using that by (simp add: n_def)
    then show ?thesis by (simp only: mod_mult_self2_is_0)
  qed
  show "n mod 2 ^ 12 = 0" if "j = 0" "k = 0"
  proof -
    have "n = i * 16 * 2 ^ 12" using that by (simp add: n_def)
    then show ?thesis by (simp only: mod_mult_self2_is_0)
  qed
qed

lemma octets_back:
  fixes x y z :: u8
  assumes l: "l = push_bit 16 (ucast x) OR push_bit 8 (ucast y) OR (ucast z :: u32)"
  shows "ucast (drop_bit 16 l) = x" "ucast (drop_bit 8 l) = y" "ucast l = z" "unat l < 2 ^ 24"
    "z = 0 \<Longrightarrow> unat l mod 2 ^ 6 = 0" "y = 0 \<Longrightarrow> z = 0 \<Longrightarrow> unat l mod 2 ^ 12 = 0"
proof -
  have ul: "unat l = unat x * 2 ^ 16 + (unat y * 2 ^ 8 + unat z)"
    unfolding l by (rule join_octets)
  note n = three_octets [OF unat_u8_less [of x] unat_u8_less [of y] unat_u8_less [of z], folded ul]
  show "ucast (drop_bit 16 l) = x"
    by (rule iffD2 [OF word_unat_eq_iff]) (simp only: unat_ucast_u8 unat_drop_bit_div n(1) mod_less unat_u8_less)
  show "ucast (drop_bit 8 l) = y" "ucast l = z"
    by (rule iffD2 [OF word_unat_eq_iff], simp only: unat_ucast_u8 unat_drop_bit_div n)+
  show "unat l < 2 ^ 24" by (rule n)
  show "z = 0 \<Longrightarrow> unat l mod 2 ^ 6 = 0" "y = 0 \<Longrightarrow> z = 0 \<Longrightarrow> unat l mod 2 ^ 12 = 0"
    using n(5,6) by simp_all
qed

lemma quad_not_padding:
  "base64_decode_quad (conv_bin2ascii a) (conv_bin2ascii b) c d =
     (if base64_ascii_to_bin c = 0xff \<or> base64_ascii_to_bin d = 0xff then None
      else let v = push_bit 18 (ucast (base64_ascii_to_bin (conv_bin2ascii a)))
                     OR push_bit 12 (ucast (base64_ascii_to_bin (conv_bin2ascii b)))
                     OR push_bit 6 (ucast (base64_ascii_to_bin c)) OR ucast (base64_ascii_to_bin d) :: u32
           in if c \<noteq> 61 \<and> d \<noteq> 61 then Some [ucast (drop_bit 16 v), ucast (drop_bit 8 v), ucast v]
              else if c \<noteq> 61 then Some [ucast (drop_bit 16 v), ucast (drop_bit 8 v)]
              else if d = 61 then Some [ucast (drop_bit 16 v)] else None)"
proof -
  have "a AND 0x3f \<noteq> (0xff :: u8)" for a :: u8
  proof
    assume "a AND 0x3f = 0xff"
    then have "unat (a AND 0x3f) = 255" by simp
    moreover have "unat (a AND 0x3f) = unat a mod 2 ^ 6"
      by (rule unat_and_mask) (simp add: mask_eq_exp_minus_1)
    moreover have "unat a mod 2 ^ 6 < 64" by simp
    ultimately show False by linarith
  qed
  then have "base64_ascii_to_bin (conv_bin2ascii a) \<noteq> 0xff" for a
    using conv_bin2ascii_digit by metis
  then show ?thesis
    using conv_bin2ascii_digit [of a] conv_bin2ascii_digit [of b]
    by (auto simp: base64_decode_quad_def Let_def split: bool.splits)
qed

lemma ascii_61: "base64_ascii_to_bin 61 = 0"
  by (simp add: base64_ascii_to_bin_eq)

lemma decode_three:
  assumes l: "l = push_bit 16 (ucast x) OR push_bit 8 (ucast y) OR (ucast z :: u32)"
    and c: "\<And>k. c k = conv_bin2ascii (ucast (drop_bit k l))"
  shows "base64_decode_quad (c 18) (c 12) (c 6) (c 0) = Some [x, y, z]"
    and "z = 0 \<Longrightarrow> base64_decode_quad (c 18) (c 12) (c 6) 61 = Some [x, y]"
    and "y = 0 \<Longrightarrow> z = 0 \<Longrightarrow> base64_decode_quad (c 18) (c 12) 61 61 = Some [x]"
proof -
  note o = octets_back [OF l]
  have d: "base64_ascii_to_bin (c k) \<noteq> 0xff" "c k \<noteq> 61" for k
    unfolding c using digit_back(2) conv_bin2ascii_digit by blast+
  note g = group_back [OF o(4), folded c]
  note unfold = quad_not_padding [of "ucast (drop_bit 18 l)" "ucast (drop_bit 12 l)", folded c]
  show "base64_decode_quad (c 18) (c 12) (c 6) (c 0) = Some [x, y, z]"
    unfolding unfold Let_def g(1) by (simp add: d o)
  show "base64_decode_quad (c 18) (c 12) (c 6) 61 = Some [x, y]" if "z = 0"
    unfolding unfold Let_def ascii_61 g(2) [OF o(5) [OF that]] by (simp add: d o)
  show "base64_decode_quad (c 18) (c 12) 61 61 = Some [x]" if "y = 0" "z = 0"
    unfolding unfold Let_def ascii_61 g(3) [OF o(6) [OF that]] by (simp add: d o)
qed

lemma decode_quad_encoded:
  fixes x y z :: u8
  shows "EVP_EncodeBlock [x, y, z] = [c0, c1, c2, c3] \<Longrightarrow> base64_decode_quad c0 c1 c2 c3 = Some [x, y, z]"
    and "EVP_EncodeBlock [x, y] = [c0, c1, c2, c3] \<Longrightarrow> base64_decode_quad c0 c1 c2 c3 = Some [x, y]"
    and "EVP_EncodeBlock [x] = [c0, c1, c2, c3] \<Longrightarrow> base64_decode_quad c0 c1 c2 c3 = Some [x]"
  using decode_three(1) [OF refl refl, of x y z] decode_three(2) [OF refl refl, of 0 x y]
    decode_three(3) [OF refl refl, of 0 0 x]
  by (simp_all add: Let_def)

section \<open>Round trips\<close>

lemma EVP_EncodeBlock_quad:
  "length g = 3 \<Longrightarrow> \<exists>c0 c1 c2 c3. EVP_EncodeBlock (g @ src) = [c0, c1, c2, c3] @ EVP_EncodeBlock src
     \<and> base64_decode_quad c0 c1 c2 c3 = Some g"
proof -
  assume "length g = 3"
  then obtain x y z where g: "g = [x, y, z]"
    by (auto simp: numeral_3_eq_3 length_Suc_conv)
  obtain c0 c1 c2 c3 where c: "EVP_EncodeBlock [x, y, z] = [c0, c1, c2, c3]" by (simp add: Let_def)
  have "EVP_EncodeBlock (g @ src) = EVP_EncodeBlock [x, y, z] @ EVP_EncodeBlock src"
    by (simp add: g Let_def)
  also note c
  finally show ?thesis using decode_quad_encoded(1) [OF c] unfolding g by blast
qed

lemma EVP_EncodeBlock_length: "length (EVP_EncodeBlock src) = (length src + 2) div 3 * 4"
proof (induction src rule: EVP_EncodeBlock.induct)
  case (4 x y z src)
  have "(length (x # y # z # src) + 2) div 3 = (length src + 2) div 3 + 1" by simp
  with 4 show ?case by (simp add: Let_def)
qed (simp_all add: Let_def)

lemma EVP_EncodeBlock_append:
  "length xs mod 3 = 0 \<Longrightarrow> EVP_EncodeBlock (xs @ ys) = EVP_EncodeBlock xs @ EVP_EncodeBlock ys"
  by (induction xs rule: EVP_EncodeBlock.induct) (simp_all add: Let_def)

lemma decode_quads_encoded: "decode_quads (EVP_EncodeBlock src) = Some src"
proof (induction src rule: EVP_EncodeBlock.induct)
  case (2 x)
  then show ?case using decode_quad_encoded(3) [of x] by (simp add: Let_def)
next
  case (3 x y)
  then show ?case using decode_quad_encoded(2) [of x y] by (simp add: Let_def)
next
  case (4 x y z src)
  then show ?case using decode_quad_encoded(1) [of x y z] by (simp add: Let_def)
qed simp

lemma EVP_DecodeBase64_EncodeBlock:
  assumes "(length src + 2) div 3 * 3 \<le> max_out"
  shows "EVP_DecodeBase64 max_out (EVP_EncodeBlock src) = Some src"
  using assms by (simp add: EVP_DecodeBase64_def EVP_DecodedLength_def EVP_EncodeBlock_length decode_quads_encoded)

section \<open>Streaming\<close>

text \<open>What the encoder is to write: one line for every 48 bytes, and one for the rest.\<close>

function b64_lines :: "u8 list \<Rightarrow> u8 list" where
  "b64_lines xs =
     (if xs = [] then [] else EVP_EncodeBlock (take 48 xs) @ 10 # b64_lines (drop 48 xs))"
  by pat_completeness auto
termination
  by (relation "measure length") auto

declare b64_lines.simps [simp del]

lemma b64_lines_Nil [simp]: "b64_lines [] = []"
  by (simp add: b64_lines.simps)

lemma b64_lines_whole:
  "length xs = 48 \<Longrightarrow> b64_lines (xs @ ys) = EVP_EncodeBlock xs @ 10 # b64_lines ys"
  by (subst b64_lines.simps) auto

lemma b64_lines_last:
  "xs \<noteq> [] \<Longrightarrow> length xs < 48 \<Longrightarrow> b64_lines xs = EVP_EncodeBlock xs @ [10]"
  by (subst b64_lines.simps) simp

lemma encode_lines_spec:
  "tot + 2 * length inp < 2 ^ 64 \<Longrightarrow>
     \<exists>new rest. encode_lines tot out inp = (False, tot + length new, out @ new, rest) \<and> length rest < 48
       \<and> length new \<le> 2 * length inp \<and> (\<forall>more. b64_lines (inp @ more) = new @ b64_lines (rest @ more))"
proof (induction tot out inp rule: encode_lines.induct)
  case (1 tot out inp)
  show ?case
  proof (cases "length inp < 48")
    case True
    then show ?thesis by (subst encode_lines.simps) (auto simp: sizeof_data_def)
  next
    case False
    let ?e = "EVP_EncodeBlock (take sizeof_data inp)"
    have len: "length ?e = 64" using False by (simp add: EVP_EncodeBlock_length sizeof_data_def)
    have s: "sz (tot + 64 + 1) = tot + 65" using "1.prems" False by simp
    have "tot + 65 + 2 * length (drop sizeof_data inp) < 2 ^ 64"
      using "1.prems" False by (simp add: sizeof_data_def)
    with 1(1) [OF _ refl refl, unfolded len s] False obtain new rest where
      rec: "encode_lines (tot + 65) (out @ ?e @ [10]) (drop sizeof_data inp)
          = (False, tot + 65 + length new, (out @ ?e @ [10]) @ new, rest)"
      and r: "length rest < 48" "length new \<le> 2 * length (drop sizeof_data inp)"
        "\<forall>more. b64_lines (drop sizeof_data inp @ more) = new @ b64_lines (rest @ more)"
      by (auto simp: sizeof_data_def)
    have "encode_lines tot out inp = (False, tot + length (?e @ [10] @ new), out @ (?e @ [10] @ new), rest)"
      using False by (subst encode_lines.simps) (simp add: Let_def len s [simplified] rec sizeof_data_def [symmetric])
    moreover have "b64_lines (inp @ more) = (?e @ [10] @ new) @ b64_lines (rest @ more)" for more
    proof -
      have eq: "take 48 inp @ drop 48 inp @ more = inp @ more"
        by (metis append.assoc append_take_drop_id)
      show ?thesis
        using b64_lines_whole [of "take 48 inp" "drop 48 inp @ more", unfolded eq] False r(3)
        by (simp add: sizeof_data_def)
    qed
    moreover have "length (?e @ [10] @ new) \<le> 2 * length inp"
      using r(2) len False by (simp add: sizeof_data_def)
    ultimately show ?thesis using r(1) by blast
  qed
qed

lemma EVP_EncodeUpdate_spec:
  assumes d: "length (ec_data ctx) < 48" and small: "length inp < 2 ^ 62"
    and up: "EVP_EncodeUpdate ctx inp = (ctx', out, n)"
  shows "length (ec_data ctx') < 48
    \<and> (\<forall>more. b64_lines (ec_data ctx @ inp @ more) = out @ b64_lines (ec_data ctx' @ more))
    \<and> n = (if length out > INT_MAX then 0 else length out)"
proof (cases "48 - length (ec_data ctx) > length inp")
  case True
  then show ?thesis
    using d up by (auto simp: EVP_EncodeUpdate_def sizeof_data_def split: if_splits)
next
  case False
  let ?todo = "48 - length (ec_data ctx)"
  show ?thesis
  proof (cases "ec_data ctx = []")
    case True
    obtain new rest where lines: "encode_lines 0 [] inp = (False, length new, new, rest)" and r: "length rest < 48"
      "\<forall>more. b64_lines (inp @ more) = new @ b64_lines (rest @ more)"
      using encode_lines_spec [of 0 inp "[]"] small by auto
    have "inp \<noteq> []" using False d True by auto
    then have "(ctx', out, n) = (ctx\<lparr>ec_data := rest\<rparr>, new, if length new > INT_MAX then 0 else length new)"
      using up True False lines by (auto simp: EVP_EncodeUpdate_def sizeof_data_def Let_def)
    then show ?thesis using r True by auto
  next
    case ne: False
    let ?e = "EVP_EncodeBlock (ec_data ctx @ take ?todo inp)"
    have len: "length (ec_data ctx @ take ?todo inp) = 48" using False d by simp
    then have le: "length ?e = 64" by (simp only: EVP_EncodeBlock_length) simp
    have "65 + 2 * length (drop ?todo inp) < 2 ^ 64" using small by simp
    from encode_lines_spec [OF this, of "?e @ [10]"] obtain new rest where
      lines: "encode_lines 65 (?e @ [10]) (drop ?todo inp) = (False, 65 + length new, (?e @ [10]) @ new, rest)"
      and r: "length rest < 48" "\<forall>more. b64_lines (drop ?todo inp @ more) = new @ b64_lines (rest @ more)"
      by auto
    have "(ctx', out, n) = (ctx\<lparr>ec_data := rest\<rparr>, (?e @ [10]) @ new, if 65 + length new > INT_MAX then 0 else 65 + length new)"
      using up ne False d lines le
      by (cases "inp = []") (auto simp: EVP_EncodeUpdate_def sizeof_data_def Let_def split: if_splits)
    moreover have "b64_lines (ec_data ctx @ inp @ more) = (?e @ [10]) @ new @ b64_lines (rest @ more)" for more
    proof -
      have eq: "(ec_data ctx @ take ?todo inp) @ drop ?todo inp @ more = ec_data ctx @ inp @ more"
        by (metis append.assoc append_take_drop_id)
      show ?thesis
        using b64_lines_whole [OF len, of "drop ?todo inp @ more", unfolded eq] r(2) by simp
    qed
    ultimately show ?thesis using r(1) le by auto
  qed
qed

text \<open>A caller of the streaming encoder: the bytes written by all the updates and the final call.\<close>

fun stream_encode :: "EVP_ENCODE_CTX \<Rightarrow> u8 list list \<Rightarrow> u8 list" where
  "stream_encode ctx [] = (case EVP_EncodeFinal ctx of (_, out, _) \<Rightarrow> out)"
| "stream_encode ctx (inp # inps) =
     (case EVP_EncodeUpdate ctx inp of (ctx, out, _) \<Rightarrow> out @ stream_encode ctx inps)"

lemma stream_encode_lines:
  "length (ec_data ctx) < 48 \<Longrightarrow> list_all (\<lambda>i. length i < 2 ^ 62) inps \<Longrightarrow>
     stream_encode ctx inps = b64_lines (ec_data ctx @ concat inps)"
proof (induction inps arbitrary: ctx)
  case Nil
  then show ?case by (simp add: EVP_EncodeFinal_def b64_lines_last Let_def)
next
  case (Cons inp inps)
  obtain ctx' out n where up: "EVP_EncodeUpdate ctx inp = (ctx', out, n)" by (cases "EVP_EncodeUpdate ctx inp")
  from EVP_EncodeUpdate_spec [OF Cons.prems(1) _ up] Cons show ?case
    by (simp add: up)
qed

section \<open>Streaming decode\<close>

lemma decode_loop_out:
  "decode_loop ctx out inp = (case decode_loop ctx [] inp of (ok, ctx', o') \<Rightarrow> (ok, ctx', out @ o'))"
proof (induction inp arbitrary: ctx out)
  case (Cons c inp)
  obtain ok ctx1 bytes where c: "decode_char ctx c = (ok, ctx1, bytes)" by (cases "decode_char ctx c")
  show ?case
    using Cons.IH [of ctx1 "out @ bytes"] Cons.IH [of ctx1 bytes]
    by (cases ok) (auto simp: c split: prod.splits)
qed simp

lemma decode_loop_append:
  "decode_loop ctx out (xs @ ys) =
     (case decode_loop ctx out xs of (False, ctx, out) \<Rightarrow> (False, ctx, out) | (True, ctx, out) \<Rightarrow> decode_loop ctx out ys)"
  by (induction xs arbitrary: ctx out) (auto split: prod.splits bool.splits)

lemma decode_loop_blank: "decode_blank c \<Longrightarrow> decode_loop ctx out (c # inp) = decode_loop ctx out inp"
  by (simp add: decode_char_def)

lemma decode_loop_quad:
  assumes "ec_data ctx = []" "\<not> ec_eof_seen ctx"
    and "\<not> decode_blank c0" "\<not> decode_blank c1" "\<not> decode_blank c2" "\<not> decode_blank c3"
    and "base64_decode_quad c0 c1 c2 c3 = Some bytes"
  shows "decode_loop ctx out (c0 # c1 # c2 # c3 # inp)
    = decode_loop (ctx\<lparr>ec_eof_seen := length bytes < 3\<rparr>) (out @ bytes) inp"
  using assms by (cases ctx) (simp add: decode_char_def Let_def)

text \<open>The decoder with nothing pending, fed the quads of an encoder.\<close>

lemma encoded_not_blank:
  "c \<in> set (EVP_EncodeBlock src) \<Longrightarrow> \<not> decode_blank c"
proof (induction src rule: EVP_EncodeBlock.induct)
  case (4 x y z src)
  then show ?case using conv_bin2ascii_digit by (auto simp: Let_def)
qed (use conv_bin2ascii_digit in \<open>auto simp: Let_def decode_blank_def\<close>)

lemma decode_loop_encoded:
  assumes "ec_data ctx = []" "\<not> ec_eof_seen ctx"
  shows "decode_loop ctx out (EVP_EncodeBlock src @ inp)
    = decode_loop (ctx\<lparr>ec_eof_seen := length src mod 3 \<noteq> 0\<rparr>) (out @ src) inp"
  using assms
proof (induction src arbitrary: out rule: EVP_EncodeBlock.induct)
  case 1
  then show ?case by (cases ctx) simp
next
  case (2 x)
  obtain c0 c1 c2 c3 where c: "EVP_EncodeBlock [x] = [c0, c1, c2, c3]" by (simp add: Let_def)
  show ?case
    using decode_loop_quad [OF 2 _ _ _ _ decode_quad_encoded(3) [OF c]] encoded_not_blank [of _ "[x]"]
    by (simp add: c del: EVP_EncodeBlock.simps)
next
  case (3 x y)
  obtain c0 c1 c2 c3 where c: "EVP_EncodeBlock [x, y] = [c0, c1, c2, c3]" by (simp add: Let_def)
  show ?case
    using decode_loop_quad [OF 3 _ _ _ _ decode_quad_encoded(2) [OF c]] encoded_not_blank [of _ "[x, y]"]
    by (simp add: c del: EVP_EncodeBlock.simps)
next
  case (4 x y z src)
  obtain c0 c1 c2 c3 where c: "EVP_EncodeBlock ([x, y, z] @ src) = [c0, c1, c2, c3] @ EVP_EncodeBlock src"
    and q: "base64_decode_quad c0 c1 c2 c3 = Some [x, y, z]"
    using EVP_EncodeBlock_quad [of "[x, y, z]" src] by auto
  have "\<not> decode_blank c0" "\<not> decode_blank c1" "\<not> decode_blank c2" "\<not> decode_blank c3"
    using encoded_not_blank [of _ "[x, y, z] @ src"] unfolding c by simp_all
  from decode_loop_quad [OF 4(2,3) this q] 4(1) [OF refl 4(2,3)] show ?case
    using c 4(2,3) by (cases ctx) (simp del: EVP_EncodeBlock.simps)
qed

lemma decode_loop_lines:
  "ec_data ctx = [] \<Longrightarrow> \<not> ec_eof_seen ctx \<Longrightarrow>
     decode_loop ctx out (b64_lines src) = (True, ctx\<lparr>ec_eof_seen := length src mod 3 \<noteq> 0\<rparr>, out @ src)"
proof (induction src arbitrary: out rule: b64_lines.induct)
  case (1 src)
  consider "src = []" | "src \<noteq> []" "length src < 48" | "48 \<le> length src" by linarith
  then show ?case
  proof cases
    case 1
    then show ?thesis using "1.prems" by (cases ctx) simp
  next
    case 2
    then show ?thesis
      using decode_loop_encoded [OF "1.prems", of out src "[10]"]
      by (simp add: b64_lines_last decode_char_def decode_blank_def)
  next
    case 3
    then have ne: "src \<noteq> []" and len: "length (take 48 src) = 48" by auto
    have "(m + 16 * 3) mod 3 = m mod 3" for m :: nat by (rule mod_mult_self1)
    from this [of "length src - 48"] 3 have "length (drop 48 src) mod 3 = length src mod 3" by simp
    moreover have "ctx\<lparr>ec_eof_seen := False\<rparr> = ctx" using "1.prems" by (cases ctx) simp
    ultimately show ?thesis
      using decode_loop_encoded [OF "1.prems", of out "take 48 src" "10 # b64_lines (drop 48 src)"]
        b64_lines_whole [OF len, of "drop 48 src"] "1.IH" [OF ne "1.prems", of "out @ take 48 src"] len
      by (simp add: decode_char_def decode_blank_def)
  qed
qed

lemma decode_loop_size:
  "decode_loop ctx out inp = (ok, ctx', out') \<Longrightarrow> length (ec_data ctx) < 4 \<Longrightarrow> ok \<Longrightarrow>
     length (ec_data ctx') < 4 \<and> ec_error_encountered ctx' = ec_error_encountered ctx
     \<and> length out' + length (ec_data ctx') \<le> length out + length (ec_data ctx) + length inp"
proof (induction inp arbitrary: ctx out)
  case (Cons c inp)
  obtain ctx1 bytes where c: "decode_char ctx c = (True, ctx1, bytes)"
    and l: "decode_loop ctx1 (out @ bytes) inp = (ok, ctx', out')"
    using Cons.prems by (auto split: prod.splits bool.splits)
  have "length bytes \<le> 3" if "base64_decode_quad x y z w = Some bytes" for x y z w
    using that by (auto simp: base64_decode_quad_def Let_def split: if_splits bool.splits prod.splits)
  with c Cons.prems(2) have "length (ec_data ctx1) < 4" "ec_error_encountered ctx1 = ec_error_encountered ctx"
    "length bytes + length (ec_data ctx1) \<le> length (ec_data ctx) + 1"
    by (auto simp: decode_char_def Let_def split: if_splits option.splits)
  with Cons.IH [OF l _ Cons.prems(3)] show ?case by auto
qed simp

text \<open>A caller of the streaming decoder: the bytes of all the updates, unless one of the calls fails.\<close>

fun stream_decode :: "EVP_ENCODE_CTX \<Rightarrow> u8 list list \<Rightarrow> u8 list option" where
  "stream_decode ctx [] = (if EVP_DecodeFinal ctx = 1 then Some [] else None)"
| "stream_decode ctx (inp # inps) =
     (case EVP_DecodeUpdate ctx inp of
        (r, ctx, out) \<Rightarrow> if r < 0 then None else map_option ((@) out) (stream_decode ctx inps))"

text \<open>How the input is cut into updates makes no difference.\<close>

lemma stream_decode_concat:
  "\<not> ec_error_encountered ctx \<Longrightarrow> length (ec_data ctx) < 4 \<Longrightarrow> list_all (\<lambda>i. length i + 3 \<le> INT_MAX) inps \<Longrightarrow>
     stream_decode ctx inps =
       (case decode_loop ctx [] (concat inps) of
          (ok, ctx', out) \<Rightarrow> if ok \<and> length (ec_data ctx') = 0 then Some out else None)"
proof (induction inps arbitrary: ctx)
  case Nil
  then show ?case by (simp add: EVP_DecodeFinal_def)
next
  case (Cons inp inps)
  obtain ok ctx1 out1 where l: "decode_loop ctx [] inp = (ok, ctx1, out1)" by (cases "decode_loop ctx [] inp")
  show ?case
  proof (cases ok)
    case True
    with decode_loop_size [OF l Cons.prems(2)] Cons.prems
    have s: "length (ec_data ctx1) < 4" "\<not> ec_error_encountered ctx1" "length out1 \<le> INT_MAX" by auto
    obtain ok2 ctx2 out2 where l2: "decode_loop ctx1 [] (concat inps) = (ok2, ctx2, out2)"
      by (cases "decode_loop ctx1 [] (concat inps)")
    then have "decode_loop ctx1 out1 (concat inps) = (ok2, ctx2, out1 @ out2)"
      using decode_loop_out [of ctx1 out1] by simp
    then show ?thesis
      using True Cons.IH [OF s(2,1)] Cons.prems s l l2 by (auto simp: EVP_DecodeUpdate_def decode_loop_append)
  next
    case False
    then show ?thesis using l Cons.prems by (auto simp: EVP_DecodeUpdate_def decode_loop_append)
  qed
qed

lemma stream_decode_lines:
  assumes "concat inps = b64_lines src" "list_all (\<lambda>i. length i + 3 \<le> INT_MAX) inps"
  shows "stream_decode EVP_DecodeInit inps = Some src"
  using assms stream_decode_concat [of EVP_DecodeInit inps]
  by (simp add: decode_loop_lines EVP_DecodeInit_def)

section \<open>Lengths and blanks around a block\<close>

lemma four_groups_fit:
  fixes q :: nat
  shows "q * 4 < 18446744073709551616 \<Longrightarrow> q * 4 + 1 < 18446744073709551616"
  by arith

lemma EVP_EncodedLength_iff:
  assumes "len < 2 ^ 64"
  shows "EVP_EncodedLength len = Some n \<longleftrightarrow>
    length (EVP_EncodeBlock (replicate len 0)) + 1 = n \<and> n < 2 ^ 64 \<and> len + 2 < 2 ^ 64"
proof (cases "len + 2 < 2 ^ 64")
  case True
  define q where "q = (len + 2) div 3"
  have a: "sz (len + 2) = len + 2" using True by (rule sz_small)
  have e: "EVP_EncodedLength len =
      (if sz (q * 4) div 4 \<noteq> q then None
       else if sz (sz (q * 4) + 1) < sz (q * 4) then None else Some (sz (sz (q * 4) + 1)))"
    unfolding EVP_EncodedLength_def Let_def a q_def by simp
  have l: "length (EVP_EncodeBlock (replicate len 0)) = q * 4"
    by (simp add: EVP_EncodeBlock_length q_def)
  show ?thesis
  proof (cases "q * 4 < 2 ^ 64")
    case fits: True
    then have "q * 4 + 1 < 2 ^ 64" using four_groups_fit by simp
    then show ?thesis using fits True unfolding e l by auto
  next
    case False
    have "sz (q * 4) < 2 ^ 64" by (simp add: sz_def)
    moreover have "q * 4 \<ge> 2 ^ 64" using False by simp
    ultimately have "sz (q * 4) div 4 \<noteq> q" by (auto simp: div_less_iff_less_mult)
    then show ?thesis using False unfolding e l by auto
  qed
next
  case False
  have "2 ^ 64 \<le> x + 2 \<Longrightarrow> x < 2 ^ 64 \<Longrightarrow> 2 \<le> x \<Longrightarrow> x + 2 - 2 ^ 64 < x" for x :: nat by simp
  moreover have "sz (len + 2) = len + 2 - 2 ^ 64"
    unfolding sz_def by (rule mod_nat_eqI) (use False assms in simp_all)
  ultimately have "sz (len + 2) < len" using False assms by simp
  then show ?thesis using False by (simp add: EVP_EncodedLength_def)
qed

lemma EncodeBlock_edges:
  assumes "list_all (\<lambda>c. c = 32 \<or> c = 9) pre" "list_all decode_blank post"
  shows "rev (dropWhile decode_blank (rev (dropWhile (\<lambda>c. c = 32 \<or> c = 9) (pre @ EVP_EncodeBlock src @ post))))
    = EVP_EncodeBlock src"
proof (cases "src = []")
  case True
  have "list_all decode_blank (dropWhile (\<lambda>c. c = 32 \<or> c = 9) post)"
    using assms(2) set_dropWhileD by (fastforce simp: list_all_iff)
  then show ?thesis using assms(1) True by (simp add: list_all_iff dropWhile_append)
next
  case False
  define e where "e = EVP_EncodeBlock src"
  have "0 < length e" using False unfolding e_def EVP_EncodeBlock_length by (cases src) auto
  then have ne: "e \<noteq> []" by simp
  have nb: "\<not> decode_blank c" if "c \<in> set e" for c using encoded_not_blank that unfolding e_def .
  have "\<not> decode_blank (hd e)" using ne nb by simp
  then have "dropWhile (\<lambda>c. c = 32 \<or> c = 9) (e @ post) = e @ post"
    using ne by (cases e) (auto simp: decode_blank_def)
  moreover have "dropWhile decode_blank (rev e) = rev e"
    using ne nb by (simp add: dropWhile_eq_self_iff hd_rev)
  ultimately show ?thesis
    using assms by (simp add: list_all_iff e_def [symmetric] dropWhile_append)
qed

lemma EVP_DecodeBlock_EncodeBlock:
  assumes "list_all (\<lambda>c. c = 32 \<or> c = 9) pre" "list_all decode_blank post"
    and "(length src + 2) div 3 * 3 \<le> INT_MAX"
  shows "EVP_DecodeBlock (pre @ EVP_EncodeBlock src @ post)
    = Some (src @ replicate ((3 - length src mod 3) mod 3) 0)"
  using assms(3) unfolding EVP_DecodeBlock_def Let_def EncodeBlock_edges [OF assms(1,2)]
  by (simp add: EVP_DecodeBase64_EncodeBlock EVP_DecodedLength_def EVP_EncodeBlock_length)

end
