(* ===== verification/PbDecode.thy ===== *)
theory PbDecode
  imports Prelude
begin

text \<open>
  \<open>nanopb/pb_decode.c\<close>: input streams and the readers of the wire format. A stream is
  read through a callback, a parameter of every reader: it is handed the stream's \<open>state\<close> and a
  count and gives the bytes it stored, or fails, and the state afterwards (rules 2 and 3 of
  \<open>pb_decode.h\<close> keep it away from \<open>bytes_left\<close>). \<open>buf_read\<close> is the callback of
  \<open>pb_istream_from_buffer\<close>; its state, a pointer into the buffer, is the bytes from there on.
  A reader's result is its value, if it returned true, and the stream.
\<close>

section \<open>Streams\<close>

record 's pb_istream =
  is_state :: 's
  is_bytes_left :: nat
  is_errmsg :: "string option"

record 's pb_reader =
  rd_callback :: "'s \<Rightarrow> nat \<Rightarrow> u8 list option \<times> 's"
  rd_is_buf_read :: bool

text \<open>\<open>PB_SET_ERROR\<close> keeps the first message; \<open>PB_RETURN_ERROR\<close> also returns false.\<close>

definition PB_SET_ERROR :: "string \<Rightarrow> 's pb_istream \<Rightarrow> 's pb_istream" where
  "PB_SET_ERROR msg s = s\<lparr>is_errmsg := (case is_errmsg s of Some m \<Rightarrow> Some m | None \<Rightarrow> Some msg)\<rparr>"

definition PB_RETURN_ERROR :: "string \<Rightarrow> 's pb_istream \<Rightarrow> 'a option \<times> 's pb_istream" where
  "PB_RETURN_ERROR msg s = (None, PB_SET_ERROR msg s)"

definition pb_bind ::
    "'a option \<times> 's pb_istream \<Rightarrow> ('a \<Rightarrow> 's pb_istream \<Rightarrow> 'b option \<times> 's pb_istream)
      \<Rightarrow> 'b option \<times> 's pb_istream" where
  "pb_bind r f = (case r of (None, s) \<Rightarrow> (None, s) | (Some v, s) \<Rightarrow> f v s)"

lemma pb_bind_simps [simp]: "pb_bind (None, s) f = (None, s)" "pb_bind (Some v, s) f = f v s"
  by (simp_all add: pb_bind_def)

lemma pb_bind_Some_iff:
  "pb_bind r f = (Some y, s') \<longleftrightarrow> (\<exists>v s. r = (Some v, s) \<and> f v s = (Some y, s'))"
  by (auto simp: pb_bind_def split: prod.splits option.splits)

definition buf_read :: "u8 list \<Rightarrow> nat \<Rightarrow> u8 list option \<times> u8 list" where
  "buf_read source count = (Some (take count source), drop count source)"

definition buf_reader :: "u8 list pb_reader" where
  "buf_reader = \<lparr>rd_callback = buf_read, rd_is_buf_read = True\<rparr>"

definition pb_istream_from_buffer :: "u8 list \<Rightarrow> nat \<Rightarrow> u8 list pb_istream" where
  "pb_istream_from_buffer buf bufsize = \<lparr>is_state = buf, is_bytes_left = bufsize, is_errmsg = None\<rparr>"

text \<open>\<open>pb_read\<close> with a buffer: the bytes it stores there.\<close>

definition pb_read :: "'s pb_reader \<Rightarrow> nat \<Rightarrow> 's pb_istream \<Rightarrow> u8 list option \<times> 's pb_istream" where
  "pb_read r count s =
     (if count = 0 then (Some [], s)
      else if is_bytes_left s < count then PB_RETURN_ERROR ''end-of-stream'' s
      else case rd_callback r (is_state s) count of
             (None, st) \<Rightarrow> PB_RETURN_ERROR ''io error'' (s\<lparr>is_state := st\<rparr>)
           | (Some bytes, st) \<Rightarrow>
               (Some bytes, s\<lparr>is_state := st, is_bytes_left := is_bytes_left s - count\<rparr>))"

text \<open>\<open>pb_read\<close> with \<open>buf == NULL\<close>: a callback other than \<open>buf_read\<close> is asked for 16 bytes at a time.\<close>

function skip_chunks :: "'s pb_reader \<Rightarrow> nat \<Rightarrow> 's pb_istream \<Rightarrow> u8 list option \<times> 's pb_istream" where
  "skip_chunks r count s =
     (if count > 16 then pb_bind (pb_read r 16 s) (\<lambda>_. skip_chunks r (count - 16)) else pb_read r count s)"
  by pat_completeness auto
termination
  by (relation "measure (\<lambda>(_, count, _). count)") auto

declare skip_chunks.simps [simp del]

definition pb_read_null :: "'s pb_reader \<Rightarrow> nat \<Rightarrow> 's pb_istream \<Rightarrow> unit option \<times> 's pb_istream" where
  "pb_read_null r count s =
     (if count = 0 then (Some (), s)
      else if \<not> rd_is_buf_read r then pb_bind (skip_chunks r count s) (\<lambda>_. Pair (Some ()))
      else pb_bind (pb_read r count s) (\<lambda>_. Pair (Some ())))"

definition pb_readbyte :: "'s pb_reader \<Rightarrow> 's pb_istream \<Rightarrow> u8 option \<times> 's pb_istream" where
  "pb_readbyte r s =
     (if is_bytes_left s = 0 then PB_RETURN_ERROR ''end-of-stream'' s
      else case rd_callback r (is_state s) 1 of
             (None, st) \<Rightarrow> PB_RETURN_ERROR ''io error'' (s\<lparr>is_state := st\<rparr>)
           | (Some bytes, st) \<Rightarrow>
               (Some (hd bytes), s\<lparr>is_state := st, is_bytes_left := is_bytes_left s - 1\<rparr>))"

lemma pb_readbyte_shrinks: "pb_readbyte r s = (Some b, s') \<Longrightarrow> is_bytes_left s' < is_bytes_left s"
  by (auto simp: pb_readbyte_def PB_RETURN_ERROR_def split: if_splits prod.splits option.splits)

lemma pb_read_shrinks:
  "pb_read r n s = (Some b, s') \<Longrightarrow> 0 < n \<Longrightarrow> is_bytes_left s' < is_bytes_left s"
  by (auto simp: pb_read_def PB_RETURN_ERROR_def split: if_splits prod.splits option.splits)

section \<open>Varints\<close>

text \<open>\<open>bitpos\<close> is a \<open>uint_fast8_t\<close>, one byte wide on the targets.\<close>

definition bitpos_next :: "nat \<Rightarrow> nat" where
  "bitpos_next bitpos = (bitpos + 7) mod 256"

function varint_loop ::
    "'s pb_reader \<Rightarrow> u64 \<Rightarrow> nat \<Rightarrow> 's pb_istream \<Rightarrow> u64 option \<times> 's pb_istream" where
  "varint_loop r result bitpos s =
     (if bitpos \<ge> 64 then PB_RETURN_ERROR ''varint overflow'' s
      else case pb_readbyte r s of
             (None, s) \<Rightarrow> (None, s)
           | (Some byte, s) \<Rightarrow>
               (let result = result OR push_bit bitpos (ucast (byte AND 0x7f))
                in if byte AND 0x80 \<noteq> 0 then varint_loop r result (bitpos_next bitpos) s
                   else (Some result, s)))"
  by pat_completeness auto
termination
  by (relation "measure (\<lambda>(_, _, _, s). is_bytes_left s)") (auto dest: pb_readbyte_shrinks sym)

declare varint_loop.simps [simp del]

definition pb_decode_varint :: "'s pb_reader \<Rightarrow> 's pb_istream \<Rightarrow> u64 option \<times> 's pb_istream" where
  "pb_decode_varint r s = varint_loop r 0 0 s"

function varint32_loop ::
    "'s pb_reader \<Rightarrow> u32 \<Rightarrow> nat \<Rightarrow> 's pb_istream \<Rightarrow> u32 option \<times> 's pb_istream" where
  "varint32_loop r result bitpos s =
     (case pb_readbyte r s of
        (None, s) \<Rightarrow> (None, s)
      | (Some byte, s) \<Rightarrow>
          (let sign_extension = (if bitpos < 63 then 0xff else 0x01)
           in if bitpos \<ge> 32 \<and> byte AND 0x7f \<noteq> 0 \<and> (drop_bit 31 result = 0 \<or> byte \<noteq> sign_extension)
              then PB_RETURN_ERROR ''varint overflow'' s
              else
                let result = (if bitpos \<ge> 32 then result
                              else result OR push_bit bitpos (ucast (byte AND 0x7f)));
                    bitpos = bitpos_next bitpos
                in if byte AND 0x80 \<noteq> 0 then varint32_loop r result bitpos s
                   else if bitpos = 35 \<and> byte AND 0x70 \<noteq> 0 then PB_RETURN_ERROR ''varint overflow'' s
                   else (Some result, s)))"
  by pat_completeness auto
termination
  by (relation "measure (\<lambda>(_, _, _, s). is_bytes_left s)") (auto dest: pb_readbyte_shrinks sym)

declare varint32_loop.simps [simp del]

text \<open>The last component says whether \<open>*eof\<close> was set.\<close>

definition pb_decode_varint32_eof ::
    "'s pb_reader \<Rightarrow> 's pb_istream \<Rightarrow> (u32 option \<times> 's pb_istream) \<times> bool" where
  "pb_decode_varint32_eof r s =
     (case pb_readbyte r s of
        (None, s) \<Rightarrow> ((None, s), is_bytes_left s = 0)
      | (Some byte, s) \<Rightarrow>
          (if byte AND 0x80 = 0 then ((Some (ucast byte), s), False)
           else (varint32_loop r (ucast (byte AND 0x7f)) 7 s, False)))"

definition pb_decode_varint32 :: "'s pb_reader \<Rightarrow> 's pb_istream \<Rightarrow> u32 option \<times> 's pb_istream" where
  "pb_decode_varint32 r s = fst (pb_decode_varint32_eof r s)"

function pb_skip_varint :: "'s pb_reader \<Rightarrow> 's pb_istream \<Rightarrow> unit option \<times> 's pb_istream" where
  "pb_skip_varint r s =
     (case pb_read r 1 s of
        (None, s) \<Rightarrow> (None, s)
      | (Some bytes, s) \<Rightarrow> if hd bytes AND 0x80 \<noteq> 0 then pb_skip_varint r s else (Some (), s))"
  by pat_completeness auto
termination
  by (relation "measure (\<lambda>(_, s). is_bytes_left s)") (auto dest: pb_read_shrinks sym)

declare pb_skip_varint.simps [simp del]

section \<open>Tags and fields\<close>

definition pb_skip_string :: "'s pb_reader \<Rightarrow> 's pb_istream \<Rightarrow> unit option \<times> 's pb_istream" where
  "pb_skip_string r s = pb_bind (pb_decode_varint32 r s) (\<lambda>n. pb_read_null r (unat n))"

definition PB_WT_VARINT :: nat where "PB_WT_VARINT = 0"
definition PB_WT_64BIT :: nat where "PB_WT_64BIT = 1"
definition PB_WT_STRING :: nat where "PB_WT_STRING = 2"
definition PB_WT_32BIT :: nat where "PB_WT_32BIT = 5"

lemmas pb_wt_defs = PB_WT_VARINT_def PB_WT_64BIT_def PB_WT_STRING_def PB_WT_32BIT_def

text \<open>The wire type and the tag, the stream, and \<open>*eof\<close>.\<close>

definition pb_decode_tag ::
    "'s pb_reader \<Rightarrow> 's pb_istream \<Rightarrow> ((nat \<times> u32) option \<times> 's pb_istream) \<times> bool" where
  "pb_decode_tag r s =
     (case pb_decode_varint32_eof r s of
        ((None, s), eof) \<Rightarrow> ((None, s), eof)
      | ((Some temp, s), eof) \<Rightarrow>
          (if temp = 0 then ((None, s), True)
           else ((Some (unat (temp AND 7), drop_bit 3 temp), s), eof)))"

definition pb_skip_field :: "'s pb_reader \<Rightarrow> nat \<Rightarrow> 's pb_istream \<Rightarrow> unit option \<times> 's pb_istream" where
  "pb_skip_field r wire_type s =
     (if wire_type = PB_WT_VARINT then pb_skip_varint r s
      else if wire_type = PB_WT_64BIT then pb_read_null r 8 s
      else if wire_type = PB_WT_STRING then pb_skip_string r s
      else if wire_type = PB_WT_32BIT then pb_read_null r 4 s
      else PB_RETURN_ERROR ''invalid wire_type'' s)"

text \<open>\<open>read_raw_value\<close>: the bytes stored, whose number is \<open>*size\<close> afterwards.\<close>

fun raw_varint :: "'s pb_reader \<Rightarrow> nat \<Rightarrow> u8 list \<Rightarrow> 's pb_istream \<Rightarrow> u8 list option \<times> 's pb_istream" where
  "raw_varint r 0 buf s = (None, s)"
| "raw_varint r (Suc room) buf s =
     pb_bind (pb_read r 1 s) (\<lambda>bytes s.
       if hd bytes AND 0x80 \<noteq> 0 then raw_varint r room (buf @ bytes) s else (Some (buf @ bytes), s))"

definition read_raw_value ::
    "'s pb_reader \<Rightarrow> nat \<Rightarrow> nat \<Rightarrow> 's pb_istream \<Rightarrow> u8 list option \<times> 's pb_istream" where
  "read_raw_value r wire_type max_size s =
     (if wire_type = PB_WT_VARINT then raw_varint r max_size [] s
      else if wire_type = PB_WT_64BIT then pb_read r 8 s
      else if wire_type = PB_WT_32BIT then pb_read r 4 s
      else PB_RETURN_ERROR ''invalid wire_type'' s)"

text \<open>The substream, and the parent stream.\<close>

definition pb_make_string_substream ::
    "'s pb_reader \<Rightarrow> 's pb_istream \<Rightarrow> 's pb_istream option \<times> 's pb_istream" where
  "pb_make_string_substream r s =
     pb_bind (pb_decode_varint32 r s) (\<lambda>n s.
       if is_bytes_left s < unat n then PB_RETURN_ERROR ''parent stream too short'' s
       else (Some (s\<lparr>is_bytes_left := unat n\<rparr>), s\<lparr>is_bytes_left := is_bytes_left s - unat n\<rparr>))"

definition pb_close_string_substream ::
    "'s pb_reader \<Rightarrow> 's pb_istream \<Rightarrow> 's pb_istream \<Rightarrow> unit option \<times> 's pb_istream" where
  "pb_close_string_substream r sub s =
     (case (if is_bytes_left sub \<noteq> 0 then pb_read_null r (is_bytes_left sub) sub else (Some (), sub)) of
        (None, _) \<Rightarrow> (None, s)
      | (Some _, sub) \<Rightarrow> (Some (), s\<lparr>is_state := is_state sub, is_errmsg := is_errmsg sub\<rparr>))"

section \<open>Scalar values\<close>

text \<open>An \<open>int64_t\<close> is its 64 bits; \<^const>\<open>sint\<close> reads it.\<close>

definition pb_decode_svarint :: "'s pb_reader \<Rightarrow> 's pb_istream \<Rightarrow> u64 option \<times> 's pb_istream" where
  "pb_decode_svarint r s =
     pb_bind (pb_decode_varint r s) (\<lambda>v s.
       (Some (if v AND 1 \<noteq> 0 then NOT (drop_bit 1 v) else drop_bit 1 v), s))"

definition pb_decode_fixed32 :: "'s pb_reader \<Rightarrow> 's pb_istream \<Rightarrow> u32 option \<times> 's pb_istream" where
  "pb_decode_fixed32 r s =
     pb_bind (pb_read r 4 s) (\<lambda>bytes s.
       (Some (push_bit 0 (ucast (bytes ! 0)) OR push_bit 8 (ucast (bytes ! 1))
          OR push_bit 16 (ucast (bytes ! 2)) OR push_bit 24 (ucast (bytes ! 3))), s))"

definition pb_decode_fixed64 :: "'s pb_reader \<Rightarrow> 's pb_istream \<Rightarrow> u64 option \<times> 's pb_istream" where
  "pb_decode_fixed64 r s =
     pb_bind (pb_read r 8 s) (\<lambda>bytes s.
       (Some (push_bit 0 (ucast (bytes ! 0)) OR push_bit 8 (ucast (bytes ! 1))
          OR push_bit 16 (ucast (bytes ! 2)) OR push_bit 24 (ucast (bytes ! 3))
          OR push_bit 32 (ucast (bytes ! 4)) OR push_bit 40 (ucast (bytes ! 5))
          OR push_bit 48 (ucast (bytes ! 6)) OR push_bit 56 (ucast (bytes ! 7))), s))"

definition pb_dec_bool :: "'s pb_reader \<Rightarrow> 's pb_istream \<Rightarrow> bool option \<times> 's pb_istream" where
  "pb_dec_bool r s = pb_bind (pb_decode_varint32 r s) (\<lambda>v s. (Some (v \<noteq> 0), s))"

definition pb_decode_bool :: "'s pb_reader \<Rightarrow> 's pb_istream \<Rightarrow> bool option \<times> 's pb_istream" where
  "pb_decode_bool = pb_dec_bool"

text \<open>
  The decoders of integer fields: the value stored in a field of \<open>data_size\<close> bytes, read at
  that width. The casts are those of the code, and the checks compare the result with the value.
\<close>

definition cast_signed :: "nat \<Rightarrow> int \<Rightarrow> int option" where
  "cast_signed data_size v =
     (if data_size = 8 then Some (sint (of_int v :: u64))
      else if data_size = 4 then Some (sint (of_int v :: u32))
      else if data_size = 2 then Some (sint (of_int v :: u16))
      else if data_size = 1 then Some (sint (of_int v :: u8))
      else None)"

definition cast_unsigned :: "nat \<Rightarrow> u64 \<Rightarrow> nat option" where
  "cast_unsigned data_size v =
     (if data_size = 8 then Some (unat v)
      else if data_size = 4 then Some (unat (ucast v :: u32))
      else if data_size = 2 then Some (unat (ucast v :: u16))
      else if data_size = 1 then Some (unat (ucast v :: u8))
      else None)"

definition pb_dec_varint :: "'s pb_reader \<Rightarrow> nat \<Rightarrow> 's pb_istream \<Rightarrow> int option \<times> 's pb_istream" where
  "pb_dec_varint r data_size s =
     pb_bind (pb_decode_varint r s) (\<lambda>v s.
       let svalue = (if data_size = 8 then sint v else sint (ucast v :: u32))
       in case cast_signed data_size svalue of
            None \<Rightarrow> PB_RETURN_ERROR ''invalid data_size'' s
          | Some clamped \<Rightarrow>
              if clamped \<noteq> svalue then PB_RETURN_ERROR ''integer too large'' s else (Some clamped, s))"

definition pb_dec_uvarint :: "'s pb_reader \<Rightarrow> nat \<Rightarrow> 's pb_istream \<Rightarrow> nat option \<times> 's pb_istream" where
  "pb_dec_uvarint r data_size s =
     pb_bind (pb_decode_varint r s) (\<lambda>v s.
       case cast_unsigned data_size v of
         None \<Rightarrow> PB_RETURN_ERROR ''invalid data_size'' s
       | Some clamped \<Rightarrow>
           if clamped \<noteq> unat v then PB_RETURN_ERROR ''integer too large'' s else (Some clamped, s))"

definition pb_dec_svarint :: "'s pb_reader \<Rightarrow> nat \<Rightarrow> 's pb_istream \<Rightarrow> int option \<times> 's pb_istream" where
  "pb_dec_svarint r data_size s =
     pb_bind (pb_decode_svarint r s) (\<lambda>v s.
       case cast_signed data_size (sint v) of
         None \<Rightarrow> PB_RETURN_ERROR ''invalid data_size'' s
       | Some clamped \<Rightarrow>
           if clamped \<noteq> sint v then PB_RETURN_ERROR ''integer too large'' s else (Some clamped, s))"

definition pb_dec_fixed32 :: "'s pb_reader \<Rightarrow> 's pb_istream \<Rightarrow> u32 option \<times> 's pb_istream" where
  "pb_dec_fixed32 = pb_decode_fixed32"

definition pb_dec_fixed64 :: "'s pb_reader \<Rightarrow> 's pb_istream \<Rightarrow> u64 option \<times> 's pb_istream" where
  "pb_dec_fixed64 = pb_decode_fixed64"

section \<open>Varints as numbers\<close>

text \<open>The octets of a varint, little-endian in base 128; the last one has its high bit clear.\<close>

fun varint_octets :: "nat \<Rightarrow> u8 list" where
  "varint_octets n = (if n < 128 then [of_nat n] else of_nat (n mod 128 + 128) # varint_octets (n div 128))"

declare varint_octets.simps [simp del]

fun varint_value :: "u8 list \<Rightarrow> nat" where
  "varint_value [] = 0"
| "varint_value (b # bs) = unat b mod 128 + 128 * varint_value bs"

fun varint_form :: "u8 list \<Rightarrow> bool" where
  "varint_form [] = False"
| "varint_form (b # bs) = (if bs = [] then unat b < 128 else 128 \<le> unat b \<and> varint_form bs)"

lemma varint_form_octets [simp]: "varint_form (varint_octets n)"
proof (induction n rule: varint_octets.induct)
  case (1 n)
  have "varint_octets m \<noteq> []" for m by (subst varint_octets.simps) simp
  with 1 show ?case
    by (subst varint_octets.simps) (auto simp: unat_of_nat_u8 unat_septet_more)
qed

lemma varint_value_octets [simp]: "varint_value (varint_octets n) = n"
proof (induction n rule: varint_octets.induct)
  case (1 n)
  then show ?case
    by (subst varint_octets.simps) (auto simp: unat_of_nat_u8 unat_septet_more)
qed

lemma length_varint_octets: "n < 128 ^ k \<Longrightarrow> 0 < k \<Longrightarrow> length (varint_octets n) \<le> k"
proof (induction n arbitrary: k rule: varint_octets.induct)
  case (1 n)
  show ?case
  proof (cases "n < 128")
    case False
    with 1(2,3) obtain j where k: "k = Suc j" "0 < j" by (cases k; cases "k - 1") auto
    with 1(2) have "n div 128 < 128 ^ j" by (simp add: less_mult_imp_div_less mult.commute)
    with 1(1) [OF False] k False show ?thesis by (subst varint_octets.simps) simp
  qed (use 1 in \<open>subst varint_octets.simps, simp\<close>)
qed

section \<open>What a reader takes from a stream\<close>

text \<open>
  \<open>content\<close> maps a callback's state to the bytes it has yet to deliver. A reader takes \<open>ws\<close>
  from a stream when, wherever they come next, it returns \<open>v\<close>, consumes just them and
  leaves the error message alone; the bytes beyond \<open>bytes_left\<close>, those after a substream, are
  \<open>beyond\<close>.
\<close>

definition pb_reads ::
    "('s \<Rightarrow> u8 list) \<Rightarrow> ('s pb_istream \<Rightarrow> 'a option \<times> 's pb_istream) \<Rightarrow> 'a \<Rightarrow> u8 list \<Rightarrow> bool" where
  "pb_reads content f v ws \<longleftrightarrow>
     (\<forall>s rest beyond. content (is_state s) = ws @ rest @ beyond \<and> is_bytes_left s = length ws + length rest \<longrightarrow>
        (\<exists>st. f s = (Some v, s\<lparr>is_state := st, is_bytes_left := length rest\<rparr>) \<and> content st = rest @ beyond))"

lemma pb_readsI:
  assumes "\<And>s rest beyond. content (is_state s) = ws @ rest @ beyond \<Longrightarrow> is_bytes_left s = length ws + length rest \<Longrightarrow>
    \<exists>st. f s = (Some v, s\<lparr>is_state := st, is_bytes_left := length rest\<rparr>) \<and> content st = rest @ beyond"
  shows "pb_reads content f v ws"
  using assms by (simp add: pb_reads_def)

lemma pb_readsD:
  fixes s :: "'s pb_istream"
  assumes "pb_reads content f v ws" "content (is_state s) = ws @ rest @ beyond" "is_bytes_left s = length ws + length rest"
  obtains st where "f s = (Some v, s\<lparr>is_state := st, is_bytes_left := length rest\<rparr>)" "content st = rest @ beyond"
  using assms unfolding pb_reads_def by blast

lemma pb_reads_bind:
  fixes content :: "'s \<Rightarrow> u8 list"
  assumes f: "pb_reads content f v ws" and g: "pb_reads content (g v) w vs"
  shows "pb_reads content (\<lambda>s. pb_bind (f s) g) w (ws @ vs)"
proof (rule pb_readsI)
  fix s :: "'s pb_istream" and rest beyond
  assume s: "content (is_state s) = (ws @ vs) @ rest @ beyond" "is_bytes_left s = length (ws @ vs) + length rest"
  obtain st where 1: "f s = (Some v, s\<lparr>is_state := st, is_bytes_left := length (vs @ rest)\<rparr>)"
    "content st = (vs @ rest) @ beyond"
    by (rule pb_readsD [OF f, of s "vs @ rest" beyond]) (use s in auto)
  show "\<exists>st. pb_bind (f s) g = (Some w, s\<lparr>is_state := st, is_bytes_left := length rest\<rparr>) \<and> content st = rest @ beyond"
    by (rule pb_readsD [OF g, of "s\<lparr>is_state := st, is_bytes_left := length (vs @ rest)\<rparr>" rest beyond])
      (use 1 in auto)
qed

lemma pb_reads_return: "pb_reads content (Pair (Some v)) v []"
  by (rule pb_readsI) (auto intro!: exI)

lemma pb_reads_map:
  "pb_reads content f v ws \<Longrightarrow> h v = w \<Longrightarrow> pb_reads content (\<lambda>s. pb_bind (f s) (\<lambda>v s. (Some (h v), s))) w ws"
  using pb_reads_bind [of content f v ws "\<lambda>v s. (Some (h v), s)" w "[]"] pb_reads_return [of content w] by simp

text \<open>The same for a reader that also reports the end of the stream: it does not.\<close>

definition pb_reads_quietly ::
    "('s \<Rightarrow> u8 list) \<Rightarrow> ('s pb_istream \<Rightarrow> ('a option \<times> 's pb_istream) \<times> bool) \<Rightarrow> 'a \<Rightarrow> u8 list \<Rightarrow> bool" where
  "pb_reads_quietly content f v ws \<longleftrightarrow> pb_reads content (\<lambda>s. fst (f s)) v ws
     \<and> (\<forall>s rest beyond. content (is_state s) = ws @ rest @ beyond \<and> is_bytes_left s = length ws + length rest
          \<longrightarrow> \<not> snd (f s))"

lemma septet_word:
  fixes b :: u8
  assumes "7 \<le> LENGTH('a::len)"
  shows "(ucast (b AND 0x7f) :: 'a word) OR push_bit 7 (of_nat n) = of_nat (unat b mod 128 + 128 * n)"
proof -
  have u: "(ucast (b AND 0x7f) :: 'a word) = of_nat (unat b mod 128)"
    by (simp flip: octet_lo)
  have "unat b mod 128 < 2 ^ 7" by simp
  moreover have "(2 :: nat) ^ 7 \<le> 2 ^ LENGTH('a)" using assms by (intro power_increasing) auto
  ultimately have "unat (of_nat (unat b mod 128) :: 'a word) < 2 ^ 7"
    by (subst unat_of_nat_id) auto
  from push_or_eq_add [OF this, of "of_nat n"] show ?thesis
    unfolding u by (simp add: or.commute push_bit_eq_mult add.commute mult.commute)
qed

lemma varint_step:
  fixes b :: u8
  assumes "7 \<le> LENGTH('a::len)"
  shows "result OR push_bit k (of_nat (varint_value (b # bs))) =
    (result OR push_bit k (ucast (b AND 0x7f))) OR push_bit (k + 7) (of_nat (varint_value bs) :: 'a word)"
  unfolding varint_value.simps septet_word [OF assms, symmetric] push_bit_or push_bit_push_bit
  by (simp add: or.assoc)

section \<open>Octets joined by shifts\<close>

lemma or_push_octet:
  fixes a :: "'a::len word" and b :: u8
  assumes "unat a < 2 ^ n" "n + 8 \<le> LENGTH('a)"
  shows "unat (a OR push_bit n (ucast b)) = unat a + 2 ^ n * unat b"
    and "unat (a OR push_bit n (ucast b)) < 2 ^ (n + 8)"
proof -
  have u: "unat (ucast b :: 'a word) = unat b" using assms(2) by (intro unat_ucast_up) simp
  have "unat b * 2 ^ n + unat a < (unat b + 1) * 2 ^ n" using assms(1) by simp
  also have "\<dots> \<le> 2 ^ 8 * 2 ^ n" using unat_u8_less [of b] by (intro mult_right_mono) simp_all
  finally have lt: "unat b * 2 ^ n + unat a < 2 ^ (n + 8)" by (simp add: power_add mult.commute)
  also have "(2 :: nat) ^ (n + 8) \<le> 2 ^ LENGTH('a)" using assms(2) by (intro power_increasing) simp_all
  finally have "unat (push_bit n (ucast b) OR a) = unat b * 2 ^ n + unat a"
    using assms(1) by (subst unat_push_or) (simp_all add: u)
  with lt show "unat (a OR push_bit n (ucast b)) = unat a + 2 ^ n * unat b"
    and "unat (a OR push_bit n (ucast b)) < 2 ^ (n + 8)"
    by (simp_all add: or.commute mult.commute)
qed

lemma unat_join_octets:
  fixes a :: "'a::len word"
  shows "8 * (k + length bs) \<le> LENGTH('a) \<Longrightarrow> unat a < 2 ^ (8 * k) \<Longrightarrow>
    unat (foldl (\<lambda>a (i, b). a OR push_bit (8 * i) (ucast b)) a (enumerate k bs)) = unat a + 256 ^ k * le_nat bs"
proof (induction bs arbitrary: a k)
  case (Cons b bs)
  have "8 * k + 8 \<le> LENGTH('a)" using Cons.prems(1) by simp
  note step = or_push_octet [OF Cons.prems(2) this, of b]
  have "unat (a OR push_bit (8 * k) (ucast b)) < 2 ^ (8 * Suc k)" using step(2) by (simp add: add.commute)
  moreover have "(2 :: nat) ^ (8 * k) = 256 ^ k" by (simp add: power_mult)
  ultimately show ?case
    using Cons.IH [of "Suc k" "a OR push_bit (8 * k) (ucast b)"] Cons.prems(1) step(1)
    by (simp add: algebra_simps)
qed simp

lemma joined_fixed:
  "(push_bit 0 (ucast b0) OR push_bit 8 (ucast b1) OR push_bit 16 (ucast b2) OR push_bit 24 (ucast b3) :: u32)
    = of_nat (le_nat [b0, b1, b2, b3])"
  "(push_bit 0 (ucast b0) OR push_bit 8 (ucast b1) OR push_bit 16 (ucast b2) OR push_bit 24 (ucast b3)
    OR push_bit 32 (ucast b4) OR push_bit 40 (ucast b5) OR push_bit 48 (ucast b6) OR push_bit 56 (ucast b7) :: u64)
    = of_nat (le_nat [b0, b1, b2, b3, b4, b5, b6, b7])"
  using of_nat_unat_id [OF unat_join_octets [of 0 "[b0, b1, b2, b3]" "0 :: u32"]]
    of_nat_unat_id [OF unat_join_octets [of 0 "[b0, b1, b2, b3, b4, b5, b6, b7]" "0 :: u64"]]
  by (simp_all add: or.assoc del: le_nat_Cons)

lemma list_of_4: "length xs = 4 \<Longrightarrow> \<exists>a b c d. xs = [a, b, c, d]"
  by (auto simp: numeral_eq_Suc length_Suc_conv)

lemma list_of_8: "length xs = 8 \<Longrightarrow> \<exists>a b c d e f g h. xs = [a, b, c, d, e, f, g, h]"
  by (auto simp: numeral_eq_Suc length_Suc_conv)

section \<open>Sources\<close>

text \<open>What the readers rely on: the callback delivers the next bytes, in order.\<close>

locale byte_source =
  fixes r :: "'s pb_reader" and content :: "'s \<Rightarrow> u8 list"
  assumes delivers: "n \<le> length (content st) \<Longrightarrow>
    \<exists>st'. rd_callback r st n = (Some (take n (content st)), st') \<and> content st' = drop n (content st)"
begin

lemma reads_bytes: "pb_reads content (pb_read r (length ws)) ws ws"
proof (rule pb_readsI)
  fix s :: "'s pb_istream" and rest beyond
  assume s: "content (is_state s) = ws @ rest @ beyond" "is_bytes_left s = length ws + length rest"
  show "\<exists>st. pb_read r (length ws) s = (Some ws, s\<lparr>is_state := st, is_bytes_left := length rest\<rparr>)
    \<and> content st = rest @ beyond"
  proof (cases "ws = []")
    case False
    from delivers [of "length ws" "is_state s"] s(1) obtain st where
      "rd_callback r (is_state s) (length ws) = (Some ws, st)" "content st = rest @ beyond"
      by auto
    with False s(2) show ?thesis by (auto simp: pb_read_def)
  qed (use s in \<open>auto simp: pb_read_def intro!: exI [of _ "is_state s"]\<close>)
qed

lemma reads_byte: "pb_reads content (pb_readbyte r) b [b]"
proof (rule pb_readsI)
  fix s :: "'s pb_istream" and rest beyond
  assume s: "content (is_state s) = [b] @ rest @ beyond" "is_bytes_left s = length [b] + length rest"
  from delivers [of 1 "is_state s"] s(1) obtain st where
    "rd_callback r (is_state s) 1 = (Some [b], st)" "content st = rest @ beyond"
    by auto
  with s(2) show "\<exists>st. pb_readbyte r s = (Some b, s\<lparr>is_state := st, is_bytes_left := length rest\<rparr>)
    \<and> content st = rest @ beyond"
    by (auto simp: pb_readbyte_def)
qed

lemma reads_chunks: "length ws = n \<Longrightarrow> \<exists>v. pb_reads content (skip_chunks r n) v ws"
proof (induction n arbitrary: ws rule: less_induct)
  case (less n)
  show ?case
  proof (cases "n > 16")
    case True
    have l: "length (drop 16 ws) = n - 16" "n - 16 < n" using less.prems True by auto
    from less.IH [OF l(2,1)] obtain v where v: "pb_reads content (skip_chunks r (n - 16)) v (drop 16 ws)" by blast
    have "pb_reads content (pb_read r 16) (take 16 ws) (take 16 ws)"
      using reads_bytes [of "take 16 ws"] less.prems True by simp
    from pb_reads_bind [OF this v]
    have "pb_reads content (\<lambda>s. pb_bind (pb_read r 16 s) (\<lambda>_. skip_chunks r (n - 16))) v ws" by simp
    moreover have "skip_chunks r n = (\<lambda>s. pb_bind (pb_read r 16 s) (\<lambda>_. skip_chunks r (n - 16)))"
      by (rule ext) (subst skip_chunks.simps, simp add: True)
    ultimately show ?thesis by auto
  next
    case False
    then have "skip_chunks r n = pb_read r n"
      by (intro ext) (subst skip_chunks.simps, simp)
    then show ?thesis using reads_bytes [of ws] less.prems by auto
  qed
qed

lemma reads_null:
  assumes "length ws = n"
  shows "pb_reads content (pb_read_null r n) () ws"
proof (cases "n = 0")
  case True
  then have "pb_read_null r n = Pair (Some ())" by (intro ext) (simp add: pb_read_null_def)
  then show ?thesis using pb_reads_return assms True by simp
next
  case False
  obtain f and v :: "u8 list" where f: "pb_reads content f v ws" "pb_read_null r n = (\<lambda>s. pb_bind (f s) (\<lambda>_. Pair (Some ())))"
  proof (cases "rd_is_buf_read r")
    case True
    then show ?thesis
      using that [of "pb_read r n" ws] reads_bytes [of ws] False assms by (auto simp: pb_read_null_def fun_eq_iff)
  next
    case F: False
    obtain v where "pb_reads content (skip_chunks r n) v ws" using reads_chunks assms by blast
    then show ?thesis
      using that [of "skip_chunks r n"] F False by (auto simp: pb_read_null_def fun_eq_iff)
  qed
  then show ?thesis using pb_reads_bind [OF f(1), of "\<lambda>_. Pair (Some ())" "()" "[]"] pb_reads_return [of content "()"] by simp
qed

text \<open>Reading one byte and going on from it.\<close>

lemma reads_byte_then:
  assumes g: "pb_reads content (g b) v vs"
    and f: "\<And>s. f s = (case pb_readbyte r s of (None, s) \<Rightarrow> (None, s) | (Some b, s) \<Rightarrow> g b s)"
  shows "pb_reads content f v (b # vs)"
proof -
  have "f = (\<lambda>s. pb_bind (pb_readbyte r s) g)"
    by (rule ext) (auto simp: f pb_bind_def split: prod.splits option.splits)
  then show ?thesis using pb_reads_bind [OF reads_byte [of b], of g v vs] g by simp
qed

lemma reads_varint_loop:
  "varint_form ws \<Longrightarrow> k + length ws \<le> 10 \<Longrightarrow>
     pb_reads content (varint_loop r result (7 * k))
       (result OR push_bit (7 * k) (of_nat (varint_value ws))) ws"
proof (induction ws arbitrary: k result)
  case (Cons b bs)
  let ?result = "result OR push_bit (7 * k) (ucast (b AND 0x7f)) :: u64"
  have k: "\<not> 64 \<le> 7 * k" "bitpos_next (7 * k) = 7 * Suc k" using Cons.prems by (auto simp: bitpos_next_def)
  have v: "result OR push_bit (7 * k) (of_nat (varint_value (b # bs)))
      = ?result OR push_bit (7 * Suc k) (of_nat (varint_value bs))"
    using varint_step [of result "7 * k" b bs] by (simp add: add.commute)
  have "pb_reads content (\<lambda>s. if b AND 0x80 \<noteq> 0 then varint_loop r ?result (7 * Suc k) s else (Some ?result, s))
      (?result OR push_bit (7 * Suc k) (of_nat (varint_value bs))) bs"
  proof (cases "bs = []")
    case True
    then show ?thesis using Cons.prems pb_reads_return [of content ?result] by (simp add: octet_hi_iff)
  next
    case False
    then show ?thesis using Cons.IH [of "Suc k" ?result] Cons.prems by (simp add: octet_hi_iff)
  qed
  then show ?case
    unfolding v
    by (rule reads_byte_then [where g = "\<lambda>b s. if b AND 0x80 \<noteq> 0
          then varint_loop r (result OR push_bit (7 * k) (ucast (b AND 0x7f))) (7 * Suc k) s
          else (Some (result OR push_bit (7 * k) (ucast (b AND 0x7f))), s)"])
      (subst varint_loop.simps, simp add: k Let_def split: prod.splits option.splits)
qed simp

lemma reads_varint:
  "varint_form ws \<Longrightarrow> length ws \<le> 10 \<Longrightarrow>
     pb_reads content (pb_decode_varint r) (of_nat (varint_value ws)) ws"
  using reads_varint_loop [of ws 0 0] by (simp add: pb_decode_varint_def [abs_def])

lemma reads_varint32_loop:
  "varint_form ws \<Longrightarrow> k + length ws \<le> 5 \<Longrightarrow> 128 ^ k * varint_value ws < 2 ^ 32 \<Longrightarrow>
     pb_reads content (varint32_loop r result (7 * k))
       (result OR push_bit (7 * k) (of_nat (varint_value ws))) ws"
proof (induction ws arbitrary: k result)
  case (Cons b bs)
  let ?result = "result OR push_bit (7 * k) (ucast (b AND 0x7f)) :: u32"
  have k: "\<not> 32 \<le> 7 * k" "bitpos_next (7 * k) = 7 * Suc k" "7 * Suc k = 35 \<longleftrightarrow> k = 4"
    using Cons.prems by (auto simp: bitpos_next_def)
  have v: "result OR push_bit (7 * k) (of_nat (varint_value (b # bs)))
      = ?result OR push_bit (7 * Suc k) (of_nat (varint_value bs))"
    using varint_step [of result "7 * k" b bs] by (simp add: add.commute)
  define g where "g = (\<lambda>(b :: u8) s. let result = result OR push_bit (7 * k) (ucast (b AND 0x7f))
    in if b AND 0x80 \<noteq> 0 then varint32_loop r result (7 * Suc k) s
       else if k = 4 \<and> b AND 0x70 \<noteq> 0 then PB_RETURN_ERROR ''varint overflow'' s else (Some result, s))"
  have "pb_reads content (g b) (?result OR push_bit (7 * Suc k) (of_nat (varint_value bs))) bs"
  proof (cases "bs = []")
    case True
    have top: "b AND 0x70 = 0" if "k = 4"
    proof -
      have "unat b < 16" using Cons.prems True that by simp
      then have "b AND 0x0f = b"
        using unat_and_mask [of "0x0f" 4 b] by (simp add: mask_eq_exp_minus_1 word_unat_eq_iff)
      then have "b AND 0x70 = b AND (0x0f AND 0x70)" by (metis and.assoc)
      then show ?thesis by simp
    qed
    show ?thesis
      using True Cons.prems pb_reads_return [of content ?result] top
      by (cases "k = 4") (simp_all add: g_def octet_hi_iff)
  next
    case False
    then have "128 ^ Suc k * varint_value bs \<le> 128 ^ k * varint_value (b # bs)" by simp
    then have lt: "128 ^ Suc k * varint_value bs < 2 ^ 32" using Cons.prems(3) by (rule le_less_trans)
    show ?thesis using Cons.IH [OF _ _ lt, of ?result] Cons.prems False by (simp add: g_def octet_hi_iff)
  qed
  then show ?case
    unfolding v
    by (rule reads_byte_then)
      (subst varint32_loop.simps, simp add: g_def k Let_def split: prod.splits option.splits)
qed simp

text \<open>A varint of a 32-bit value is read by the 32-bit reader, which reports no end of stream.\<close>

lemma reads_varint32_eof:
  assumes "n < 2 ^ 32"
  shows "pb_reads_quietly content (pb_decode_varint32_eof r) (of_nat n) (varint_octets n)"
proof -
  have "varint_octets n \<noteq> []" by (subst varint_octets.simps) simp
  then obtain b bs where ws: "varint_octets n = b # bs" by (cases "varint_octets n") auto
  have form: "varint_form (b # bs)" and val: "varint_value (b # bs) = n"
    unfolding ws [symmetric] by simp_all
  have len: "length (b # bs) \<le> 5" unfolding ws [symmetric] by (rule length_varint_octets) (use assms in simp_all)
  have quiet: "\<not> snd (pb_decode_varint32_eof r s)"
    if a: "content (is_state s) = (b # bs) @ rest @ beyond" "is_bytes_left s = length (b # bs) + length rest"
    for s :: "'s pb_istream" and rest beyond
  proof -
    obtain s' where "pb_readbyte r s = (Some b, s')"
      by (rule pb_readsD [OF reads_byte [of b], of s "bs @ rest" beyond]) (use a in auto)
    then show ?thesis by (simp add: pb_decode_varint32_eof_def)
  qed
  have rest: "pb_reads content (if b AND 0x80 = 0 then Pair (Some (ucast b)) else varint32_loop r (ucast (b AND 0x7f)) 7)
      (of_nat n) bs"
  proof (cases "bs = []")
    case True
    then have "(of_nat n :: u32) = ucast b" using form val by auto
    with True form show ?thesis by (simp add: octet_hi_iff pb_reads_return)
  next
    case False
    then have "128 ^ 1 * varint_value bs < 2 ^ 32" using val assms by simp
    from reads_varint32_loop [OF _ _ this, of "ucast (b AND 0x7f)"] False form len val
    have "pb_reads content (varint32_loop r (ucast (b AND 0x7f)) 7)
        (ucast (b AND 0x7f) OR push_bit 7 (of_nat (varint_value bs))) bs" by simp
    also have "ucast (b AND 0x7f) OR push_bit 7 (of_nat (varint_value bs)) = (of_nat n :: u32)"
      using val by (subst septet_word) (simp_all del: of_nat_add of_nat_mult)
    finally show ?thesis using False form by (simp add: octet_hi_iff)
  qed
  have "pb_reads content (\<lambda>s. fst (pb_decode_varint32_eof r s)) (of_nat n) (b # bs)"
    by (rule reads_byte_then [where g = "\<lambda>b. if b AND 0x80 = 0 then Pair (Some (ucast b))
        else varint32_loop r (ucast (b AND 0x7f)) 7", OF rest])
      (auto simp: pb_decode_varint32_eof_def split: prod.splits option.splits)
  with quiet show ?thesis by (auto simp: pb_reads_quietly_def ws)
qed

lemma reads_varint32:
  "n < 2 ^ 32 \<Longrightarrow> pb_reads content (pb_decode_varint32 r) (of_nat n) (varint_octets n)"
  using reads_varint32_eof by (simp add: pb_reads_quietly_def pb_decode_varint32_def [abs_def])

lemma reads_skip_varint: "varint_form ws \<Longrightarrow> pb_reads content (pb_skip_varint r) () ws"
proof (induction ws)
  case (Cons b bs)
  have "pb_reads content (if hd [b] AND 0x80 \<noteq> 0 then pb_skip_varint r else Pair (Some ())) () bs"
    using Cons pb_reads_return [of content "()"] by (auto simp: octet_hi_iff split: if_splits)
  from pb_reads_bind [OF reads_bytes [of "[b]"],
      of "\<lambda>bytes. if hd bytes AND 0x80 \<noteq> 0 then pb_skip_varint r else Pair (Some ())", OF this]
  have "pb_reads content (\<lambda>s. pb_bind (pb_read r 1 s)
      (\<lambda>bytes. if hd bytes AND 0x80 \<noteq> 0 then pb_skip_varint r else Pair (Some ()))) () (b # bs)" by simp
  moreover have "pb_skip_varint r = (\<lambda>s. pb_bind (pb_read r 1 s)
      (\<lambda>bytes. if hd bytes AND 0x80 \<noteq> 0 then pb_skip_varint r else Pair (Some ())))"
    by (rule ext) (subst pb_skip_varint.simps, auto simp: pb_bind_def split: prod.splits option.splits)
  ultimately show ?case by simp
qed simp

lemma reads_string_skip:
  "length body < 2 ^ 32 \<Longrightarrow> pb_reads content (pb_skip_string r) () (varint_octets (length body) @ body)"
  unfolding pb_skip_string_def [abs_def]
  by (rule pb_reads_bind [OF reads_varint32]) (auto intro!: reads_null simp: unat_of_nat_id)

lemma reads_fixed32: "pb_reads content (pb_decode_fixed32 r) v (le_bytes 4 (unat v))"
proof -
  obtain b0 b1 b2 b3 where b: "le_bytes 4 (unat v) = [b0, b1, b2, b3]"
    using list_of_4 [OF length_le_bytes] by blast
  have v: "of_nat (le_nat [b0, b1, b2, b3]) = v"
    using unsigned_less [where ?'a = nat, of v] unfolding b [symmetric] le_nat_le_bytes by simp
  have "pb_reads content (pb_read r 4) [b0, b1, b2, b3] [b0, b1, b2, b3]"
    using reads_bytes [of "[b0, b1, b2, b3]"] by (simp add: numeral_eq_Suc)
  then show ?thesis
    unfolding b pb_decode_fixed32_def [abs_def]
    by (rule pb_reads_map) (use joined_fixed(1) [of b0 b1 b2 b3] v in \<open>simp del: le_nat_Cons\<close>)
qed

lemma reads_fixed64: "pb_reads content (pb_decode_fixed64 r) v (le_bytes 8 (unat v))"
proof -
  obtain b0 b1 b2 b3 b4 b5 b6 b7 where b: "le_bytes 8 (unat v) = [b0, b1, b2, b3, b4, b5, b6, b7]"
    using list_of_8 [OF length_le_bytes] by blast
  have v: "of_nat (le_nat [b0, b1, b2, b3, b4, b5, b6, b7]) = v"
    using unsigned_less [where ?'a = nat, of v] unfolding b [symmetric] le_nat_le_bytes by simp
  have "pb_reads content (pb_read r 8) [b0, b1, b2, b3, b4, b5, b6, b7] [b0, b1, b2, b3, b4, b5, b6, b7]"
    using reads_bytes [of "[b0, b1, b2, b3, b4, b5, b6, b7]"] by (simp add: numeral_eq_Suc)
  then show ?thesis
    unfolding b pb_decode_fixed64_def [abs_def]
    by (rule pb_reads_map) (use joined_fixed(2) [of b0 b1 b2 b3 b4 b5 b6 b7] v in \<open>simp del: le_nat_Cons\<close>)
qed

lemma reads_tag:
  assumes "field < 2 ^ 29" "wt < 8" "0 < field * 8 + wt"
  shows "pb_reads_quietly content (pb_decode_tag r) (wt, of_nat field) (varint_octets (field * 8 + wt))"
proof -
  let ?t = "of_nat (field * 8 + wt) :: u32"
  have lt: "field * 8 + wt < 2 ^ 32" using assms by simp
  then have u: "unat ?t = field * 8 + wt" by (intro unat_of_nat_id) simp
  then have nz: "?t \<noteq> 0" using assms(3) by auto
  have "unat (?t AND 7) = wt" using unat_and_mask [of 7 3 ?t] assms(2) u by (simp add: mask_eq_exp_minus_1)
  moreover have "drop_bit 3 ?t = of_nat field"
  proof (rule iffD2 [OF word_unat_eq_iff])
    have "(field * 8 + wt) div 8 = field" using assms(2) by simp
    then show "unat (drop_bit 3 ?t) = unat (of_nat field :: u32)"
      using assms(1) by (simp add: unat_drop_bit_div u unat_of_nat_id del: of_nat_add of_nat_mult)
  qed
  ultimately have tag: "pb_decode_tag r s = ((Some (wt, of_nat field), s'), eof)"
    if "pb_decode_varint32_eof r s = ((Some ?t, s'), eof)" for s s' eof
    using that nz by (simp add: pb_decode_tag_def del: of_nat_add of_nat_mult)
  show ?thesis
    unfolding pb_reads_quietly_def
  proof (intro conjI pb_readsI allI impI)
    fix s :: "'s pb_istream" and rest beyond
    assume s: "content (is_state s) = varint_octets (field * 8 + wt) @ rest @ beyond"
      "is_bytes_left s = length (varint_octets (field * 8 + wt)) + length rest"
    note q = reads_varint32_eof [OF lt, unfolded pb_reads_quietly_def]
    obtain st where st: "fst (pb_decode_varint32_eof r s) = (Some ?t, s\<lparr>is_state := st, is_bytes_left := length rest\<rparr>)"
      "content st = rest @ beyond"
      by (rule pb_readsD [OF conjunct1 [OF q] s])
    then show "\<exists>st. fst (pb_decode_tag r s)
        = (Some (wt, of_nat field), s\<lparr>is_state := st, is_bytes_left := length rest\<rparr>) \<and> content st = rest @ beyond"
      using tag by (metis fst_conv prod.collapse)
  next
    fix s :: "'s pb_istream" and rest beyond
    assume s: "content (is_state s) = varint_octets (field * 8 + wt) @ rest @ beyond
      \<and> is_bytes_left s = length (varint_octets (field * 8 + wt)) + length rest"
    note q = reads_varint32_eof [OF lt, unfolded pb_reads_quietly_def]
    obtain st where "fst (pb_decode_varint32_eof r s) = (Some ?t, s\<lparr>is_state := st, is_bytes_left := length rest\<rparr>)"
      by (rule pb_readsD [OF conjunct1 [OF q] conjunct1 [OF s] conjunct2 [OF s]])
    moreover have "\<not> snd (pb_decode_varint32_eof r s)" using q s by blast
    ultimately show "\<not> snd (pb_decode_tag r s)" using tag by (metis prod.collapse snd_conv)
  qed
qed

lemma varint_loop_only:
  "content (is_state s) = xs @ beyond \<Longrightarrow> is_bytes_left s = length xs \<Longrightarrow> k \<le> 10 \<Longrightarrow>
     varint_loop r result (7 * k) s = (Some v, s') \<Longrightarrow>
     \<exists>ws rest. xs = ws @ rest \<and> varint_form ws \<and> k + length ws \<le> 10"
proof (induction xs arbitrary: k result s)
  case Nil
  then show ?case
    by (subst (asm) varint_loop.simps) (simp add: pb_readbyte_def PB_RETURN_ERROR_def split: if_splits)
next
  case (Cons b bs)
  show ?case
  proof (cases "k = 10")
    case True
    with Cons.prems(4) show ?thesis by (subst (asm) varint_loop.simps) (simp add: PB_RETURN_ERROR_def)
  next
    case False
    then have k: "\<not> 64 \<le> 7 * k" "bitpos_next (7 * k) = 7 * Suc k" "Suc k \<le> 10"
      using Cons.prems(3) by (auto simp: bitpos_next_def)
    obtain st where st: "pb_readbyte r s = (Some b, s\<lparr>is_state := st, is_bytes_left := length bs\<rparr>)" "content st = bs @ beyond"
      by (rule pb_readsD [OF reads_byte [of b], of s bs beyond]) (use Cons.prems in auto)
    show ?thesis
    proof (cases "unat b < 128")
      case True
      then have "b # bs = [b] @ bs \<and> varint_form [b] \<and> k + length [b] \<le> 10" using k by simp
      then show ?thesis by blast
    next
      case hi: False
      then have "varint_loop r (result OR push_bit (7 * k) (ucast (b AND 0x7f))) (7 * Suc k)
          (s\<lparr>is_state := st, is_bytes_left := length bs\<rparr>) = (Some v, s')"
        using Cons.prems(4) k st by (subst (asm) varint_loop.simps) (simp add: Let_def octet_hi_iff)
      from Cons.IH [OF _ _ k(3) this] st obtain ws rest where
        "bs = ws @ rest" "varint_form ws" "Suc k + length ws \<le> 10" by auto
      with hi have "b # bs = (b # ws) @ rest \<and> varint_form (b # ws) \<and> k + length (b # ws) \<le> 10" by auto
      then show ?thesis by blast
    qed
  qed
qed

lemma decode_varint_iff:
  assumes "content (is_state s) = xs @ beyond" "is_bytes_left s = length xs"
  shows "(\<exists>s'. pb_decode_varint r s = (Some v, s')) \<longleftrightarrow>
    (\<exists>ws rest. xs = ws @ rest \<and> varint_form ws \<and> length ws \<le> 10 \<and> v = of_nat (varint_value ws))"
proof
  assume "\<exists>s'. pb_decode_varint r s = (Some v, s')"
  then obtain s' where d: "varint_loop r 0 0 s = (Some v, s')" by (auto simp: pb_decode_varint_def)
  with varint_loop_only [of s xs beyond 0 0 v s'] assms obtain ws rest where
    ws: "xs = ws @ rest" "varint_form ws" "length ws \<le> 10" by auto
  obtain st where "pb_decode_varint r s = (Some (of_nat (varint_value ws)), s\<lparr>is_state := st, is_bytes_left := length rest\<rparr>)"
    by (rule pb_readsD [OF reads_varint [OF ws(2,3)], of s rest beyond]) (use assms ws in auto)
  with d ws show "\<exists>ws rest. xs = ws @ rest \<and> varint_form ws \<and> length ws \<le> 10 \<and> v = of_nat (varint_value ws)"
    by (auto simp: pb_decode_varint_def)
next
  assume "\<exists>ws rest. xs = ws @ rest \<and> varint_form ws \<and> length ws \<le> 10 \<and> v = of_nat (varint_value ws)"
  then obtain ws rest where ws: "xs = ws @ rest" "varint_form ws" "length ws \<le> 10" "v = of_nat (varint_value ws)" by blast
  obtain st where "pb_decode_varint r s = (Some (of_nat (varint_value ws)), s\<lparr>is_state := st, is_bytes_left := length rest\<rparr>)"
    by (rule pb_readsD [OF reads_varint [OF ws(2,3)], of s rest beyond]) (use assms ws in auto)
  with ws(4) show "\<exists>s'. pb_decode_varint r s = (Some v, s')" by blast
qed

text \<open>Substreams: the length is taken from the parent, then the body from the substream.\<close>

lemma makes_substream:
  assumes "content (is_state s) = varint_octets (length body) @ body @ rest @ beyond"
    and "is_bytes_left s = length (varint_octets (length body) @ body @ rest)" and "length body < 2 ^ 32"
  obtains st where "pb_make_string_substream r s =
      (Some (s\<lparr>is_state := st, is_bytes_left := length body\<rparr>), s\<lparr>is_state := st, is_bytes_left := length rest\<rparr>)"
    and "content st = body @ rest @ beyond"
proof -
  obtain st where st: "pb_decode_varint32 r s
      = (Some (of_nat (length body)), s\<lparr>is_state := st, is_bytes_left := length (body @ rest)\<rparr>)"
    "content st = (body @ rest) @ beyond"
    by (rule pb_readsD [OF reads_varint32 [OF assms(3)], of s "body @ rest" beyond]) (use assms in auto)
  show ?thesis
    by (rule that [of st]) (use st assms(3) in \<open>simp_all add: pb_make_string_substream_def unat_of_nat_id\<close>)
qed

lemma closes_substream:
  assumes "content (is_state sub) = unread @ rest" "is_bytes_left sub = length unread"
  obtains st where "pb_close_string_substream r sub s = (Some (), s\<lparr>is_state := st, is_errmsg := is_errmsg sub\<rparr>)"
    and "content st = rest"
proof -
  obtain st where st: "pb_read_null r (length unread) sub = (Some (), sub\<lparr>is_state := st, is_bytes_left := 0\<rparr>)"
    "content st = rest"
    by (rule pb_readsD [OF reads_null [OF refl], of sub unread "[]" rest]) (use assms in auto)
  show ?thesis
  proof (cases "unread = []")
    case True
    then show ?thesis
      using that [of "is_state sub"] assms by (simp add: pb_close_string_substream_def)
  next
    case False
    then show ?thesis
      using that [OF _ st(2)] st(1) assms(2) by (simp add: pb_close_string_substream_def)
  qed
qed

end

interpretation buf: byte_source buf_reader "\<lambda>source. source"
  by unfold_locales (simp add: buf_reader_def buf_read_def)

text \<open>
  Without a bound on \<open>bitpos\<close> the 32-bit reader accepts varints of any length, and \<open>bitpos\<close>
  wraps to 3 after 37 octets: the next septet is joined in there.
\<close>

lemma varint32_loop_zeros:
  "varint32_loop buf_reader 0 k \<lparr>is_state = replicate n 0x80 @ ys, is_bytes_left = n + length ys, is_errmsg = e\<rparr>
    = varint32_loop buf_reader 0 ((bitpos_next ^^ n) k) \<lparr>is_state = ys, is_bytes_left = length ys, is_errmsg = e\<rparr>"
proof (induction n arbitrary: k)
  case (Suc n)
  have "varint32_loop buf_reader 0 k
        \<lparr>is_state = replicate (Suc n) 0x80 @ ys, is_bytes_left = Suc n + length ys, is_errmsg = e\<rparr>
      = varint32_loop buf_reader 0 (bitpos_next k)
        \<lparr>is_state = replicate n 0x80 @ ys, is_bytes_left = n + length ys, is_errmsg = e\<rparr>"
    by (subst varint32_loop.simps) (simp add: pb_readbyte_def buf_reader_def buf_read_def Let_def)
  then show ?case by (simp only: Suc.IH funpow.simps comp_apply funpow_swap1)
qed simp

lemma varint32_overlong:
  "pb_decode_varint32 buf_reader (pb_istream_from_buffer (replicate 37 0x80 @ [1]) 38)
     = (Some 8, \<lparr>is_state = [], is_bytes_left = 0, is_errmsg = None\<rparr>)"
proof -
  have e: "replicate 37 0x80 @ [1] = 0x80 # (replicate 36 0x80 @ [1 :: u8])"
  proof -
    have "(37 :: nat) = Suc 36" by simp
    then show ?thesis by (simp only: replicate_Suc append_Cons)
  qed
  have "bitpos_next k = (k + 7) mod 256" for k by (simp add: bitpos_next_def)
  then have "(bitpos_next ^^ n) 7 = (7 + 7 * n) mod 256" for n by (induction n) (simp_all add: mod_simps)
  then have b: "(bitpos_next ^^ 36) 7 = 3" by simp
  have l: "varint32_loop buf_reader 0 3 \<lparr>is_state = [1], is_bytes_left = length [1 :: u8], is_errmsg = None\<rparr>
      = (Some 8, \<lparr>is_state = [], is_bytes_left = 0, is_errmsg = None\<rparr>)"
    by (subst varint32_loop.simps)
      (simp add: pb_readbyte_def buf_reader_def buf_read_def bitpos_next_def)
  have f: "pb_readbyte buf_reader \<lparr>is_state = 0x80 # xs, is_bytes_left = 38, is_errmsg = None\<rparr>
      = (Some 0x80, \<lparr>is_state = xs, is_bytes_left = 36 + length [1 :: u8], is_errmsg = None\<rparr>)" for xs
    by (simp add: pb_readbyte_def buf_reader_def buf_read_def)
  show ?thesis
    unfolding pb_decode_varint32_def pb_decode_varint32_eof_def pb_istream_from_buffer_def e f
    using varint32_loop_zeros [of 7 36 "[1]" None, unfolded b l] by simp
qed

end
