(* ===== verification/PbEncode.thy ===== *)
theory PbEncode
  imports PbDecode
begin

text \<open>
  \<open>nanopb/pb_encode.c\<close>: output streams and the writers of the wire format. A stream's
  callback is a parameter: \<open>None\<close> for the \<open>NULL\<close> of a sizing stream, which only counts. A
  buffer stream's state, a pointer into the buffer, is the bytes stored before it. The result of
  a writer is the flag it returns and the stream.
\<close>

section \<open>Streams\<close>

record 's pb_ostream =
  os_state :: 's
  os_max_size :: nat
  os_bytes_written :: nat
  os_errmsg :: "string option"

type_synonym 's pb_writer = "('s \<Rightarrow> u8 list \<Rightarrow> bool \<times> 's) option"

definition os_return_error :: "string \<Rightarrow> 's pb_ostream \<Rightarrow> bool \<times> 's pb_ostream" where
  "os_return_error msg s =
     (False, s\<lparr>os_errmsg := (case os_errmsg s of Some m \<Rightarrow> Some m | None \<Rightarrow> Some msg)\<rparr>)"

definition pb_then ::
    "bool \<times> 's pb_ostream \<Rightarrow> ('s pb_ostream \<Rightarrow> bool \<times> 's pb_ostream) \<Rightarrow> bool \<times> 's pb_ostream" where
  "pb_then r f = (case r of (False, s) \<Rightarrow> (False, s) | (True, s) \<Rightarrow> f s)"

definition buf_write :: "u8 list \<Rightarrow> u8 list \<Rightarrow> bool \<times> u8 list" where
  "buf_write dest buf = (True, dest @ buf)"

definition pb_ostream_from_buffer :: "nat \<Rightarrow> u8 list pb_ostream" where
  "pb_ostream_from_buffer bufsize =
     \<lparr>os_state = [], os_max_size = bufsize, os_bytes_written = 0, os_errmsg = None\<rparr>"

text \<open>\<open>PB_OSTREAM_SIZING\<close>; \<open>null\<close> is its state \<open>NULL\<close>.\<close>

definition PB_OSTREAM_SIZING :: "'s \<Rightarrow> 's pb_ostream" where
  "PB_OSTREAM_SIZING null = \<lparr>os_state = null, os_max_size = 0, os_bytes_written = 0, os_errmsg = None\<rparr>"

definition pb_write :: "'s pb_writer \<Rightarrow> u8 list \<Rightarrow> nat \<Rightarrow> 's pb_ostream \<Rightarrow> bool \<times> 's pb_ostream" where
  "pb_write w buf count s =
     (case (if count > 0 then w else None) of
        None \<Rightarrow> (True, s\<lparr>os_bytes_written := sz (os_bytes_written s + count)\<rparr>)
      | Some callback \<Rightarrow>
          if sz (os_bytes_written s + count) > os_max_size s then os_return_error ''stream full'' s
          else case callback (os_state s) (take count buf) of
                 (False, st) \<Rightarrow> os_return_error ''io error'' (s\<lparr>os_state := st\<rparr>)
               | (True, st) \<Rightarrow>
                   (True, s\<lparr>os_state := st, os_bytes_written := sz (os_bytes_written s + count)\<rparr>))"

section \<open>Scalar values\<close>

text \<open>The loop of \<open>pb_encode_varint\<close>: the septets of \<open>value\<close>, each with its high bit set.\<close>

function varint_buffer :: "u64 \<Rightarrow> u8 list" where
  "varint_buffer v = (if v = 0 then [] else (ucast (v AND 0x7f) OR 0x80) # varint_buffer (drop_bit 7 v))"
  by pat_completeness auto
termination
proof (relation "measure unat")
  fix v :: u64
  assume "v \<noteq> 0"
  then have "0 < unat v" by (auto simp: word_unat_eq_iff)
  then show "(drop_bit 7 v, v) \<in> measure unat" by (simp only: in_measure unat_drop_bit_div) simp
qed simp

declare varint_buffer.simps [simp del]

definition pb_encode_varint :: "'s pb_writer \<Rightarrow> u64 \<Rightarrow> 's pb_ostream \<Rightarrow> bool \<times> 's pb_ostream" where
  "pb_encode_varint w v =
     (if v \<le> 0x7f then pb_write w [ucast v] 1
      else let buffer = varint_buffer v; i = length buffer;
               buffer = buffer[i - 1 := buffer ! (i - 1) AND 0x7f]
           in pb_write w buffer i)"

definition pb_encode_svarint :: "'s pb_writer \<Rightarrow> u64 \<Rightarrow> 's pb_ostream \<Rightarrow> bool \<times> 's pb_ostream" where
  "pb_encode_svarint w v =
     (let zigzagged = (if sint v < 0 then NOT (push_bit 1 v) else push_bit 1 v)
      in pb_encode_varint w zigzagged)"

definition pb_encode_fixed32 :: "'s pb_writer \<Rightarrow> u32 \<Rightarrow> 's pb_ostream \<Rightarrow> bool \<times> 's pb_ostream" where
  "pb_encode_fixed32 w v =
     pb_write w [ucast (v AND 0xff), ucast (drop_bit 8 v AND 0xff), ucast (drop_bit 16 v AND 0xff),
       ucast (drop_bit 24 v AND 0xff)] 4"

definition pb_encode_fixed64 :: "'s pb_writer \<Rightarrow> u64 \<Rightarrow> 's pb_ostream \<Rightarrow> bool \<times> 's pb_ostream" where
  "pb_encode_fixed64 w v =
     pb_write w [ucast (v AND 0xff), ucast (drop_bit 8 v AND 0xff), ucast (drop_bit 16 v AND 0xff),
       ucast (drop_bit 24 v AND 0xff), ucast (drop_bit 32 v AND 0xff), ucast (drop_bit 40 v AND 0xff),
       ucast (drop_bit 48 v AND 0xff), ucast (drop_bit 56 v AND 0xff)] 8"

section \<open>Tags, strings and submessages\<close>

definition pb_encode_tag :: "'s pb_writer \<Rightarrow> nat \<Rightarrow> u32 \<Rightarrow> 's pb_ostream \<Rightarrow> bool \<times> 's pb_ostream" where
  "pb_encode_tag w wiretype field_number =
     pb_encode_varint w (push_bit 3 (ucast field_number) OR of_nat wiretype)"

definition PB_LTYPE_BOOL :: nat where "PB_LTYPE_BOOL = 0x00"
definition PB_LTYPE_VARINT :: nat where "PB_LTYPE_VARINT = 0x01"
definition PB_LTYPE_UVARINT :: nat where "PB_LTYPE_UVARINT = 0x02"
definition PB_LTYPE_SVARINT :: nat where "PB_LTYPE_SVARINT = 0x03"
definition PB_LTYPE_FIXED32 :: nat where "PB_LTYPE_FIXED32 = 0x04"
definition PB_LTYPE_FIXED64 :: nat where "PB_LTYPE_FIXED64 = 0x05"
definition PB_LTYPE_BYTES :: nat where "PB_LTYPE_BYTES = 0x06"
definition PB_LTYPE_STRING :: nat where "PB_LTYPE_STRING = 0x07"
definition PB_LTYPE_SUBMESSAGE :: nat where "PB_LTYPE_SUBMESSAGE = 0x08"
definition PB_LTYPE_EXTENSION :: nat where "PB_LTYPE_EXTENSION = 0x09"
definition PB_LTYPE_FIXED_LENGTH_BYTES :: nat where "PB_LTYPE_FIXED_LENGTH_BYTES = 0x0A"
definition PB_LTYPE_MASK :: nat where "PB_LTYPE_MASK = 0x0F"

lemmas pb_ltype_defs = PB_LTYPE_BOOL_def PB_LTYPE_VARINT_def PB_LTYPE_UVARINT_def PB_LTYPE_SVARINT_def
  PB_LTYPE_FIXED32_def PB_LTYPE_FIXED64_def PB_LTYPE_BYTES_def PB_LTYPE_STRING_def PB_LTYPE_SUBMESSAGE_def
  PB_LTYPE_EXTENSION_def PB_LTYPE_FIXED_LENGTH_BYTES_def PB_LTYPE_MASK_def

definition PB_LTYPE :: "u8 \<Rightarrow> nat" where
  "PB_LTYPE t = unat (t AND of_nat PB_LTYPE_MASK)"

text \<open>The field's \<open>type\<close> and \<open>tag\<close> are what is used of its descriptor.\<close>

definition pb_encode_tag_for_field ::
    "'s pb_writer \<Rightarrow> u8 \<Rightarrow> u32 \<Rightarrow> 's pb_ostream \<Rightarrow> bool \<times> 's pb_ostream" where
  "pb_encode_tag_for_field w type tag s =
     (let l = PB_LTYPE type
      in if l \<in> {PB_LTYPE_BOOL, PB_LTYPE_VARINT, PB_LTYPE_UVARINT, PB_LTYPE_SVARINT}
         then pb_encode_tag w PB_WT_VARINT tag s
         else if l = PB_LTYPE_FIXED32 then pb_encode_tag w PB_WT_32BIT tag s
         else if l = PB_LTYPE_FIXED64 then pb_encode_tag w PB_WT_64BIT tag s
         else if l \<in> {PB_LTYPE_BYTES, PB_LTYPE_STRING, PB_LTYPE_SUBMESSAGE, PB_LTYPE_FIXED_LENGTH_BYTES}
         then pb_encode_tag w PB_WT_STRING tag s
         else os_return_error ''invalid field type'' s)"

definition pb_encode_string ::
    "'s pb_writer \<Rightarrow> u8 list \<Rightarrow> nat \<Rightarrow> 's pb_ostream \<Rightarrow> bool \<times> 's pb_ostream" where
  "pb_encode_string w buffer len s = pb_then (pb_encode_varint w (of_nat len) s) (pb_write w buffer len)"

text \<open>\<open>enc\<close> is \<open>pb_encode\<close> on the fields and the struct of the submessage.\<close>

definition pb_encode_submessage ::
    "'s \<Rightarrow> ('s pb_writer \<Rightarrow> 's pb_ostream \<Rightarrow> bool \<times> 's pb_ostream) \<Rightarrow> 's pb_writer
      \<Rightarrow> 's pb_ostream \<Rightarrow> bool \<times> 's pb_ostream" where
  "pb_encode_submessage null enc w s =
     (case enc None (PB_OSTREAM_SIZING null) of
        (False, sub) \<Rightarrow> (False, s\<lparr>os_errmsg := os_errmsg sub\<rparr>)
      | (True, sub) \<Rightarrow>
          (let len = os_bytes_written sub
           in pb_then (pb_encode_varint w (of_nat len) s) (\<lambda>s.
                if w = None then pb_write w [] len s
                else if sz (os_bytes_written s + len) > os_max_size s then os_return_error ''stream full'' s
                else case enc w \<lparr>os_state = os_state s, os_max_size = len, os_bytes_written = 0, os_errmsg = None\<rparr> of
                       (status, sub) \<Rightarrow>
                         (let s = s\<lparr>os_bytes_written := sz (os_bytes_written s + os_bytes_written sub),
                                    os_state := os_state sub, os_errmsg := os_errmsg sub\<rparr>
                          in if os_bytes_written sub \<noteq> len then os_return_error ''submsg size changed'' s
                             else (status, s)))))"

section \<open>The octets of a varint\<close>

lemma set_continuation:
  fixes v :: u64
  shows "ucast (v AND 0x7f) OR (0x80 :: u8) = of_nat (unat v mod 128 + 128)"
    and "(ucast (v AND 0x7f) OR (0x80 :: u8)) AND 0x7f = of_nat (unat v mod 128)"
proof -
  have u: "unat (ucast (v AND 0x7f) :: u8) = unat v mod 128"
    using unat_and_mask [of "0x7f" 7 v] by (simp add: mask_eq_exp_minus_1 unat_ucast_u8)
  then have "unat (ucast (v AND 0x7f) :: u8) < 2 ^ 7" by simp
  moreover have "(0x80 :: u8) = push_bit 7 1" by simp
  ultimately have o: "unat (ucast (v AND 0x7f) OR (0x80 :: u8)) = unat v mod 128 + 128"
    using unat_push_or [of "ucast (v AND 0x7f) :: u8" 7 1] u by (simp add: or.commute)
  have "unat v mod 128 + 128 < 256" by simp
  from unat_of_nat_u8_id [OF this] o show "ucast (v AND 0x7f) OR (0x80 :: u8) = of_nat (unat v mod 128 + 128)"
    by (simp only: word_unat_eq_iff)
  show "(ucast (v AND 0x7f) OR (0x80 :: u8)) AND 0x7f = of_nat (unat v mod 128)"
    by (rule iffD2 [OF word_unat_eq_iff]) (simp only: octet_lo o, simp add: unat_of_nat_u8)
qed

lemma varint_buffer_octets:
  "v \<noteq> 0 \<Longrightarrow> varint_buffer v \<noteq> [] \<and>
     (varint_buffer v)[length (varint_buffer v) - 1 := varint_buffer v ! (length (varint_buffer v) - 1) AND 0x7f]
       = varint_octets (unat v)"
proof (induction v rule: varint_buffer.induct)
  case (1 v)
  let ?b = "ucast (v AND 0x7f) OR (0x80 :: u8)"
  show ?case
  proof (cases "unat v < 128")
    case True
    then have "drop_bit 7 v = 0" by (simp add: word_unat_eq_iff unat_drop_bit_div)
    then have "varint_buffer v = [?b]"
      using "1.prems" by (subst varint_buffer.simps) (simp add: varint_buffer.simps [of 0])
    moreover have "?b AND 0x7f = of_nat (unat v)" using set_continuation(2) [of v] True by simp
    ultimately show ?thesis using True by (subst varint_octets.simps) simp
  next
    case False
    then have d: "drop_bit 7 v \<noteq> 0" by (simp add: word_unat_eq_iff unat_drop_bit_div div_eq_0_iff)
    have "varint_buffer v = ?b # varint_buffer (drop_bit 7 v)"
      using "1.prems" by (subst varint_buffer.simps) simp
    moreover obtain n where "length (varint_buffer (drop_bit 7 v)) = Suc n"
      using "1.IH" [OF "1.prems" d] by (cases "varint_buffer (drop_bit 7 v)") auto
    moreover have "varint_octets (unat v) = ?b # varint_octets (unat (drop_bit 7 v))"
      unfolding set_continuation(1) using False by (subst varint_octets.simps) (simp add: unat_drop_bit_div)
    ultimately show ?thesis using "1.IH" [OF "1.prems" d] by simp
  qed
qed

lemma pb_encode_varint_eq:
  "pb_encode_varint w v = pb_write w (varint_octets (unat v)) (length (varint_octets (unat v)))"
proof (cases "v \<le> 0x7f")
  case True
  then have "unat v < 128" by (simp add: word_le_nat_alt)
  then have "varint_octets (unat v) = [ucast v]" by (subst varint_octets.simps) simp
  then show ?thesis using True by (simp add: pb_encode_varint_def)
next
  case False
  then have "v \<noteq> 0" by auto
  note o = varint_buffer_octets [OF this]
  then have "length (varint_buffer v) = length (varint_octets (unat v))" by (metis length_list_update)
  with False o show ?thesis by (simp add: pb_encode_varint_def Let_def)
qed

lemma le_bytes_map: "le_bytes k n = map (\<lambda>i. of_nat (n div 256 ^ i)) [0..<k]"
proof (induction k arbitrary: n)
  case (Suc k)
  have "map (\<lambda>i. of_nat (n div 256 ^ i) :: u8) [0..<Suc k]
      = of_nat n # map (\<lambda>i. of_nat (n div 256 ^ i)) (map Suc [0..<k])"
    unfolding map_Suc_upt by (simp add: upt_conv_Cons del: upt_Suc)
  also have "\<dots> = of_nat n # map (\<lambda>i. of_nat (n div 256 div 256 ^ i)) [0..<k]"
    by (simp add: div_mult2_eq)
  finally show ?case by (simp add: Suc.IH del: upt_Suc)
qed simp

lemma fixed_octets:
  "[ucast (v AND 0xff), ucast (drop_bit 8 v AND 0xff), ucast (drop_bit 16 v AND 0xff), ucast (drop_bit 24 v AND 0xff)]
    = le_bytes 4 (unat (v :: u32))"
  "[ucast (x AND 0xff), ucast (drop_bit 8 x AND 0xff), ucast (drop_bit 16 x AND 0xff), ucast (drop_bit 24 x AND 0xff),
    ucast (drop_bit 32 x AND 0xff), ucast (drop_bit 40 x AND 0xff), ucast (drop_bit 48 x AND 0xff),
    ucast (drop_bit 56 x AND 0xff)] = le_bytes 8 (unat (x :: u64))"
proof -
  have b: "ucast (drop_bit k y AND 0xff) = (of_nat (unat y div 2 ^ k) :: u8)" for k and y :: "'a::len word"
    by (rule iffD2 [OF word_unat_eq_iff])
      (simp add: unat_ucast_u8 unat_of_nat_u8 unat_and_mask [of "0xff" 8] mask_eq_exp_minus_1 unat_drop_bit_div)
  have l: "le_bytes 4 n = [of_nat n, of_nat (n div 2 ^ 8), of_nat (n div 2 ^ 16), of_nat (n div 2 ^ 24)]"
    "le_bytes 8 n = [of_nat n, of_nat (n div 2 ^ 8), of_nat (n div 2 ^ 16), of_nat (n div 2 ^ 24),
      of_nat (n div 2 ^ 32), of_nat (n div 2 ^ 40), of_nat (n div 2 ^ 48), of_nat (n div 2 ^ 56)]" for n
    by (simp_all add: le_bytes_map upt_conv_Cons)
  show "[ucast (v AND 0xff), ucast (drop_bit 8 v AND 0xff), ucast (drop_bit 16 v AND 0xff), ucast (drop_bit 24 v AND 0xff)]
    = le_bytes 4 (unat (v :: u32))"
    unfolding l using b [of 0 v] b [of 8 v] b [of 16 v] b [of 24 v] by simp
  show "[ucast (x AND 0xff), ucast (drop_bit 8 x AND 0xff), ucast (drop_bit 16 x AND 0xff), ucast (drop_bit 24 x AND 0xff),
    ucast (drop_bit 32 x AND 0xff), ucast (drop_bit 40 x AND 0xff), ucast (drop_bit 48 x AND 0xff),
    ucast (drop_bit 56 x AND 0xff)] = le_bytes 8 (unat (x :: u64))"
    unfolding l using b [of 0 x] b [of 8 x] b [of 16 x] b [of 24 x] b [of 32 x] b [of 40 x] b [of 48 x] b [of 56 x]
    by simp
qed

section \<open>What a writer puts into a stream\<close>

text \<open>
  \<open>written\<close> maps a callback's state to the bytes it has taken. On a stream with a callback a
  writer appends \<open>ws\<close> if they fit below \<open>max_size\<close> and fails if they do not; on a sizing
  stream it counts them.
\<close>

definition pb_emits ::
    "('s \<Rightarrow> u8 list) \<Rightarrow> 's pb_writer \<Rightarrow> ('s pb_ostream \<Rightarrow> bool \<times> 's pb_ostream) \<Rightarrow> u8 list \<Rightarrow> bool" where
  "pb_emits written w f ws \<longleftrightarrow>
     (\<forall>s. os_bytes_written s \<le> os_max_size s \<and> os_max_size s + length ws < 2 ^ 64 \<longrightarrow>
        (if os_bytes_written s + length ws \<le> os_max_size s
         then \<exists>st e. f s = (True, s\<lparr>os_state := st, os_bytes_written := os_bytes_written s + length ws, os_errmsg := e\<rparr>)
           \<and> written st = written (os_state s) @ ws
         else \<not> fst (f s)))"

definition pb_counts :: "('s pb_ostream \<Rightarrow> bool \<times> 's pb_ostream) \<Rightarrow> nat \<Rightarrow> bool" where
  "pb_counts f n \<longleftrightarrow>
     (\<forall>s. os_bytes_written s + n < 2 ^ 64 \<longrightarrow> f s = (True, s\<lparr>os_bytes_written := os_bytes_written s + n\<rparr>))"

lemma pb_emits_then:
  assumes f: "pb_emits written w f ws" and g: "pb_emits written w g vs"
  shows "pb_emits written w (\<lambda>s. pb_then (f s) g) (ws @ vs)"
  unfolding pb_emits_def
proof (intro allI impI)
  fix s :: "'a pb_ostream"
  assume s: "os_bytes_written s \<le> os_max_size s \<and> os_max_size s + length (ws @ vs) < 2 ^ 64"
  show "if os_bytes_written s + length (ws @ vs) \<le> os_max_size s
    then \<exists>st e. pb_then (f s) g
        = (True, s\<lparr>os_state := st, os_bytes_written := os_bytes_written s + length (ws @ vs), os_errmsg := e\<rparr>)
      \<and> written st = written (os_state s) @ ws @ vs
    else \<not> fst (pb_then (f s) g)"
  proof (cases "os_bytes_written s + length ws \<le> os_max_size s")
    case True
    with f s obtain st e where 1: "f s
        = (True, s\<lparr>os_state := st, os_bytes_written := os_bytes_written s + length ws, os_errmsg := e\<rparr>)"
      "written st = written (os_state s) @ ws"
      unfolding pb_emits_def by fastforce
    let ?s = "s\<lparr>os_state := st, os_bytes_written := os_bytes_written s + length ws, os_errmsg := e\<rparr>"
    have "os_bytes_written ?s \<le> os_max_size ?s \<and> os_max_size ?s + length vs < 2 ^ 64" using True s by simp
    with g have "if os_bytes_written ?s + length vs \<le> os_max_size ?s
      then \<exists>st e. g ?s = (True, ?s\<lparr>os_state := st, os_bytes_written := os_bytes_written ?s + length vs, os_errmsg := e\<rparr>)
        \<and> written st = written (os_state ?s) @ vs
      else \<not> fst (g ?s)"
      unfolding pb_emits_def by blast
    with 1 show ?thesis by (auto simp: pb_then_def add.assoc split: if_splits)
  next
    case False
    with f s have "\<not> fst (f s)" unfolding pb_emits_def by fastforce
    with False show ?thesis by (auto simp: pb_then_def split: prod.splits)
  qed
qed

lemma pb_emits_nothing: "pb_emits written w (Pair True) []"
  unfolding pb_emits_def
proof (intro allI impI)
  fix s :: "'a pb_ostream"
  have "Pair True s = (True, s\<lparr>os_state := os_state s, os_bytes_written := os_bytes_written s + length [],
      os_errmsg := os_errmsg s\<rparr>) \<and> written (os_state s) = written (os_state s) @ []" by simp
  moreover assume "os_bytes_written s \<le> os_max_size s \<and> os_max_size s + length [] < 2 ^ 64"
  ultimately show "if os_bytes_written s + length [] \<le> os_max_size s
    then \<exists>st e. Pair True s
        = (True, s\<lparr>os_state := st, os_bytes_written := os_bytes_written s + length [], os_errmsg := e\<rparr>)
      \<and> written st = written (os_state s) @ []
    else \<not> fst (Pair True s)"
    by (metis add.right_neutral list.size(3))
qed

lemma pb_counts_then: "pb_counts f n \<Longrightarrow> pb_counts g m \<Longrightarrow> pb_counts (\<lambda>s. pb_then (f s) g) (n + m)"
  by (simp add: pb_counts_def pb_then_def add.assoc)

lemma pb_counts_write: "pb_counts (pb_write None bs n) n"
  by (simp add: pb_counts_def pb_write_def)

text \<open>What the writers rely on: the callback takes all it is given.\<close>

locale byte_sink =
  fixes w :: "'s \<Rightarrow> u8 list \<Rightarrow> bool \<times> 's" and written :: "'s \<Rightarrow> u8 list"
  assumes takes: "\<exists>st'. w st bs = (True, st') \<and> written st' = written st @ bs"
begin

lemma emits_bytes: "pb_emits written (Some w) (pb_write (Some w) ws (length ws)) ws"
  unfolding pb_emits_def
proof (intro allI impI)
  fix s :: "'s pb_ostream"
  assume s: "os_bytes_written s \<le> os_max_size s \<and> os_max_size s + length ws < 2 ^ 64"
  obtain st where st: "w (os_state s) ws = (True, st)" "written st = written (os_state s) @ ws" using takes by blast
  have z: "sz (os_bytes_written s + length ws) = os_bytes_written s + length ws" using s by simp
  show "if os_bytes_written s + length ws \<le> os_max_size s
    then \<exists>st e. pb_write (Some w) ws (length ws) s
        = (True, s\<lparr>os_state := st, os_bytes_written := os_bytes_written s + length ws, os_errmsg := e\<rparr>)
      \<and> written st = written (os_state s) @ ws
    else \<not> fst (pb_write (Some w) ws (length ws) s)"
  proof (cases "ws = []")
    case True
    then show ?thesis using s
      by (auto simp: pb_write_def intro!: exI [of _ "os_state s"] exI [of _ "os_errmsg s"])
  next
    case False
    then show ?thesis using st z
      by (auto simp: pb_write_def os_return_error_def intro!: exI [of _ st] exI [of _ "os_errmsg s"])
  qed
qed

lemma emits_varint: "pb_emits written (Some w) (pb_encode_varint (Some w) v) (varint_octets (unat v))"
  unfolding pb_encode_varint_eq by (rule emits_bytes)

end

interpretation buf_out: byte_sink buf_write "\<lambda>dest. dest"
  by unfold_locales (simp add: buf_write_def)

end
