(* ===== verification/PbMessage.thy ===== *)
theory PbMessage
  imports PbEncode
begin

text \<open>
  The nanopb writers and readers at work: messages as trees of fields, written through
  \<open>pb_encode.c\<close>'s functions in the order a message descriptor lists them and read back through
  those of \<open>pb_decode.c\<close>, nested messages through substreams.
\<close>

section \<open>Messages\<close>

datatype pb_item =
    Varint nat u64
  | SVarint nat u64
  | Fixed32 nat u32
  | Fixed64 nat u64
  | Bytes nat "u8 list"
  | Message nat "pb_item list"

definition zigzag :: "u64 \<Rightarrow> u64" where
  "zigzag v = (if sint v < 0 then NOT (push_bit 1 v) else push_bit 1 v)"

definition tag_octets :: "nat \<Rightarrow> nat \<Rightarrow> u8 list" where
  "tag_octets t wt = varint_octets (t * 8 + wt)"

definition counted :: "u8 list \<Rightarrow> u8 list" where
  "counted body = varint_octets (length body) @ body"

fun item_octets :: "pb_item \<Rightarrow> u8 list" and items_octets :: "pb_item list \<Rightarrow> u8 list" where
  "item_octets (Varint t v) = tag_octets t PB_WT_VARINT @ varint_octets (unat v)"
| "item_octets (SVarint t v) = tag_octets t PB_WT_VARINT @ varint_octets (unat (zigzag v))"
| "item_octets (Fixed32 t x) = tag_octets t PB_WT_32BIT @ le_bytes 4 (unat x)"
| "item_octets (Fixed64 t v) = tag_octets t PB_WT_64BIT @ le_bytes 8 (unat v)"
| "item_octets (Bytes t bs) = tag_octets t PB_WT_STRING @ counted bs"
| "item_octets (Message t its) = tag_octets t PB_WT_STRING @ counted (items_octets its)"
| "items_octets [] = []"
| "items_octets (it # its) = item_octets it @ items_octets its"

text \<open>Field numbers are those of protocol buffers; lengths are below 2^32, as the readers require.\<close>

definition field_number :: "nat \<Rightarrow> bool" where
  "field_number t \<longleftrightarrow> 0 < t \<and> t < 2 ^ 29"

fun c_field :: "pb_item \<Rightarrow> bool" where
  "c_field (Varint t v) = field_number t"
| "c_field (SVarint t v) = field_number t"
| "c_field (Fixed32 t x) = field_number t"
| "c_field (Fixed64 t v) = field_number t"
| "c_field (Bytes t bs) = (field_number t \<and> length bs < 2 ^ 32)"
| "c_field (Message t its) = (field_number t \<and> list_all c_field its \<and> length (items_octets its) < 2 ^ 32)"

section \<open>Writing\<close>

fun pb_put :: "'s \<Rightarrow> pb_item \<Rightarrow> 's pb_writer \<Rightarrow> 's pb_ostream \<Rightarrow> bool \<times> 's pb_ostream"
  and pb_puts :: "'s \<Rightarrow> pb_item list \<Rightarrow> 's pb_writer \<Rightarrow> 's pb_ostream \<Rightarrow> bool \<times> 's pb_ostream" where
  "pb_put null (Varint t v) w s = pb_then (pb_encode_tag w PB_WT_VARINT (of_nat t) s) (pb_encode_varint w v)"
| "pb_put null (SVarint t v) w s = pb_then (pb_encode_tag w PB_WT_VARINT (of_nat t) s) (pb_encode_svarint w v)"
| "pb_put null (Fixed32 t x) w s = pb_then (pb_encode_tag w PB_WT_32BIT (of_nat t) s) (pb_encode_fixed32 w x)"
| "pb_put null (Fixed64 t v) w s = pb_then (pb_encode_tag w PB_WT_64BIT (of_nat t) s) (pb_encode_fixed64 w v)"
| "pb_put null (Bytes t bs) w s =
     pb_then (pb_encode_tag w PB_WT_STRING (of_nat t) s) (pb_encode_string w bs (length bs))"
| "pb_put null (Message t its) w s =
     pb_then (pb_encode_tag w PB_WT_STRING (of_nat t) s) (pb_encode_submessage null (\<lambda>w s. pb_puts null its w s) w)"
| "pb_puts null [] w s = (True, s)"
| "pb_puts null (it # its) w s = pb_then (pb_put null it w s) (\<lambda>s. pb_puts null its w s)"

lemma tag_word:
  assumes "t < 2 ^ 29" "wt < 8"
  shows "unat (push_bit 3 (ucast (of_nat t :: u32)) OR of_nat wt :: u64) = t * 8 + wt"
proof -
  have "unat (of_nat t :: u32) = t" using assms(1) by (intro unat_of_nat_id) simp
  then have t: "unat (ucast (of_nat t :: u32) :: u64) = t" by (simp add: unat_ucast_up)
  have wt: "unat (of_nat wt :: u64) = wt" using assms(2) by (intro unat_of_nat_id) simp
  show ?thesis using assms t wt by (subst unat_push_or) simp_all
qed

lemma pb_encode_tag_eq:
  assumes "t < 2 ^ 29" "wt < 8"
  shows "pb_encode_tag w wt (of_nat t) = pb_write w (tag_octets t wt) (length (tag_octets t wt))"
  unfolding pb_encode_tag_def pb_encode_varint_eq tag_word [OF assms] tag_octets_def ..

lemma length_le_octets_fixed:
  "pb_encode_fixed32 w x = pb_write w (le_bytes 4 (unat x)) (length (le_bytes 4 (unat x)))"
  "pb_encode_fixed64 w v = pb_write w (le_bytes 8 (unat v)) (length (le_bytes 8 (unat v)))"
  by (simp_all add: pb_encode_fixed32_def pb_encode_fixed64_def fixed_octets)

lemma pb_encode_svarint_eq:
  "pb_encode_svarint w v
    = pb_write w (varint_octets (unat (zigzag v))) (length (varint_octets (unat (zigzag v))))"
  by (simp add: pb_encode_svarint_def zigzag_def pb_encode_varint_eq Let_def)

lemmas pb_encode_eqs = pb_encode_varint_eq pb_encode_svarint_eq length_le_octets_fixed

lemma wire_types_small: "PB_WT_VARINT < 8" "PB_WT_64BIT < 8" "PB_WT_STRING < 8" "PB_WT_32BIT < 8"
  by (simp_all add: pb_wt_defs)

text \<open>A tag and a value.\<close>

lemma counts_field:
  assumes "field_number t" "wt < 8" "pb_counts g m"
  shows "pb_counts (\<lambda>s. pb_then (pb_encode_tag None wt (of_nat t) s) g) (length (tag_octets t wt) + m)"
proof -
  have t: "t < 2 ^ 29" using assms(1) by (simp add: field_number_def)
  show ?thesis unfolding pb_encode_tag_eq [OF t assms(2)] by (rule pb_counts_then [OF pb_counts_write assms(3)])
qed

lemma counts_submessage:
  assumes "pb_counts (enc None) (length body)" "length body < 2 ^ 32"
  shows "pb_counts (pb_encode_submessage null enc None) (length (counted body))"
proof -
  have e: "enc None (PB_OSTREAM_SIZING null) = (True, (PB_OSTREAM_SIZING null)\<lparr>os_bytes_written := length body\<rparr>)"
    using assms by (simp add: pb_counts_def PB_OSTREAM_SIZING_def)
  have u: "unat (of_nat (length body) :: u64) = length body" using assms(2) by (intro unat_of_nat_id) simp
  have "pb_encode_submessage null enc None
      = (\<lambda>s. pb_then (pb_encode_varint None (of_nat (length body)) s) (pb_write None [] (length body)))"
    by (rule ext) (simp add: pb_encode_submessage_def e Let_def cong: if_cong)
  then show ?thesis
    using pb_counts_then [OF pb_counts_write pb_counts_write [of "[]"]]
    by (simp add: pb_encode_varint_eq u counted_def)
qed

lemma pb_encode_string_eq:
  "length body < 2 ^ 32 \<Longrightarrow> pb_encode_string w body (length body) =
     (\<lambda>s. pb_then (pb_write w (varint_octets (length body)) (length (varint_octets (length body))) s)
        (pb_write w body (length body)))"
  by (rule ext) (simp add: pb_encode_string_def pb_encode_varint_eq unat_of_nat_id)

lemma counts_string:
  "length body < 2 ^ 32 \<Longrightarrow> pb_counts (pb_encode_string None body (length body)) (length (counted body))"
  using pb_counts_then [OF pb_counts_write pb_counts_write] by (simp add: pb_encode_string_eq counted_def)

lemma counts_items:
  "c_field it \<Longrightarrow> pb_counts (pb_put null it None) (length (item_octets it))"
  "list_all c_field its \<Longrightarrow> pb_counts (pb_puts null its None) (length (items_octets its))"
proof (induction it and its rule: item_octets_items_octets.induct)
  case (1 t v)
  then show ?case
    using counts_field [OF _ wire_types_small(1) pb_counts_write, of t] by (simp add: pb_encode_eqs [abs_def])
next
  case (2 t v)
  then show ?case
    using counts_field [OF _ wire_types_small(1) pb_counts_write, of t] by (simp add: pb_encode_eqs)
next
  case (3 t x)
  then show ?case
    using counts_field [OF _ wire_types_small(4) pb_counts_write, of t] by (simp add: pb_encode_eqs)
next
  case (4 t v)
  then show ?case
    using counts_field [OF _ wire_types_small(2) pb_counts_write, of t] by (simp add: pb_encode_eqs)
next
  case (5 t bs)
  then show ?case using counts_field [OF _ wire_types_small(3) counts_string, of t bs] by simp
next
  case (6 t its)
  then show ?case
    using counts_field [OF _ wire_types_small(3) counts_submessage, of t "\<lambda>w s. pb_puts null its w s" "items_octets its"]
    by simp
next
  case 7
  then show ?case by (simp add: pb_counts_def)
next
  case (8 it its)
  then show ?case using pb_counts_then [of "pb_put null it None"] by simp
qed

context byte_sink
begin

lemma emits_field:
  assumes "field_number t" "wt < 8" "pb_emits written (Some w) g ws"
  shows "pb_emits written (Some w) (\<lambda>s. pb_then (pb_encode_tag (Some w) wt (of_nat t) s) g) (tag_octets t wt @ ws)"
proof -
  have t: "t < 2 ^ 29" using assms(1) by (simp add: field_number_def)
  show ?thesis unfolding pb_encode_tag_eq [OF t assms(2)] by (rule pb_emits_then [OF emits_bytes assms(3)])
qed

lemma emits_string:
  "length body < 2 ^ 32 \<Longrightarrow> pb_emits written (Some w) (pb_encode_string (Some w) body (length body)) (counted body)"
  using pb_emits_then [OF emits_bytes emits_bytes] by (simp add: pb_encode_string_eq counted_def)

lemma emits_submessage:
  assumes count: "pb_counts (enc None) (length body)" and emit: "pb_emits written (Some w) (enc (Some w)) body"
    and small: "length body < 2 ^ 32"
  shows "pb_emits written (Some w) (pb_encode_submessage null enc (Some w)) (counted body)"
proof -
  obtain sub where e: "enc None (PB_OSTREAM_SIZING null) = (True, sub)" and l: "os_bytes_written sub = length body"
    using count small by (simp add: pb_counts_def PB_OSTREAM_SIZING_def)
  have u: "unat (of_nat (length body) :: u64) = length body" using small by (intro unat_of_nat_id) simp
  define g where "g = (\<lambda>s.
    if sz (os_bytes_written s + length body) > os_max_size s then os_return_error ''stream full'' s
    else case enc (Some w) \<lparr>os_state = os_state s, os_max_size = length body, os_bytes_written = 0, os_errmsg = None\<rparr> of
           (status, sub) \<Rightarrow>
             (let s = s\<lparr>os_bytes_written := sz (os_bytes_written s + os_bytes_written sub),
                        os_state := os_state sub, os_errmsg := os_errmsg sub\<rparr>
              in if os_bytes_written sub \<noteq> length body then os_return_error ''submsg size changed'' s
                 else (status, s)))"
  have "pb_encode_submessage null enc (Some w)
      = (\<lambda>s. pb_then (pb_encode_varint (Some w) (of_nat (length body)) s) g)"
    unfolding pb_encode_submessage_def e g_def Let_def prod.case bool.case l by simp
  moreover have "pb_emits written (Some w) g body"
    unfolding pb_emits_def
  proof (intro allI impI)
    fix s :: "'s pb_ostream"
    assume s: "os_bytes_written s \<le> os_max_size s \<and> os_max_size s + length body < 2 ^ 64"
    then have z: "sz (os_bytes_written s + length body) = os_bytes_written s + length body" by simp
    obtain st e where "enc (Some w)
        \<lparr>os_state = os_state s, os_max_size = length body, os_bytes_written = 0, os_errmsg = None\<rparr>
      = (True, \<lparr>os_state = st, os_max_size = length body, os_bytes_written = length body, os_errmsg = e\<rparr>)"
      "written st = written (os_state s) @ body"
      using emit [unfolded pb_emits_def, rule_format, of "\<lparr>os_state = os_state s, os_max_size = length body,
        os_bytes_written = 0, os_errmsg = None\<rparr>"] small by auto
    then show "if os_bytes_written s + length body \<le> os_max_size s
      then \<exists>st e. g s = (True, s\<lparr>os_state := st, os_bytes_written := os_bytes_written s + length body, os_errmsg := e\<rparr>)
        \<and> written st = written (os_state s) @ body
      else \<not> fst (g s)"
      using z by (auto simp: g_def os_return_error_def intro!: exI [of _ st] exI [of _ e])
  qed
  ultimately show ?thesis
    using pb_emits_then [OF emits_bytes [of "varint_octets (length body)"]] by (simp add: pb_encode_varint_eq u counted_def)
qed

lemma emits_items:
  "c_field it \<Longrightarrow> pb_emits written (Some w) (pb_put null it (Some w)) (item_octets it)"
  "list_all c_field its \<Longrightarrow> pb_emits written (Some w) (pb_puts null its (Some w)) (items_octets its)"
proof (induction it and its rule: item_octets_items_octets.induct)
  case (1 t v)
  then show ?case using emits_field [OF _ wire_types_small(1) emits_bytes, of t] by (simp add: pb_encode_eqs)
next
  case (2 t v)
  then show ?case using emits_field [OF _ wire_types_small(1) emits_bytes, of t] by (simp add: pb_encode_eqs)
next
  case (3 t x)
  then show ?case using emits_field [OF _ wire_types_small(4) emits_bytes [of "le_bytes 4 (unat x)"], of t] by (simp add: pb_encode_eqs)
next
  case (4 t v)
  then show ?case using emits_field [OF _ wire_types_small(2) emits_bytes [of "le_bytes 8 (unat v)"], of t] by (simp add: pb_encode_eqs)
next
  case (5 t bs)
  then show ?case using emits_field [OF _ wire_types_small(3) emits_string, of t bs] by simp
next
  case (6 t its)
  then show ?case
    using emits_field [OF _ wire_types_small(3) emits_submessage, of t "\<lambda>w s. pb_puts null its w s" "items_octets its"]
      counts_items(2) [of its null] by simp
next
  case 7
  then show ?case using pb_emits_nothing by simp
next
  case (8 it its)
  then show ?case using pb_emits_then [of written "Some w" "pb_put null it (Some w)"] by simp
qed

end

section \<open>Reading\<close>

text \<open>The fields a message descriptor lists.\<close>

datatype pb_kind =
    KVarint nat
  | KSVarint nat
  | KFixed32 nat
  | KFixed64 nat
  | KBytes nat
  | KMessage nat "pb_kind list"

fun kind :: "pb_item \<Rightarrow> pb_kind" where
  "kind (Varint t v) = KVarint t"
| "kind (SVarint t v) = KSVarint t"
| "kind (Fixed32 t x) = KFixed32 t"
| "kind (Fixed64 t v) = KFixed64 t"
| "kind (Bytes t bs) = KBytes t"
| "kind (Message t its) = KMessage t (map kind its)"

definition expect_tag :: "'s pb_reader \<Rightarrow> nat \<Rightarrow> nat \<Rightarrow> 's pb_istream \<Rightarrow> unit option \<times> 's pb_istream" where
  "expect_tag r wt t s =
     (case pb_decode_tag r s of
        ((None, s), _) \<Rightarrow> (None, s)
      | ((Some (wire_type, tag), s), _) \<Rightarrow> (if wire_type = wt \<and> tag = of_nat t then Some () else None, s))"

definition in_substream ::
    "'s pb_reader \<Rightarrow> ('s pb_istream \<Rightarrow> 'a option \<times> 's pb_istream) \<Rightarrow> 's pb_istream \<Rightarrow> 'a option \<times> 's pb_istream" where
  "in_substream r f s =
     (case pb_make_string_substream r s of
        (None, s) \<Rightarrow> (None, s)
      | (Some sub, s) \<Rightarrow>
          (case f sub of
             (None, _) \<Rightarrow> (None, s)
           | (Some v, sub) \<Rightarrow> pb_bind (pb_close_string_substream r sub s) (\<lambda>_ s. (Some v, s))))"

fun pb_get :: "'s pb_reader \<Rightarrow> pb_kind \<Rightarrow> 's pb_istream \<Rightarrow> pb_item option \<times> 's pb_istream"
  and pb_gets :: "'s pb_reader \<Rightarrow> pb_kind list \<Rightarrow> 's pb_istream \<Rightarrow> pb_item list option \<times> 's pb_istream" where
  "pb_get r (KVarint t) s =
     pb_bind (expect_tag r PB_WT_VARINT t s) (\<lambda>_ s. pb_bind (pb_decode_varint r s) (\<lambda>v s. (Some (Varint t v), s)))"
| "pb_get r (KSVarint t) s =
     pb_bind (expect_tag r PB_WT_VARINT t s) (\<lambda>_ s. pb_bind (pb_decode_svarint r s) (\<lambda>v s. (Some (SVarint t v), s)))"
| "pb_get r (KFixed32 t) s =
     pb_bind (expect_tag r PB_WT_32BIT t s) (\<lambda>_ s. pb_bind (pb_decode_fixed32 r s) (\<lambda>v s. (Some (Fixed32 t v), s)))"
| "pb_get r (KFixed64 t) s =
     pb_bind (expect_tag r PB_WT_64BIT t s) (\<lambda>_ s. pb_bind (pb_decode_fixed64 r s) (\<lambda>v s. (Some (Fixed64 t v), s)))"
| "pb_get r (KBytes t) s =
     pb_bind (expect_tag r PB_WT_STRING t s) (\<lambda>_ s.
       pb_bind (in_substream r (\<lambda>sub. pb_read r (is_bytes_left sub) sub) s) (\<lambda>bs s. (Some (Bytes t bs), s)))"
| "pb_get r (KMessage t ks) s =
     pb_bind (expect_tag r PB_WT_STRING t s) (\<lambda>_ s.
       pb_bind (in_substream r (\<lambda>sub. pb_gets r ks sub) s) (\<lambda>its s. (Some (Message t its), s)))"
| "pb_gets r [] s = (Some [], s)"
| "pb_gets r (k # ks) s =
     pb_bind (pb_get r k s) (\<lambda>it s. pb_bind (pb_gets r ks s) (\<lambda>its s. (Some (it # its), s)))"

lemma zigzag_back: "(if zigzag v AND 1 \<noteq> 0 then NOT (drop_bit 1 (zigzag v)) else drop_bit 1 (zigzag v)) = v"
proof -
  have s: "sint v < 0 \<longleftrightarrow> bit v 63"
    using bit_last_iff [of v] by simp
  have z: "zigzag v AND 1 \<noteq> 0 \<longleftrightarrow> bit (zigzag v) 0" using and_exp_eq_0_iff_not_bit [of "zigzag v" 0] by simp
  have b: "bit (zigzag v) 0 = bit v 63"
    by (cases "bit v 63") (simp_all only: zigzag_def s if_True if_False bit_simps, simp_all)
  have hi: "NOT (drop_bit 1 (NOT (push_bit 1 v))) = v" if "bit v 63"
  proof (rule bit_word_eqI)
    fix n
    assume "n < LENGTH(64)"
    then have "n = 63 \<or> n < 63" by auto
    moreover have "bit (NOT (drop_bit 1 (NOT (push_bit 1 v)))) n \<longleftrightarrow> n < 64 \<and> \<not> (1 + n < 64 \<and> \<not> bit v n)"
      by (simp only: bit_not_iff bit_drop_bit_eq comp_def bit_push_bit_iff possible_bit_word) auto
    ultimately show "bit (NOT (drop_bit 1 (NOT (push_bit 1 v)))) n \<longleftrightarrow> bit v n"
      using that by auto
  qed
  have lo: "drop_bit 1 (push_bit 1 v) = v" if "\<not> bit v 63"
  proof (rule bit_word_eqI)
    fix n
    assume "n < LENGTH(64)"
    then have "n = 63 \<or> n < 63" by auto
    moreover have "bit (drop_bit 1 (push_bit 1 v)) n \<longleftrightarrow> 1 + n < 64 \<and> bit v n"
      by (simp only: bit_drop_bit_eq comp_def bit_push_bit_iff possible_bit_word) auto
    ultimately show "bit (drop_bit 1 (push_bit 1 v)) n \<longleftrightarrow> bit v n"
      using that by auto
  qed
  show ?thesis
    unfolding z b using hi lo by (cases "bit v 63") (simp_all only: zigzag_def s if_True if_False simp_thms)
qed

context byte_source
begin

lemma reads_expect_tag:
  assumes "field_number t" "wt < 8"
  shows "pb_reads content (expect_tag r wt t) () (tag_octets t wt)"
proof (rule pb_readsI)
  fix s :: "'s pb_istream" and rest beyond
  assume s: "content (is_state s) = tag_octets t wt @ rest @ beyond" "is_bytes_left s = length (tag_octets t wt) + length rest"
  have "pb_reads content (\<lambda>s. fst (pb_decode_tag r s)) (wt, of_nat t) (tag_octets t wt)"
    using reads_tag [of t wt] assms by (simp add: pb_reads_quietly_def field_number_def tag_octets_def)
  from pb_readsD [OF this s] obtain st where st: "fst (pb_decode_tag r s)
      = (Some (wt, of_nat t), s\<lparr>is_state := st, is_bytes_left := length rest\<rparr>)" "content st = rest @ beyond" .
  then show "\<exists>st. expect_tag r wt t s = (Some (), s\<lparr>is_state := st, is_bytes_left := length rest\<rparr>)
    \<and> content st = rest @ beyond"
    by (intro exI [of _ st]) (cases "pb_decode_tag r s", simp add: expect_tag_def)
qed

lemma reads_svarint: "pb_reads content (pb_decode_svarint r) v (varint_octets (unat (zigzag v)))"
proof -
  have "length (varint_octets (unat (zigzag v))) \<le> 10"
    using unsigned_less [where ?'a = nat, of "zigzag v"] by (intro length_varint_octets) simp_all
  then have "pb_reads content (pb_decode_varint r) (zigzag v) (varint_octets (unat (zigzag v)))"
    using reads_varint [of "varint_octets (unat (zigzag v))"] by simp
  then show ?thesis
    unfolding pb_decode_svarint_def [abs_def] by (rule pb_reads_map) (rule zigzag_back)
qed

lemma reads_varint_octets: "pb_reads content (pb_decode_varint r) v (varint_octets (unat v))"
proof -
  have "length (varint_octets (unat v)) \<le> 10"
    using unsigned_less [where ?'a = nat, of v] by (intro length_varint_octets) simp_all
  then show ?thesis using reads_varint [of "varint_octets (unat v)"] by simp
qed

text \<open>A reader of the whole body, or of part of it, on a substream.\<close>

lemma reads_in_substream:
  assumes f: "\<And>s beyond. content (is_state s) = body @ beyond \<Longrightarrow> is_bytes_left s = length body \<Longrightarrow>
      \<exists>st. f s = (Some v, s\<lparr>is_state := st, is_bytes_left := 0\<rparr>) \<and> content st = beyond"
    and small: "length body < 2 ^ 32"
  shows "pb_reads content (in_substream r f) v (counted body)"
proof (rule pb_readsI)
  fix s :: "'s pb_istream" and rest beyond
  assume s: "content (is_state s) = counted body @ rest @ beyond" "is_bytes_left s = length (counted body) + length rest"
  obtain st where m: "pb_make_string_substream r s =
      (Some (s\<lparr>is_state := st, is_bytes_left := length body\<rparr>), s\<lparr>is_state := st, is_bytes_left := length rest\<rparr>)"
    and c: "content st = body @ rest @ beyond"
    by (rule makes_substream [of s body rest beyond]) (use s small in \<open>simp_all add: counted_def\<close>)
  obtain st' where f': "f (s\<lparr>is_state := st, is_bytes_left := length body\<rparr>)
      = (Some v, s\<lparr>is_state := st', is_bytes_left := 0\<rparr>)" and c': "content st' = rest @ beyond"
    using f [of "s\<lparr>is_state := st, is_bytes_left := length body\<rparr>" "rest @ beyond"] c by auto
  obtain st'' where "pb_close_string_substream r (s\<lparr>is_state := st', is_bytes_left := 0\<rparr>)
        (s\<lparr>is_state := st, is_bytes_left := length rest\<rparr>)
      = (Some (), s\<lparr>is_state := st, is_bytes_left := length rest, is_state := st'', is_errmsg := is_errmsg s\<rparr>)"
    "content st'' = rest @ beyond"
    by (rule closes_substream [of "s\<lparr>is_state := st', is_bytes_left := 0\<rparr>" "[]" "rest @ beyond"
        "s\<lparr>is_state := st, is_bytes_left := length rest\<rparr>"]) (use c' in auto)
  then show "\<exists>st. in_substream r f s = (Some v, s\<lparr>is_state := st, is_bytes_left := length rest\<rparr>)
    \<and> content st = rest @ beyond"
    using m f' by (cases s) (simp add: in_substream_def)
qed

lemma reads_whole:
  assumes "length bs < 2 ^ 32"
  shows "pb_reads content (in_substream r (\<lambda>sub. pb_read r (is_bytes_left sub) sub)) bs (counted bs)"
proof (rule reads_in_substream [OF _ assms])
  fix s :: "'s pb_istream" and beyond
  assume s: "content (is_state s) = bs @ beyond" "is_bytes_left s = length bs"
  from pb_readsD [OF reads_bytes [of bs], of s "[]" beyond] s
  show "\<exists>st. pb_read r (is_bytes_left s) s = (Some bs, s\<lparr>is_state := st, is_bytes_left := 0\<rparr>) \<and> content st = beyond"
    by (metis append_Nil list.size(3) add.right_neutral)
qed

lemma reads_nested:
  assumes "pb_reads content f v body" "length body < 2 ^ 32"
  shows "pb_reads content (in_substream r f) v (counted body)"
proof (rule reads_in_substream [OF _ assms(2)])
  fix s :: "'s pb_istream" and beyond
  assume s: "content (is_state s) = body @ beyond" "is_bytes_left s = length body"
  from pb_readsD [OF assms(1), of s "[]" beyond] s
  show "\<exists>st. f s = (Some v, s\<lparr>is_state := st, is_bytes_left := 0\<rparr>) \<and> content st = beyond"
    by (metis append_Nil list.size(3) add.right_neutral)
qed

lemma reads_field:
  assumes "field_number t" "wt < 8" "pb_reads content g v ws"
  shows "pb_reads content (\<lambda>s. pb_bind (expect_tag r wt t s) (\<lambda>_ s. pb_bind (g s) (\<lambda>v s. (Some (c v), s)))) (c v)
    (tag_octets t wt @ ws)"
  using pb_reads_bind [OF reads_expect_tag [OF assms(1,2)], of "\<lambda>_ s. pb_bind (g s) (\<lambda>v s. (Some (c v), s))"]
    pb_reads_map [OF assms(3), of c] by simp

lemma reads_items:
  "c_field it \<Longrightarrow> pb_reads content (pb_get r (kind it)) it (item_octets it)"
  "list_all c_field its \<Longrightarrow> pb_reads content (pb_gets r (map kind its)) its (items_octets its)"
proof (induction it and its rule: item_octets_items_octets.induct)
  case (1 t v)
  then show ?case
    using reads_field [OF _ wire_types_small(1) reads_varint_octets, of t "Varint t" v] by simp
next
  case (2 t v)
  then show ?case
    using reads_field [OF _ wire_types_small(1) reads_svarint, of t "SVarint t" v] by simp
next
  case (3 t x)
  then show ?case
    using reads_field [OF _ wire_types_small(4) reads_fixed32, of t "Fixed32 t" x] by simp
next
  case (4 t v)
  then show ?case
    using reads_field [OF _ wire_types_small(2) reads_fixed64, of t "Fixed64 t" v] by simp
next
  case (5 t bs)
  then show ?case
    using reads_field [OF _ wire_types_small(3) reads_whole, of t bs "Bytes t"] by simp
next
  case (6 t its)
  then show ?case
    using reads_field [OF _ wire_types_small(3) reads_nested, of t "\<lambda>sub. pb_gets r (map kind its) sub" its
      "items_octets its" "Message t"] by simp
next
  case 7
  then show ?case using pb_reads_return [of content "[]"] by simp
next
  case (8 it its)
  have "pb_reads content (\<lambda>s. pb_bind (pb_gets r (map kind its) s) (\<lambda>its s. (Some (it # its), s)))
      (it # its) (items_octets its)"
    using 8 by (intro pb_reads_map [where h = "(#) it"]) simp_all
  then show ?case using pb_reads_bind [of content "pb_get r (kind it)" it "item_octets it"
      "\<lambda>it s. pb_bind (pb_gets r (map kind its) s) (\<lambda>its s. (Some (it # its), s))"] 8 by simp
qed

text \<open>A reader that knows none of the fields skips each of them whole.\<close>

lemma reads_skip_field:
  "pb_reads content (pb_skip_field r PB_WT_VARINT) () (varint_octets n)"
  "length bs = 8 \<Longrightarrow> pb_reads content (pb_skip_field r PB_WT_64BIT) () bs"
  "length bs = 4 \<Longrightarrow> pb_reads content (pb_skip_field r PB_WT_32BIT) () bs"
  "length bs < 2 ^ 32 \<Longrightarrow> pb_reads content (pb_skip_field r PB_WT_STRING) () (counted bs)"
  using reads_skip_varint [of "varint_octets n"] reads_null [of bs 8] reads_null [of bs 4] reads_string_skip [of bs]
  by (simp_all add: pb_skip_field_def [abs_def] pb_wt_defs counted_def)

end

section \<open>Messages in buffers\<close>

definition encode_to_buffer :: "nat \<Rightarrow> pb_item list \<Rightarrow> u8 list option" where
  "encode_to_buffer bufsize its =
     (case pb_puts [] its (Some buf_write) (pb_ostream_from_buffer bufsize) of
        (False, _) \<Rightarrow> None
      | (True, s) \<Rightarrow> Some (os_state s))"

definition encoded_size :: "pb_item list \<Rightarrow> nat option" where
  "encoded_size its =
     (case pb_puts [] its None (PB_OSTREAM_SIZING ([] :: u8 list)) of
        (False, _) \<Rightarrow> None
      | (True, s) \<Rightarrow> Some (os_bytes_written s))"

definition decode_from_buffer :: "pb_kind list \<Rightarrow> u8 list \<Rightarrow> pb_item list option" where
  "decode_from_buffer ks buf = fst (pb_gets buf_reader ks (pb_istream_from_buffer buf (length buf)))"

lemma encode_to_buffer_eq:
  assumes "list_all c_field its" "bufsize + length (items_octets its) < 2 ^ 64"
  shows "encode_to_buffer bufsize its
    = (if length (items_octets its) \<le> bufsize then Some (items_octets its) else None)"
  using buf_out.emits_items(2) [OF assms(1), of "[]", unfolded pb_emits_def, rule_format, of "pb_ostream_from_buffer bufsize"]
    assms(2)
  by (auto simp: encode_to_buffer_def pb_ostream_from_buffer_def split: if_splits prod.splits)

lemma encoded_size_eq:
  assumes "list_all c_field its" "length (items_octets its) < 2 ^ 64"
  shows "encoded_size its = Some (length (items_octets its))"
  using counts_items(2) [OF assms(1), of "[] :: u8 list"] assms(2)
  by (simp add: encoded_size_def pb_counts_def PB_OSTREAM_SIZING_def)

lemma decode_from_buffer_items:
  assumes "list_all c_field its"
  shows "decode_from_buffer (map kind its) (items_octets its @ rest) = Some its"
proof -
  let ?s = "pb_istream_from_buffer (items_octets its @ rest) (length (items_octets its @ rest))"
  obtain st where "pb_gets buf_reader (map kind its) ?s
      = (Some its, ?s\<lparr>is_state := st, is_bytes_left := length rest\<rparr>)"
    by (rule pb_readsD [OF buf.reads_items(2) [OF assms], of ?s rest "[]"])
      (simp_all add: pb_istream_from_buffer_def)
  then show ?thesis by (simp add: decode_from_buffer_def)
qed

end
