(* ===== verification/Stack.thy ===== *)
theory Stack
  imports Mem Oid
begin

text \<open>
  \<open>crypto/stack/stack.c\<close>: growable arrays of pointers. An element is a pointer, \<open>None\<close> for
  \<open>NULL\<close>; a stack argument is \<open>None\<close> when the caller passes \<open>NULL\<close>. The comparison function of
  a stack is a code pointer \<open>'c\<close>, and \<open>call_cmp\<close>, a parameter, is what calling it gives on two
  elements. \<open>data\<close> holds the \<open>num\<close> valid elements; \<open>num_alloc\<close> counts the allocated ones.
  Operations that change a stack return it.
\<close>

section \<open>State\<close>

record ('p, 'c) STACK =
  sk_data :: "'p option list"
  sk_sorted :: bool
  sk_num_alloc :: nat
  sk_comp :: "'c option"

abbreviation sk_len :: "('p, 'c) STACK \<Rightarrow> nat" where
  "sk_len sk \<equiv> length (sk_data sk)"

definition kMinSize :: nat where "kMinSize = 4"
definition sizeof_ptr :: nat where "sizeof_ptr = 8"
definition sizeof_STACK :: nat where "sizeof_STACK = 40"

section \<open>Operations\<close>

definition sk_new :: "(nat \<Rightarrow> bool) \<Rightarrow> 'c option \<Rightarrow> ('p, 'c) STACK option" where
  "sk_new os cmpf =
     (if \<not> malloc_ok os sizeof_STACK then None
      else if \<not> malloc_ok os (sizeof_ptr * kMinSize) then None
      else Some \<lparr>sk_data = [], sk_sorted = False, sk_num_alloc = kMinSize, sk_comp = cmpf\<rparr>)"

definition sk_new_null :: "(nat \<Rightarrow> bool) \<Rightarrow> ('p, 'c) STACK option" where
  "sk_new_null os = sk_new os None"

definition sk_num :: "('p, 'c) STACK option \<Rightarrow> nat" where
  "sk_num s = (case s of None \<Rightarrow> 0 | Some sk \<Rightarrow> sk_len sk)"

definition sk_zero :: "('p, 'c) STACK option \<Rightarrow> ('p, 'c) STACK option" where
  "sk_zero s =
     (case s of
        None \<Rightarrow> None
      | Some sk \<Rightarrow> if sk_len sk = 0 then s else Some (sk\<lparr>sk_data := [], sk_sorted := False\<rparr>))"

definition sk_value :: "('p, 'c) STACK option \<Rightarrow> nat \<Rightarrow> 'p option" where
  "sk_value s i =
     (case s of None \<Rightarrow> None | Some sk \<Rightarrow> if i \<ge> sk_len sk then None else sk_data sk ! i)"

definition sk_set ::
    "('p, 'c) STACK option \<Rightarrow> nat \<Rightarrow> 'p option \<Rightarrow> 'p option \<times> ('p, 'c) STACK option" where
  "sk_set s i v =
     (case s of
        None \<Rightarrow> (None, None)
      | Some sk \<Rightarrow>
          if i \<ge> sk_len sk then (None, s) else (v, Some (sk\<lparr>sk_data := (sk_data sk)[i := v]\<rparr>)))"

text \<open>The calls \<open>sk_pop_free_ex\<close> makes of the free function, in order.\<close>

definition sk_pop_free_ex :: "('p, 'c) STACK option \<Rightarrow> 'p list" where
  "sk_pop_free_ex s = (case s of None \<Rightarrow> [] | Some sk \<Rightarrow> List.map_filter (\<lambda>p. p) (sk_data sk))"

definition sk_pop_free :: "('p, 'c) STACK option \<Rightarrow> 'p list" where
  "sk_pop_free = sk_pop_free_ex"

definition sk_grow :: "nat \<Rightarrow> nat option" where
  "sk_grow num_alloc =
     (let new_alloc = sz (num_alloc * 2);
          alloc_size = sz (new_alloc * sizeof_ptr);
          (new_alloc, alloc_size) =
            (if new_alloc < num_alloc \<or> alloc_size div sizeof_ptr \<noteq> new_alloc
             then (sz (num_alloc + 1), sz (sz (num_alloc + 1) * sizeof_ptr))
             else (new_alloc, alloc_size))
      in if new_alloc < num_alloc \<or> alloc_size div sizeof_ptr \<noteq> new_alloc then None else Some new_alloc)"

definition sk_insert ::
    "(nat \<Rightarrow> bool) \<Rightarrow> ('p, 'c) STACK option \<Rightarrow> 'p option \<Rightarrow> nat \<Rightarrow> nat \<times> ('p, 'c) STACK option" where
  "sk_insert os s p whence =
     (case s of
        None \<Rightarrow> (0, None)
      | Some sk \<Rightarrow>
          (case (if sk_num_alloc sk \<le> sk_len sk + 1
                 then (case sk_grow (sk_num_alloc sk) of
                         None \<Rightarrow> None
                       | Some new_alloc \<Rightarrow>
                           if malloc_ok os (new_alloc * sizeof_ptr) then Some (sk\<lparr>sk_num_alloc := new_alloc\<rparr>) else None)
                 else Some sk) of
             None \<Rightarrow> (0, Some sk)
           | Some sk \<Rightarrow>
               (let data = (if whence \<ge> sk_len sk then sk_data sk @ [p]
                            else take whence (sk_data sk) @ p # drop whence (sk_data sk))
                in (length data, Some (sk\<lparr>sk_data := data, sk_sorted := False\<rparr>)))))"

definition sk_delete :: "('p, 'c) STACK option \<Rightarrow> nat \<Rightarrow> 'p option \<times> ('p, 'c) STACK option" where
  "sk_delete s whence =
     (case s of
        None \<Rightarrow> (None, None)
      | Some sk \<Rightarrow>
          if whence \<ge> sk_len sk then (None, s)
          else (sk_data sk ! whence,
                Some (sk\<lparr>sk_data :=
                  (if whence \<noteq> sk_len sk - 1 then take whence (sk_data sk) @ drop (whence + 1) (sk_data sk)
                   else take (sk_len sk - 1) (sk_data sk))\<rparr>)))"

text \<open>The loops that look for the first element with a property.\<close>

fun sk_scan :: "('e \<Rightarrow> bool) \<Rightarrow> 'e list \<Rightarrow> nat \<Rightarrow> nat option" where
  "sk_scan P [] i = None"
| "sk_scan P (x # xs) i = (if P x then Some i else sk_scan P xs (i + 1))"

definition sk_delete_ptr ::
    "('p, 'c) STACK option \<Rightarrow> 'p option \<Rightarrow> 'p option \<times> ('p, 'c) STACK option" where
  "sk_delete_ptr s p =
     (case s of
        None \<Rightarrow> (None, None)
      | Some sk \<Rightarrow>
          (case sk_scan (\<lambda>e. e = p) (sk_data sk) 0 of None \<Rightarrow> (None, s) | Some i \<Rightarrow> sk_delete s i))"

definition sk_is_sorted :: "('p, 'c) STACK option \<Rightarrow> bool" where
  "sk_is_sorted s = (case s of None \<Rightarrow> True | Some sk \<Rightarrow> sk_sorted sk)"

function sk_bsearch :: "('e \<Rightarrow> 'e \<Rightarrow> int) \<Rightarrow> 'e list \<Rightarrow> 'e \<Rightarrow> nat \<Rightarrow> nat \<Rightarrow> nat option" where
  "sk_bsearch cmp data p low high =
     (if low < high
      then let mid = low + (high - low - 1) div 2;
               r = cmp p (data ! mid)
           in if r > 0 then sk_bsearch cmp data p (mid + 1) high
              else if r < 0 then sk_bsearch cmp data p low mid
              else if high - low = 1 then Some mid
              else sk_bsearch cmp data p low (mid + 1)
      else None)"
  by pat_completeness auto
termination
  by (relation "measure (\<lambda>(_, _, _, low, high). high - low)") auto

declare sk_bsearch.simps [simp del]

text \<open>The index written to \<open>*out_index\<close>, or \<open>None\<close> when the function returns 0.\<close>

definition sk_find ::
    "('c \<Rightarrow> 'p option \<Rightarrow> 'p option \<Rightarrow> int) \<Rightarrow> ('p, 'c) STACK option \<Rightarrow> 'p option \<Rightarrow> nat option" where
  "sk_find call_cmp s p =
     (case s of
        None \<Rightarrow> None
      | Some sk \<Rightarrow>
          (case sk_comp sk of
             None \<Rightarrow> sk_scan (\<lambda>e. e = p) (sk_data sk) 0
           | Some cmpf \<Rightarrow>
               if p = None then None
               else if \<not> sk_is_sorted (Some sk) then sk_scan (\<lambda>e. call_cmp cmpf p e = 0) (sk_data sk) 0
               else sk_bsearch (call_cmp cmpf) (sk_data sk) p 0 (sk_len sk)))"

definition sk_shift :: "('p, 'c) STACK option \<Rightarrow> 'p option \<times> ('p, 'c) STACK option" where
  "sk_shift s =
     (case s of None \<Rightarrow> (None, None) | Some sk \<Rightarrow> if sk_len sk = 0 then (None, s) else sk_delete s 0)"

definition sk_push ::
    "(nat \<Rightarrow> bool) \<Rightarrow> ('p, 'c) STACK \<Rightarrow> 'p option \<Rightarrow> nat \<times> ('p, 'c) STACK option" where
  "sk_push os sk p = sk_insert os (Some sk) p (sk_len sk)"

definition sk_pop :: "('p, 'c) STACK option \<Rightarrow> 'p option \<times> ('p, 'c) STACK option" where
  "sk_pop s =
     (case s of
        None \<Rightarrow> (None, None)
      | Some sk \<Rightarrow> if sk_len sk = 0 then (None, s) else sk_delete s (sk_len sk - 1))"

definition sk_dup :: "(nat \<Rightarrow> bool) \<Rightarrow> ('p, 'c) STACK option \<Rightarrow> ('p, 'c) STACK option" where
  "sk_dup os s =
     (case s of
        None \<Rightarrow> None
      | Some sk \<Rightarrow>
          (case sk_new os (sk_comp sk) of
             None \<Rightarrow> None
           | Some ret \<Rightarrow>
               if \<not> malloc_ok os (sz (sizeof_ptr * sk_num_alloc sk)) then None
               else Some (ret\<lparr>sk_data := sk_data sk, sk_sorted := sk_sorted sk, sk_num_alloc := sk_num_alloc sk,
                              sk_comp := sk_comp sk\<rparr>)))"

definition sk_sort ::
    "('c \<Rightarrow> 'p option \<Rightarrow> 'p option \<Rightarrow> int) \<Rightarrow> ('p, 'c) STACK option \<Rightarrow> ('p, 'c) STACK option" where
  "sk_sort call_cmp s =
     (case s of
        None \<Rightarrow> None
      | Some sk \<Rightarrow>
          (case sk_comp sk of
             None \<Rightarrow> s
           | Some cmpf \<Rightarrow>
               if sk_sorted sk then s
               else Some ((if sk_len sk \<ge> 2 then sk\<lparr>sk_data := qsort (call_cmp cmpf) (sk_data sk)\<rparr> else sk)
                            \<lparr>sk_sorted := True\<rparr>)))"

definition sk_set_cmp_func :: "('p, 'c) STACK \<Rightarrow> 'c option \<Rightarrow> 'c option \<times> ('p, 'c) STACK" where
  "sk_set_cmp_func sk cmpf =
     (sk_comp sk, (if sk_comp sk \<noteq> cmpf then sk\<lparr>sk_sorted := False\<rparr> else sk)\<lparr>sk_comp := cmpf\<rparr>)"

text \<open>
  The loop of \<open>sk_deep_copy\<close>: the elements copied so far, then those to copy; the result is the
  copied elements, or on failure those handed to the free function.
\<close>

fun deep_copy_loop :: "('p \<Rightarrow> 'p option) \<Rightarrow> 'p option list \<Rightarrow> 'p option list \<Rightarrow> 'p list + 'p option list" where
  "deep_copy_loop copy_fn acc [] = Inr acc"
| "deep_copy_loop copy_fn acc (None # es) = deep_copy_loop copy_fn (acc @ [None]) es"
| "deep_copy_loop copy_fn acc (Some p # es) =
     (case copy_fn p of
        None \<Rightarrow> Inl (List.map_filter (\<lambda>p. p) acc)
      | Some q \<Rightarrow> deep_copy_loop copy_fn (acc @ [Some q]) es)"

definition sk_deep_copy ::
    "(nat \<Rightarrow> bool) \<Rightarrow> ('p \<Rightarrow> 'p option) \<Rightarrow> ('p, 'c) STACK option \<Rightarrow> ('p, 'c) STACK option \<times> 'p list" where
  "sk_deep_copy os copy_fn s =
     (case sk_dup os s of
        None \<Rightarrow> (None, [])
      | Some ret \<Rightarrow>
          (case deep_copy_loop copy_fn [] (sk_data ret) of
             Inl freed \<Rightarrow> (None, freed)
           | Inr data \<Rightarrow> (Some (ret\<lparr>sk_data := data\<rparr>), [])))"

section \<open>Searching\<close>

lemma sk_scan_None_iff: "sk_scan P xs i = None \<longleftrightarrow> (\<forall>x \<in> set xs. \<not> P x)"
  by (induction xs arbitrary: i) auto

lemma sk_scan_Some_iff:
  "sk_scan P xs i = Some k \<longleftrightarrow> i \<le> k \<and> k - i < length xs \<and> P (xs ! (k - i)) \<and> (\<forall>j < k - i. \<not> P (xs ! j))"
proof (induction xs arbitrary: i k)
  case (Cons x xs)
  consider "k < i" | "k = i" | d where "k = Suc (i + d)"
    by (metis less_imp_Suc_add linorder_neqE_nat add_Suc_right)
  then show ?case
    by cases (auto simp: Cons.IH nth_Cons' less_Suc_eq_0_disj Suc_diff_le)
qed simp

lemmas sk_scan_iff = sk_scan_None_iff sk_scan_Some_iff

text \<open>Binary search relies on the same laws of the comparison function as \<open>qsort\<close>.\<close>

context cmp_order
begin

lemma above_stays_above: "0 < cmp p x \<Longrightarrow> cmp y x \<le> 0 \<Longrightarrow> 0 < cmp p y"
  using le_trans [of p y x] by linarith

lemma below_stays_below: "cmp p x < 0 \<Longrightarrow> cmp x y \<le> 0 \<Longrightarrow> cmp p y < 0"
  using le_trans [of x y p] flip [of p x] flip [of p y] by linarith

lemma bsearch_first_match:
  assumes "ascending xs" "high \<le> length xs"
    and "\<forall>i < low. 0 < cmp p (xs ! i)"
    and "\<forall>i. high \<le> i \<and> i < length xs \<longrightarrow> cmp p (xs ! i) < 0 \<or> (\<exists>j. low \<le> j \<and> j < high \<and> cmp p (xs ! j) = 0)"
  shows "sk_bsearch cmp xs p low high = sk_scan (\<lambda>e. cmp p e = 0) xs 0"
  using assms(2-4)
proof (induction "high - low" arbitrary: low high rule: less_induct)
  case less
  let ?mid = "low + (high - low - 1) div 2"
  have order: "cmp (xs ! i) (xs ! j) \<le> 0" if "i < j" "j < length xs" for i j
    using assms(1) that by (simp add: ascending_def sorted_wrt_iff_nth_less)
  show ?case
  proof (cases "low < high")
    case False
    then have "cmp p (xs ! i) \<noteq> 0" if "i < length xs" for i
      using less.prems(2,3) that by (metis leI less_irrefl order.strict_trans1 order.strict_trans2)
    then show ?thesis
      using False by (auto simp: sk_bsearch.simps [of _ _ _ low] sk_scan_None_iff in_set_conv_nth
          intro!: sk_scan_None_iff [THEN iffD2, symmetric])
  next
    case True
    then have mid: "low \<le> ?mid" "?mid < high" "?mid < length xs"
      using less.prems(1) by linarith+
    consider "0 < cmp p (xs ! ?mid)" | "cmp p (xs ! ?mid) < 0"
      | "cmp p (xs ! ?mid) = 0" "high - low = 1" | "cmp p (xs ! ?mid) = 0" "high - low \<noteq> 1"
      by linarith
    then show ?thesis
    proof cases
      case 1
      have above: "0 < cmp p (xs ! i)" if "i < ?mid + 1" for i
        using that 1 above_stays_above [OF 1 order] mid(3) by (cases "i = ?mid") auto
      have "sk_bsearch cmp xs p (?mid + 1) high = sk_scan (\<lambda>e. cmp p e = 0) xs 0"
      proof (rule less.hyps)
        have "low \<le> j \<Longrightarrow> cmp p (xs ! j) = 0 \<Longrightarrow> ?mid + 1 \<le> j" for j
          using above [of j] by (cases "j < ?mid + 1") auto
        then show "\<forall>i. high \<le> i \<and> i < length xs \<longrightarrow>
            cmp p (xs ! i) < 0 \<or> (\<exists>j. ?mid + 1 \<le> j \<and> j < high \<and> cmp p (xs ! j) = 0)"
          using less.prems(3) by meson
      qed (use True mid(2) above less.prems(1) in simp_all)
      then show ?thesis
        using 1 True by (subst sk_bsearch.simps) (simp add: Let_def)
    next
      case 2
      have below: "cmp p (xs ! i) < 0" if "?mid \<le> i" "i < length xs" for i
        using that 2 below_stays_below [OF 2 order] by (cases "i = ?mid") auto
      have "sk_bsearch cmp xs p low ?mid = sk_scan (\<lambda>e. cmp p e = 0) xs 0"
        by (rule less.hyps) (use True mid below less.prems in auto)
      then show ?thesis
        using 2 True by (subst sk_bsearch.simps) (simp add: Let_def)
    next
      case 3
      then have "sk_scan (\<lambda>e. cmp p e = 0) xs 0 = Some low"
        using less.prems(2) mid by (force simp: sk_scan_Some_iff)
      then show ?thesis
        using 3 True by (subst sk_bsearch.simps) (simp add: Let_def)
    next
      case 4
      have "cmp p (xs ! i) < 0 \<or> (\<exists>j. low \<le> j \<and> j < ?mid + 1 \<and> cmp p (xs ! j) = 0)" for i
        using 4 mid by (intro disjI2 exI [of _ ?mid]) simp
      then have "sk_bsearch cmp xs p low (?mid + 1) = sk_scan (\<lambda>e. cmp p e = 0) xs 0"
        by (intro less.hyps) (use True mid 4 less.prems in auto)
      then show ?thesis
        using 4 True by (subst sk_bsearch.simps) (simp add: Let_def)
    qed
  qed
qed

lemma bsearch_finds_first: "ascending xs \<Longrightarrow> sk_bsearch cmp xs p 0 (length xs) = sk_scan (\<lambda>e. cmp p e = 0) xs 0"
  by (rule bsearch_first_match) auto

end

section \<open>What the operations do to the sequence of elements\<close>

lemma sk_grow_eq:
  assumes "n * sizeof_ptr < 2 ^ 64"
  shows "sk_grow n =
    (if n * 2 * sizeof_ptr < 2 ^ 64 then Some (n * 2)
     else if (n + 1) * sizeof_ptr < 2 ^ 64 then Some (n + 1) else None)"
proof -
  have fits: "sz (m * sizeof_ptr) div sizeof_ptr = m \<longleftrightarrow> m * sizeof_ptr < 2 ^ 64" for m
    by (rule sz_mult_div_iff) (simp add: sizeof_ptr_def)
  have small: "sz (n * 2) = n * 2" "sz (n + 1) = n + 1"
    using assms by (simp_all add: sizeof_ptr_def)
  have "\<not> n * 2 < n" "\<not> n + 1 < n" by simp_all
  then show ?thesis
    unfolding sk_grow_def Let_def small by (cases "n * 2 * sizeof_ptr < 2 ^ 64"; cases "(n + 1) * sizeof_ptr < 2 ^ 64")
      (simp_all only: fits prod.case if_True if_False simp_thms)
qed

lemma sk_insert_Some: "\<exists>n sk'. sk_insert os (Some sk) p w = (n, Some sk')"
  by (simp add: sk_insert_def Let_def split: option.split)

lemma sk_insert_cases:
  assumes "sk_insert os (Some sk) p w = (n, Some sk')"
  obtains (full) "n = 0" "sk' = sk"
  | (put) m where "n = sk_len sk + 1" "sk_num_alloc sk \<le> sk_len sk + 1 \<Longrightarrow> sk_grow (sk_num_alloc sk) = Some m"
      "sk_len sk + 1 < sk_num_alloc sk \<Longrightarrow> m = sk_num_alloc sk"
      "sk' = sk\<lparr>sk_data := take w (sk_data sk) @ p # drop w (sk_data sk), sk_sorted := False, sk_num_alloc := m\<rparr>"
  using assms
  by (cases sk) (force simp: sk_insert_def Let_def split: option.splits if_splits)

lemma sk_delete_eq:
  "sk_delete (Some sk) w =
     (if w < sk_len sk
      then (sk_data sk ! w, Some (sk\<lparr>sk_data := take w (sk_data sk) @ drop (Suc w) (sk_data sk)\<rparr>))
      else (None, Some sk))"
  by (auto simp: sk_delete_def)

lemma sk_delete_ptr_eq:
  "sk_delete_ptr (Some sk) p =
     (if p \<in> set (sk_data sk) then (p, Some (sk\<lparr>sk_data := remove1 p (sk_data sk)\<rparr>)) else (None, Some sk))"
proof (cases "sk_scan (\<lambda>e. e = p) (sk_data sk) 0")
  case None
  moreover from this have "p \<notin> set (sk_data sk)" by (auto simp: sk_scan_None_iff)
  ultimately show ?thesis by (simp add: sk_delete_ptr_def)
next
  case (Some k)
  then have k: "k < sk_len sk" "sk_data sk ! k = p" "\<forall>j < k. sk_data sk ! j \<noteq> p"
    by (simp_all add: sk_scan_Some_iff)
  then have "p \<notin> set (take k (sk_data sk))" by (auto simp: in_set_conv_nth)
  then have "remove1 p (sk_data sk) = take k (sk_data sk) @ drop (Suc k) (sk_data sk)"
    using k by (subst id_take_nth_drop [OF k(1)]) (simp add: remove1_append)
  then show ?thesis
    using k Some by (auto simp: sk_delete_ptr_def sk_delete_eq)
qed

lemma sk_pop_push:
  assumes "sk_push os sk p = (Suc n, Some sk')"
  shows "sk_pop (Some sk') = (p, Some (sk'\<lparr>sk_data := sk_data sk\<rparr>))"
  using assms by (cases rule: sk_insert_cases [OF assms [unfolded sk_push_def]]) (simp_all add: sk_pop_def sk_delete_eq)

lemma deep_copy_loop_iff:
  "deep_copy_loop copy_fn acc es = Inr es' \<longleftrightarrow>
     (\<exists>ys. es' = acc @ ys \<and> list_all2 (\<lambda>x y. case x of None \<Rightarrow> y = None | Some p \<Rightarrow> y = copy_fn p \<and> y \<noteq> None) es ys)"
proof (induction copy_fn acc es rule: deep_copy_loop.induct)
  case (3 copy_fn acc p es)
  then show ?case
    by (auto simp: list_all2_Cons1 split: option.splits)
qed (auto simp: list_all2_Cons1)

section \<open>Histories\<close>

text \<open>
  One call of an operation on a stack, with any arguments and any answers of \<open>malloc\<close>. \<open>sk_set\<close> is left out: it does not
  clear the \<open>sorted\<close> flag.
\<close>

inductive sk_step ::
    "('c \<Rightarrow> 'p option \<Rightarrow> 'p option \<Rightarrow> int) \<Rightarrow> ('p, 'c) STACK \<Rightarrow> ('p, 'c) STACK \<Rightarrow> bool"
  for call_cmp where
  step_insert: "sk_insert os (Some sk) p w = (n, Some sk') \<Longrightarrow> sk_step call_cmp sk sk'"
| step_push: "sk_push os sk p = (n, Some sk') \<Longrightarrow> sk_step call_cmp sk sk'"
| step_delete: "sk_delete (Some sk) w = (r, Some sk') \<Longrightarrow> sk_step call_cmp sk sk'"
| step_delete_ptr: "sk_delete_ptr (Some sk) p = (r, Some sk') \<Longrightarrow> sk_step call_cmp sk sk'"
| step_shift: "sk_shift (Some sk) = (r, Some sk') \<Longrightarrow> sk_step call_cmp sk sk'"
| step_pop: "sk_pop (Some sk) = (r, Some sk') \<Longrightarrow> sk_step call_cmp sk sk'"
| step_zero: "sk_zero (Some sk) = Some sk' \<Longrightarrow> sk_step call_cmp sk sk'"
| step_sort: "sk_sort call_cmp (Some sk) = Some sk' \<Longrightarrow> sk_step call_cmp sk sk'"
| step_set_cmp: "sk_set_cmp_func sk f = (old, sk') \<Longrightarrow> sk_step call_cmp sk sk'"
| step_dup: "sk_dup os (Some sk) = Some sk' \<Longrightarrow> sk_step call_cmp sk sk'"

inductive sk_reached ::
    "('c \<Rightarrow> 'p option \<Rightarrow> 'p option \<Rightarrow> int) \<Rightarrow> ('p, 'c) STACK \<Rightarrow> bool"
  for call_cmp where
  reached_new: "sk_new os f = Some sk \<Longrightarrow> sk_reached call_cmp sk"
| reached_step: "sk_reached call_cmp sk \<Longrightarrow> sk_step call_cmp sk sk' \<Longrightarrow> sk_reached call_cmp sk'"

definition sk_room :: "('p, 'c) STACK \<Rightarrow> bool" where
  "sk_room sk \<longleftrightarrow> 0 < sk_num_alloc sk \<and> sk_len sk < sk_num_alloc sk \<and> sk_num_alloc sk * sizeof_ptr < 2 ^ 64"

definition sk_flag_ok :: "('c \<Rightarrow> 'p option \<Rightarrow> 'p option \<Rightarrow> int) \<Rightarrow> ('p, 'c) STACK \<Rightarrow> bool" where
  "sk_flag_ok call_cmp sk \<longleftrightarrow>
     (sk_sorted sk \<longrightarrow> (\<exists>c. sk_comp sk = Some c \<and> sorted_wrt (\<lambda>x y. call_cmp c x y \<le> 0) (sk_data sk)))"

lemma sorted_wrt_take_drop: "sorted_wrt R xs \<Longrightarrow> sorted_wrt R (take n xs @ drop (Suc n) xs)"
proof (cases "n < length xs")
  case True
  assume "sorted_wrt R xs"
  then have "sorted_wrt R (take n xs @ xs ! n # drop (Suc n) xs)"
    by (simp add: id_take_nth_drop [OF True, symmetric])
  then show ?thesis by (simp add: sorted_wrt_append)
qed simp

lemma delete_keeps:
  assumes "sk_delete (Some sk) w = (r, Some sk')"
  shows "sk_room sk \<Longrightarrow> sk_room sk'" "sk_flag_ok call_cmp sk \<Longrightarrow> sk_flag_ok call_cmp sk'"
  using assms by (auto simp: sk_delete_eq sk_room_def sk_flag_ok_def intro: sorted_wrt_take_drop split: if_splits)

lemma insert_keeps:
  assumes "sk_insert os (Some sk) p w = (n, Some sk')"
  shows "sk_room sk \<Longrightarrow> sk_room sk'" "sk_flag_ok call_cmp sk \<Longrightarrow> sk_flag_ok call_cmp sk'"
proof -
  show "sk_room sk'" if room: "sk_room sk"
  proof (cases rule: sk_insert_cases [OF assms])
    case (2 m)
    have "sk_len sk + 1 < m \<and> m * sizeof_ptr < 2 ^ 64"
    proof (cases "sk_num_alloc sk \<le> sk_len sk + 1")
      case True
      then show ?thesis
        using 2(2) room sk_grow_eq [of "sk_num_alloc sk"] by (auto simp: sk_room_def split: if_splits)
    next
      case False
      then show ?thesis using 2(3) room by (simp add: sk_room_def)
    qed
    then show ?thesis using 2(4) by (auto simp: sk_room_def min_def)
  qed (use room in simp)
  show "sk_flag_ok call_cmp sk'" if "sk_flag_ok call_cmp sk"
    using that by (cases rule: sk_insert_cases [OF assms]) (simp_all add: sk_flag_ok_def)
qed

lemmas deletions = sk_delete_ptr_def sk_shift_def sk_pop_def

lemma deletion_is_delete:
  assumes "sk_delete_ptr (Some sk) p = (r, Some sk') \<or> sk_shift (Some sk) = (r, Some sk')
      \<or> sk_pop (Some sk) = (r, Some sk')"
  obtains "sk' = sk" | w where "sk_delete (Some sk) w = (r, Some sk')"
  using assms by (fastforce simp: deletions split: if_splits option.splits)

lemma length_qsort [simp]: "length (qsort cmp xs) = length xs"
  by (metis mset_qsort size_mset)

lemma sorted_wrt_short: "\<not> 2 \<le> length xs \<Longrightarrow> sorted_wrt R xs"
  by (cases xs; cases "tl xs") auto

lemma sort_keeps:
  assumes "sk_sort call_cmp (Some sk) = Some sk'"
  shows "sk_room sk \<Longrightarrow> sk_room sk'"
    "sk_flag_ok call_cmp sk \<Longrightarrow> (\<And>c. cmp_order (call_cmp c)) \<Longrightarrow> sk_flag_ok call_cmp sk'"
proof -
  have sorted: "sorted_wrt (\<lambda>x y. call_cmp c x y \<le> 0) (qsort (call_cmp c) xs)" if "cmp_order (call_cmp c)" for c xs
    using cmp_order.qsort_ascending [OF that] by (simp add: cmp_order.ascending_def [OF that])
  then show "sk_room sk \<Longrightarrow> sk_room sk'"
    "sk_flag_ok call_cmp sk \<Longrightarrow> (\<And>c. cmp_order (call_cmp c)) \<Longrightarrow> sk_flag_ok call_cmp sk'"
    using assms sorted by (auto simp: sk_sort_def sk_room_def sk_flag_ok_def intro: sorted_wrt_short split: if_splits option.splits)
qed

lemma new_keeps:
  assumes "sk_new os f = Some sk"
  shows "sk_room sk" "sk_flag_ok call_cmp sk"
  using assms by (auto simp: sk_new_def sk_room_def sk_flag_ok_def kMinSize_def sizeof_ptr_def split: if_splits)

lemma others_keep:
  assumes "sk_zero (Some sk) = Some sk' \<or> sk_set_cmp_func sk f = (r, sk') \<or> sk_dup os (Some sk) = Some sk'"
  shows "sk_room sk \<Longrightarrow> sk_room sk'" "sk_flag_ok call_cmp sk \<Longrightarrow> sk_flag_ok call_cmp sk'"
  using assms by (auto simp: sk_zero_def sk_set_cmp_func_def sk_dup_def sk_new_def sk_room_def sk_flag_ok_def
      split: if_splits option.splits)

lemma step_keeps:
  assumes "sk_step call_cmp sk sk'"
  shows "sk_room sk \<Longrightarrow> sk_room sk'"
    "sk_flag_ok call_cmp sk \<Longrightarrow> (\<And>c. cmp_order (call_cmp c)) \<Longrightarrow> sk_flag_ok call_cmp sk'"
  using assms
  by (cases rule: sk_step.cases;
      (metis insert_keeps sk_push_def delete_keeps deletion_is_delete sort_keeps others_keep))+

theorem reached_ok:
  assumes "sk_reached call_cmp sk"
  shows "sk_room sk" "(\<And>c. cmp_order (call_cmp c)) \<Longrightarrow> sk_flag_ok call_cmp sk"
  using assms by (induction rule: sk_reached.induct) (auto intro: new_keeps step_keeps)

lemma reached_find:
  assumes "sk_reached call_cmp sk" "\<And>c. cmp_order (call_cmp c)" "sk_comp sk = Some c" "p \<noteq> None"
  shows "sk_find call_cmp (Some sk) p = sk_scan (\<lambda>e. call_cmp c p e = 0) (sk_data sk) 0"
proof -
  have "cmp_order.ascending (call_cmp c) (sk_data sk)" if "sk_sorted sk"
    using reached_ok(2) [OF assms(1,2)] that assms(3)
    by (simp add: sk_flag_ok_def cmp_order.ascending_def [OF assms(2)])
  then show ?thesis
    using assms(3,4) by (auto simp: sk_find_def sk_is_sorted_def cmp_order.bsearch_finds_first [OF assms(2)])
qed

end
