(* ===== verification/Lhash.thy ===== *)
theory Lhash
  imports Mem "HOL-Library.Multiset"
begin

text \<open>
  \<open>crypto/lhash/lhash.c\<close>: chained hash tables. A chain is the list of its items in \<open>next\<close>
  order; the \<open>LHASH_ITEM **\<close> that \<open>get_next_ptr_and_hash\<close> returns is the position of the
  item in its chain, the length of the chain when it points to \<open>NULL\<close>. The hash and
  comparison functions of a table are code pointers \<open>'h\<close> and \<open>'c\<close>; \<open>call_hash_func\<close> and
  \<open>call_cmp_func\<close>, arguments of the operations as in the code, call them.
\<close>

section \<open>State\<close>

record 'p LHASH_ITEM =
  lh_data :: 'p
  lh_hash :: u32

record ('p, 'h, 'c) LHASH =
  lh_items :: nat
  lh_buckets :: "'p LHASH_ITEM list list"
  lh_num_buckets :: nat
  lh_callback_depth :: u32
  lh_comp :: 'c
  lh_hash_func :: 'h

definition kMinNumBuckets :: nat where "kMinNumBuckets = 16"
definition kMaxAverageChainLength :: nat where "kMaxAverageChainLength = 2"
definition kMinAverageChainLength :: nat where "kMinAverageChainLength = 1"
definition sizeof_LHASH :: nat where "sizeof_LHASH = 48"
definition sizeof_LHASH_ITEM :: nat where "sizeof_LHASH_ITEM = 24"
definition sizeof_item_ptr :: nat where "sizeof_item_ptr = 8"

section \<open>Operations\<close>

definition lh_new :: "(nat \<Rightarrow> bool) \<Rightarrow> 'h \<Rightarrow> 'c \<Rightarrow> ('p, 'h, 'c) LHASH option" where
  "lh_new os hashf cmpf =
     (if \<not> malloc_ok os sizeof_LHASH then None
      else if \<not> malloc_ok os (sizeof_item_ptr * kMinNumBuckets) then None
      else Some \<lparr>lh_items = 0, lh_buckets = replicate kMinNumBuckets [], lh_num_buckets = kMinNumBuckets,
                 lh_callback_depth = 0, lh_comp = cmpf, lh_hash_func = hashf\<rparr>)"

definition lh_num_items :: "('p, 'h, 'c) LHASH \<Rightarrow> nat" where
  "lh_num_items lh = lh_items lh"

fun chain_pos :: "('p \<Rightarrow> bool) \<Rightarrow> 'p LHASH_ITEM list \<Rightarrow> nat" where
  "chain_pos stop [] = 0"
| "chain_pos stop (cur # rest) = (if stop (lh_data cur) then 0 else Suc (chain_pos stop rest))"

definition get_next_ptr_and_hash ::
    "('h \<Rightarrow> 'p \<Rightarrow> u32) \<Rightarrow> ('c \<Rightarrow> 'p \<Rightarrow> 'p \<Rightarrow> int) \<Rightarrow> ('p, 'h, 'c) LHASH \<Rightarrow> 'p \<Rightarrow> u32 \<times> nat \<times> nat" where
  "get_next_ptr_and_hash call_hash_func call_cmp_func lh data =
     (let hash = call_hash_func (lh_hash_func lh) data;
          b = unat hash mod lh_num_buckets lh
      in (hash, b, chain_pos (\<lambda>d. call_cmp_func (lh_comp lh) d data = 0) (lh_buckets lh ! b)))"

definition get_next_ptr_by_key ::
    "('p, 'h, 'c) LHASH \<Rightarrow> 'k \<Rightarrow> u32 \<Rightarrow> ('k \<Rightarrow> 'p \<Rightarrow> int) \<Rightarrow> nat \<times> nat" where
  "get_next_ptr_by_key lh key key_hash cmp_key =
     (let b = unat key_hash mod lh_num_buckets lh
      in (b, chain_pos (\<lambda>d. cmp_key key d = 0) (lh_buckets lh ! b)))"

definition item_at :: "('p, 'h, 'c) LHASH \<Rightarrow> nat \<Rightarrow> nat \<Rightarrow> 'p option" where
  "item_at lh b pos =
     (if pos = length (lh_buckets lh ! b) then None else Some (lh_data (lh_buckets lh ! b ! pos)))"

definition lh_retrieve ::
    "('h \<Rightarrow> 'p \<Rightarrow> u32) \<Rightarrow> ('c \<Rightarrow> 'p \<Rightarrow> 'p \<Rightarrow> int) \<Rightarrow> ('p, 'h, 'c) LHASH \<Rightarrow> 'p \<Rightarrow> 'p option" where
  "lh_retrieve call_hash_func call_cmp_func lh data =
     (let (_, b, pos) = get_next_ptr_and_hash call_hash_func call_cmp_func lh data in item_at lh b pos)"

definition lh_retrieve_key ::
    "('p, 'h, 'c) LHASH \<Rightarrow> 'k \<Rightarrow> u32 \<Rightarrow> ('k \<Rightarrow> 'p \<Rightarrow> int) \<Rightarrow> 'p option" where
  "lh_retrieve_key lh key key_hash cmp_key =
     (let (b, pos) = get_next_ptr_by_key lh key key_hash cmp_key in item_at lh b pos)"

text \<open>The body of the loop of \<open>lh_rebucket\<close>: an item goes to the head of its new chain.\<close>

definition move_item :: "nat \<Rightarrow> 'p LHASH_ITEM \<Rightarrow> 'p LHASH_ITEM list list \<Rightarrow> 'p LHASH_ITEM list list" where
  "move_item new_num_buckets cur new_buckets =
     (let new_bucket = unat (lh_hash cur) mod new_num_buckets
      in new_buckets[new_bucket := cur # new_buckets ! new_bucket])"

definition lh_rebucket :: "(nat \<Rightarrow> bool) \<Rightarrow> ('p, 'h, 'c) LHASH \<Rightarrow> nat \<Rightarrow> ('p, 'h, 'c) LHASH" where
  "lh_rebucket os lh new_num_buckets =
     (let alloc_size = sz (sizeof_item_ptr * new_num_buckets)
      in if alloc_size div sizeof_item_ptr \<noteq> new_num_buckets then lh
         else if \<not> malloc_ok os alloc_size then lh
         else lh\<lparr>lh_num_buckets := new_num_buckets,
                 lh_buckets := fold (fold (move_item new_num_buckets)) (lh_buckets lh)
                                 (replicate new_num_buckets [])\<rparr>)"

definition lh_maybe_resize :: "(nat \<Rightarrow> bool) \<Rightarrow> ('p, 'h, 'c) LHASH \<Rightarrow> ('p, 'h, 'c) LHASH" where
  "lh_maybe_resize os lh =
     (if lh_callback_depth lh > 0 then lh
      else let avg_chain_length = lh_items lh div lh_num_buckets lh
           in if avg_chain_length > kMaxAverageChainLength
              then let new_num_buckets = sz (lh_num_buckets lh * 2)
                   in if new_num_buckets > lh_num_buckets lh then lh_rebucket os lh new_num_buckets else lh
              else if avg_chain_length < kMinAverageChainLength \<and> lh_num_buckets lh > kMinNumBuckets
              then let new_num_buckets = lh_num_buckets lh div 2
                   in lh_rebucket os lh
                        (if new_num_buckets < kMinNumBuckets then kMinNumBuckets else new_num_buckets)
              else lh)"

text \<open>The result is the returned flag, \<open>*old_data\<close> and the table.\<close>

definition lh_insert ::
    "(nat \<Rightarrow> bool) \<Rightarrow> ('h \<Rightarrow> 'p \<Rightarrow> u32) \<Rightarrow> ('c \<Rightarrow> 'p \<Rightarrow> 'p \<Rightarrow> int) \<Rightarrow> ('p, 'h, 'c) LHASH \<Rightarrow> 'p
      \<Rightarrow> bool \<times> 'p option \<times> ('p, 'h, 'c) LHASH" where
  "lh_insert os call_hash_func call_cmp_func lh data =
     (let (hash, b, pos) = get_next_ptr_and_hash call_hash_func call_cmp_func lh data;
          chain = lh_buckets lh ! b
      in case item_at lh b pos of
           Some old \<Rightarrow>
             (True, Some old,
              lh\<lparr>lh_buckets := (lh_buckets lh)[b := chain[pos := (chain ! pos)\<lparr>lh_data := data\<rparr>]]\<rparr>)
         | None \<Rightarrow>
             if \<not> malloc_ok os sizeof_LHASH_ITEM then (False, None, lh)
             else (True, None,
                   lh_maybe_resize os
                     (lh\<lparr>lh_buckets := (lh_buckets lh)[b := chain @ [\<lparr>lh_data = data, lh_hash = hash\<rparr>]],
                         lh_items := sz (lh_items lh + 1)\<rparr>)))"

definition lh_delete ::
    "(nat \<Rightarrow> bool) \<Rightarrow> ('h \<Rightarrow> 'p \<Rightarrow> u32) \<Rightarrow> ('c \<Rightarrow> 'p \<Rightarrow> 'p \<Rightarrow> int) \<Rightarrow> ('p, 'h, 'c) LHASH \<Rightarrow> 'p
      \<Rightarrow> 'p option \<times> ('p, 'h, 'c) LHASH" where
  "lh_delete os call_hash_func call_cmp_func lh data =
     (let (_, b, pos) = get_next_ptr_and_hash call_hash_func call_cmp_func lh data;
          chain = lh_buckets lh ! b
      in case item_at lh b pos of
           None \<Rightarrow> (None, lh)
         | Some ret \<Rightarrow>
             (Some ret,
              lh_maybe_resize os
                (lh\<lparr>lh_buckets := (lh_buckets lh)[b := take pos chain @ drop (Suc pos) chain],
                    lh_items := sz (lh_items lh + (2 ^ 64 - 1))\<rparr>)))"

text \<open>
  \<open>lh_doall_arg\<close> with a callback that works on its own state \<open>arg\<close>; a callback that calls
  back into the table is outside the model.
\<close>

definition lh_doall_arg ::
    "(nat \<Rightarrow> bool) \<Rightarrow> ('p, 'h, 'c) LHASH option \<Rightarrow> ('p \<Rightarrow> 's \<Rightarrow> 's) \<Rightarrow> 's \<Rightarrow> 's \<times> ('p, 'h, 'c) LHASH option" where
  "lh_doall_arg os table func arg =
     (case table of
        None \<Rightarrow> (arg, None)
      | Some lh \<Rightarrow>
          (let lh = (if lh_callback_depth lh < - 1 then lh\<lparr>lh_callback_depth := lh_callback_depth lh + 1\<rparr> else lh);
               arg = fold (fold (\<lambda>cur. func (lh_data cur))) (lh_buckets lh) arg;
               lh = (if lh_callback_depth lh < - 1 then lh\<lparr>lh_callback_depth := lh_callback_depth lh - 1\<rparr> else lh)
           in (arg, Some (lh_maybe_resize os lh))))"

definition lh_strhash :: "u8 list option \<Rightarrow> u32" where
  "lh_strhash c = (case c of None \<Rightarrow> 0 | Some s \<Rightarrow> OPENSSL_hash32 (take (strlen s) s))"

section \<open>Contents\<close>

definition contents :: "('p, 'h, 'c) LHASH \<Rightarrow> 'p multiset" where
  "contents lh = mset (map lh_data (concat (lh_buckets lh)))"

definition placed :: "nat \<Rightarrow> 'p LHASH_ITEM list list \<Rightarrow> bool" where
  "placed n bs \<longleftrightarrow> length bs = n \<and> (\<forall>i < n. \<forall>it \<in> set (bs ! i). unat (lh_hash it) mod n = i)"

lemma mset_concat_update:
  "i < length bs \<Longrightarrow> mset (concat (bs[i := c])) + mset (bs ! i) = mset (concat bs) + mset c"
proof (induction bs arbitrary: i)
  case (Cons b bs)
  then show ?case by (cases i) (auto simp: ac_simps)
qed simp

lemma placed_bucket: "placed n bs \<Longrightarrow> it \<in> set (concat bs) \<Longrightarrow> it \<in> set (bs ! (unat (lh_hash it) mod n))"
  by (auto simp: placed_def in_set_conv_nth [of _ bs])

lemma placed_update:
  assumes "placed n bs" "\<forall>it \<in> set c. unat (lh_hash it) mod n = i"
  shows "placed n (bs[i := c])"
  using assms by (cases "i < n") (auto simp: placed_def nth_list_update)

lemma move_item_keeps:
  assumes "placed n bs" "0 < n"
  shows "placed n (move_item n cur bs)" "mset (concat (move_item n cur bs)) = add_mset cur (mset (concat bs))"
proof -
  let ?b = "unat (lh_hash cur) mod n"
  have b: "?b < length bs" using assms by (simp add: placed_def)
  show "placed n (move_item n cur bs)"
    unfolding move_item_def Let_def using assms b by (intro placed_update) (auto simp: placed_def)
  show "mset (concat (move_item n cur bs)) = add_mset cur (mset (concat bs))"
    using mset_concat_update [OF b, of "cur # bs ! ?b"] by (simp add: move_item_def Let_def)
qed

lemma move_chain_keeps:
  "placed n bs \<Longrightarrow> 0 < n \<Longrightarrow> placed n (fold (move_item n) chain bs)
    \<and> mset (concat (fold (move_item n) chain bs)) = mset chain + mset (concat bs)"
  by (induction chain arbitrary: bs) (simp_all add: move_item_keeps)

lemma move_all_keeps:
  "placed n bs \<Longrightarrow> 0 < n \<Longrightarrow> placed n (fold (fold (move_item n)) css bs)
    \<and> mset (concat (fold (fold (move_item n)) css bs)) = mset (concat css) + mset (concat bs)"
  by (induction css arbitrary: bs) (simp_all add: move_chain_keeps ac_simps)

text \<open>The shape every operation keeps; \<open>h\<close> is the hash of a datum.\<close>

definition lh_shape :: "('p \<Rightarrow> u32) \<Rightarrow> ('p, 'h, 'c) LHASH \<Rightarrow> bool" where
  "lh_shape h lh \<longleftrightarrow>
     kMinNumBuckets \<le> lh_num_buckets lh \<and> placed (lh_num_buckets lh) (lh_buckets lh)
     \<and> (\<forall>it \<in> set (concat (lh_buckets lh)). lh_hash it = h (lh_data it))
     \<and> lh_items lh = size (contents lh)"

lemma rebucket_keeps:
  assumes "lh_shape h lh" "kMinNumBuckets \<le> n"
  shows "lh_shape h (lh_rebucket os lh n)" "contents (lh_rebucket os lh n) = contents lh"
    "lh_comp (lh_rebucket os lh n) = lh_comp lh" "lh_hash_func (lh_rebucket os lh n) = lh_hash_func lh"
proof -
  let ?bs = "fold (fold (move_item n)) (lh_buckets lh) (replicate n [])"
  have n: "0 < n" using assms(2) by (simp add: kMinNumBuckets_def)
  have empty: "concat (replicate n []) = ([] :: 'a LHASH_ITEM list)" by (induction n) simp_all
  have "placed n (replicate n [])" by (simp add: placed_def)
  then have moved: "placed n ?bs" "mset (concat ?bs) = mset (concat (lh_buckets lh))"
    using move_all_keeps [OF _ n, of "replicate n []" "lh_buckets lh"] empty by auto
  then have "set (concat ?bs) = set (concat (lh_buckets lh))" by (metis set_mset_mset)
  moreover have "mset (map lh_data (concat ?bs)) = mset (map lh_data (concat (lh_buckets lh)))"
    unfolding mset_map moved(2) ..
  moreover have "length (concat ?bs) = length (concat (lh_buckets lh))"
    using moved(2) by (rule mset_eq_length)
  ultimately show "lh_shape h (lh_rebucket os lh n)" "contents (lh_rebucket os lh n) = contents lh"
    using assms moved(1) by (auto simp: lh_rebucket_def lh_shape_def contents_def Let_def)
qed (simp_all add: lh_rebucket_def Let_def)

lemma resize_keeps:
  assumes "lh_shape h lh"
  shows "lh_shape h (lh_maybe_resize os lh)" "contents (lh_maybe_resize os lh) = contents lh"
    "lh_comp (lh_maybe_resize os lh) = lh_comp lh" "lh_hash_func (lh_maybe_resize os lh) = lh_hash_func lh"
proof -
  have "lh_maybe_resize os lh = lh \<or> (\<exists>n. kMinNumBuckets \<le> n \<and> lh_maybe_resize os lh = lh_rebucket os lh n)"
  proof -
    have "kMinNumBuckets \<le> lh_num_buckets lh" using assms by (simp add: lh_shape_def)
    then have "lh_num_buckets lh < n \<Longrightarrow> kMinNumBuckets \<le> n" for n by linarith
    then show ?thesis
      by (auto simp: lh_maybe_resize_def Let_def not_less)
  qed
  then show "lh_shape h (lh_maybe_resize os lh)" "contents (lh_maybe_resize os lh) = contents lh"
    "lh_comp (lh_maybe_resize os lh) = lh_comp lh" "lh_hash_func (lh_maybe_resize os lh) = lh_hash_func lh"
    using assms rebucket_keeps [OF assms] by metis+
qed

lemma contents_update:
  assumes "b < length (lh_buckets lh)"
  shows "contents (lh\<lparr>lh_buckets := (lh_buckets lh)[b := c]\<rparr>) + mset (map lh_data (lh_buckets lh ! b))
    = contents lh + mset (map lh_data c)"
  using arg_cong [OF mset_concat_update [OF assms, of c], of "image_mset lh_data"]
  by (simp add: contents_def)

lemma set_concat_update: "it \<in> set (concat (bs[b := c])) \<Longrightarrow> it \<in> set (concat bs) \<or> it \<in> set c"
  using set_update_subset_insert [of bs b c] by auto

definition well_hashed :: "('p \<Rightarrow> u32) \<Rightarrow> nat \<Rightarrow> nat \<Rightarrow> 'p LHASH_ITEM list \<Rightarrow> bool" where
  "well_hashed h n b c \<longleftrightarrow> (\<forall>it \<in> set c. lh_hash it = h (lh_data it) \<and> unat (lh_hash it) mod n = b)"

lemma well_hashed_mono: "well_hashed h n b c \<Longrightarrow> set c' \<subseteq> set c \<Longrightarrow> well_hashed h n b c'"
  by (auto simp: well_hashed_def)

lemma shape_update:
  assumes "lh_shape h lh" "b < lh_num_buckets lh"
    and "well_hashed h (lh_num_buckets lh) b c"
    and "k = size (contents (lh\<lparr>lh_buckets := (lh_buckets lh)[b := c]\<rparr>))"
  shows "lh_shape h (lh\<lparr>lh_buckets := (lh_buckets lh)[b := c], lh_items := k\<rparr>)"
  using assms set_concat_update [of _ "lh_buckets lh" b c]
  by (auto simp: lh_shape_def contents_def well_hashed_def intro!: placed_update simp del: set_concat)

lemma chain_pos_le: "chain_pos stop c \<le> length c"
  by (induction c) auto

lemma chain_pos_length: "chain_pos stop c = length c \<longleftrightarrow> (\<forall>it \<in> set c. \<not> stop (lh_data it))"
  by (induction c) auto

lemma chain_pos_nth: "chain_pos stop c < length c \<Longrightarrow> stop (lh_data (c ! chain_pos stop c))"
  by (induction c) auto

section \<open>The table as a set of inequivalent elements\<close>

text \<open>
  What a caller of the table provides: the comparison is an equivalence and equal elements
  have equal hashes.
\<close>

locale hash_laws =
  fixes h :: "'p \<Rightarrow> u32" and eqv :: "'p \<Rightarrow> 'p \<Rightarrow> bool"
  assumes eqv_refl: "eqv x x"
    and eqv_sym: "eqv x y \<Longrightarrow> eqv y x"
    and eqv_trans: "eqv x y \<Longrightarrow> eqv y z \<Longrightarrow> eqv x z"
    and eqv_hash: "eqv x y \<Longrightarrow> h x = h y"
begin

definition apart :: "'p multiset \<Rightarrow> bool" where
  "apart M \<longleftrightarrow> (\<forall>x \<in># M. size (filter_mset (eqv x) M) = 1)"

lemma apart_empty: "apart {#}"
  by (simp add: apart_def)

lemma apart_add: "apart (add_mset d M) \<longleftrightarrow> apart M \<and> (\<forall>y \<in># M. \<not> eqv y d)"
proof -
  have "size (filter_mset (eqv d) M) = 0 \<longleftrightarrow> (\<forall>y \<in># M. \<not> eqv y d)"
    by (auto simp: filter_empty_mset intro: eqv_sym)
  then show ?thesis
    by (auto simp: apart_def eqv_refl)
qed

lemma apart_unique: "apart M \<Longrightarrow> x \<in># M \<Longrightarrow> y \<in># M \<Longrightarrow> eqv x y \<Longrightarrow> x = y"
proof -
  assume "apart M" "x \<in># M" "y \<in># M" "eqv x y"
  then obtain a where "filter_mset (eqv x) M = {#a#}"
    unfolding apart_def by (metis size_1_singleton_mset)
  then have "{z. z \<in># M \<and> eqv x z} = {a}"
    by (metis set_mset_filter set_mset_single)
  then have "x = a" "y = a"
    using \<open>x \<in># M\<close> \<open>y \<in># M\<close> \<open>eqv x y\<close> eqv_refl by blast+
  then show "x = y" by simp
qed

definition table_ok ::
    "('h \<Rightarrow> 'p \<Rightarrow> u32) \<Rightarrow> ('c \<Rightarrow> 'p \<Rightarrow> 'p \<Rightarrow> int) \<Rightarrow> ('p, 'h, 'c) LHASH \<Rightarrow> bool" where
  "table_ok call_hash_func call_cmp_func lh \<longleftrightarrow>
     lh_shape h lh \<and> apart (contents lh) \<and> call_hash_func (lh_hash_func lh) = h
     \<and> (\<forall>x y. call_cmp_func (lh_comp lh) x y = 0 \<longleftrightarrow> eqv x y)"

lemma get_next_ptr:
  assumes "table_ok ch cc lh"
  obtains b pos where "get_next_ptr_and_hash ch cc lh x = (h x, b, pos)"
    "b = unat (h x) mod lh_num_buckets lh" "b < lh_num_buckets lh" "b < length (lh_buckets lh)"
    "pos = chain_pos (\<lambda>d. eqv d x) (lh_buckets lh ! b)" "pos \<le> length (lh_buckets lh ! b)"
proof
  let ?b = "unat (h x) mod lh_num_buckets lh"
  show "get_next_ptr_and_hash ch cc lh x = (h x, ?b, chain_pos (\<lambda>d. eqv d x) (lh_buckets lh ! ?b))"
    using assms by (simp add: get_next_ptr_and_hash_def table_ok_def Let_def)
  show "?b < lh_num_buckets lh" "?b < length (lh_buckets lh)"
    using assms by (auto simp: table_ok_def lh_shape_def placed_def kMinNumBuckets_def)
qed (auto intro: chain_pos_le)

lemma bucket_of:
  assumes "table_ok ch cc lh" "d \<in># contents lh" "eqv d x"
  obtains it where "it \<in> set (lh_buckets lh ! (unat (h x) mod lh_num_buckets lh))" "lh_data it = d"
proof -
  from assms(2) obtain it where it: "it \<in> set (concat (lh_buckets lh))" "lh_data it = d"
    by (auto simp: contents_def)
  then have "lh_hash it = h x"
    using assms eqv_hash [OF assms(3)] unfolding table_ok_def lh_shape_def by metis
  then show thesis
    using that placed_bucket [OF _ it(1)] assms(1) it(2) by (auto simp: table_ok_def lh_shape_def)
qed

lemma in_contents: "b < length (lh_buckets lh) \<Longrightarrow> it \<in> set (lh_buckets lh ! b) \<Longrightarrow> lh_data it \<in># contents lh"
  by (auto simp: contents_def intro!: imageI bexI [of _ "lh_buckets lh ! b"])

lemma item_at_iff:
  assumes ok: "table_ok ch cc lh"
    and ptr: "get_next_ptr_and_hash ch cc lh x = (hash, b, pos)"
  shows "item_at lh b pos = Some d \<longleftrightarrow> d \<in># contents lh \<and> eqv d x"
proof -
  from get_next_ptr [OF ok, of x] ptr
  have b: "b = unat (h x) mod lh_num_buckets lh" "b < length (lh_buckets lh)"
    and pos: "pos = chain_pos (\<lambda>d. eqv d x) (lh_buckets lh ! b)" "pos \<le> length (lh_buckets lh ! b)"
    by (metis Pair_inject)+
  show ?thesis
  proof (cases "pos = length (lh_buckets lh ! b)")
    case True
    then have "\<not> eqv d x" if "d \<in># contents lh"
      using bucket_of [OF ok that] pos b(1) by (metis chain_pos_length)
    then show ?thesis using True by (auto simp: item_at_def)
  next
    case False
    let ?d = "lh_data (lh_buckets lh ! b ! pos)"
    have "pos < length (lh_buckets lh ! b)" using False pos(2) by simp
    then have d: "?d \<in># contents lh" "eqv ?d x"
      using in_contents [OF b(2)] chain_pos_nth [of "\<lambda>d. eqv d x" "lh_buckets lh ! b"] pos(1) by auto
    have "d = ?d" if "d \<in># contents lh" "eqv d x"
      using apart_unique [of "contents lh"] ok that d eqv_trans eqv_sym unfolding table_ok_def by metis
    then show ?thesis using False d by (auto simp: item_at_def)
  qed
qed

lemma retrieve_iff:
  "table_ok ch cc lh \<Longrightarrow> lh_retrieve ch cc lh x = Some d \<longleftrightarrow> d \<in># contents lh \<and> eqv d x"
  using item_at_iff [of ch cc lh x] by (auto simp: lh_retrieve_def split: prod.splits)

lemma retrieve_None_iff: "table_ok ch cc lh \<Longrightarrow> lh_retrieve ch cc lh x = None \<longleftrightarrow> (\<forall>d \<in># contents lh. \<not> eqv d x)"
  using retrieve_iff [of ch cc lh x] by (metis option.exhaust option.distinct(1))

lemma new_table:
  assumes "lh_new os f c = Some lh" "ch f = h" "\<forall>x y. cc c x y = 0 \<longleftrightarrow> eqv x y"
  shows "table_ok ch cc lh" "contents lh = {#}"
  using assms
  by (auto simp: lh_new_def table_ok_def lh_shape_def contents_def placed_def apart_def split: if_splits)

lemma table_ok_resize:
  assumes "table_ok ch cc lh"
  shows "table_ok ch cc (lh_maybe_resize os lh)"
  using assms resize_keeps [of h lh os] by (simp add: table_ok_def)

lemma with_chain:
  assumes ok: "table_ok ch cc lh" and b: "b < lh_num_buckets lh"
    and c: "well_hashed h (lh_num_buckets lh) b c"
    and M: "mset (map lh_data c) + contents lh = M + mset (map lh_data (lh_buckets lh ! b))" "apart M"
  shows "table_ok ch cc (lh\<lparr>lh_buckets := (lh_buckets lh)[b := c], lh_items := size M\<rparr>)"
    "contents (lh\<lparr>lh_buckets := (lh_buckets lh)[b := c], lh_items := size M\<rparr>) = M"
proof -
  have "b < length (lh_buckets lh)" using ok b by (simp add: table_ok_def lh_shape_def placed_def)
  then have "contents (lh\<lparr>lh_buckets := (lh_buckets lh)[b := c]\<rparr>) = M"
    using contents_update [of b lh c] M(1) by (metis add.commute add_right_cancel)
  then have "contents (lh\<lparr>lh_buckets := (lh_buckets lh)[b := c], lh_items := size M\<rparr>) = M"
    "lh_shape h (lh\<lparr>lh_buckets := (lh_buckets lh)[b := c], lh_items := size M\<rparr>)"
    using shape_update [OF _ b c, of "size M"] ok by (simp_all add: contents_def table_ok_def)
  then show "table_ok ch cc (lh\<lparr>lh_buckets := (lh_buckets lh)[b := c], lh_items := size M\<rparr>)"
    "contents (lh\<lparr>lh_buckets := (lh_buckets lh)[b := c], lh_items := size M\<rparr>) = M"
    using ok M(2) by (simp_all add: table_ok_def)
qed

lemma chain_ok:
  assumes "table_ok ch cc lh" "b < lh_num_buckets lh"
  shows "well_hashed h (lh_num_buckets lh) b (lh_buckets lh ! b)"
  using assms by (auto simp: table_ok_def lh_shape_def placed_def well_hashed_def)

lemma replace_in_chain:
  assumes ok: "table_ok ch cc lh" and ptr: "get_next_ptr_and_hash ch cc lh d = (h d, b, pos)"
    and b: "b < lh_num_buckets lh" and e: "item_at lh b pos = Some e" and pos: "pos \<le> length (lh_buckets lh ! b)"
  defines "c \<equiv> (lh_buckets lh ! b)[pos := (lh_buckets lh ! b ! pos)\<lparr>lh_data := d\<rparr>]"
  shows "table_ok ch cc (lh\<lparr>lh_buckets := (lh_buckets lh)[b := c]\<rparr>)"
    "contents (lh\<lparr>lh_buckets := (lh_buckets lh)[b := c]\<rparr>) = add_mset d (contents lh - {#e#})"
proof -
  let ?chain = "lh_buckets lh ! b"
  have at: "pos < length ?chain" "lh_data (?chain ! pos) = e"
    using e pos by (auto simp: item_at_def split: if_splits)
  have eqv: "eqv e d" "e \<in># contents lh" using e item_at_iff [OF ok ptr] by auto
  then obtain M where M: "contents lh = add_mset e M" by (meson mset_add)
  have "e \<in># mset (map lh_data ?chain)"
    using imageI [OF nth_mem [OF at(1)], of lh_data] at(2) by simp
  then obtain A where A: "mset (map lh_data ?chain) = add_mset e A" by (meson mset_add)
  have "mset (map lh_data c) = add_mset d A"
    using at A by (simp add: c_def map_update mset_update)
  then have mset: "mset (map lh_data c) + contents lh = add_mset d M + mset (map lh_data ?chain)"
    unfolding M A by simp
  have apart: "apart (add_mset d M)"
  proof -
    have "apart M" "\<forall>y \<in># M. \<not> eqv y e" using ok M by (simp_all add: table_ok_def apart_add)
    moreover have "eqv y d \<Longrightarrow> eqv y e" for y using eqv(1) by (blast intro: eqv_trans eqv_sym)
    ultimately show ?thesis by (auto simp: apart_add)
  qed
  have "well_hashed h (lh_num_buckets lh) b (((?chain ! pos)\<lparr>lh_data := d\<rparr>) # ?chain)"
  proof -
    have "\<forall>it \<in> set ?chain. lh_hash it = h (lh_data it) \<and> unat (lh_hash it) mod lh_num_buckets lh = b"
      using chain_ok [OF ok b] by (simp only: well_hashed_def)
    moreover from this have "lh_hash (?chain ! pos) = h d" "unat (lh_hash (?chain ! pos)) mod lh_num_buckets lh = b"
      using nth_mem [OF at(1)] at(2) eqv_hash [OF eqv(1)] by metis+
    ultimately show ?thesis unfolding well_hashed_def by simp metis
  qed
  then have "well_hashed h (lh_num_buckets lh) b c"
    by (rule well_hashed_mono) (auto simp: c_def dest: set_update_subset_insert [THEN subsetD])
  then have new: "table_ok ch cc (lh\<lparr>lh_buckets := (lh_buckets lh)[b := c], lh_items := size (add_mset d M)\<rparr>)"
    "contents (lh\<lparr>lh_buckets := (lh_buckets lh)[b := c], lh_items := size (add_mset d M)\<rparr>) = add_mset d M"
    using with_chain [OF ok b _ mset apart] by auto
  have "lh_items lh = size (add_mset d M)" using ok M by (simp add: table_ok_def lh_shape_def)
  then have "lh\<lparr>lh_buckets := (lh_buckets lh)[b := c], lh_items := size (add_mset d M)\<rparr>
      = lh\<lparr>lh_buckets := (lh_buckets lh)[b := c]\<rparr>" by (cases lh) simp
  then show "table_ok ch cc (lh\<lparr>lh_buckets := (lh_buckets lh)[b := c]\<rparr>)"
    "contents (lh\<lparr>lh_buckets := (lh_buckets lh)[b := c]\<rparr>) = add_mset d (contents lh - {#e#})"
    using new M by simp_all
qed

lemma append_to_chain:
  assumes ok: "table_ok ch cc lh" and ptr: "get_next_ptr_and_hash ch cc lh d = (h d, b, pos)"
    and b: "b < lh_num_buckets lh" "b = unat (h d) mod lh_num_buckets lh" and none: "item_at lh b pos = None"
  defines "lh1 \<equiv> lh\<lparr>lh_buckets := (lh_buckets lh)[b := lh_buckets lh ! b @ [\<lparr>lh_data = d, lh_hash = h d\<rparr>]],
      lh_items := lh_items lh + 1\<rparr>"
  shows "table_ok ch cc lh1" "contents lh1 = add_mset d (contents lh)"
proof -
  have "apart (add_mset d (contents lh))"
    using ok none item_at_iff [OF ok ptr] by (auto simp: table_ok_def apart_add)
  moreover have "lh_items lh + 1 = size (add_mset d (contents lh))"
    using ok by (simp add: table_ok_def lh_shape_def)
  moreover have "well_hashed h (lh_num_buckets lh) b (lh_buckets lh ! b @ [\<lparr>lh_data = d, lh_hash = h d\<rparr>])"
    using chain_ok [OF ok b(1)] b(2) by (auto simp: well_hashed_def)
  ultimately show "table_ok ch cc lh1" "contents lh1 = add_mset d (contents lh)"
    unfolding lh1_def using
      with_chain [OF ok b(1), of "lh_buckets lh ! b @ [\<lparr>lh_data = d, lh_hash = h d\<rparr>]" "add_mset d (contents lh)"]
    by auto
qed

lemma insert_contents:
  assumes ok: "table_ok ch cc lh" and room: "lh_items lh + 1 < 2 ^ 64"
    and ins: "lh_insert os ch cc lh d = (r, old, lh')"
  shows "table_ok ch cc lh' \<and> old = lh_retrieve ch cc lh d
    \<and> (r \<longrightarrow> contents lh' = add_mset d (contents lh - (case old of None \<Rightarrow> {#} | Some e \<Rightarrow> {#e#})))
    \<and> (\<not> r \<longrightarrow> lh' = lh)"
proof -
  obtain b pos where ptr: "get_next_ptr_and_hash ch cc lh d = (h d, b, pos)"
    and b: "b = unat (h d) mod lh_num_buckets lh" "b < lh_num_buckets lh"
    and pos: "pos \<le> length (lh_buckets lh ! b)"
    by (rule get_next_ptr [OF ok])
  have look: "item_at lh b pos = lh_retrieve ch cc lh d" by (simp add: lh_retrieve_def ptr)
  show ?thesis
  proof (cases "item_at lh b pos")
    case (Some e)
    then have "lh_retrieve ch cc lh d = Some e" using look by simp
    moreover have "r" "old = Some e" using ins by (auto simp: lh_insert_def ptr Let_def Some)
    ultimately show ?thesis
      using ins replace_in_chain [OF ok ptr b(2) Some pos] by (simp add: lh_insert_def ptr Let_def Some)
  next
    case None
    note app = append_to_chain [OF ok ptr b(2,1) None]
    show ?thesis
      using ins look None room ok app(2) table_ok_resize [OF app(1), of os] app(1)
        resize_keeps(2) [of h, OF app(1) [unfolded table_ok_def, THEN conjunct1], of os]
      by (auto simp: lh_insert_def ptr Let_def split: if_splits)
  qed
qed

lemma delete_contents:
  assumes ok: "table_ok ch cc lh" and room: "lh_items lh < 2 ^ 64"
    and del: "lh_delete os ch cc lh d = (ret, lh')"
  shows "table_ok ch cc lh' \<and> ret = lh_retrieve ch cc lh d
    \<and> contents lh' = contents lh - (case ret of None \<Rightarrow> {#} | Some e \<Rightarrow> {#e#})"
proof -
  obtain b pos where ptr: "get_next_ptr_and_hash ch cc lh d = (h d, b, pos)"
    and b: "b = unat (h d) mod lh_num_buckets lh" "b < lh_num_buckets lh"
    and pos: "pos \<le> length (lh_buckets lh ! b)"
    by (rule get_next_ptr [OF ok])
  have look: "item_at lh b pos = lh_retrieve ch cc lh d" by (simp add: lh_retrieve_def ptr)
  show ?thesis
  proof (cases "item_at lh b pos")
    case None
    then show ?thesis using del look ok by (auto simp: lh_delete_def ptr Let_def)
  next
    case (Some e)
    let ?chain = "lh_buckets lh ! b"
    let ?c = "take pos ?chain @ drop (Suc pos) ?chain"
    have at: "pos < length ?chain" "lh_data (?chain ! pos) = e"
      using Some pos by (auto simp: item_at_def split: if_splits)
    obtain M where M: "contents lh = add_mset e M"
      using Some item_at_iff [OF ok ptr] by (meson mset_add)
    have "mset (map lh_data ?chain) = add_mset e (mset (map lh_data ?c))"
      using arg_cong [OF id_take_nth_drop [OF at(1)], of "\<lambda>c. mset (map lh_data c)"] at(2) by simp
    then have mset: "mset (map lh_data ?c) + contents lh = M + mset (map lh_data ?chain)"
      unfolding M by simp
    have "apart M" using ok M by (simp add: table_ok_def apart_add)
    moreover have "well_hashed h (lh_num_buckets lh) b ?c"
      using chain_ok [OF ok b(2)] by (rule well_hashed_mono) (auto dest: in_set_takeD in_set_dropD)
    moreover have "sz (lh_items lh + (2 ^ 64 - 1)) = size M"
      using ok M room by (simp add: table_ok_def lh_shape_def sz_def)
    moreover from calculation have lh1: "table_ok ch cc (lh\<lparr>lh_buckets := (lh_buckets lh)[b := ?c], lh_items := size M\<rparr>)"
      "contents (lh\<lparr>lh_buckets := (lh_buckets lh)[b := ?c], lh_items := size M\<rparr>) = M"
      using with_chain [OF ok b(2) _ mset] by auto
    moreover have "lh_retrieve ch cc lh d = Some e" using look Some by simp
    moreover have "ret = Some e" "lh' = lh_maybe_resize os
        (lh\<lparr>lh_buckets := (lh_buckets lh)[b := ?c], lh_items := sz (lh_items lh + (2 ^ 64 - 1))\<rparr>)"
      using del by (auto simp: lh_delete_def ptr Let_def Some)
    ultimately show ?thesis
      using table_ok_resize [OF lh1(1), of os]
        resize_keeps(2) [of h, OF lh1(1) [unfolded table_ok_def, THEN conjunct1], of os] M
      by simp
  qed
qed

text \<open>The element equivalent to \<open>x\<close> after the one equivalent to \<open>d\<close> has gone.\<close>

lemma equivalent_after_removal:
  assumes "apart M" "\<And>e. old = Some e \<longleftrightarrow> e \<in># M \<and> eqv e d" "old = None \<longleftrightarrow> (\<forall>y \<in># M. \<not> eqv y d)"
  shows "y \<in># M - (case old of None \<Rightarrow> {#} | Some e \<Rightarrow> {#e#}) \<and> eqv y x \<longleftrightarrow> y \<in># M \<and> eqv y x \<and> \<not> eqv d x"
proof (cases old)
  case None
  then have "\<not> eqv y d" if "y \<in># M" for y using assms(3) that by simp
  moreover have "eqv y x \<Longrightarrow> eqv d x \<Longrightarrow> eqv y d" by (rule eqv_trans [OF _ eqv_sym])
  ultimately show ?thesis unfolding None by (simp only: option.case diff_empty) blast
next
  case (Some e)
  then have e: "eqv e d" "e \<in># M" using assms(2) [of e] by auto
  from mset_add [OF e(2)] obtain N where M: "M = add_mset e N" .
  have "\<not> eqv y e" if "y \<in># N"
    using assms(1) that M by (simp add: apart_add)
  moreover have "eqv d x \<longleftrightarrow> eqv e x" using eqv_trans [OF e(1)] eqv_trans [OF eqv_sym [OF e(1)]] by blast
  moreover have "eqv y x \<Longrightarrow> eqv e x \<Longrightarrow> eqv y e" by (rule eqv_trans [OF _ eqv_sym])
  ultimately show ?thesis using Some M by auto
qed

lemma retrieve_by:
  assumes "table_ok ch cc lh" "\<And>y. y \<in># contents lh \<and> eqv y x \<longleftrightarrow> r = Some y"
  shows "lh_retrieve ch cc lh x = r"
  using retrieve_iff [OF assms(1), of x] assms(2) by (metis not_Some_eq)

lemma insert_retrieve:
  assumes ok: "table_ok ch cc lh" and room: "lh_items lh + 1 < 2 ^ 64"
    and ins: "lh_insert os ch cc lh d = (True, old, lh')"
  shows "lh_retrieve ch cc lh' x = (if eqv d x then Some d else lh_retrieve ch cc lh x)"
proof (rule retrieve_by)
  note new = insert_contents [OF ok room ins]
  show "table_ok ch cc lh'" using new by simp
  have "y \<in># contents lh - (case old of None \<Rightarrow> {#} | Some e \<Rightarrow> {#e#}) \<and> eqv y x
      \<longleftrightarrow> y \<in># contents lh \<and> eqv y x \<and> \<not> eqv d x" for y
    using new ok by (intro equivalent_after_removal)
      (simp_all add: table_ok_def retrieve_iff [OF ok] retrieve_None_iff [OF ok])
  then show "y \<in># contents lh' \<and> eqv y x \<longleftrightarrow> (if eqv d x then Some d else lh_retrieve ch cc lh x) = Some y" for y
    using new retrieve_iff [OF ok] by auto
qed

lemma delete_retrieve:
  assumes ok: "table_ok ch cc lh" and room: "lh_items lh < 2 ^ 64"
    and del: "lh_delete os ch cc lh d = (ret, lh')"
  shows "lh_retrieve ch cc lh' x = (if eqv d x then None else lh_retrieve ch cc lh x)"
proof (rule retrieve_by)
  note new = delete_contents [OF ok room del]
  show "table_ok ch cc lh'" using new by simp
  have "y \<in># contents lh - (case ret of None \<Rightarrow> {#} | Some e \<Rightarrow> {#e#}) \<and> eqv y x
      \<longleftrightarrow> y \<in># contents lh \<and> eqv y x \<and> \<not> eqv d x" for y
    using new ok by (intro equivalent_after_removal)
      (simp_all add: table_ok_def retrieve_iff [OF ok] retrieve_None_iff [OF ok])
  then show "y \<in># contents lh' \<and> eqv y x \<longleftrightarrow> (if eqv d x then None else lh_retrieve ch cc lh x) = Some y" for y
    using new retrieve_iff [OF ok] by auto
qed

end

end
