(* ===== verification/Buf.thy ===== *)
theory Buf
  imports Mem
begin

text \<open>
  \<open>crypto/buf/buf.c\<close> and the memory BIO of \<open>crypto/bio/bio_mem.c\<close>. The block behind a
  \<open>BUF_MEM\<close> is the list of its \<open>max\<close> bytes, \<open>None\<close> for \<open>NULL\<close>; the first \<open>length\<close> of them
  are the contents. A fresh block holds whatever \<open>malloc\<close> left there, the argument \<open>junk\<close>.
\<close>

section \<open>Buffers\<close>

record BUF_MEM =
  bm_length :: nat
  bm_data :: "u8 list option"
  bm_max :: nat

definition sizeof_BUF_MEM :: nat where "sizeof_BUF_MEM = 24"

definition BUF_MEM_new :: "(nat \<Rightarrow> bool) \<Rightarrow> BUF_MEM option" where
  "BUF_MEM_new os =
     (if malloc_ok os sizeof_BUF_MEM then Some \<lparr>bm_length = 0, bm_data = None, bm_max = 0\<rparr> else None)"

definition BUF_MEM_reserve :: "(nat \<Rightarrow> bool) \<Rightarrow> (nat \<Rightarrow> u8) \<Rightarrow> BUF_MEM \<Rightarrow> nat \<Rightarrow> bool \<times> BUF_MEM" where
  "BUF_MEM_reserve os junk buf cap =
     (if bm_max buf \<ge> cap then (True, buf)
      else let n = sz (cap + 3)
           in if n < cap then (False, buf)
              else let n = n div 3;
                       alloc_size = sz (n * 4)
                   in if alloc_size div 4 \<noteq> n then (False, buf)
                      else case OPENSSL_realloc os junk (bm_data buf) alloc_size of
                             None \<Rightarrow> (False, buf)
                           | Some new_buf \<Rightarrow> (True, buf\<lparr>bm_data := Some new_buf, bm_max := alloc_size\<rparr>))"

text \<open>\<open>memset\<close> and \<open>memcpy\<close> into the block.\<close>

definition poke :: "nat \<Rightarrow> u8 list \<Rightarrow> u8 list option \<Rightarrow> u8 list option" where
  "poke i bytes = map_option (\<lambda>data. take i data @ bytes @ drop (i + length bytes) data)"

definition BUF_MEM_grow :: "(nat \<Rightarrow> bool) \<Rightarrow> (nat \<Rightarrow> u8) \<Rightarrow> BUF_MEM \<Rightarrow> nat \<Rightarrow> nat \<times> BUF_MEM" where
  "BUF_MEM_grow os junk buf len =
     (case BUF_MEM_reserve os junk buf len of
        (False, buf) \<Rightarrow> (0, buf)
      | (True, buf) \<Rightarrow>
          (let buf = (if bm_length buf < len
                      then buf\<lparr>bm_data := poke (bm_length buf) (replicate (len - bm_length buf) 0) (bm_data buf)\<rparr>
                      else buf)
           in (len, buf\<lparr>bm_length := len\<rparr>)))"

definition BUF_MEM_grow_clean :: "(nat \<Rightarrow> bool) \<Rightarrow> (nat \<Rightarrow> u8) \<Rightarrow> BUF_MEM \<Rightarrow> nat \<Rightarrow> nat \<times> BUF_MEM" where
  "BUF_MEM_grow_clean = BUF_MEM_grow"

definition BUF_MEM_append :: "(nat \<Rightarrow> bool) \<Rightarrow> (nat \<Rightarrow> u8) \<Rightarrow> BUF_MEM \<Rightarrow> u8 list \<Rightarrow> bool \<times> BUF_MEM" where
  "BUF_MEM_append os junk buf bytes =
     (let len = length bytes
      in if len = 0 then (True, buf)
         else let new_len = sz (bm_length buf + len)
              in if new_len < len then (False, buf)
                 else case BUF_MEM_reserve os junk buf new_len of
                        (False, buf) \<Rightarrow> (False, buf)
                      | (True, buf) \<Rightarrow>
                          (True, buf\<lparr>bm_data := poke (bm_length buf) bytes (bm_data buf), bm_length := new_len\<rparr>))"

definition bm_bytes :: "BUF_MEM \<Rightarrow> u8 list" where
  "bm_bytes buf = take (bm_length buf) (case bm_data buf of None \<Rightarrow> [] | Some data \<Rightarrow> data)"

definition bm_wf :: "BUF_MEM \<Rightarrow> bool" where
  "bm_wf buf \<longleftrightarrow> bm_length buf \<le> bm_max buf \<and> bm_max buf < 2 ^ 64
     \<and> (case bm_data buf of None \<Rightarrow> bm_max buf = 0 | Some data \<Rightarrow> length data = bm_max buf)"

lemma BUF_MEM_new_wf: "BUF_MEM_new os = Some buf \<Longrightarrow> bm_wf buf \<and> bm_bytes buf = []"
  by (auto simp: BUF_MEM_new_def bm_wf_def bm_bytes_def split: if_splits)

lemma length_bm_bytes: "bm_wf buf \<Longrightarrow> length (bm_bytes buf) = bm_length buf"
  by (auto simp: bm_wf_def bm_bytes_def split: option.splits)

lemma realloc_block:
  assumes "OPENSSL_realloc os junk orig n = Some data"
  shows "length data = n" "k \<le> n \<Longrightarrow> take k (case orig of None \<Rightarrow> [] | Some old \<Rightarrow> old) = old' \<Longrightarrow> length old' = k
    \<Longrightarrow> take k data = old'"
  using assms by (auto simp: OPENSSL_realloc_def Let_def min_def split: option.splits if_splits)

lemma reserve_wf:
  assumes res: "BUF_MEM_reserve os junk buf cap = (r, buf')" and wf: "bm_wf buf"
  shows "bm_wf buf'" "bm_bytes buf' = bm_bytes buf" "bm_length buf' = bm_length buf" "r \<Longrightarrow> cap \<le> bm_max buf'"
proof -
  let ?n = "sz (cap + 3) div 3" and ?old = "case bm_data buf of None \<Rightarrow> [] | Some data \<Rightarrow> data"
  show len: "bm_length buf' = bm_length buf"
    using res by (auto simp: BUF_MEM_reserve_def Let_def split: if_splits option.splits)
  consider "buf' = buf" "r \<longrightarrow> cap \<le> bm_max buf"
    | data m where "OPENSSL_realloc os junk (bm_data buf) m = Some data"
      "buf' = buf\<lparr>bm_data := Some data, bm_max := m\<rparr>" "m = sz (?n * 4)"
      "\<not> sz (cap + 3) < cap" "sz (?n * 4) div 4 = ?n" "bm_max buf < cap"
    using res by (auto simp: BUF_MEM_reserve_def Let_def split: if_splits option.splits)
  then have "bm_wf buf' \<and> bm_bytes buf' = bm_bytes buf \<and> (r \<longrightarrow> cap \<le> bm_max buf')"
  proof cases
    case (2 data m)
    have "m = ?n * 4" "m < 2 ^ 64"
      using 2(3,5) sz_mult_div_iff [of 4 ?n] sz_less [of "?n * 4"] by simp_all
    moreover have "sz (cap + 3) = cap + 3" using 2(4) sz_cases [of "cap + 3"] by (elim disjE) simp_all
    ultimately have m: "cap \<le> m" "m < 2 ^ 64" by linarith+
    moreover have "bm_length buf \<le> cap" using wf 2(6) by (simp add: bm_wf_def)
    moreover have "length (take (bm_length buf) ?old) = bm_length buf"
      using wf by (auto simp: bm_wf_def split: option.splits)
    ultimately have "take (bm_length buf) data = take (bm_length buf) ?old"
      using realloc_block(2) [OF 2(1)] by simp
    then show ?thesis
      using realloc_block(1) [OF 2(1)] 2(2) m \<open>bm_length buf \<le> cap\<close> by (simp add: bm_wf_def bm_bytes_def)
  qed (use wf in simp)
  then show "bm_wf buf'" "bm_bytes buf' = bm_bytes buf" "r \<Longrightarrow> cap \<le> bm_max buf'" by auto
qed

lemma poke_bytes:
  assumes "bm_wf buf" "bm_length buf + length bytes \<le> bm_max buf" "bytes \<noteq> []"
  defines "buf' \<equiv> buf\<lparr>bm_data := poke (bm_length buf) bytes (bm_data buf), bm_length := bm_length buf + length bytes\<rparr>"
  shows "bm_wf buf'" "bm_bytes buf' = bm_bytes buf @ bytes"
  using assms(1-3) unfolding buf'_def by (auto simp: bm_wf_def bm_bytes_def poke_def split: option.splits)

lemma poke_over:
  assumes "bm_wf buf" "bm_bytes buf = xs @ ys" "length bytes = length ys"
  shows "bm_bytes (buf\<lparr>bm_data := poke (length xs) bytes (bm_data buf)\<rparr>) = xs @ bytes"
    "bm_wf (buf\<lparr>bm_data := poke (length xs) bytes (bm_data buf)\<rparr>)"
proof -
  have len: "bm_length buf = length xs + length ys" using length_bm_bytes [OF assms(1)] assms(2) by simp
  show "bm_wf (buf\<lparr>bm_data := poke (length xs) bytes (bm_data buf)\<rparr>)"
    using assms(1,3) len by (auto simp: bm_wf_def poke_def split: option.splits)
  show "bm_bytes (buf\<lparr>bm_data := poke (length xs) bytes (bm_data buf)\<rparr>) = xs @ bytes"
  proof (cases "bm_data buf")
    case None
    then show ?thesis using assms(1-3) len by (simp add: bm_wf_def bm_bytes_def poke_def)
  next
    case (Some data)
    have "take (length xs) data = xs"
      using assms(2) len Some by (metis append_eq_conv_conj bm_bytes_def le_add1 min.absorb1 option.simps(5) take_take)
    then show ?thesis using assms(1,3) len Some by (simp add: bm_wf_def bm_bytes_def poke_def)
  qed
qed

text \<open>Success: the bytes are there. Failure: the contents are as before.\<close>

lemma append_result:
  assumes "BUF_MEM_append os junk buf bytes = (r, buf')" "bm_wf buf" "length bytes < 2 ^ 64"
  shows "bm_wf buf'" "bm_bytes buf' = bm_bytes buf @ (if r then bytes else [])"
proof -
  have new_len: "sz (bm_length buf + length bytes) < length bytes \<longleftrightarrow> 2 ^ 64 \<le> bm_length buf + length bytes"
    using sz_add_overflow [of "length bytes" "bm_length buf"] assms(2,3) by (simp add: bm_wf_def add.commute)
  have "bm_wf buf' \<and> bm_bytes buf' = bm_bytes buf @ (if r then bytes else [])"
  proof (cases "bytes = [] \<or> 2 ^ 64 \<le> bm_length buf + length bytes")
    case True
    then show ?thesis using assms new_len by (auto simp: BUF_MEM_append_def Let_def split: if_splits)
  next
    case False
    then obtain ok buf1 where res: "BUF_MEM_reserve os junk buf (bm_length buf + length bytes) = (ok, buf1)"
      and app: "(r, buf') = (if ok then (True, buf1\<lparr>bm_data := poke (bm_length buf1) bytes (bm_data buf1),
        bm_length := bm_length buf + length bytes\<rparr>) else (False, buf1))"
      using assms(1) new_len by (auto simp: BUF_MEM_append_def Let_def split: prod.splits bool.splits if_splits)
    then show ?thesis
      using reserve_wf [OF res assms(2)] poke_bytes [of buf1 bytes] False by (auto split: if_splits)
  qed
  then show "bm_wf buf'" "bm_bytes buf' = bm_bytes buf @ (if r then bytes else [])" by auto
qed

lemma grow_result:
  assumes "BUF_MEM_grow os junk buf len = (r, buf')" "bm_wf buf"
  shows "bm_wf buf'" "r = len \<or> r = 0"
    "r = len \<Longrightarrow> bm_bytes buf' = take len (bm_bytes buf) @ replicate (len - bm_length buf) 0"
    "r \<noteq> len \<Longrightarrow> bm_bytes buf' = bm_bytes buf"
proof -
  obtain ok buf1 where res: "BUF_MEM_reserve os junk buf len = (ok, buf1)" by fastforce
  note r = reserve_wf [OF res assms(2)]
  have "bm_wf buf' \<and> (r = len \<or> r = 0)
    \<and> (r = len \<longrightarrow> bm_bytes buf' = take len (bm_bytes buf) @ replicate (len - bm_length buf) 0)
    \<and> (r \<noteq> len \<longrightarrow> bm_bytes buf' = bm_bytes buf)"
  proof (cases "ok \<and> bm_length buf < len")
    case True
    then have "bm_wf (buf1\<lparr>bm_data := poke (bm_length buf1) (replicate (len - bm_length buf) 0) (bm_data buf1),
          bm_length := len\<rparr>)"
      "bm_bytes (buf1\<lparr>bm_data := poke (bm_length buf1) (replicate (len - bm_length buf) 0) (bm_data buf1),
          bm_length := len\<rparr>) = bm_bytes buf @ replicate (len - bm_length buf) 0"
      using poke_bytes [of buf1 "replicate (len - bm_length buf) 0"] r by auto
    then show ?thesis
      using assms(1) res True r length_bm_bytes [OF assms(2)] by (simp add: BUF_MEM_grow_def) auto
  next
    case False
    have "bm_bytes (buf1\<lparr>bm_length := len\<rparr>) = take len (bm_bytes buf1)" "bm_wf (buf1\<lparr>bm_length := len\<rparr>)"
      if "len \<le> bm_length buf1"
      using that r(1) by (simp_all add: bm_bytes_def bm_wf_def min_absorb1 split: option.splits)
    moreover have "\<not> ok \<Longrightarrow> len \<noteq> 0" using res by (cases "len = 0") (simp_all add: BUF_MEM_reserve_def)
    ultimately show ?thesis
      using assms(1) res r False by (cases ok) (auto simp: BUF_MEM_grow_def)
  qed
  then show "bm_wf buf'" "r = len \<or> r = 0"
    "r = len \<Longrightarrow> bm_bytes buf' = take len (bm_bytes buf) @ replicate (len - bm_length buf) 0"
    "r \<noteq> len \<Longrightarrow> bm_bytes buf' = bm_bytes buf" by auto
qed

section \<open>The memory BIO\<close>

record BIO =
  bio_ptr :: BUF_MEM
  bio_num :: int
  bio_rdonly :: bool
  bio_retry :: bool

abbreviation int_max :: int where "int_max \<equiv> 2 ^ 31 - 1"

text \<open>
  \<open>strlen\<close> runs before the check for \<open>NULL\<close>: \<open>Inl ()\<close> is the undefined behaviour of
  \<open>strlen(NULL)\<close>.
\<close>

definition BIO_new_mem_buf :: "(nat \<Rightarrow> bool) \<Rightarrow> u8 list option \<Rightarrow> int \<Rightarrow> unit + BIO option" where
  "BIO_new_mem_buf os buf len =
     (case (if len < 0 then map_option strlen buf else Some (nat len)) of
        None \<Rightarrow> Inl ()
      | Some size' \<Rightarrow>
          Inr (if buf = None \<and> len \<noteq> 0 then None
               else map_option (\<lambda>b. \<lparr>bio_ptr = b\<lparr>bm_data := map_option (take size') buf, bm_length := size', bm_max := size'\<rparr>,
                      bio_num = 0, bio_rdonly = True, bio_retry = False\<rparr>) (BUF_MEM_new os)))"

definition mem_new :: "(nat \<Rightarrow> bool) \<Rightarrow> BIO option" where
  "mem_new os =
     (case BUF_MEM_new os of
        None \<Rightarrow> None
      | Some b \<Rightarrow> Some \<lparr>bio_ptr = b, bio_num = - 1, bio_rdonly = False, bio_retry = False\<rparr>)"

text \<open>The result is the returned value, the bytes copied to \<open>out\<close> and the BIO.\<close>

definition mem_read :: "BIO \<Rightarrow> int \<Rightarrow> int \<times> u8 list \<times> BIO" where
  "mem_read bio outl =
     (let b = bio_ptr bio;
          bio = bio\<lparr>bio_retry := False\<rparr>;
          ret = (if int (bm_length b) < int_max \<and> outl > int (bm_length b) then int (bm_length b) else outl)
      in if ret > 0
         then let n = nat ret;
                  data = (case bm_data b of None \<Rightarrow> [] | Some data \<Rightarrow> data);
                  rest = (if bio_rdonly bio then drop n data
                          else take (bm_length b - n) (drop n data) @ drop (bm_length b - n) data)
              in (ret, take n data, bio\<lparr>bio_ptr := b\<lparr>bm_length := bm_length b - n, bm_data := Some rest\<rparr>\<rparr>)
         else if bm_length b = 0 then (bio_num bio, [], bio\<lparr>bio_retry := bio_num bio \<noteq> 0\<rparr>)
         else (ret, [], bio))"

text \<open>
  \<open>blen\<close> is the length converted to \<open>int\<close>; the model follows the code while it is not negative,
  for contents of less than \<open>2 ^ 31\<close> bytes (beyond, the code computes an address before the block).
\<close>

definition mem_write :: "(nat \<Rightarrow> bool) \<Rightarrow> (nat \<Rightarrow> u8) \<Rightarrow> BIO \<Rightarrow> u8 list \<Rightarrow> int \<times> BIO" where
  "mem_write os junk bio bytes =
     (let inl = int (length bytes); b = bio_ptr bio
      in if bio_rdonly bio then (- 1, bio)
         else let bio = bio\<lparr>bio_retry := False\<rparr>;
                  blen = sint (of_nat (bm_length b) :: 32 word)
              in if int_max - blen < inl then (- 1, bio)
                 else case BUF_MEM_grow_clean os junk b (nat ((blen + inl) mod 2 ^ 64)) of
                        (r, b) \<Rightarrow>
                          if int r \<noteq> (blen + inl) mod 2 ^ 64 then (- 1, bio\<lparr>bio_ptr := b\<rparr>)
                          else (inl, bio\<lparr>bio_ptr := b\<lparr>bm_data := poke (nat blen) bytes (bm_data b)\<rparr>\<rparr>))"

fun line_length :: "u8 list \<Rightarrow> nat \<Rightarrow> nat" where
  "line_length [] n = n"
| "line_length (c # cs) n = (if c = 10 then n + 1 else line_length cs (n + 1))"

definition mem_gets :: "BIO \<Rightarrow> int \<Rightarrow> int \<times> u8 list \<times> BIO" where
  "mem_gets bio size' =
     (let b = bio_ptr bio;
          bio = bio\<lparr>bio_retry := False\<rparr>;
          j = sint (of_nat (bm_length b) :: 32 word);
          j = (if size' - 1 < j then size' - 1 else j)
      in if j \<le> 0 then (0, [], bio)
         else mem_read bio (int (line_length (take (nat j) (case bm_data b of None \<Rightarrow> [] | Some data \<Rightarrow> data)) 0)))"

text \<open>The queue of bytes the BIO holds.\<close>

definition bio_bytes :: "BIO \<Rightarrow> u8 list" where
  "bio_bytes bio = bm_bytes (bio_ptr bio)"

definition bio_ok :: "BIO \<Rightarrow> bool" where
  "bio_ok bio \<longleftrightarrow> length (bio_bytes bio) = bm_length (bio_ptr bio) \<and> bm_length (bio_ptr bio) < 2 ^ 31
     \<and> (\<not> bio_rdonly bio \<longrightarrow> bm_wf (bio_ptr bio))"

lemma mem_read_takes:
  assumes "bio_ok bio" "0 < outl" "outl \<le> int_max" "mem_read bio outl = (ret, out, bio')"
  shows "out = take (nat outl) (bio_bytes bio)" "bio_bytes bio' = drop (nat outl) (bio_bytes bio)" "bio_ok bio'"
    "bio_bytes bio \<noteq> [] \<Longrightarrow> ret = int (length out)" "bio_bytes bio = [] \<Longrightarrow> ret = bio_num bio"
proof -
  let ?b = "bio_ptr bio" and ?data = "case bm_data (bio_ptr bio) of None \<Rightarrow> [] | Some data \<Rightarrow> data"
  define n where "n = min (nat outl) (bm_length ?b)"
  have len: "length (bio_bytes bio) = bm_length ?b" and ok: "bm_length ?b < 2 ^ 31" "bm_length ?b \<le> length ?data"
    "\<not> bio_rdonly bio \<Longrightarrow> bm_wf ?b"
    using assms(1) by (auto simp: bio_ok_def bio_bytes_def bm_bytes_def)
  have bytes: "bio_bytes bio = take (bm_length ?b) ?data" by (simp add: bio_bytes_def bm_bytes_def)
  have "out = take (nat outl) (bio_bytes bio) \<and> bio_bytes bio' = drop (nat outl) (bio_bytes bio) \<and> bio_ok bio'
    \<and> (bio_bytes bio \<noteq> [] \<longrightarrow> ret = int (length out)) \<and> (bio_bytes bio = [] \<longrightarrow> ret = bio_num bio)"
  proof (cases "bm_length ?b = 0")
    case True
    then show ?thesis using assms len by (auto simp: mem_read_def Let_def bio_bytes_def bio_ok_def)
  next
    case False
    then have "(if int (bm_length ?b) < int_max \<and> outl > int (bm_length ?b) then int (bm_length ?b) else outl) = int n"
      using ok(1) assms(2,3) by (auto simp: n_def)
    moreover have n: "0 < n" "n \<le> bm_length ?b" using False assms(2) by (auto simp: n_def)
    ultimately have res: "ret = int n" "out = take n ?data"
      "bio' = bio\<lparr>bio_retry := False, bio_ptr := ?b\<lparr>bm_length := bm_length ?b - n,
         bm_data := Some (if bio_rdonly bio then drop n ?data
           else take (bm_length ?b - n) (drop n ?data) @ drop (bm_length ?b - n) ?data)\<rparr>\<rparr>"
      using assms(4) unfolding mem_read_def Let_def by auto
    have "take n ?data = take (nat outl) (bio_bytes bio)"
      unfolding bytes using n by (auto simp: n_def min_def)
    moreover have "bio_bytes bio' = drop n (bio_bytes bio)"
      unfolding bytes res(3) using n ok(2) by (auto simp: bio_bytes_def bm_bytes_def drop_take)
    moreover have "drop n (bio_bytes bio) = drop (nat outl) (bio_bytes bio)"
      using len by (auto simp: n_def min_def)
    moreover have "bio_ok bio'"
      unfolding bio_ok_def calculation(2) using len ok n by (auto simp: res(3) bm_wf_def split: option.splits)
    ultimately show ?thesis using res len ok(2) n False by (auto simp: n_def min.commute)
  qed
  then show "out = take (nat outl) (bio_bytes bio)" "bio_bytes bio' = drop (nat outl) (bio_bytes bio)" "bio_ok bio'"
    "bio_bytes bio \<noteq> [] \<Longrightarrow> ret = int (length out)" "bio_bytes bio = [] \<Longrightarrow> ret = bio_num bio" by auto
qed

lemma mem_write_appends:
  assumes "bio_ok bio" "int (length bytes) \<le> int_max" "mem_write os junk bio bytes = (ret, bio')"
  shows "ret = int (length bytes) \<and> bio_bytes bio' = bio_bytes bio @ bytes \<or> ret = - 1 \<and> bio_bytes bio' = bio_bytes bio"
    "bio_ok bio'"
proof -
  let ?b = "bio_ptr bio" and ?L = "bm_length (bio_ptr bio) + length bytes"
  have len: "length (bio_bytes bio) = bm_length ?b" and small: "bm_length ?b < 2 ^ 31"
    using assms(1) by (simp_all add: bio_ok_def)
  have blen: "sint (of_nat (bm_length ?b) :: 32 word) = int (bm_length ?b)"
    using small by (simp add: signed_of_nat signed_take_bit_int_eq_self)
  consider "ret = - 1" "bio_bytes bio' = bio_bytes bio" "bio_ok bio'"
    | b1 r where "?L < 2 ^ 31" "bm_wf ?b" "BUF_MEM_grow os junk ?b ?L = (r, b1)" "r \<noteq> ?L"
        "ret = - 1" "bio' = bio\<lparr>bio_retry := False, bio_ptr := b1\<rparr>"
    | b1 where "?L < 2 ^ 31" "bm_wf ?b" "BUF_MEM_grow os junk ?b ?L = (?L, b1)" "ret = int (length bytes)"
        "bio' = bio\<lparr>bio_retry := False, bio_ptr := b1\<lparr>bm_data := poke (bm_length ?b) bytes (bm_data b1)\<rparr>\<rparr>"
  proof (cases "bio_rdonly bio \<or> int_max - int (bm_length ?b) < int (length bytes)")
    case True
    then show ?thesis
      using that(1) assms(1) assms(3) [unfolded mem_write_def Let_def blen]
      by (auto simp: bio_bytes_def bio_ok_def split: if_splits)
  next
    case False
    then have L: "?L < 2 ^ 31" "bm_wf ?b" using assms(1) by (auto simp: bio_ok_def)
    then have "(int (bm_length ?b) + int (length bytes)) mod 2 ^ 64 = int ?L" by simp
    then show ?thesis
      using that(2,3) L assms(3) [unfolded mem_write_def Let_def blen] False
      by (cases "BUF_MEM_grow os junk ?b ?L") (auto simp: BUF_MEM_grow_clean_def nat_int_add split: if_splits)
  qed
  then have "(ret = int (length bytes) \<and> bio_bytes bio' = bio_bytes bio @ bytes \<or> ret = - 1 \<and> bio_bytes bio' = bio_bytes bio)
    \<and> bio_ok bio'"
  proof cases
    case (2 b1 r)
    note g = grow_result [OF 2(3,2)]
    have "bm_length b1 = bm_length ?b" using g(1,4) 2(2,4) length_bm_bytes by metis
    then show ?thesis using g 2 small length_bm_bytes [OF g(1)] by (simp add: bio_bytes_def bio_ok_def)
  next
    case (3 b1)
    note g = grow_result [OF 3(3,2)]
    have b1: "bm_bytes b1 = bm_bytes ?b @ replicate (length bytes) 0"
      using g(3) length_bm_bytes [OF 3(2)] by simp
    then have n: "bm_length b1 = ?L" using length_bm_bytes [OF g(1)] length_bm_bytes [OF 3(2)] by simp
    have "bm_bytes (b1\<lparr>bm_data := poke (bm_length ?b) bytes (bm_data b1)\<rparr>) = bm_bytes ?b @ bytes"
      "bm_wf (b1\<lparr>bm_data := poke (bm_length ?b) bytes (bm_data b1)\<rparr>)"
      using poke_over [OF g(1) b1, of bytes] length_bm_bytes [OF 3(2)] by simp_all
    then show ?thesis using 3 len n by (simp add: bio_bytes_def bio_ok_def)
  qed simp
  then show "ret = int (length bytes) \<and> bio_bytes bio' = bio_bytes bio @ bytes \<or> ret = - 1 \<and> bio_bytes bio' = bio_bytes bio"
    "bio_ok bio'" by auto
qed

lemma line_length_eq: "line_length cs n = n + length (takeWhile (\<lambda>c. c \<noteq> 10) cs) + (if 10 \<in> set cs then 1 else 0)"
  by (induction cs arbitrary: n) auto

lemma line_length_bounds:
  "line_length cs n \<le> n + length cs" "n \<le> line_length cs n" "cs \<noteq> [] \<Longrightarrow> n < line_length cs n"
proof -
  show "line_length cs n \<le> n + length cs" for n
  proof (induction cs arbitrary: n)
    case (Cons c cs)
    then show ?case using Cons.IH [of "Suc n"] by simp
  qed simp
  show le: "n \<le> line_length cs n" for cs n by (induction cs arbitrary: n) (auto intro: Suc_leD)
  show "cs \<noteq> [] \<Longrightarrow> n < line_length cs n" using le [of "Suc n" "tl cs"] by (cases cs) auto
qed

lemma mem_gets_line:
  assumes ok: "bio_ok bio" and size': "1 < size'" "size' \<le> int_max" and gets: "mem_gets bio size' = (ret, out, bio')"
  defines "n \<equiv> line_length (take (nat (size' - 1)) (bio_bytes bio)) 0"
  shows "out = take n (bio_bytes bio)" "bio_bytes bio' = drop n (bio_bytes bio)" "bio_ok bio'" "ret = int n"
proof -
  let ?b = "bio_ptr bio" and ?data = "case bm_data (bio_ptr bio) of None \<Rightarrow> [] | Some data \<Rightarrow> data"
  have len: "length (bio_bytes bio) = bm_length ?b" and small: "bm_length ?b < 2 ^ 31"
    using ok by (simp_all add: bio_ok_def)
  have j: "sint (of_nat (bm_length ?b) :: 32 word) = int (bm_length ?b)"
    using small by (simp add: signed_of_nat signed_take_bit_int_eq_self)
  have "out = take n (bio_bytes bio) \<and> bio_bytes bio' = drop n (bio_bytes bio) \<and> bio_ok bio' \<and> ret = int n"
  proof (cases "bio_bytes bio = []")
    case True
    then have "bm_length ?b = 0" using len by simp
    then show ?thesis
      using gets [unfolded mem_gets_def Let_def j] True size' ok
      by (auto simp: n_def bio_bytes_def bio_ok_def)
  next
    case False
    have cut: "take (nat (if size' - 1 < int (bm_length ?b) then size' - 1 else int (bm_length ?b))) ?data
      = take (nat (size' - 1)) (bio_bytes bio)"
      by (auto simp: bio_bytes_def bm_bytes_def min_def not_less le_nat_iff intro: arg_cong2 [where f = take])
    have "0 < bm_length ?b" using False len by (metis length_greater_0_conv)
    then have read: "mem_read (bio\<lparr>bio_retry := False\<rparr>) (int n) = (ret, out, bio')"
      using gets [unfolded mem_gets_def Let_def j cut, folded n_def] size' by (auto split: if_splits)
    have n: "0 < n" "n \<le> length (bio_bytes bio)"
      using line_length_bounds [where cs = "take (nat (size' - 1)) (bio_bytes bio)" and n = 0] False size' by (auto simp: n_def)
    have same: "bio_ok (bio\<lparr>bio_retry := False\<rparr>)" "bio_bytes (bio\<lparr>bio_retry := False\<rparr>) = bio_bytes bio"
      using ok by (simp_all add: bio_ok_def bio_bytes_def)
    then show ?thesis
      using mem_read_takes [OF same(1) _ _ read] n len small False by simp
  qed
  then show "out = take n (bio_bytes bio)" "bio_bytes bio' = drop n (bio_bytes bio)" "bio_ok bio'" "ret = int n"
    by auto
qed

text \<open>The same without \<open>line_length\<close>: a line with its newline, cut at the size of the buffer.\<close>

lemma line_prefix:
  "take (line_length xs 0) xs = takeWhile (\<lambda>c. c \<noteq> 10) xs @ (if 10 \<in> set xs then [10] else [])"
proof (cases "10 \<in> set xs")
  case True
  then obtain r where "dropWhile (\<lambda>c. c \<noteq> 10) xs = 10 # r"
    by (metis (mono_tags, lifting) dropWhile_eq_Cons_conv dropWhile_eq_Nil_conv list.exhaust)
  then have "xs = takeWhile (\<lambda>c. c \<noteq> 10) xs @ 10 # r" by (metis takeWhile_dropWhile_id)
  then have "take (length (takeWhile (\<lambda>c. c \<noteq> 10) xs) + 1) xs = takeWhile (\<lambda>c. c \<noteq> 10) xs @ [10]"
    by (metis append_Cons append_eq_append_conv append_take_drop_id append.assoc append_Nil length_append_singleton Suc_eq_plus1 append_eq_conv_conj)
  then show ?thesis using True by (simp add: line_length_eq)
next
  case False
  then have "takeWhile (\<lambda>c. c \<noteq> 10) xs = xs" by (intro takeWhile_eq_all_conv [THEN iffD2]) auto
  then show ?thesis using False by (simp only: line_length_eq) simp
qed

lemma gets_shape:
  assumes "bio_ok bio" "1 < k" "k \<le> int_max" "mem_gets bio k = (ret, out, bio')"
  defines "xs \<equiv> take (nat (k - 1)) (bio_bytes bio)"
  shows "out = takeWhile (\<lambda>c. c \<noteq> 10) xs @ (if 10 \<in> set xs then [10] else [])"
    "out @ bio_bytes bio' = bio_bytes bio" "bio_ok bio'" "ret = int (length out)"
proof -
  note g = mem_gets_line [OF assms(1-4), folded xs_def]
  have le: "line_length xs 0 \<le> length xs" "length xs \<le> length (bio_bytes bio)"
    using line_length_bounds(1) [of xs 0] by (simp_all add: xs_def)
  then have "take (line_length xs 0) (bio_bytes bio) = take (line_length xs 0) xs"
    unfolding xs_def by (simp only: take_take min_absorb1 length_take)
  then show "out = takeWhile (\<lambda>c. c \<noteq> 10) xs @ (if 10 \<in> set xs then [10] else [])"
    using g(1) line_prefix [of xs] by simp
  show "out @ bio_bytes bio' = bio_bytes bio" "bio_ok bio'" "ret = int (length out)"
    using g le by simp_all
qed

end
