(* ===== verification/Conf.thy ===== *)
theory Conf
  imports Stack Lhash Buf
begin

text \<open>
  \<open>crypto/conf/conf.c\<close>: configuration files. A \<open>CONF\<close> is a hash table of \<open>CONF_VALUE\<close>
  objects, one per section (no name, the value is the section's stack) and one per entry.
  An object is never changed once it is in the table, so it is a value with its address
  \<open>cv_addr\<close>; the stacks, which do change, are a store from addresses. A C string is the list
  of its bytes, read up to the first NUL.
\<close>

section \<open>State\<close>

datatype conf_payload = No_value | Text "u8 list" | Section nat

record CONF_VALUE =
  cv_addr :: nat
  cv_section :: "u8 list option"
  cv_name :: "u8 list option"
  cv_value :: conf_payload

abbreviation cstr :: "u8 list \<Rightarrow> u8 list" where
  "cstr s \<equiv> takeWhile (\<lambda>c. c \<noteq> 0) s"

text \<open>libc's \<open>strcmp\<close>, with the sign of the first difference of the bytes as \<open>unsigned char\<close>.\<close>

fun strcmp :: "u8 list \<Rightarrow> u8 list \<Rightarrow> int" where
  "strcmp [] b = (case b of [] \<Rightarrow> 0 | y # _ \<Rightarrow> if y = 0 then 0 else - 1)"
| "strcmp (x # a) b =
     (let y = (case b of [] \<Rightarrow> 0 | y # _ \<Rightarrow> y)
      in if x < y then - 1 else if y < x then 1 else if x = 0 then 0 else strcmp a (tl b))"

lemma cstr_no_nul [simp]: "0 \<notin> set (cstr s)"
  by (induction s) auto

lemma cstr_terminated [simp]: "cstr (cstr s @ [0]) = cstr s"
  by (induction s) auto

lemma cstr_idem [simp]: "cstr (cstr s) = cstr s"
  by (induction s) auto

lemma strcmp_zero_iff: "strcmp a b = 0 \<longleftrightarrow> cstr a = cstr b"
proof (induction a b rule: strcmp.induct)
  case (2 x a b)
  then show ?case by (cases b) (auto simp: Let_def word_neq_0_conv)
qed (auto split: list.splits)

section \<open>Hashing and comparison\<close>

definition conf_value_hash :: "CONF_VALUE \<Rightarrow> u32" where
  "conf_value_hash v = push_bit 2 (lh_strhash (cv_section v)) XOR lh_strhash (cv_name v)"

text \<open>
  Sections that are the same pointer are not compared; the two cases agree. \<open>strcmp\<close> on a
  \<open>NULL\<close> section is undefined: the callers below report it before they come here, and the
  comparison counts as unequal.
\<close>

definition cmp_names :: "u8 list option \<Rightarrow> u8 list option \<Rightarrow> int" where
  "cmp_names a b =
     (case (a, b) of
        (Some x, Some y) \<Rightarrow> strcmp x y
      | (None, None) \<Rightarrow> 0
      | (None, Some _) \<Rightarrow> - 1
      | (Some _, None) \<Rightarrow> 1)"

definition conf_value_cmp :: "CONF_VALUE \<Rightarrow> CONF_VALUE \<Rightarrow> int" where
  "conf_value_cmp a b =
     (let i = (case (cv_section a, cv_section b) of
                 (Some x, Some y) \<Rightarrow> strcmp x y
               | (None, None) \<Rightarrow> 0
               | _ \<Rightarrow> 1)
      in if i \<noteq> 0 then i else cmp_names (cv_name a) (cv_name b))"

definition conf_key :: "CONF_VALUE \<Rightarrow> u8 list option \<times> u8 list option" where
  "conf_key v = (map_option cstr (cv_section v), map_option cstr (cv_name v))"

lemma conf_value_cmp_zero_iff: "conf_value_cmp a b = 0 \<longleftrightarrow> conf_key a = conf_key b"
  by (auto simp: conf_value_cmp_def cmp_names_def conf_key_def Let_def strcmp_zero_iff split: option.splits)

lemma lh_strhash_cstr: "lh_strhash s = (case map_option cstr s of None \<Rightarrow> 0 | Some t \<Rightarrow> OPENSSL_hash32 t)"
  by (auto simp: lh_strhash_def strlen_def takeWhile_eq_take [symmetric] split: option.splits)

lemma conf_value_hash_key: "conf_key a = conf_key b \<Longrightarrow> conf_value_hash a = conf_value_hash b"
  by (simp add: conf_key_def conf_value_hash_def lh_strhash_cstr)

interpretation conf_table: hash_laws conf_value_hash "\<lambda>a b. conf_key a = conf_key b"
  by unfold_locales (auto intro: conf_value_hash_key)

section \<open>Character classes\<close>

definition CONF_NUMBER :: nat where "CONF_NUMBER = 1"
definition CONF_UPPER :: nat where "CONF_UPPER = 2"
definition CONF_LOWER :: nat where "CONF_LOWER = 4"
definition CONF_UNDER :: nat where "CONF_UNDER = 256"
definition CONF_PUNCTUATION :: nat where "CONF_PUNCTUATION = 512"
definition CONF_WS :: nat where "CONF_WS = 16"
definition CONF_ESC :: nat where "CONF_ESC = 32"
definition CONF_QUOTE :: nat where "CONF_QUOTE = 64"
definition CONF_DQUOTE :: nat where "CONF_DQUOTE = 1024"
definition CONF_COMMENT :: nat where "CONF_COMMENT = 128"
definition CONF_FCOMMENT :: nat where "CONF_FCOMMENT = 2048"
definition CONF_EOF :: nat where "CONF_EOF = 8"
definition CONF_ALPHA :: nat where "CONF_ALPHA = CONF_UPPER OR CONF_LOWER"
definition CONF_ALPHA_NUMERIC :: nat where "CONF_ALPHA_NUMERIC = CONF_ALPHA OR CONF_NUMBER OR CONF_UNDER"
definition CONF_ALPHA_NUMERIC_PUNCT :: nat where
  "CONF_ALPHA_NUMERIC_PUNCT = CONF_ALPHA OR CONF_NUMBER OR CONF_UNDER OR CONF_PUNCTUATION"

definition CONF_type_default :: "nat list" where
  "CONF_type_default = [
    0x8, 0x0, 0x0, 0x0, 0x0, 0x0, 0x0, 0x0, 0x0, 0x10, 0x10, 0x0, 0x0, 0x10, 0x0, 0x0,
    0x0, 0x0, 0x0, 0x0, 0x0, 0x0, 0x0, 0x0, 0x0, 0x0, 0x0, 0x0, 0x0, 0x0, 0x0, 0x0,
    0x10, 0x200, 0x40, 0x80, 0x0, 0x200, 0x200, 0x40, 0x0, 0x0, 0x200, 0x200, 0x200, 0x200, 0x200, 0x200,
    0x1, 0x1, 0x1, 0x1, 0x1, 0x1, 0x1, 0x1, 0x1, 0x1, 0x0, 0x200, 0x0, 0x0, 0x0, 0x200,
    0x200, 0x2, 0x2, 0x2, 0x2, 0x2, 0x2, 0x2, 0x2, 0x2, 0x2, 0x2, 0x2, 0x2, 0x2, 0x2,
    0x2, 0x2, 0x2, 0x2, 0x2, 0x2, 0x2, 0x2, 0x2, 0x2, 0x2, 0x0, 0x20, 0x0, 0x200, 0x100,
    0x40, 0x4, 0x4, 0x4, 0x4, 0x4, 0x4, 0x4, 0x4, 0x4, 0x4, 0x4, 0x4, 0x4, 0x4, 0x4,
    0x4, 0x4, 0x4, 0x4, 0x4, 0x4, 0x4, 0x4, 0x4, 0x4, 0x4, 0x0, 0x200, 0x0, 0x200, 0x0,
    0x1000, 0x1000, 0x1000, 0x1000, 0x1000, 0x1000, 0x1000, 0x1000, 0x1000, 0x1000, 0x1000, 0x1000, 0x1000, 0x1000, 0x1000, 0x1000,
    0x1000, 0x1000, 0x1000, 0x1000, 0x1000, 0x1000, 0x1000, 0x1000, 0x1000, 0x1000, 0x1000, 0x1000, 0x1000, 0x1000, 0x1000, 0x1000,
    0x1000, 0x1000, 0x1000, 0x1000, 0x1000, 0x1000, 0x1000, 0x1000, 0x1000, 0x1000, 0x1000, 0x1000, 0x1000, 0x1000, 0x1000, 0x1000,
    0x1000, 0x1000, 0x1000, 0x1000, 0x1000, 0x1000, 0x1000, 0x1000, 0x1000, 0x1000, 0x1000, 0x1000, 0x1000, 0x1000, 0x1000, 0x1000,
    0x1000, 0x1000, 0x1000, 0x1000, 0x1000, 0x1000, 0x1000, 0x1000, 0x1000, 0x1000, 0x1000, 0x1000, 0x1000, 0x1000, 0x1000, 0x1000,
    0x1000, 0x1000, 0x1000, 0x1000, 0x1000, 0x1000, 0x1000, 0x1000, 0x1000, 0x1000, 0x1000, 0x1000, 0x1000, 0x1000, 0x1000, 0x1000,
    0x1000, 0x1000, 0x1000, 0x1000, 0x1000, 0x1000, 0x1000, 0x1000, 0x1000, 0x1000, 0x1000, 0x1000, 0x1000, 0x1000, 0x1000, 0x1000,
    0x1000, 0x1000, 0x1000, 0x1000, 0x1000, 0x1000, 0x1000, 0x1000, 0x1000, 0x1000, 0x1000, 0x1000, 0x1000, 0x1000, 0x1000, 0x1000]"

definition KEYTYPE :: "nat \<Rightarrow> u8 \<Rightarrow> bool" where
  "KEYTYPE class a \<longleftrightarrow> CONF_type_default ! unat a AND class \<noteq> 0"

abbreviation IS_COMMENT :: "u8 \<Rightarrow> bool" where "IS_COMMENT \<equiv> KEYTYPE CONF_COMMENT"
abbreviation IS_FCOMMENT :: "u8 \<Rightarrow> bool" where "IS_FCOMMENT \<equiv> KEYTYPE CONF_FCOMMENT"
abbreviation IS_EOF :: "u8 \<Rightarrow> bool" where "IS_EOF \<equiv> KEYTYPE CONF_EOF"
abbreviation IS_ESC :: "u8 \<Rightarrow> bool" where "IS_ESC \<equiv> KEYTYPE CONF_ESC"
abbreviation IS_WS :: "u8 \<Rightarrow> bool" where "IS_WS \<equiv> KEYTYPE CONF_WS"
abbreviation IS_ALPHA_NUMERIC :: "u8 \<Rightarrow> bool" where "IS_ALPHA_NUMERIC \<equiv> KEYTYPE CONF_ALPHA_NUMERIC"
abbreviation IS_ALPHA_NUMERIC_PUNCT :: "u8 \<Rightarrow> bool" where
  "IS_ALPHA_NUMERIC_PUNCT \<equiv> KEYTYPE CONF_ALPHA_NUMERIC_PUNCT"
abbreviation IS_QUOTE :: "u8 \<Rightarrow> bool" where "IS_QUOTE \<equiv> KEYTYPE CONF_QUOTE"
abbreviation IS_DQUOTE :: "u8 \<Rightarrow> bool" where "IS_DQUOTE \<equiv> KEYTYPE CONF_DQUOTE"

lemmas class_defs = CONF_NUMBER_def CONF_UPPER_def CONF_LOWER_def CONF_UNDER_def CONF_PUNCTUATION_def
  CONF_WS_def CONF_ESC_def CONF_QUOTE_def CONF_DQUOTE_def CONF_COMMENT_def CONF_FCOMMENT_def CONF_EOF_def
  CONF_ALPHA_def CONF_ALPHA_NUMERIC_def CONF_ALPHA_NUMERIC_PUNCT_def

lemma EOF_table: "\<forall>t \<in> set (tl CONF_type_default). t AND CONF_EOF = 0"
  by (simp add: CONF_type_default_def CONF_EOF_def)

lemma length_table: "length CONF_type_default = 256"
  by (simp add: CONF_type_default_def)

lemma IS_EOF_iff [simp]: "IS_EOF c \<longleftrightarrow> c = 0"
proof (cases "c = 0")
  case True
  then show ?thesis by (simp add: KEYTYPE_def CONF_type_default_def CONF_EOF_def)
next
  case False
  then obtain i where "unat c = Suc i" by (metis not0_implies_Suc unat_eq_0)
  moreover from this have "i < length (tl CONF_type_default)"
    using unat_u8_less [of c] by (simp add: length_table)
  ultimately have "CONF_type_default ! unat c \<in> set (tl CONF_type_default)"
    by (metis nth_mem nth_tl)
  then show ?thesis using EOF_table False by (simp add: KEYTYPE_def)
qed

section \<open>Scanning\<close>

text \<open>A pointer into a string is the rest of the string; reading at its end gives the terminator.\<close>

definition peek :: "u8 list \<Rightarrow> u8" where
  "peek p = (case p of [] \<Rightarrow> 0 | c # _ \<Rightarrow> c)"

text \<open>The string \<open>start\<close> once \<open>*stop = '\0'\<close> is written.\<close>

definition cut_at :: "u8 list \<Rightarrow> u8 list \<Rightarrow> u8 list" where
  "cut_at start stop = take (length start - length stop) start"

fun eat_ws :: "u8 list \<Rightarrow> u8 list" where
  "eat_ws [] = []"
| "eat_ws (c # p) = (if IS_WS c \<and> \<not> IS_EOF c then eat_ws p else c # p)"

definition scan_esc :: "u8 list \<Rightarrow> u8 list" where
  "scan_esc p = (if IS_EOF (peek (drop 1 p)) then drop 1 p else drop 2 p)"

function eat_alpha_numeric :: "u8 list \<Rightarrow> u8 list" where
  "eat_alpha_numeric [] = []"
| "eat_alpha_numeric (c # p) =
     (if IS_ESC c then eat_alpha_numeric (scan_esc (c # p))
      else if \<not> IS_ALPHA_NUMERIC_PUNCT c then c # p
      else eat_alpha_numeric p)"
  by pat_completeness auto
termination
  by (relation "measure length") (auto simp: scan_esc_def)

fun quote_loop :: "u8 \<Rightarrow> u8 list \<Rightarrow> u8 list" where
  "quote_loop q [] = []"
| "quote_loop q (c # p) =
     (if IS_EOF c \<or> c = q then c # p
      else if IS_ESC c
      then (case p of [] \<Rightarrow> [] | d # p' \<Rightarrow> if IS_EOF d then p else quote_loop q p')
      else quote_loop q p)"

definition scan_quote :: "u8 list \<Rightarrow> u8 list" where
  "scan_quote p =
     (let q = peek p; p = quote_loop q (drop 1 p)
      in if peek p = q then drop 1 p else p)"

fun dquote_loop :: "u8 \<Rightarrow> u8 list \<Rightarrow> u8 list" where
  "dquote_loop q [] = []"
| "dquote_loop q (c # p) =
     (if IS_EOF c then c # p
      else if c = q
      then (case p of [] \<Rightarrow> c # p | d # p' \<Rightarrow> if d = q then dquote_loop q p' else c # p)
      else dquote_loop q p)"

definition scan_dquote :: "u8 list \<Rightarrow> u8 list" where
  "scan_dquote p =
     (let q = peek p; p = dquote_loop q (drop 1 p)
      in if peek p = q then drop 1 p else p)"

lemma length_quote_loop: "length (quote_loop q p) \<le> length p"
proof (induction q p rule: quote_loop.induct)
  case (2 q c p)
  show ?case
  proof (cases "\<not> IS_EOF c \<and> c \<noteq> q \<and> \<not> IS_ESC c")
    case False
    then show ?thesis using 2(1) by (cases p) (auto intro: le_SucI)
  qed (use 2(2) in \<open>simp add: le_SucI\<close>)
qed simp

lemma length_dquote_loop: "length (dquote_loop q p) \<le> length p"
proof (induction q p rule: dquote_loop.induct)
  case (2 q c p)
  then show ?case by (cases p) (auto intro: le_SucI)
qed simp

lemma length_scan_quotes:
  "p \<noteq> [] \<Longrightarrow> length (scan_quote p) < length p" "p \<noteq> [] \<Longrightarrow> length (scan_dquote p) < length p"
  "p \<noteq> [] \<Longrightarrow> length (scan_esc p) < length p"
  using length_quote_loop [of "peek p" "drop 1 p"] length_dquote_loop [of "peek p" "drop 1 p"]
  by (cases p; auto simp: scan_quote_def scan_dquote_def scan_esc_def Let_def)+

text \<open>The two loops of \<open>clear_comments\<close>: the place where the line is cut, its end if it is not.\<close>

function comment_loop :: "u8 list \<Rightarrow> u8 list" where
  "comment_loop [] = []"
| "comment_loop (c # p) =
     (if IS_COMMENT c then c # p
      else if IS_DQUOTE c then comment_loop (scan_dquote (c # p))
      else if IS_QUOTE c then comment_loop (scan_quote (c # p))
      else if IS_ESC c then comment_loop (scan_esc (c # p))
      else if IS_EOF c then []
      else comment_loop p)"
  by pat_completeness auto
termination
  by (relation "measure length")
    (simp_all, (metis length_Cons length_scan_quotes list.distinct(1))+)

fun fcomment_loop :: "u8 list \<Rightarrow> u8 list" where
  "fcomment_loop [] = []"
| "fcomment_loop (c # p) =
     (if IS_FCOMMENT c then c # p
      else if \<not> IS_WS c then comment_loop (c # p)
      else fcomment_loop p)"

definition clear_comments :: "u8 list \<Rightarrow> u8 list" where
  "clear_comments p = cut_at p (fcomment_loop p)"

section \<open>Sections and entries\<close>

datatype conf_error =
    No_memory | No_close_brace | Variable_has_no_value | Variable_expansion_too_long
  | Missing_close_square_bracket | Missing_equal_sign | Unable_to_create_new_section
  | Out_of_bounds | Null_string | Dangling

text \<open>
  The last three are not errors the code reports but undefined behaviour: a write beyond a
  block, \<open>strcmp\<close> on \<open>NULL\<close>, and the use of a freed stack.
\<close>

type_synonym conf_stack = "(CONF_VALUE, unit) STACK"

record CONF =
  conf_data :: "(CONF_VALUE, unit, unit) LHASH"
  conf_stacks :: "nat \<Rightarrow> conf_stack option"
  conf_next :: nat

definition sizeof_CONF :: nat where "sizeof_CONF = 8"
definition sizeof_CONF_VALUE :: nat where "sizeof_CONF_VALUE = 24"
definition MAX_CONF_VALUE_LENGTH :: nat where "MAX_CONF_VALUE_LENGTH = 65536"

abbreviation call_hash :: "unit \<Rightarrow> CONF_VALUE \<Rightarrow> u32" where "call_hash \<equiv> \<lambda>_. conf_value_hash"
abbreviation call_cmp :: "unit \<Rightarrow> CONF_VALUE \<Rightarrow> CONF_VALUE \<Rightarrow> int" where "call_cmp \<equiv> \<lambda>_. conf_value_cmp"

definition NCONF_new :: "(nat \<Rightarrow> bool) \<Rightarrow> bool \<Rightarrow> CONF option" where
  "NCONF_new os has_method =
     (if has_method then None
      else if \<not> malloc_ok os sizeof_CONF then None
      else case lh_new os () () of
             None \<Rightarrow> None
           | Some data \<Rightarrow> Some \<lparr>conf_data = data, conf_stacks = (\<lambda>_. None), conf_next = 0\<rparr>)"

definition CONF_VALUE_new :: "(nat \<Rightarrow> bool) \<Rightarrow> CONF \<Rightarrow> (CONF_VALUE \<times> CONF) option" where
  "CONF_VALUE_new os conf =
     (if malloc_ok os sizeof_CONF_VALUE
      then Some (\<lparr>cv_addr = conf_next conf, cv_section = None, cv_name = None, cv_value = No_value\<rparr>,
                 conf\<lparr>conf_next := conf_next conf + 1\<rparr>)
      else None)"

text \<open>Of what \<open>value_free\<close> frees, only a section's stack is visible in the model.\<close>

definition value_free :: "CONF \<Rightarrow> CONF_VALUE \<Rightarrow> CONF" where
  "value_free conf v =
     (case cv_value v of
        Section a \<Rightarrow> conf\<lparr>conf_stacks := (conf_stacks conf)(a := None)\<rparr>
      | _ \<Rightarrow> conf)"

text \<open>
  The items a lookup compares with \<open>v\<close>: its chain up to the match. If one has a section and
  \<open>v\<close> has none, or the other way round, \<open>strcmp\<close> gets \<open>NULL\<close>.
\<close>

definition null_clash :: "CONF \<Rightarrow> CONF_VALUE \<Rightarrow> bool" where
  "null_clash conf v \<longleftrightarrow>
     (let (_, b, pos) = get_next_ptr_and_hash call_hash call_cmp (conf_data conf) v
      in \<exists>it \<in> set (take (Suc pos) (lh_buckets (conf_data conf) ! b)).
           (cv_section (lh_data it) = None) \<noteq> (cv_section v = None))"

definition conf_retrieve :: "CONF \<Rightarrow> u8 list option \<Rightarrow> u8 list option \<Rightarrow> conf_error + CONF_VALUE option" where
  "conf_retrieve conf section_name name =
     (let template = \<lparr>cv_addr = conf_next conf, cv_section = section_name, cv_name = name, cv_value = No_value\<rparr>
      in if null_clash conf template then Inl Null_string
         else Inr (lh_retrieve call_hash call_cmp (conf_data conf) template))"

definition get_section :: "CONF \<Rightarrow> u8 list option \<Rightarrow> conf_error + CONF_VALUE option" where
  "get_section conf section_name = conf_retrieve conf section_name None"

definition NCONF_get_section :: "CONF \<Rightarrow> u8 list option \<Rightarrow> conf_error + conf_stack option" where
  "NCONF_get_section conf section_name =
     (case get_section conf section_name of
        Inl e \<Rightarrow> Inl e
      | Inr None \<Rightarrow> Inr None
      | Inr (Some v) \<Rightarrow>
          (case cv_value v of
             Section a \<Rightarrow> (case conf_stacks conf a of None \<Rightarrow> Inl Dangling | Some stack \<Rightarrow> Inr (Some stack))
           | _ \<Rightarrow> Inr None))"

definition NCONF_get_string :: "CONF \<Rightarrow> u8 list option \<Rightarrow> u8 list \<Rightarrow> conf_error + u8 list option" where
  "NCONF_get_string conf section_name name =
     (case conf_retrieve conf section_name (Some name) of
        Inl e \<Rightarrow> Inl e
      | Inr None \<Rightarrow> Inr None
      | Inr (Some v) \<Rightarrow> (case cv_value v of Text t \<Rightarrow> Inr (Some t) | _ \<Rightarrow> Inr None))"

definition conf_insert ::
    "(nat \<Rightarrow> bool) \<Rightarrow> CONF \<Rightarrow> CONF_VALUE \<Rightarrow> conf_error + bool \<times> CONF_VALUE option \<times> CONF" where
  "conf_insert os conf v =
     (if null_clash conf v then Inl Null_string
      else let (r, old, data) = lh_insert os call_hash call_cmp (conf_data conf) v
           in Inr (r, old, conf\<lparr>conf_data := data\<rparr>))"

text \<open>The new section or \<open>NULL\<close>, and the configuration.\<close>

definition NCONF_new_section ::
    "(nat \<Rightarrow> bool) \<Rightarrow> CONF \<Rightarrow> u8 list \<Rightarrow> conf_error + CONF_VALUE option \<times> CONF" where
  "NCONF_new_section os conf section_name =
     (case (sk_new_null os, CONF_VALUE_new os conf) of
        (Some stack, Some (v, conf1)) \<Rightarrow>
          (case OPENSSL_strdup os (Some section_name) of
             None \<Rightarrow> Inr (None, conf)
           | Some name \<Rightarrow>
               (let a = conf_next conf1;
                    conf2 = conf1\<lparr>conf_stacks := (conf_stacks conf1)(a := Some stack), conf_next := a + 1\<rparr>;
                    v = v\<lparr>cv_section := Some (cstr name), cv_value := Section a\<rparr>
                in case conf_insert os conf2 v of
                     Inl e \<Rightarrow> Inl e
                   | Inr (False, _, _) \<Rightarrow> Inr (None, conf)
                   | Inr (True, None, conf3) \<Rightarrow> Inr (Some v, conf3)
                   | Inr (True, Some old_value, conf3) \<Rightarrow> Inr (Some v, value_free conf3 old_value)))
      | _ \<Rightarrow> Inr (None, conf))"

definition add_string ::
    "(nat \<Rightarrow> bool) \<Rightarrow> CONF \<Rightarrow> CONF_VALUE \<Rightarrow> CONF_VALUE \<Rightarrow> conf_error + bool \<times> CONF" where
  "add_string os conf section_obj v =
     (case cv_value section_obj of
        Section a \<Rightarrow>
          (case conf_stacks conf a of
             None \<Rightarrow> Inl Dangling
           | Some section_stack \<Rightarrow>
               (let v = v\<lparr>cv_section := map_option cstr (OPENSSL_strdup os (cv_section section_obj))\<rparr>;
                    (n, section_stack) = sk_push os section_stack (Some v);
                    conf = conf\<lparr>conf_stacks := (conf_stacks conf)(a := section_stack)\<rparr>
                in if n = 0 then Inr (False, conf)
                   else case conf_insert os conf v of
                          Inl e \<Rightarrow> Inl e
                        | Inr (False, _, conf) \<Rightarrow> Inr (False, conf)
                        | Inr (True, None, conf) \<Rightarrow> Inr (True, conf)
                        | Inr (True, Some old_value, conf) \<Rightarrow>
                            (let (_, section_stack) = sk_delete_ptr section_stack (Some old_value);
                                 conf = conf\<lparr>conf_stacks := (conf_stacks conf)(a := section_stack)\<rparr>
                             in Inr (True, value_free conf old_value))))
      | _ \<Rightarrow> Inl Dangling)"

section \<open>Copying a value\<close>

text \<open>
  The inner loops of \<open>str_copy\<close>: the bytes they append and the rest of \<open>from\<close>. The bytes
  written so far are \<open>out\<close>, so \<open>to\<close> is its length; of the \<open>BUF_MEM\<close> only the sizes are kept.
\<close>

fun copy_quote :: "u8 \<Rightarrow> u8 list \<Rightarrow> u8 list \<times> u8 list" where
  "copy_quote q [] = ([], [])"
| "copy_quote q (c # from) =
     (if IS_EOF c \<or> c = q then ([], c # from)
      else if IS_ESC c
      then (case from of
              [] \<Rightarrow> ([], [])
            | d # from' \<Rightarrow>
                if IS_EOF d then ([], from)
                else let (w, rest) = copy_quote q from' in (d # w, rest))
      else let (w, rest) = copy_quote q from in (c # w, rest))"

fun copy_dquote :: "u8 \<Rightarrow> u8 list \<Rightarrow> u8 list \<times> u8 list" where
  "copy_dquote q [] = ([], [])"
| "copy_dquote q (c # from) =
     (if IS_EOF c then ([], c # from)
      else if c = q
      then (case from of
              [] \<Rightarrow> ([], c # from)
            | d # from' \<Rightarrow>
                if d = q then let (w, rest) = copy_dquote q from' in (d # w, rest)
                else ([], c # from))
      else let (w, rest) = copy_dquote q from in (c # w, rest))"

definition escaped_char :: "u8 \<Rightarrow> u8" where
  "escaped_char v = (if v = 114 then 13 else if v = 110 then 10 else if v = 98 then 8 else if v = 116 then 9 else v)"

text \<open>
  A reference after \<open>$\<close>: the section named in it, the name and the rest, or \<open>None\<close> when the
  closing bracket is missing.
\<close>

definition variable_ref :: "u8 list \<Rightarrow> (u8 list option \<times> u8 list \<times> u8 list) option" where
  "variable_ref s =
     (let q = (if peek s = 123 then 125 else if peek s = 40 then 41 else 0);
          s = (if q \<noteq> 0 then drop 1 s else s);
          word = takeWhile IS_ALPHA_NUMERIC s;
          e = dropWhile IS_ALPHA_NUMERIC s;
          (section_name, name, e) =
            (if peek e = 58 \<and> peek (drop 1 e) = 58
             then (Some word, takeWhile IS_ALPHA_NUMERIC (drop 2 e), dropWhile IS_ALPHA_NUMERIC (drop 2 e))
             else (None, word, e))
      in if q \<noteq> 0 \<and> peek e \<noteq> q then None
         else Some (section_name, name, if q \<noteq> 0 then drop 1 e else e))"

definition put_chars :: "BUF_MEM \<Rightarrow> u8 list \<Rightarrow> u8 list \<Rightarrow> conf_error + u8 list" where
  "put_chars buf out w = (if length out + length w \<le> bm_max buf then Inr (out @ w) else Inl Out_of_bounds)"

lemma length_copy_quote: "length (snd (copy_quote q p)) + length (fst (copy_quote q p)) \<le> length p"
proof (induction p rule: length_induct)
  case (1 p)
  have IH: "length p' < length p \<Longrightarrow> length (snd (copy_quote q p')) + length (fst (copy_quote q p')) \<le> length p'" for p'
    using 1 by blast
  show ?case
  proof (cases p)
    case (Cons c p')
    then show ?thesis using IH [of p'] IH [of "tl p'"] by (cases p') (auto split: prod.splits)
  qed simp
qed

lemma length_copy_dquote: "length (snd (copy_dquote q p)) + length (fst (copy_dquote q p)) \<le> length p"
proof (induction p rule: length_induct)
  case (1 p)
  have IH: "length p' < length p \<Longrightarrow> length (snd (copy_dquote q p')) + length (fst (copy_dquote q p')) \<le> length p'" for p'
    using 1 by blast
  show ?case
  proof (cases p)
    case (Cons c p')
    then show ?thesis using IH [of p'] IH [of "tl p'"] by (cases p') (auto split: prod.splits)
  qed simp
qed

lemma length_dropWhile_le: "length (dropWhile P xs) \<le> length xs"
  by (induction xs) auto

lemma length_variable_ref: "variable_ref s = Some (sec, name, e) \<Longrightarrow> length e \<le> length s"
  using length_dropWhile_le [of IS_ALPHA_NUMERIC s] length_dropWhile_le [of IS_ALPHA_NUMERIC "drop 1 s"]
    length_dropWhile_le [of IS_ALPHA_NUMERIC "drop 2 (dropWhile IS_ALPHA_NUMERIC s)"]
    length_dropWhile_le [of IS_ALPHA_NUMERIC "drop 2 (dropWhile IS_ALPHA_NUMERIC (drop 1 s))"]
  by (auto simp: variable_ref_def Let_def split: if_splits)

function str_copy_loop ::
    "(nat \<Rightarrow> bool) \<Rightarrow> (nat \<Rightarrow> u8) \<Rightarrow> CONF \<Rightarrow> u8 list option \<Rightarrow> BUF_MEM \<Rightarrow> u8 list \<Rightarrow> u8 list
      \<Rightarrow> conf_error + BUF_MEM \<times> u8 list" where
  "str_copy_loop os junk conf section_name buf out [] = Inr (buf, out)"
| "str_copy_loop os junk conf section_name buf out (c # from) =
     (if IS_QUOTE c then
        (let (w, rest) = copy_quote c from;
             rest = (if peek rest = c then drop 1 rest else rest)
         in case put_chars buf out w of
              Inl e \<Rightarrow> Inl e
            | Inr out \<Rightarrow> str_copy_loop os junk conf section_name buf out rest)
      else if IS_DQUOTE c then
        (let (w, rest) = copy_dquote c from;
             rest = (if peek rest = c then drop 1 rest else rest)
         in case put_chars buf out w of
              Inl e \<Rightarrow> Inl e
            | Inr out \<Rightarrow> str_copy_loop os junk conf section_name buf out rest)
      else if IS_ESC c then
        (case from of
           [] \<Rightarrow> Inr (buf, out)
         | v # from' \<Rightarrow>
             if IS_EOF v then Inr (buf, out)
             else (case put_chars buf out [escaped_char v] of
                     Inl e \<Rightarrow> Inl e
                   | Inr out \<Rightarrow> str_copy_loop os junk conf section_name buf out from'))
      else if IS_EOF c then Inr (buf, out)
      else if c = 36 then
        (case variable_ref from of
           None \<Rightarrow> Inl No_close_brace
         | Some (named, name, e) \<Rightarrow>
             (case NCONF_get_string conf (if named = None then section_name else named) name of
                Inl err \<Rightarrow> Inl err
              | Inr None \<Rightarrow> Inl Variable_has_no_value
              | Inr (Some p) \<Rightarrow>
                  (let newsize = sz (strlen p + bm_length buf - (length (c # from) - length e))
                   in if newsize > MAX_CONF_VALUE_LENGTH then Inl Variable_expansion_too_long
                      else case BUF_MEM_grow_clean os junk buf newsize of
                             (n, buf) \<Rightarrow>
                               if n = 0 then Inl No_memory
                               else case put_chars buf out (cstr p) of
                                      Inl err \<Rightarrow> Inl err
                                    | Inr out \<Rightarrow> str_copy_loop os junk conf section_name buf out e)))
      else (case put_chars buf out [c] of
              Inl e \<Rightarrow> Inl e
            | Inr out \<Rightarrow> str_copy_loop os junk conf section_name buf out from))"
  by pat_completeness auto
termination
proof (relation "measure (\<lambda>(_, _, _, _, _, _, from). length from)", goal_cases)
  case (2 os junk conf section_name buf out c p)
  then show ?case using length_copy_quote [of c p] by (cases "copy_quote c p") auto
next
  case (3 os junk conf section_name buf out c p)
  then show ?case using length_copy_dquote [of c p] by (cases "copy_dquote c p") auto
qed (auto dest: length_variable_ref)

definition str_copy ::
    "(nat \<Rightarrow> bool) \<Rightarrow> (nat \<Rightarrow> u8) \<Rightarrow> CONF \<Rightarrow> u8 list option \<Rightarrow> u8 list \<Rightarrow> conf_error + u8 list" where
  "str_copy os junk conf section_name from =
     (case BUF_MEM_new os of
        None \<Rightarrow> Inl No_memory
      | Some buf \<Rightarrow>
          (case BUF_MEM_grow os junk buf (strlen from + 1) of
             (n, buf) \<Rightarrow>
               if n = 0 then Inl No_memory
               else case str_copy_loop os junk conf section_name buf [] from of
                      Inl e \<Rightarrow> Inl e
                    | Inr (buf, out) \<Rightarrow>
                        (case put_chars buf out [0] of Inl e \<Rightarrow> Inl e | Inr _ \<Rightarrow> Inr out)))"

section \<open>Loading a file\<close>

text \<open>
  A section line from the character after \<open>[\<close>: the \<open>again:\<close> loop looks for the closing
  bracket; the result is the place where the name ends.
\<close>

lemma eats_shorten:
  "eat_ws p = p \<or> length (eat_ws p) < length p"
  "eat_alpha_numeric p = p \<or> length (eat_alpha_numeric p) < length p"
proof -
  show "eat_ws p = p \<or> length (eat_ws p) < length p" by (induction p) auto
  show "eat_alpha_numeric p = p \<or> length (eat_alpha_numeric p) < length p"
  proof (induction p rule: eat_alpha_numeric.induct)
    case (2 c p)
    then show ?case using length_scan_quotes(3) [of "c # p"] by auto
  qed simp
qed

function find_bracket :: "u8 list \<Rightarrow> u8 list option" where
  "find_bracket ss =
     (let stop = eat_alpha_numeric ss; p = eat_ws stop
      in if peek p \<noteq> 93
         then (if peek p \<noteq> 0 \<and> ss \<noteq> p then find_bracket p else None)
         else Some stop)"
  by pat_completeness auto
termination
proof (relation "measure length", goal_cases)
  case (2 ss stop p)
  then show ?case using eats_shorten(1) [of stop] eats_shorten(2) [of ss] by auto
qed simp

declare find_bracket.simps [simp del]

definition load_section_line ::
    "(nat \<Rightarrow> bool) \<Rightarrow> (nat \<Rightarrow> u8) \<Rightarrow> CONF \<Rightarrow> u8 list \<Rightarrow> conf_error + u8 list \<times> CONF_VALUE \<times> CONF" where
  "load_section_line os junk conf s =
     (let start = eat_ws s
      in case find_bracket start of
           None \<Rightarrow> Inl Missing_close_square_bracket
         | Some stop \<Rightarrow>
             (case str_copy os junk conf None (cut_at start stop) of
                Inl e \<Rightarrow> Inl e
              | Inr section_name \<Rightarrow>
                  (case get_section conf (Some section_name) of
                     Inl e \<Rightarrow> Inl e
                   | Inr (Some sv) \<Rightarrow> Inr (section_name, sv, conf)
                   | Inr None \<Rightarrow>
                       (case NCONF_new_section os conf section_name of
                          Inl e \<Rightarrow> Inl e
                        | Inr (None, _) \<Rightarrow> Inl Unable_to_create_new_section
                        | Inr (Some sv, conf) \<Rightarrow> Inr (section_name, sv, conf)))))"

text \<open>The value of an entry: from \<open>start\<close>, without the white space at the end.\<close>

definition trim_value :: "u8 list \<Rightarrow> u8 list" where
  "trim_value start = (case start of [] \<Rightarrow> [] | c # cs \<Rightarrow> c # rev (dropWhile IS_WS (rev cs)))"

text \<open>The parts of an entry: the section named in it, the name and the value.\<close>

definition split_entry :: "u8 list \<Rightarrow> (u8 list option \<times> u8 list \<times> u8 list) option" where
  "split_entry s =
     (let stop = eat_alpha_numeric s;
          (psection, pname, stop) =
            (if peek stop = 58 \<and> peek (drop 1 stop) = 58
             then (Some (cut_at s stop), drop 2 stop, eat_alpha_numeric (drop 2 stop))
             else (None, s, stop));
          p = eat_ws stop
      in if peek p \<noteq> 61 then None
         else Some (psection, cut_at pname stop, trim_value (eat_ws (drop 1 p))))"

definition find_entry_section ::
    "(nat \<Rightarrow> bool) \<Rightarrow> CONF \<Rightarrow> u8 list \<Rightarrow> CONF_VALUE \<Rightarrow> u8 list \<Rightarrow> conf_error + CONF_VALUE option \<times> CONF" where
  "find_entry_section os conf section_name sv psection =
     (if strcmp psection section_name \<noteq> 0
      then case get_section conf (Some psection) of
             Inl e \<Rightarrow> Inl e
           | Inr None \<Rightarrow> NCONF_new_section os conf psection
           | Inr tv \<Rightarrow> Inr (tv, conf)
      else Inr (Some sv, conf))"

text \<open>An entry line. The configuration may have changed also when there is an error.\<close>

definition load_entry_line ::
    "(nat \<Rightarrow> bool) \<Rightarrow> (nat \<Rightarrow> u8) \<Rightarrow> CONF \<Rightarrow> u8 list \<Rightarrow> CONF_VALUE \<Rightarrow> u8 list \<Rightarrow> conf_error option \<times> CONF" where
  "load_entry_line os junk conf section_name sv s =
     (case split_entry s of
        None \<Rightarrow> (Some Missing_equal_sign, conf)
      | Some (named, pname, start) \<Rightarrow>
          (let psection = (case named of None \<Rightarrow> section_name | Some psection \<Rightarrow> psection)
           in case CONF_VALUE_new os conf of
                None \<Rightarrow> (Some No_memory, conf)
              | Some (v, conf) \<Rightarrow>
                  (case OPENSSL_strdup os (Some pname) of
                     None \<Rightarrow> (Some No_memory, conf)
                   | Some name \<Rightarrow>
                       (case str_copy os junk conf (Some psection) start of
                          Inl e \<Rightarrow> (Some e, conf)
                        | Inr text \<Rightarrow>
                            (case find_entry_section os conf section_name sv psection of
                               Inl e \<Rightarrow> (Some e, conf)
                             | Inr (None, conf) \<Rightarrow> (Some Unable_to_create_new_section, conf)
                             | Inr (Some tv, conf) \<Rightarrow>
                                 (case add_string os conf tv (v\<lparr>cv_name := Some (cstr name), cv_value := Text text\<rparr>) of
                                    Inl e \<Rightarrow> (Some e, conf)
                                  | Inr (False, conf) \<Rightarrow> (Some No_memory, conf)
                                  | Inr (True, conf) \<Rightarrow> (None, conf)))))))"

record LOAD =
  ld_conf :: CONF
  ld_section :: "u8 list"
  ld_sv :: CONF_VALUE
  ld_eline :: nat

text \<open>One logical line.\<close>

definition load_line :: "(nat \<Rightarrow> bool) \<Rightarrow> (nat \<Rightarrow> u8) \<Rightarrow> LOAD \<Rightarrow> u8 list \<Rightarrow> conf_error option \<times> LOAD" where
  "load_line os junk ld line =
     (let s = eat_ws (clear_comments line)
      in if IS_EOF (peek s) then (None, ld)
         else if peek s = 91
         then (case load_section_line os junk (ld_conf ld) (drop 1 s) of
                 Inl e \<Rightarrow> (Some e, ld)
               | Inr (section_name, sv, conf) \<Rightarrow>
                   (None, ld\<lparr>ld_conf := conf, ld_section := section_name, ld_sv := sv\<rparr>))
         else (case load_entry_line os junk (ld_conf ld) (ld_section ld) (ld_sv ld) s of
                 (e, conf) \<Rightarrow> (e, ld\<lparr>ld_conf := conf\<rparr>)))"

definition CONFBUFSIZE :: nat where "CONFBUFSIZE = 512"

definition strip_newline :: "u8 list \<Rightarrow> u8 list" where
  "strip_newline p = rev (dropWhile (\<lambda>c. c = 13 \<or> c = 10) (rev p))"

text \<open>A line ends in a single escape character when it is continued on the next.\<close>

definition continued :: "u8 list \<Rightarrow> bool" where
  "continued line \<longleftrightarrow>
     line \<noteq> [] \<and> IS_ESC (last line) \<and> (length line \<le> 1 \<or> \<not> IS_ESC (line ! (length line - 2)))"

text \<open>
  The loop of \<open>def_load_bio\<close>. \<open>chunks\<close> is what the successive calls of \<open>BIO_gets\<close> store, nothing
  once the list is empty; \<open>line\<close> holds the \<open>bufnum\<close> bytes read so far and \<open>again\<close> says that the
  line goes on.
\<close>

function load_loop ::
    "(nat \<Rightarrow> bool) \<Rightarrow> (nat \<Rightarrow> u8) \<Rightarrow> LOAD \<Rightarrow> BUF_MEM \<Rightarrow> u8 list \<Rightarrow> bool \<Rightarrow> u8 list list
      \<Rightarrow> conf_error option \<times> LOAD" where
  "load_loop os junk ld buff line again chunks =
     (case BUF_MEM_grow os junk buff (length line + CONFBUFSIZE) of
        (n, buff) \<Rightarrow>
          if n = 0 then (Some No_memory, ld)
          else let p = (case chunks of [] \<Rightarrow> [] | c # _ \<Rightarrow> cstr (take (CONFBUFSIZE - 1) c))
               in if p = [] \<and> \<not> again then (None, ld)
                  else let kept = strip_newline p;
                           again = (p \<noteq> [] \<and> kept = p);
                           ld = (if again then ld else ld\<lparr>ld_eline := ld_eline ld + 1\<rparr>);
                           line = line @ kept;
                           again = (again \<or> continued line);
                           line = (if continued line then butlast line else line)
                       in if again then load_loop os junk ld buff line True (drop 1 chunks)
                          else case load_line os junk ld line of
                                 (Some e, ld) \<Rightarrow> (Some e, ld)
                               | (None, ld) \<Rightarrow> load_loop os junk ld buff [] False (drop 1 chunks))"
  by pat_completeness auto
termination
  by (relation "measures [\<lambda>(_, _, _, _, _, _, chunks). length chunks,
        \<lambda>(_, _, _, _, line, again, _). if again then Suc (length line) else 0]")
    (auto simp: strip_newline_def continued_def split: list.splits)

declare load_loop.simps [simp del]

definition def_load_bio ::
    "(nat \<Rightarrow> bool) \<Rightarrow> (nat \<Rightarrow> u8) \<Rightarrow> CONF \<Rightarrow> u8 list list \<Rightarrow> (conf_error \<times> nat) option \<times> CONF" where
  "def_load_bio os junk conf chunks =
     (case BUF_MEM_new os of
        None \<Rightarrow> (Some (No_memory, 0), conf)
      | Some buff \<Rightarrow>
          (let default = [100, 101, 102, 97, 117, 108, 116]
           in case OPENSSL_strdup os (Some default) of
                None \<Rightarrow> (Some (No_memory, 0), conf)
              | Some section_name \<Rightarrow>
                  (case NCONF_new_section os conf default of
                     Inl e \<Rightarrow> (Some (e, 0), conf)
                   | Inr (None, conf) \<Rightarrow> (Some (Unable_to_create_new_section, 0), conf)
                   | Inr (Some sv, conf) \<Rightarrow>
                       (case load_loop os junk
                          \<lparr>ld_conf = conf, ld_section = default, ld_sv = sv, ld_eline = 0\<rparr> buff [] False chunks of
                          (None, ld) \<Rightarrow> (None, ld_conf ld)
                        | (Some e, ld) \<Rightarrow> (Some (e, ld_eline ld), ld_conf ld)))))"

section \<open>Lists of names\<close>

definition isspace :: "u8 \<Rightarrow> bool" where
  "isspace c \<longleftrightarrow> c = 32 \<or> 9 \<le> c \<and> c \<le> 13"

definition trim_end :: "u8 list \<Rightarrow> u8 list" where
  "trim_end s = rev (dropWhile isspace (rev s))"

text \<open>
  \<open>CONF_parse_list\<close> on a string without NUL and a separator that is not NUL. The callback gets
  \<open>None\<close> for \<open>NULL\<close>, or what is left of the string from the element on and the element's length,
  and works on its own state.
\<close>

function parse_list_loop ::
    "u8 \<Rightarrow> bool \<Rightarrow> ((u8 list \<times> nat) option \<Rightarrow> 's \<Rightarrow> int \<times> 's) \<Rightarrow> u8 list \<Rightarrow> 's \<Rightarrow> int \<times> 's" where
  "parse_list_loop sep remove_ws list_cb lstart arg =
     (let lstart = (if remove_ws then dropWhile isspace lstart else lstart);
          p = dropWhile (\<lambda>c. c \<noteq> sep) lstart;
          elem = takeWhile (\<lambda>c. c \<noteq> sep) lstart;
          (ret, arg) =
            (if elem = [] then list_cb None arg
             else list_cb (Some (lstart, length (if remove_ws then trim_end elem else elem))) arg)
      in if ret \<le> 0 then (ret, arg)
         else if p = [] then (1, arg)
         else parse_list_loop sep remove_ws list_cb (drop 1 p) arg)"
  by pat_completeness auto
termination
proof (relation "measure (\<lambda>(_, _, _, lstart, _). length lstart)", goal_cases)
  case (2 sep remove_ws list_cb lstart arg l p elem ra ret arg')
  have "length p \<le> length lstart"
    using 2 length_dropWhile_le [of "\<lambda>c. c \<noteq> sep" l] length_dropWhile_le [of isspace lstart] by (auto split: if_splits)
  moreover have "p \<noteq> []" using 2 by simp
  ultimately show ?case by (cases p) auto
qed simp

declare parse_list_loop.simps [simp del]

definition CONF_parse_list ::
    "u8 list option \<Rightarrow> u8 \<Rightarrow> bool \<Rightarrow> ((u8 list \<times> nat) option \<Rightarrow> 's \<Rightarrow> int \<times> 's) \<Rightarrow> 's \<Rightarrow> int \<times> 's" where
  "CONF_parse_list names sep remove_ws list_cb arg =
     (case names of None \<Rightarrow> (0, arg) | Some s \<Rightarrow> parse_list_loop sep remove_ws list_cb s arg)"

section \<open>A value is copied inside its buffer\<close>

lemma put_chars_fits: "length out + length w \<le> bm_max buf \<Longrightarrow> put_chars buf out w = Inr (out @ w)"
  by (simp add: put_chars_def)

lemma set_copies:
  "set (snd (copy_quote q p)) \<subseteq> set p" "set (snd (copy_dquote q p)) \<subseteq> set p"
proof -
  show "set (snd (copy_quote q p)) \<subseteq> set p"
  proof (induction p rule: length_induct)
    case (1 p)
    then have IH: "length p' < length p \<Longrightarrow> set (snd (copy_quote q p')) \<subseteq> set p'" for p' by blast
    show ?case
    proof (cases p)
      case (Cons c p')
      then show ?thesis using IH [of p'] IH [of "tl p'"] by (cases p') (auto split: prod.splits)
    qed simp
  qed
  show "set (snd (copy_dquote q p)) \<subseteq> set p"
  proof (induction p rule: length_induct)
    case (1 p)
    then have IH: "length p' < length p \<Longrightarrow> set (snd (copy_dquote q p')) \<subseteq> set p'" for p' by blast
    show ?case
    proof (cases p)
      case (Cons c p')
      then show ?thesis using IH [of p'] IH [of "tl p'"] by (cases p') (auto split: prod.splits)
    qed simp
  qed
qed

lemma set_variable_ref: "variable_ref s = Some (sec, name, e) \<Longrightarrow> set e \<subseteq> set s"
  by (auto simp: variable_ref_def Let_def dest!: set_dropWhileD in_set_dropD split: if_splits)

lemma strlen_no_nul: "0 \<notin> set s \<Longrightarrow> strlen s = length s"
  unfolding strlen_def by (subst takeWhile_eq_all_conv [THEN iffD2]) auto

lemma get_string_error: "NCONF_get_string conf s n = Inl e \<Longrightarrow> e = Null_string"
  by (auto simp: NCONF_get_string_def conf_retrieve_def Let_def split: if_splits option.splits conf_payload.splits)

text \<open>The room a copy needs: what is written, what is left to read and the terminator.\<close>

definition copy_room :: "BUF_MEM \<Rightarrow> u8 list \<Rightarrow> u8 list \<Rightarrow> bool" where
  "copy_room buf out from \<longleftrightarrow>
     bm_wf buf \<and> 0 \<notin> set from \<and> length out + length from + 1 \<le> bm_length buf \<and> bm_length buf \<le> 2 ^ 63"

definition values_short :: "CONF \<Rightarrow> bool" where
  "values_short conf \<longleftrightarrow> (\<forall>s n p. NCONF_get_string conf s n = Inr (Some p) \<longrightarrow> strlen p < 2 ^ 63)"

lemma copy_room_put:
  assumes "copy_room buf out from" "length w + length rest \<le> length from" "set rest \<subseteq> set from"
  shows "put_chars buf out w = Inr (out @ w)" "copy_room buf (out @ w) rest"
  using assms by (auto simp: copy_room_def bm_wf_def put_chars_def)

lemma copy_room_expand:
  assumes room: "copy_room buf out from" and e: "length e < length from" "set e \<subseteq> set from"
    and p: "strlen p < 2 ^ 63"
    and newsize: "newsize = sz (strlen p + bm_length buf - (length from - length e))" "newsize \<le> MAX_CONF_VALUE_LENGTH"
    and grow: "BUF_MEM_grow_clean os junk buf newsize = (n, buf')" "n \<noteq> 0"
  shows "put_chars buf' out (cstr p) = Inr (out @ cstr p)" "copy_room buf' (out @ cstr p) e"
proof -
  have "strlen p + bm_length buf < 2 ^ 64" using room p by (simp add: copy_room_def)
  then have "newsize = strlen p + bm_length buf - (length from - length e)" using newsize(1) by simp
  then have fits: "length out + length (cstr p) + length e + 1 \<le> newsize"
    using room e(1) unfolding copy_room_def strlen_def by linarith
  note g = grow_result [OF grow(1) [unfolded BUF_MEM_grow_clean_def]]
  have wf: "bm_wf buf'" using g(1) room by (simp add: copy_room_def)
  have "n = newsize" using g(2) grow(2) room by (simp add: copy_room_def)
  then have len: "bm_length buf' = newsize"
    using grow(1) by (auto simp: BUF_MEM_grow_clean_def BUF_MEM_grow_def Let_def grow(2) split: prod.splits bool.splits if_splits)
  show "put_chars buf' out (cstr p) = Inr (out @ cstr p)"
    using fits len wf by (intro put_chars_fits) (simp add: bm_wf_def)
  show "copy_room buf' (out @ cstr p) e"
    using fits len wf e(2) room newsize(2) by (auto simp: copy_room_def MAX_CONF_VALUE_LENGTH_def)
qed

definition copy_result_ok :: "conf_error + BUF_MEM \<times> u8 list \<Rightarrow> bool" where
  "copy_result_ok r \<longleftrightarrow>
     (case r of
        Inl e \<Rightarrow> e \<noteq> Out_of_bounds \<and> e \<noteq> Dangling
      | Inr (buf, out) \<Rightarrow> length out + 1 \<le> bm_max buf \<and> length out < 2 ^ 63)"

lemma copy_room_done: "copy_room buf out from \<Longrightarrow> copy_result_ok (Inr (buf, out))"
  by (auto simp: copy_result_ok_def copy_room_def bm_wf_def)

lemma quoted_part:
  assumes "copy = copy_quote \<or> copy = copy_dquote" "copy c p = (w, rest)"
  defines "rest' \<equiv> if peek rest = c then drop 1 rest else rest"
  shows "length w + length rest' \<le> length p" "set rest' \<subseteq> set p"
proof -
  have "length rest + length w \<le> length p" "set rest \<subseteq> set p"
    using assms(1,2) length_copy_quote [of c p] length_copy_dquote [of c p] set_copies [of c p] by auto
  then show "length w + length rest' \<le> length p" "set rest' \<subseteq> set p"
    using set_drop_subset [of 1 rest] by (auto simp: rest'_def)
qed

lemma str_copy_variable:
  assumes room: "copy_room buf out (c # p)" and "values_short conf"
    and c: "\<not> IS_QUOTE c" "\<not> IS_DQUOTE c" "\<not> IS_ESC c" "c = 36"
    and IH: "\<And>buf out p'. length p' \<le> length p \<Longrightarrow> copy_room buf out p'
      \<Longrightarrow> copy_result_ok (str_copy_loop os junk conf s buf out p')"
  shows "copy_result_ok (str_copy_loop os junk conf s buf out (c # p))"
proof (cases "variable_ref p")
  case None
  then show ?thesis using c by (simp add: copy_result_ok_def)
next
  case (Some r)
  then obtain named name e where ref: "variable_ref p = Some (named, name, e)" by (cases r) auto
  let ?sec = "if named = None then s else named"
  consider (err) err where "NCONF_get_string conf ?sec name = Inl err" | (none) "NCONF_get_string conf ?sec name = Inr None"
    | (val) t where "NCONF_get_string conf ?sec name = Inr (Some t)"
    by (metis old.sum.exhaust option.exhaust)
  then show ?thesis
  proof cases
    case err
    then show ?thesis using get_string_error [OF err] c by (simp add: ref copy_result_ok_def)
  next
    case none
    then show ?thesis using c by (simp add: ref copy_result_ok_def)
  next
    case (val t)
    let ?new = "sz (strlen t + bm_length buf - (length (c # p) - length e))"
    obtain n buf' where grow: "BUF_MEM_grow_clean os junk buf ?new = (n, buf')" by fastforce
    have e: "length e \<le> length p" "set e \<subseteq> set (c # p)"
      using length_variable_ref [OF ref] set_variable_ref [OF ref] by auto
    have "strlen t < 2 ^ 63" using assms(2) val unfolding values_short_def by blast
    then have "put_chars buf' out (cstr t) = Inr (out @ cstr t)" "copy_room buf' (out @ cstr t) e"
      if "?new \<le> MAX_CONF_VALUE_LENGTH" "n \<noteq> 0"
      using copy_room_expand [OF room _ e(2) _ _ that(1) grow that(2)] e(1) by auto
    then show ?thesis
      using c IH [OF e(1)] val ref grow by (simp add: Let_def copy_result_ok_def)
  qed
qed

lemma str_copy_loop_room:
  assumes "copy_room buf out from" "values_short conf"
  shows "copy_result_ok (str_copy_loop os junk conf s buf out from)"
  using assms(1)
proof (induction "length from" arbitrary: buf out "from" rule: less_induct)
  case less
  show ?case
  proof (cases "from")
    case Nil
    then show ?thesis using copy_room_done [OF less.prems] by simp
  next
    case (Cons c p)
    have put: "put_chars buf out w = Inr (out @ w)" "copy_result_ok (str_copy_loop os junk conf s buf (out @ w) rest)"
      if "length w + length rest \<le> length p + 1" "length rest \<le> length p" "set rest \<subseteq> set p" for w rest
      using copy_room_put [OF less.prems, of w rest] less.hyps [of rest buf "out @ w"] that Cons by auto
    note unfold = str_copy_loop.simps(2) [of os junk conf s buf out c p] Cons
    consider "IS_QUOTE c" | "\<not> IS_QUOTE c" "IS_DQUOTE c" | "\<not> IS_QUOTE c" "\<not> IS_DQUOTE c" "IS_ESC c"
      | "\<not> IS_QUOTE c" "\<not> IS_DQUOTE c" "\<not> IS_ESC c" "c = 36" | "\<not> IS_QUOTE c" "\<not> IS_DQUOTE c" "\<not> IS_ESC c" "c \<noteq> 36"
      by blast
    then show ?thesis
    proof cases
      case 1
      obtain w rest where cq: "copy_quote c p = (w, rest)" by fastforce
      let ?rest = "if peek rest = c then drop 1 rest else rest"
      have "put_chars buf out w = Inr (out @ w)" "copy_result_ok (str_copy_loop os junk conf s buf (out @ w) ?rest)"
        using put [of w ?rest] quoted_part [OF disjI1 [OF refl] cq] by auto
      then show ?thesis using 1 unfolding unfold Let_def cq by simp
    next
      case 2
      obtain w rest where cq: "copy_dquote c p = (w, rest)" by fastforce
      let ?rest = "if peek rest = c then drop 1 rest else rest"
      have "put_chars buf out w = Inr (out @ w)" "copy_result_ok (str_copy_loop os junk conf s buf (out @ w) ?rest)"
        using put [of w ?rest] quoted_part [OF disjI2 [OF refl] cq] by auto
      then show ?thesis using 2 unfolding unfold Let_def cq by simp
    next
      case 3
      have "v \<noteq> 0 \<Longrightarrow> p = v # p' \<Longrightarrow> put_chars buf out [escaped_char v] = Inr (out @ [escaped_char v])
        \<and> copy_result_ok (str_copy_loop os junk conf s buf (out @ [escaped_char v]) p')" for v p'
        using put [of "[escaped_char v]" p'] by auto
      then show ?thesis using 3 copy_room_done [OF less.prems] unfolding unfold by (auto split: list.split)
    next
      case 4
      then show ?thesis using str_copy_variable [of buf out c p conf os junk s] less.hyps less.prems assms(2) Cons by simp
    next
      case 5
      have "put_chars buf out [c] = Inr (out @ [c])" "copy_result_ok (str_copy_loop os junk conf s buf (out @ [c]) p)"
        using put [of "[c]" p] by auto
      then show ?thesis using 5 copy_room_done [OF less.prems] unfolding unfold by simp
    qed
  qed
qed

lemma str_copy_start:
  assumes "0 \<notin> set from" "length from < 2 ^ 63" "BUF_MEM_new os = Some buf"
    and "BUF_MEM_grow os junk buf (strlen from + 1) = (n, buf')" "n \<noteq> 0"
  shows "copy_room buf' [] from"
proof -
  have wf: "bm_wf buf" "bm_bytes buf = []" using assms(3) BUF_MEM_new_wf by blast+
  note g = grow_result [OF assms(4) wf(1)]
  have "n = strlen from + 1" using g(2) assms(5) by simp
  then have "length (bm_bytes buf') = length from + 1"
    using g(3) wf(2) length_bm_bytes [OF wf(1)] strlen_no_nul [OF assms(1)] by simp
  then show ?thesis
    using g(1) length_bm_bytes [OF g(1)] assms(1,2) by (simp add: copy_room_def)
qed

lemma str_copy_result:
  assumes "0 \<notin> set from" "length from < 2 ^ 63" "values_short conf"
  shows "str_copy os junk conf s from \<noteq> Inl Out_of_bounds" "str_copy os junk conf s from \<noteq> Inl Dangling"
    "str_copy os junk conf s from = Inr out \<Longrightarrow> length out < 2 ^ 63"
proof -
  have "case str_copy os junk conf s from of Inl e \<Rightarrow> e \<noteq> Out_of_bounds \<and> e \<noteq> Dangling | Inr out \<Rightarrow> length out < 2 ^ 63"
  proof (cases "BUF_MEM_new os")
    case (Some buf)
    obtain n buf' where grow: "BUF_MEM_grow os junk buf (strlen from + 1) = (n, buf')" by fastforce
    show ?thesis
    proof (cases "n = 0")
      case False
      then have "copy_result_ok (str_copy_loop os junk conf s buf' [] from)"
        using str_copy_loop_room [OF str_copy_start [OF assms(1,2) Some grow]] assms(3) by blast
      then show ?thesis
        using Some grow False by (auto simp: str_copy_def copy_result_ok_def put_chars_def split: sum.splits prod.splits)
    qed (use Some grow in \<open>simp add: str_copy_def\<close>)
  qed (simp add: str_copy_def)
  then show "str_copy os junk conf s from \<noteq> Inl Out_of_bounds" "str_copy os junk conf s from \<noteq> Inl Dangling"
    "str_copy os junk conf s from = Inr out \<Longrightarrow> length out < 2 ^ 63" by auto
qed

section \<open>The configuration as a map\<close>

abbreviation objects :: "CONF \<Rightarrow> CONF_VALUE multiset" where
  "objects conf \<equiv> contents (conf_data conf)"

definition sec_key :: "CONF_VALUE \<Rightarrow> u8 list option" where
  "sec_key v = map_option cstr (cv_section v)"

definition entries :: "CONF \<Rightarrow> u8 list option \<Rightarrow> CONF_VALUE set" where
  "entries conf s = {e. e \<in># objects conf \<and> cv_name e \<noteq> None \<and> sec_key e = s}"

text \<open>The stack of a section object lists exactly the section's entries.\<close>

definition lists_entries :: "CONF \<Rightarrow> CONF_VALUE \<Rightarrow> bool" where
  "lists_entries conf v \<longleftrightarrow>
     (\<exists>a stack. cv_value v = Section a \<and> conf_stacks conf a = Some stack
       \<and> distinct (sk_data stack) \<and> set (sk_data stack) = Some ` entries conf (sec_key v))"

definition conf_ok :: "CONF \<Rightarrow> bool" where
  "conf_ok conf \<longleftrightarrow>
     conf_table.table_ok call_hash call_cmp (conf_data conf)
     \<and> (\<forall>v \<in># objects conf. cv_section v \<noteq> None)
     \<and> (\<forall>v \<in># objects conf. cv_name v \<noteq> None \<longrightarrow> (\<exists>t. cv_value v = Text t))
     \<and> (\<forall>v \<in># objects conf. cv_name v = None \<longrightarrow> lists_entries conf v)
     \<and> (\<forall>v \<in># objects conf. \<forall>w \<in># objects conf. \<forall>a.
          cv_value v = Section a \<and> cv_value w = Section a \<longrightarrow> v = w)
     \<and> (\<forall>e \<in># objects conf. \<exists>v \<in># objects conf. cv_name v = None \<and> sec_key v = sec_key e)
     \<and> (\<forall>v \<in># objects conf. cv_addr v < conf_next conf \<and> (\<forall>a. cv_value v = Section a \<longrightarrow> a < conf_next conf))"

lemma conf_key_eq: "conf_key v = (sec_key v, map_option cstr (cv_name v))"
  by (simp add: conf_key_def sec_key_def)

text \<open>The part of the invariant that lookups rely on.\<close>

definition table_well :: "CONF \<Rightarrow> bool" where
  "table_well conf \<longleftrightarrow> conf_table.table_ok call_hash call_cmp (conf_data conf)
     \<and> (\<forall>v \<in># objects conf. cv_section v \<noteq> None)"

lemma conf_ok_table_well [simp]: "conf_ok conf \<Longrightarrow> table_well conf"
  by (simp add: conf_ok_def table_well_def)

lemma null_clash_iff:
  assumes "table_well conf"
  shows "null_clash conf v \<longleftrightarrow> cv_section v = None
    \<and> lh_buckets (conf_data conf) ! (unat (conf_value_hash v) mod lh_num_buckets (conf_data conf)) \<noteq> []"
proof -
  let ?b = "unat (conf_value_hash v) mod lh_num_buckets (conf_data conf)"
  let ?chain = "lh_buckets (conf_data conf) ! ?b"
  have ok: "conf_table.table_ok call_hash call_cmp (conf_data conf)" using assms by (simp add: table_well_def)
  from conf_table.get_next_ptr [OF ok, of v] obtain pos where
    ptr: "get_next_ptr_and_hash call_hash call_cmp (conf_data conf) v = (conf_value_hash v, ?b, pos)"
    "?b < length (lh_buckets (conf_data conf))" by metis
  have "cv_section (lh_data it) \<noteq> None" if "it \<in> set ?chain" for it
    using conf_table.in_contents [OF ptr(2) that] assms by (auto simp: table_well_def)
  moreover have "set (take (Suc pos) ?chain) = {} \<longleftrightarrow> ?chain = []" by simp
  ultimately have "(\<exists>it \<in> set (take (Suc pos) ?chain). (cv_section (lh_data it) = None) \<noteq> (cv_section v = None))
      \<longleftrightarrow> cv_section v = None \<and> ?chain \<noteq> []"
    by (metis all_not_in_conv in_set_takeD)
  then show ?thesis unfolding null_clash_def ptr(1) by simp
qed

lemma no_null_clash:
  assumes "table_well conf" "cv_section v \<noteq> None"
  shows "\<not> null_clash conf v"
  using assms by (simp add: null_clash_iff)

lemma table_retrieve_iff:
  assumes "table_well conf"
  shows "conf_retrieve conf (Some s) name = Inr (Some v)
    \<longleftrightarrow> v \<in># objects conf \<and> conf_key v = (Some (cstr s), map_option cstr name)"
    "conf_retrieve conf (Some s) name \<noteq> Inl e"
  using assms no_null_clash [OF assms] conf_table.retrieve_iff [of call_hash call_cmp "conf_data conf"]
  by (auto simp: conf_retrieve_def Let_def table_well_def conf_key_def)

lemmas conf_retrieve_iff = table_retrieve_iff [OF conf_ok_table_well]

text \<open>What the table holds after an insertion; \<open>M\<close> is what was there before.\<close>

lemma conf_insert_result:
  assumes ok: "conf_ok conf" and table: "conf_data conf1 = conf_data conf" and sec: "cv_section v \<noteq> None"
    and room: "lh_items (conf_data conf) + 1 < 2 ^ 64"
    and ins: "conf_insert os conf1 v = Inr (True, old, conf')"
  shows "conf_table.table_ok call_hash call_cmp (conf_data conf')"
    "conf_stacks conf' = conf_stacks conf1" "conf_next conf' = conf_next conf1"
    "old = Some w \<longleftrightarrow> w \<in># objects conf \<and> conf_key w = conf_key v"
    "x \<in># objects conf' \<longleftrightarrow> x = v \<or> x \<in># objects conf \<and> conf_key x \<noteq> conf_key v"
proof -
  let ?M = "objects conf"
  have tab: "conf_table.table_ok call_hash call_cmp (conf_data conf)" using ok by (simp add: conf_ok_def)
  obtain data where lh: "lh_insert os call_hash call_cmp (conf_data conf) v = (True, old, data)"
    and conf': "conf' = conf1\<lparr>conf_data := data\<rparr>"
    using ins table by (auto simp: conf_insert_def split: if_splits prod.splits)
  note new = conf_table.insert_contents [OF tab room lh]
  show "conf_table.table_ok call_hash call_cmp (conf_data conf')"
    "conf_stacks conf' = conf_stacks conf1" "conf_next conf' = conf_next conf1"
    using new conf' by simp_all
  show old: "old = Some w \<longleftrightarrow> w \<in># ?M \<and> conf_key w = conf_key v" for w
    using new conf_table.retrieve_iff [OF tab, of v w] by simp
  have "x \<in># ?M - (case old of None \<Rightarrow> {#} | Some e \<Rightarrow> {#e#}) \<and> conf_key x = conf_key x
    \<longleftrightarrow> x \<in># ?M \<and> conf_key x = conf_key x \<and> \<not> conf_key v = conf_key x"
  proof (rule conf_table.equivalent_after_removal)
    show "conf_table.apart ?M" using tab by (simp add: conf_table.table_ok_def)
    show "old = Some e \<longleftrightarrow> e \<in># ?M \<and> conf_key e = conf_key v" for e
      using new conf_table.retrieve_iff [OF tab, of v e] by simp
    show "old = None \<longleftrightarrow> (\<forall>y \<in># ?M. \<not> conf_key y = conf_key v)"
      using new conf_table.retrieve_None_iff [OF tab, of v] by simp
  qed
  then show "x \<in># objects conf' \<longleftrightarrow> x = v \<or> x \<in># ?M \<and> conf_key x \<noteq> conf_key v"
    using new conf' by (simp add: eq_commute)
qed

lemma conf_insert_no_error:
  assumes "conf_ok conf" "conf_data conf1 = conf_data conf" "cv_section v \<noteq> None"
  shows "conf_insert os conf1 v \<noteq> Inl e"
  using no_null_clash [OF conf_ok_table_well [OF assms(1)] assms(3)] assms(2) by (auto simp: conf_insert_def null_clash_def split: prod.splits)

lemma table_get_string:
  assumes "table_well conf"
  shows "NCONF_get_string conf (Some s) n = Inr (Some t)
    \<longleftrightarrow> (\<exists>v \<in># objects conf. conf_key v = (Some (cstr s), Some (cstr n)) \<and> cv_value v = Text t)"
proof -
  obtain r where r: "conf_retrieve conf (Some s) (Some n) = Inr r"
    using table_retrieve_iff(2) [OF assms] by (metis old.sum.exhaust)
  have "r = Some v \<longleftrightarrow> v \<in># objects conf \<and> conf_key v = (Some (cstr s), Some (cstr n))" for v
    using table_retrieve_iff(1) [OF assms, of s "Some n" v] r by simp
  moreover have "NCONF_get_string conf (Some s) n = Inr (Some t) \<longleftrightarrow> (\<exists>v. r = Some v \<and> cv_value v = Text t)"
    by (simp add: NCONF_get_string_def r split: option.splits conf_payload.splits)
  ultimately show ?thesis by blast
qed

lemmas get_string_eq = table_get_string [OF conf_ok_table_well]

lemma entries_after:
  assumes "\<And>x. x \<in># objects conf' \<longleftrightarrow> x = w \<or> x \<in># objects conf \<and> conf_key x \<noteq> conf_key w" "cv_name w \<noteq> None"
  shows "entries conf' s = (if s = sec_key w then insert w {e \<in> entries conf s. conf_key e \<noteq> conf_key w} else entries conf s)"
  using assms by (auto simp: entries_def conf_key_eq)

lemma unnamed_unique:
  assumes "conf_ok conf" "u \<in># objects conf" "v \<in># objects conf" "conf_key u = conf_key v"
  shows "u = v"
  using conf_table.apart_unique [of "objects conf" u v] assms by (simp add: conf_ok_def conf_table.table_ok_def)

text \<open>What \<open>add_string\<close> does to the table and to the stack of the section.\<close>

lemma add_string_effect:
  assumes ok: "conf_ok conf" and value': "cv_value section_obj = Section a" "conf_stacks conf a = Some stack"
    and sec: "cv_section section_obj = Some s" and named: "cv_name v = Some n" and dup: "OPENSSL_strdup os (Some s) = Some d"
    and room: "lh_items (conf_data conf) + 1 < 2 ^ 64"
    and listed: "set (sk_data stack) = Some ` entries conf (Some (cstr s))"
    and add: "add_string os conf section_obj v = Inr (True, conf')"
  defines "w \<equiv> v\<lparr>cv_section := Some (cstr s)\<rparr>"
  obtains stack' old where
    "conf_table.table_ok call_hash call_cmp (conf_data conf')"
    "\<And>x. x \<in># objects conf' \<longleftrightarrow> x = w \<or> x \<in># objects conf \<and> conf_key x \<noteq> conf_key w"
    "conf_stacks conf' = (conf_stacks conf)(a := Some stack')" "conf_next conf' = conf_next conf"
    "sk_data stack' = (case old of None \<Rightarrow> sk_data stack @ [Some w] | Some e \<Rightarrow> remove1 (Some e) (sk_data stack @ [Some w]))"
    "\<And>e. old = Some e \<longleftrightarrow> e \<in># objects conf \<and> conf_key e = conf_key w"
proof -
  have "d = cstr s @ [0]" using dup by (auto simp: OPENSSL_strdup_def Let_def split: if_splits)
  then have w: "v\<lparr>cv_section := map_option cstr (OPENSSL_strdup os (cv_section section_obj))\<rparr> = w"
    using dup sec by (simp add: w_def)
  obtain k stack1 where push: "sk_push os stack (Some w) = (k, Some stack1)"
    using sk_insert_Some [of os stack "Some w" "sk_len stack"] by (auto simp: sk_push_def)
  have "k \<noteq> 0" using add by (auto simp: add_string_def value' w push Let_def split: if_splits)
  then have data1: "sk_data stack1 = sk_data stack @ [Some w]"
    by (cases rule: sk_insert_cases [OF push [unfolded sk_push_def]]) simp_all
  let ?conf1 = "conf\<lparr>conf_stacks := (conf_stacks conf)(a := Some stack1)\<rparr>"
  obtain old conf2 where ins: "conf_insert os ?conf1 w = Inr (True, old, conf2)"
    using add \<open>k \<noteq> 0\<close> by (auto simp: add_string_def value' w push Let_def split: sum.splits prod.splits bool.splits)
  have "cv_section w \<noteq> None" by (simp add: w_def)
  note i = conf_insert_result [OF ok _ this room ins, simplified]
  show thesis
  proof (cases old)
    case None
    then have "conf' = conf2"
      using add \<open>k \<noteq> 0\<close> ins by (simp add: add_string_def value' w push Let_def)
    then show thesis using that [of stack1 old] i data1 None by simp
  next
    case (Some e)
    then have e: "e \<in># objects conf" "conf_key e = conf_key w" using i(4) by auto
    then have "cv_name e \<noteq> None" using named by (auto simp: conf_key_eq w_def)
    then obtain t where "cv_value e = Text t" using ok e(1) by (auto simp: conf_ok_def)
    then have free: "value_free c e = c" for c by (simp add: value_free_def)
    define stack2 where "stack2 = stack1\<lparr>sk_data := remove1 (Some e) (sk_data stack1)\<rparr>"
    have "e \<in> entries conf (Some (cstr s))"
      using e \<open>cv_name e \<noteq> None\<close> by (simp add: entries_def conf_key_eq w_def sec_key_def)
    then have "Some e \<in> set (sk_data stack1)" using listed data1 by simp
    then have del: "sk_delete_ptr (Some stack1) (Some e) = (Some e, Some stack2)"
      by (simp add: sk_delete_ptr_eq stack2_def)
    have "conf' = conf2\<lparr>conf_stacks := (conf_stacks conf2)(a := Some stack2)\<rparr>"
      using add \<open>k \<noteq> 0\<close> ins Some by (simp add: add_string_def value' w push Let_def free del)
    then show thesis using that [of stack2 old] i data1 Some by (simp add: stack2_def)
  qed
qed

lemma add_string_result:
  assumes ok: "conf_ok conf" and sec: "section_obj \<in># objects conf" "cv_name section_obj = None"
      "cv_section section_obj = Some s" and dup: "OPENSSL_strdup os (Some s) = Some d"
    and v: "cv_name v = Some n" "cv_value v = Text t" "\<forall>x \<in># objects conf. cv_addr x \<noteq> cv_addr v"
      "cv_addr v < conf_next conf"
    and room: "lh_items (conf_data conf) + 1 < 2 ^ 64"
    and add: "add_string os conf section_obj v = Inr (True, conf')"
  defines "w \<equiv> v\<lparr>cv_section := Some (cstr s)\<rparr>"
  shows "conf_ok conf'" "x \<in># objects conf' \<longleftrightarrow> x = w \<or> x \<in># objects conf \<and> conf_key x \<noteq> conf_key w"
proof -
  have key: "sec_key section_obj = Some (cstr s)" "sec_key w = Some (cstr s)" "cv_name w \<noteq> None"
    using sec(3) v(1) by (simp_all add: sec_key_def w_def)
  obtain a stack where stack: "cv_value section_obj = Section a" "conf_stacks conf a = Some stack"
    "distinct (sk_data stack)" "set (sk_data stack) = Some ` entries conf (Some (cstr s))"
    using ok sec key(1) by (auto simp: conf_ok_def lists_entries_def)
  obtain stack' old where table: "conf_table.table_ok call_hash call_cmp (conf_data conf')"
    and mem: "\<And>x. x \<in># objects conf' \<longleftrightarrow> x = w \<or> x \<in># objects conf \<and> conf_key x \<noteq> conf_key w"
    and stacks: "conf_stacks conf' = (conf_stacks conf)(a := Some stack')" "conf_next conf' = conf_next conf"
    and data: "sk_data stack' = (case old of None \<Rightarrow> sk_data stack @ [Some w] | Some e \<Rightarrow> remove1 (Some e) (sk_data stack @ [Some w]))"
    and old: "\<And>e. old = Some e \<longleftrightarrow> e \<in># objects conf \<and> conf_key e = conf_key w"
    using add_string_effect [OF ok stack(1,2) sec(3) v(1) dup room stack(4) add] unfolding w_def by blast
  show "x \<in># objects conf' \<longleftrightarrow> x = w \<or> x \<in># objects conf \<and> conf_key x \<noteq> conf_key w" by (rule mem)
  have new: "w \<notin># objects conf" using v(3) by (auto simp: w_def)
  note after = entries_after [OF mem key(3)]
  have unnamed: "conf_key u \<noteq> conf_key w" if "cv_name u = None" for u
    using that v(1) by (auto simp: conf_key_eq w_def)
  have dist: "distinct (sk_data stack @ [Some w])" using stack(3,4) new by (auto simp: entries_def)
  have gone: "{e \<in> entries conf (Some (cstr s)). conf_key e \<noteq> conf_key w}
      = entries conf (Some (cstr s)) - {e. old = Some e}"
    using old by (auto simp: entries_def)
  have listed: "distinct (sk_data stack')" "set (sk_data stack') = Some ` entries conf' (Some (cstr s))"
  proof -
    show "distinct (sk_data stack')" using dist by (auto simp: data split: option.split)
    have "old \<noteq> Some w" using new old by blast
    then show "set (sk_data stack') = Some ` entries conf' (Some (cstr s))"
      using dist stack(4) by (cases old) (auto simp: data after key(2) gone set_remove1_eq)
  qed
  have lists: "lists_entries conf' u" if u: "u \<in># objects conf'" "cv_name u = None" for u
  proof -
    have u': "u \<in># objects conf" using u mem v(1) by (auto simp: w_def)
    show ?thesis
    proof (cases "u = section_obj")
      case True
      then show ?thesis using stack(1) stacks(1) listed key(1) by (simp add: lists_entries_def)
    next
      case False
      then have "sec_key u \<noteq> Some (cstr s)"
        using unnamed_unique [OF ok u' sec(1)] u(2) sec(2) key(1) by (auto simp: conf_key_eq)
      moreover have "cv_value u \<noteq> Section a" using False ok u' sec(1) stack(1) unfolding conf_ok_def by blast
      moreover have "lists_entries conf u" using ok u' u(2) by (simp add: conf_ok_def)
      ultimately show ?thesis using stacks(1) after [of "sec_key u"] key(2) by (auto simp: lists_entries_def)
    qed
  qed
  have "cv_value w = Text t" "cv_section w \<noteq> None" "cv_addr w < conf_next conf" using v by (simp_all add: w_def)
  then show "conf_ok conf'"
    unfolding conf_ok_def Ball_def mem stacks(2)
  proof (intro conjI allI impI table, goal_cases)
    case (3 u)
    then show ?case using lists [of u] mem by blast
  next
    case (5 e)
    then have "\<exists>u \<in># objects conf. cv_name u = None \<and> sec_key u = sec_key e"
      using ok sec(1,2) key(1,2) unfolding conf_ok_def by metis
    then show ?case using unnamed mem by blast
  qed (use ok in \<open>auto simp: conf_ok_def\<close>)
qed

lemma NCONF_new_ok: "NCONF_new os has_method = Some conf \<Longrightarrow> conf_ok conf \<and> objects conf = {#}"
  using conf_table.new_table [of os "()" "()" _ call_hash call_cmp]
  by (auto simp: NCONF_new_def conf_ok_def conf_value_cmp_zero_iff split: if_splits option.splits)

text \<open>\<open>NCONF_get_section\<close> gives the stack, whose elements are the entries of the section.\<close>

lemma get_section_lists:
  assumes ok: "conf_ok conf"
  shows "NCONF_get_section conf (Some s) = Inr None \<longleftrightarrow> (\<forall>v \<in># objects conf. sec_key v \<noteq> Some (cstr s))"
    "NCONF_get_section conf (Some s) = Inr (Some stack) \<Longrightarrow> set (sk_data stack) = Some ` entries conf (Some (cstr s))"
    "NCONF_get_section conf (Some s) \<noteq> Inl e"
proof -
  obtain r where r: "get_section conf (Some s) = Inr r"
    using conf_retrieve_iff(2) [OF ok, of s None] unfolding get_section_def by (metis old.sum.exhaust)
  have found: "r = Some v \<longleftrightarrow> v \<in># objects conf \<and> cv_name v = None \<and> sec_key v = Some (cstr s)" for v
    using conf_retrieve_iff(1) [OF ok, of s None v] r by (auto simp: get_section_def conf_key_eq)
  have lists: "r = Some v \<Longrightarrow> lists_entries conf v" for v using found ok by (auto simp: conf_ok_def)
  have none: "r = None \<longleftrightarrow> (\<forall>v \<in># objects conf. sec_key v \<noteq> Some (cstr s))"
    using found ok unfolding conf_ok_def by (metis option.exhaust option.distinct(1))
  have got: "(\<exists>v stack. r = Some v \<and> sec_key v = Some (cstr s) \<and> NCONF_get_section conf (Some s) = Inr (Some stack)
      \<and> set (sk_data stack) = Some ` entries conf (Some (cstr s))) \<or> r = None \<and> NCONF_get_section conf (Some s) = Inr None"
  proof (cases r)
    case (Some v)
    then show ?thesis
      using lists [OF Some] found [of v] r by (auto simp: NCONF_get_section_def lists_entries_def)
  qed (simp add: NCONF_get_section_def r)
  then show "NCONF_get_section conf (Some s) = Inr None \<longleftrightarrow> (\<forall>v \<in># objects conf. sec_key v \<noteq> Some (cstr s))"
    "NCONF_get_section conf (Some s) = Inr (Some stack) \<Longrightarrow> set (sk_data stack) = Some ` entries conf (Some (cstr s))"
    "NCONF_get_section conf (Some s) \<noteq> Inl e"
    using none by auto
qed

text \<open>What \<open>NCONF_new_section\<close> does to the table and the stacks.\<close>

lemma new_section_effect:
  assumes ok: "conf_ok conf" and room: "lh_items (conf_data conf) + 1 < 2 ^ 64"
    and new: "NCONF_new_section os conf s = Inr (Some v, conf')"
  obtains a stack where
    "v = \<lparr>cv_addr = conf_next conf, cv_section = Some (cstr s), cv_name = None, cv_value = Section a\<rparr>"
    "a = conf_next conf + 1" "conf_next conf' = a + 1" "sk_data stack = []"
    "conf_table.table_ok call_hash call_cmp (conf_data conf')"
    "\<And>x. x \<in># objects conf' \<longleftrightarrow> x = v \<or> x \<in># objects conf \<and> conf_key x \<noteq> conf_key v"
    "conf_stacks conf' a = Some stack"
    "\<And>b. (\<forall>u \<in># objects conf. conf_key u = conf_key v \<longrightarrow> cv_value u \<noteq> Section b) \<Longrightarrow> b \<noteq> a
      \<Longrightarrow> conf_stacks conf' b = conf_stacks conf b"
proof -
  let ?a = "conf_next conf + 1"
  let ?v = "\<lparr>cv_addr = conf_next conf, cv_section = Some (cstr s), cv_name = None, cv_value = Section ?a\<rparr>"
  have "malloc_ok os sizeof_CONF_VALUE" "(sk_new_null os :: conf_stack option) \<noteq> None"
    using new by (auto simp: NCONF_new_section_def CONF_VALUE_new_def split: option.splits if_splits)
  then obtain stack :: conf_stack where stack: "sk_new_null os = Some stack" "malloc_ok os sizeof_CONF_VALUE" by auto
  obtain d where dup: "OPENSSL_strdup os (Some s) = Some d"
    using new by (auto simp: NCONF_new_section_def CONF_VALUE_new_def stack split: option.splits)
  then have d: "cstr d = cstr s" by (auto simp: OPENSSL_strdup_def Let_def split: if_splits)
  let ?conf2 = "conf\<lparr>conf_stacks := (conf_stacks conf)(?a := Some stack), conf_next := ?a + 1\<rparr>"
  have "NCONF_new_section os conf s =
    (case conf_insert os ?conf2 ?v of
       Inl e \<Rightarrow> Inl e
     | Inr (False, _, _) \<Rightarrow> Inr (None, conf)
     | Inr (True, None, conf3) \<Rightarrow> Inr (Some ?v, conf3)
     | Inr (True, Some old_value, conf3) \<Rightarrow> Inr (Some ?v, value_free conf3 old_value))"
    using stack dup d
    by (simp add: NCONF_new_section_def CONF_VALUE_new_def Let_def split: sum.split prod.split bool.split option.split)
  with new obtain old conf3 where ins: "conf_insert os ?conf2 ?v = Inr (True, old, conf3)"
    and res: "v = ?v" "conf' = (case old of None \<Rightarrow> conf3 | Some u \<Rightarrow> value_free conf3 u)"
    by (auto split: sum.splits prod.splits bool.splits option.splits)
  note i = conf_insert_result [OF ok _ _ room ins, simplified]
  have "sk_data stack = []" using stack(1) by (auto simp: sk_new_null_def sk_new_def split: if_splits)
  moreover have "conf_data conf' = conf_data conf3" "conf_next conf' = conf_next conf3"
    using res(2) by (auto simp: value_free_def split: option.splits conf_payload.splits)
  moreover have "conf_stacks conf' ?a = Some stack"
  proof (cases old)
    case (Some u)
    then have "u \<in># objects conf" using i(4) by blast
    then have "cv_value u \<noteq> Section ?a" using ok unfolding conf_ok_def by (metis less_SucI not_less_eq Suc_eq_plus1 less_irrefl)
    then show ?thesis using Some res i(2) by (auto simp: value_free_def split: conf_payload.splits)
  qed (use res i(2) in simp)
  moreover have "conf_stacks conf' b = conf_stacks conf b"
    if "\<forall>u \<in># objects conf. conf_key u = conf_key v \<longrightarrow> cv_value u \<noteq> Section b" "b \<noteq> ?a" for b
    using that i(2,4) res by (cases old) (auto simp: value_free_def split: conf_payload.splits)
  ultimately show thesis
    using that [of ?a stack] i res by (auto simp: sec_key_def)
qed

lemma new_section_ok:
  assumes ok: "conf_ok conf" and room: "lh_items (conf_data conf) + 1 < 2 ^ 64"
    and new: "NCONF_new_section os conf s = Inr (Some v, conf')" and absent: "\<forall>u \<in># objects conf. sec_key u \<noteq> Some (cstr s)"
  shows "conf_ok conf'" "v \<in># objects conf'" "cv_name v = None"
proof -
  obtain a stack where v: "v = \<lparr>cv_addr = conf_next conf, cv_section = Some (cstr s), cv_name = None, cv_value = Section a\<rparr>"
    and a: "a = conf_next conf + 1" "conf_next conf' = a + 1" and stack: "sk_data stack = []"
    and table: "conf_table.table_ok call_hash call_cmp (conf_data conf')"
    and mem: "\<And>x. x \<in># objects conf' \<longleftrightarrow> x = v \<or> x \<in># objects conf \<and> conf_key x \<noteq> conf_key v"
    and stacks: "conf_stacks conf' a = Some stack"
      "\<And>b. (\<forall>u \<in># objects conf. conf_key u = conf_key v \<longrightarrow> cv_value u \<noteq> Section b) \<Longrightarrow> b \<noteq> a
        \<Longrightarrow> conf_stacks conf' b = conf_stacks conf b"
    by (rule new_section_effect [OF ok room new]) (rule that)
  have key: "sec_key v = Some (cstr s)" "cv_name v = None" by (simp_all add: v sec_key_def)
  then have other: "conf_key x \<noteq> conf_key v" if "x \<in># objects conf" for x
    using absent that by (auto simp: conf_key_eq)
  then have mem': "x \<in># objects conf' \<longleftrightarrow> x = v \<or> x \<in># objects conf" for x using mem by blast
  show "v \<in># objects conf'" "cv_name v = None" using mem key by auto
  have old_a: "cv_value u \<noteq> Section a" "\<And>b. cv_value u = Section b \<Longrightarrow> b < conf_next conf" "cv_addr u < conf_next conf"
    if "u \<in># objects conf" for u
  proof -
    have "cv_addr u < conf_next conf \<and> (\<forall>b. cv_value u = Section b \<longrightarrow> b < conf_next conf)"
      using ok that by (simp add: conf_ok_def)
    then show "cv_value u \<noteq> Section a" "\<And>b. cv_value u = Section b \<Longrightarrow> b < conf_next conf" "cv_addr u < conf_next conf"
      using a(1) by auto
  qed
  have entries: "entries conf' k = entries conf k" for k
    using mem' key(2) by (auto simp: entries_def)
  have "lists_entries conf' u" if u: "u \<in># objects conf'" "cv_name u = None" for u
  proof (cases "u = v")
    case True
    have "entries conf (sec_key v) = {}" using absent key(1) by (auto simp: entries_def)
    then show ?thesis using True stacks(1) stack by (simp add: lists_entries_def entries v)
  next
    case False
    then have "u \<in># objects conf" using u mem' by blast
    then have "lists_entries conf u" "cv_value u \<noteq> Section a" using ok u old_a by (auto simp: conf_ok_def)
    then show ?thesis using stacks(2) other by (auto simp: lists_entries_def entries)
  qed
  note lists = this
  have old_ok: "cv_section u \<noteq> None" "cv_name u \<noteq> None \<Longrightarrow> \<exists>t. cv_value u = Text t"
    "\<exists>x \<in># objects conf. cv_name x = None \<and> sec_key x = sec_key u" if "u \<in># objects conf" for u
    using ok that by (simp_all add: conf_ok_def)
  have "u = x" if "u \<in># objects conf'" "x \<in># objects conf'" "cv_value u = Section b" "cv_value x = Section b" for u x b
  proof (cases "u = v \<or> x = v")
    case True
    then show ?thesis using that mem' old_a(1) v by auto
  next
    case False
    then show ?thesis using that mem' ok unfolding conf_ok_def by blast
  qed
  moreover have "\<exists>x \<in># objects conf'. cv_name x = None \<and> sec_key x = sec_key u" if "u \<in># objects conf'" for u
    using that mem' old_ok(3) [of u] key(2) by (cases "u = v") auto
  moreover have "cv_section u \<noteq> None" "cv_name u \<noteq> None \<Longrightarrow> \<exists>t. cv_value u = Text t" if "u \<in># objects conf'" for u
    using that mem' old_ok(1,2) v by auto
  moreover have "cv_addr u < conf_next conf'" "cv_value u = Section b \<Longrightarrow> b < conf_next conf'" if "u \<in># objects conf'" for u b
    using that mem' old_a(2,3) [of u] v a by fastforce+
  ultimately show "conf_ok conf'"
    unfolding conf_ok_def using table lists by blast
qed

section \<open>Spelling a value\<close>

text \<open>A spelling of any string without NUL: an escape before every character with a meaning.\<close>

definition special_char :: "u8 \<Rightarrow> bool" where
  "special_char c \<longleftrightarrow> IS_QUOTE c \<or> IS_DQUOTE c \<or> IS_ESC c \<or> c = 36"

definition spell :: "u8 list \<Rightarrow> u8 list" where
  "spell s = concat (map (\<lambda>c. if special_char c then [92, c] else [c]) s)"

lemma escape_class: "IS_ESC 92" "\<not> IS_QUOTE 92" "\<not> IS_DQUOTE 92"
  by (simp_all add: KEYTYPE_def CONF_type_default_def CONF_ESC_def CONF_QUOTE_def CONF_DQUOTE_def)

lemma letters_class: "\<not> special_char 114" "\<not> special_char 110" "\<not> special_char 98" "\<not> special_char 116"
  by (simp_all add: special_char_def KEYTYPE_def CONF_type_default_def CONF_ESC_def CONF_QUOTE_def CONF_DQUOTE_def)

lemma special_unchanged: "special_char c \<Longrightarrow> escaped_char c = c"
  using letters_class by (auto simp: escaped_char_def)

lemma spell_simps [simp]:
  "spell [] = []" "spell (c # s) = (if special_char c then 92 # c # spell s else c # spell s)"
  by (simp_all add: spell_def)

lemma spell_no_nul: "0 \<notin> set s \<Longrightarrow> 0 \<notin> set (spell s)"
  by (induction s) auto

lemma length_spell: "length s \<le> length (spell s)" "length (spell s) \<le> 2 * length s"
  by (induction s) auto

lemma copy_spelling:
  assumes "copy_room buf out (spell s)"
  shows "str_copy_loop os junk conf sec buf out (spell s) = Inr (buf, out @ s)"
  using assms
proof (induction s arbitrary: out)
  case (Cons c s)
  then have nz: "c \<noteq> 0" by (auto simp: copy_room_def split: if_splits)
  have "put_chars buf out [c] = Inr (out @ [c])" "copy_room buf (out @ [c]) (spell s)"
    by (rule copy_room_put [OF Cons.prems]; auto)+
  then show ?case
    using Cons.IH [of "out @ [c]"] nz special_unchanged [of c] escape_class
    by (cases "special_char c") (simp_all add: special_char_def)
qed simp

lemma str_copy_spelling:
  assumes "0 \<notin> set s" "length s < 2 ^ 62"
  shows "str_copy os junk conf sec (spell s) \<in> {Inr s, Inl No_memory}"
proof -
  have len: "length (spell s) < 2 ^ 63" using length_spell(2) [of s] assms(2) by simp
  show ?thesis
  proof (cases "BUF_MEM_new os")
    case (Some buf)
    obtain n buf' where grow: "BUF_MEM_grow os junk buf (strlen (spell s) + 1) = (n, buf')" by fastforce
    show ?thesis
    proof (cases "n = 0")
      case False
      have room: "copy_room buf' [] (spell s)"
        by (rule str_copy_start [OF spell_no_nul [OF assms(1)] len Some grow False])
      then have "put_chars buf' s [0] = Inr (s @ [0])"
        using length_spell(1) [of s] by (intro put_chars_fits) (simp add: copy_room_def bm_wf_def)
      then show ?thesis
        using Some grow False copy_spelling [OF room, of os junk conf sec] by (simp add: str_copy_def)
    qed (use Some grow in \<open>simp add: str_copy_def\<close>)
  qed (simp add: str_copy_def)
qed

section \<open>Where the lines are cut\<close>

text \<open>
  \<open>BIO_gets\<close> stores at most 510 characters. When it stops before the end of the line on an
  escape character, the character is taken for the mark of a continued line and lost.
\<close>

lemma escape_lost:
  assumes buff: "BUF_MEM_grow os junk buff CONFBUFSIZE = (n, buff')" "n \<noteq> 0"
    and chunk: "length chunk \<le> 510" "0 \<notin> set chunk" "chunk = line @ [92]" "line \<noteq> []" "\<not> IS_ESC (last line)"
  shows "load_loop os junk ld buff [] False (chunk # chunks) = load_loop os junk ld buff' line True chunks"
proof -
  have p: "cstr (take (CONFBUFSIZE - 1) chunk) = chunk"
    using chunk(1,2) by (simp add: CONFBUFSIZE_def takeWhile_eq_all_conv [THEN iffD2]) (metis)
  have "strip_newline chunk = chunk" by (simp add: strip_newline_def chunk(3))
  moreover have "continued chunk"
    using chunk(4,5) escape_class(1) by (auto simp: continued_def chunk(3) nth_append last_conv_nth)
  ultimately show ?thesis
    using buff p chunk(3) by (subst load_loop.simps) (simp add: Let_def)
qed

section \<open>The elements of a list\<close>

fun split_at :: "u8 \<Rightarrow> u8 list \<Rightarrow> u8 list list" where
  "split_at sep [] = [[]]"
| "split_at sep (c # s) =
     (if c = sep then [] # split_at sep s else (c # hd (split_at sep s)) # tl (split_at sep s))"

text \<open>Element by element, until the callback returns a value that is not positive.\<close>

fun visit :: "('e \<Rightarrow> 's \<Rightarrow> int \<times> 's) \<Rightarrow> 'e list \<Rightarrow> 's \<Rightarrow> int \<times> 's" where
  "visit cb [] arg = (1, arg)"
| "visit cb (e # es) arg = (let (ret, arg) = cb e arg in if ret \<le> 0 then (ret, arg) else visit cb es arg)"

definition list_element :: "bool \<Rightarrow> u8 list \<Rightarrow> u8 list option" where
  "list_element remove_ws e =
     (let e = (if remove_ws then trim_end (dropWhile isspace e) else e) in if e = [] then None else Some e)"

lemma split_at_eq:
  "split_at sep s = takeWhile (\<lambda>c. c \<noteq> sep) s #
     (case dropWhile (\<lambda>c. c \<noteq> sep) s of [] \<Rightarrow> [] | _ # rest \<Rightarrow> split_at sep rest)"
  by (induction s) auto

lemma space_then_split:
  assumes "\<not> isspace sep"
  shows "takeWhile (\<lambda>c. c \<noteq> sep) (dropWhile isspace s) = dropWhile isspace (takeWhile (\<lambda>c. c \<noteq> sep) s)"
    "dropWhile (\<lambda>c. c \<noteq> sep) (dropWhile isspace s) = dropWhile (\<lambda>c. c \<noteq> sep) s"
  using assms by (induction s) auto

lemma trim_end_empty: "trim_end (dropWhile isspace e) = [] \<longleftrightarrow> dropWhile isspace e = []"
proof (cases "dropWhile isspace e = []")
  case True
  show ?thesis unfolding True trim_end_def by simp
next
  case False
  then have "\<not> isspace (hd (dropWhile isspace e))" "hd (dropWhile isspace e) \<in> set (dropWhile isspace e)"
    by (simp_all add: hd_dropWhile)
  then show ?thesis using False unfolding trim_end_def rev_is_Nil_conv dropWhile_eq_Nil_conv set_rev by blast
qed

text \<open>The text of an element a callback is given.\<close>

definition element_text :: "(u8 list \<times> nat) option \<Rightarrow> u8 list option" where
  "element_text e = map_option (\<lambda>(s, n). take n s) e"

lemma trimmed_prefix: "take (length (trim_end (takeWhile P s))) s = trim_end (takeWhile P s)"
proof -
  have "\<exists>t. trim_end e @ t = e" for e
    unfolding trim_end_def by (metis rev_append rev_rev_ident takeWhile_dropWhile_id)
  then show ?thesis by (metis append_eq_conv_conj takeWhile_dropWhile_id append.assoc)
qed

lemma parse_list_visits:
  assumes "remove_ws \<Longrightarrow> \<not> isspace sep"
  shows "parse_list_loop sep remove_ws (\<lambda>e. cb (element_text e)) s arg = visit (\<lambda>e. cb (list_element remove_ws e)) (split_at sep s) arg"
proof (induction "length s" arbitrary: s arg rule: less_induct)
  case less
  let ?l = "if remove_ws then dropWhile isspace s else s"
  let ?p = "dropWhile (\<lambda>c. c \<noteq> sep) ?l" and ?e = "takeWhile (\<lambda>c. c \<noteq> sep) ?l"
  have p: "?p = dropWhile (\<lambda>c. c \<noteq> sep) s" using space_then_split(2) assms by simp
  have e: "list_element remove_ws (takeWhile (\<lambda>c. c \<noteq> sep) s)
    = (if ?e = [] then None else Some (if remove_ws then trim_end ?e else ?e))"
    using space_then_split(1) [of sep s] assms trim_end_empty [of "takeWhile (\<lambda>c. c \<noteq> sep) s"]
    by (auto simp: list_element_def Let_def trim_end_def)
  have step: "parse_list_loop sep remove_ws (\<lambda>e. cb (element_text e)) s arg =
    (case cb (list_element remove_ws (takeWhile (\<lambda>c. c \<noteq> sep) s)) arg of (ret, arg) \<Rightarrow>
      if ret \<le> 0 then (ret, arg) else if ?p = [] then (1, arg)
      else parse_list_loop sep remove_ws (\<lambda>e. cb (element_text e)) (drop 1 ?p) arg)"
    unfolding parse_list_loop.simps [of _ _ _ s] Let_def e element_text_def
    by (simp add: trimmed_prefix takeWhile_eq_take [symmetric] split: prod.split)
  have IH: "parse_list_loop sep remove_ws (\<lambda>e. cb (element_text e)) (drop 1 ?p) arg
      = visit (\<lambda>e. cb (list_element remove_ws e)) (split_at sep (drop 1 ?p)) arg" if "?p \<noteq> []" for arg
    using that length_dropWhile_le [of "\<lambda>c. c \<noteq> sep" s] unfolding p
    by (intro less.hyps) (cases "dropWhile (\<lambda>c. c \<noteq> sep) s"; simp)
  show ?case
  proof (cases "dropWhile (\<lambda>c. c \<noteq> sep) s")
    case Nil
    then show ?thesis by (simp only: step split_at_eq [of sep s] p) (simp split: prod.split)
  next
    case (Cons c rest)
    then show ?thesis using IH unfolding p by (simp only: step split_at_eq [of sep s] p) (simp split: prod.split)
  qed
qed

end
