(* ===== verification/ConfLoad.thy ===== *)
theory ConfLoad
  imports Conf
begin

text \<open>
  What \<open>def_load_bio\<close> keeps while it reads a file: the configuration stays a map with its
  section lists, its values stay short enough for \<open>str_copy\<close>, and the current section is one of
  the table. \<open>malloc\<close> is assumed to succeed: the code does not undo \<open>add_string\<close> halfway.
\<close>

section \<open>Parts of a line\<close>

definition part :: "u8 list \<Rightarrow> u8 list \<Rightarrow> bool" where
  "part x s \<longleftrightarrow> set x \<subseteq> set s \<and> length x \<le> length s"

lemma part_refl [intro]: "part s s"
  and part_trans: "part x y \<Longrightarrow> part y z \<Longrightarrow> part x z"
  and part_Nil [simp]: "part [] s"
  by (auto simp: part_def)

lemma part_take [intro]: "part x s \<Longrightarrow> part (take n x) s"
  and part_drop [intro]: "part x s \<Longrightarrow> part (drop n x) s"
  and part_dropWhile: "part x s \<Longrightarrow> part (dropWhile P x) s"
  and part_Cons: "part x s \<Longrightarrow> part x (c # s)"
  by (auto simp: part_def dest: in_set_takeD in_set_dropD set_dropWhileD intro: order_trans [OF length_dropWhile_le])

lemma part_no_nul: "part x s \<Longrightarrow> 0 \<notin> set s \<Longrightarrow> 0 \<notin> set x"
  by (auto simp: part_def)

lemma part_length: "part x s \<Longrightarrow> length x \<le> length s"
  by (simp add: part_def)

lemma part_cut_at: "part start s \<Longrightarrow> part (cut_at start stop) s"
  by (auto simp: cut_at_def)

lemma part_eat_ws: "part x s \<Longrightarrow> part (eat_ws x) s"
proof -
  have "part (eat_ws x) x" by (induction x) (auto intro: part_Cons)
  then show "part x s \<Longrightarrow> part (eat_ws x) s" by (rule part_trans)
qed

lemma part_eat_alpha_numeric: "part x s \<Longrightarrow> part (eat_alpha_numeric x) s"
proof -
  have "part (eat_alpha_numeric x) x"
  proof (induction x rule: eat_alpha_numeric.induct)
    case (2 c p)
    have esc: "part (scan_esc (c # p)) (c # p)" by (auto simp: scan_esc_def intro: part_Cons)
    consider "IS_ESC c" | "\<not> IS_ESC c" "IS_ALPHA_NUMERIC_PUNCT c" | "\<not> IS_ESC c" "\<not> IS_ALPHA_NUMERIC_PUNCT c" by blast
    then show ?case
    proof cases
      case 1
      then show ?thesis using part_trans [OF 2(1) [OF 1] esc] by simp
    next
      case 2
      then show ?thesis using "2.IH"(2) by (simp add: part_Cons)
    qed auto
  qed simp
  then show "part x s \<Longrightarrow> part (eat_alpha_numeric x) s" by (rule part_trans)
qed

lemma part_trim_value: "part x s \<Longrightarrow> part (trim_value x) s"
proof (cases x)
  case (Cons c cs)
  then have "part (trim_value x) x"
    using length_dropWhile_le [of IS_WS "rev cs"] set_dropWhileD [of _ IS_WS "rev cs"]
    by (auto simp: trim_value_def part_def)
  then show "part x s \<Longrightarrow> part (trim_value x) s" by (rule part_trans)
qed (simp add: trim_value_def)

lemma part_find_bracket: "find_bracket ss = Some stop \<Longrightarrow> part ss s \<Longrightarrow> part stop s"
proof (induction ss rule: find_bracket.induct)
  case (1 ss)
  then show ?case
    by (subst (asm) find_bracket.simps)
      (auto simp: Let_def intro!: part_eat_ws part_eat_alpha_numeric split: if_splits)
qed

lemmas parts = part_eat_ws part_eat_alpha_numeric part_trim_value part_cut_at part_drop part_take

lemma part_split_entry:
  assumes "split_entry s = Some (named, pname, start)"
  shows "part pname s" "part start s" "named = Some psection \<Longrightarrow> part psection s"
  using assms by (auto simp: split_entry_def Let_def intro!: parts split: if_splits)

section \<open>The table grows by one item at a time\<close>

lemma resize_items [simp]: "lh_items (lh_maybe_resize os lh) = lh_items lh"
  by (simp add: lh_maybe_resize_def lh_rebucket_def Let_def)

lemma insert_items: "lh_insert os ch cc lh d = (r, old, lh') \<Longrightarrow> lh_items lh' \<le> lh_items lh + 1"
  by (auto simp: lh_insert_def Let_def sz_def split: prod.splits option.splits if_splits)

abbreviation n_items :: "CONF \<Rightarrow> nat" where
  "n_items conf \<equiv> lh_items (conf_data conf)"

lemma conf_insert_items: "conf_insert os conf v = Inr (r, old, conf') \<Longrightarrow> n_items conf' \<le> n_items conf + 1"
  by (auto simp: conf_insert_def dest: insert_items split: if_splits prod.splits)

lemma value_free_data [simp]: "conf_data (value_free conf v) = conf_data conf"
  by (simp add: value_free_def split: conf_payload.split)

lemma new_section_items:
  "NCONF_new_section os conf s = Inr (r, conf') \<Longrightarrow> n_items conf' \<le> n_items conf + 1"
  by (auto simp: NCONF_new_section_def CONF_VALUE_new_def Let_def dest!: conf_insert_items
      split: option.splits sum.splits prod.splits bool.splits if_splits)

lemma add_string_items: "add_string os conf obj v = Inr (r, conf') \<Longrightarrow> n_items conf' \<le> n_items conf + 1"
  by (auto simp: add_string_def Let_def dest!: conf_insert_items
      split: option.splits sum.splits prod.splits bool.splits if_splits conf_payload.splits)

section \<open>The invariant of a configuration that is being loaded\<close>

definition texts_short :: "CONF \<Rightarrow> bool" where
  "texts_short conf \<longleftrightarrow> (\<forall>v \<in># objects conf. \<forall>t. cv_value v = Text t \<longrightarrow> length t < 2 ^ 63)"

definition keeps_well :: "CONF \<Rightarrow> bool" where
  "keeps_well conf \<longleftrightarrow> conf_ok conf \<and> texts_short conf"

text \<open>A section object of the table, for the name \<open>s\<close>.\<close>

definition section_of :: "CONF \<Rightarrow> u8 list \<Rightarrow> CONF_VALUE \<Rightarrow> bool" where
  "section_of conf s v \<longleftrightarrow> v \<in># objects conf \<and> cv_name v = None \<and> sec_key v = Some (cstr s)"

lemma strlen_le: "strlen t \<le> length t"
  by (simp add: strlen_def length_takeWhile_le)

lemma texts_short_values: "conf_ok conf \<Longrightarrow> texts_short conf \<Longrightarrow> values_short conf"
  unfolding values_short_def
proof (intro allI impI)
  fix s n p assume ok: "conf_ok conf" "texts_short conf" and got: "NCONF_get_string conf s n = Inr (Some p)"
  from got obtain v where v: "cv_value v = Text p" "conf_retrieve conf s (Some n) = Inr (Some v)"
    by (auto simp: NCONF_get_string_def split: sum.splits option.splits conf_payload.splits)
  have "conf_table.table_ok call_hash call_cmp (conf_data conf)" using ok(1) by (simp add: conf_ok_def)
  then have "v \<in># objects conf"
    using v(2) conf_table.retrieve_iff by (fastforce simp: conf_retrieve_def Let_def split: if_splits)
  then show "strlen p < 2 ^ 63"
    using ok(2) v(1) strlen_le [of p] by (auto simp: texts_short_def)
qed

lemma get_section_result:
  assumes "conf_ok conf"
  obtains (absent) "get_section conf (Some s) = Inr None" "\<forall>u \<in># objects conf. sec_key u \<noteq> Some (cstr s)"
  | (found) v where "get_section conf (Some s) = Inr (Some v)" "section_of conf s v"
proof -
  obtain r where r: "get_section conf (Some s) = Inr r"
    using conf_retrieve_iff(2) [OF assms, of s None] unfolding get_section_def by (metis old.sum.exhaust)
  have is_v: "r = Some v \<longleftrightarrow> section_of conf s v" for v
    using conf_retrieve_iff(1) [OF assms, of s None v] r by (auto simp: get_section_def section_of_def conf_key_eq)
  show thesis
  proof (cases r)
    case None
    have "\<exists>u \<in># objects conf. cv_name u = None \<and> sec_key u = sec_key e" if "e \<in># objects conf" for e
      using assms that by (simp add: conf_ok_def)
    then have "\<forall>u \<in># objects conf. sec_key u \<noteq> Some (cstr s)"
      using None is_v unfolding section_of_def by (metis option.distinct(1))
    then show thesis using absent r None by blast
  qed (use is_v r found in blast)
qed

lemma keeps_well_next: "keeps_well conf \<Longrightarrow> keeps_well (conf\<lparr>conf_next := conf_next conf + 1\<rparr>)"
  by (fastforce simp: keeps_well_def texts_short_def conf_ok_def lists_entries_def entries_def)

lemma new_section_keeps:
  assumes "keeps_well conf" "n_items conf + 1 < 2 ^ 64" "NCONF_new_section os conf s = Inr (Some v, conf')"
    and absent: "\<forall>u \<in># objects conf. sec_key u \<noteq> Some (cstr s)"
  shows "keeps_well conf'" "section_of conf' s v"
    "\<And>x. x \<in># objects conf' \<longleftrightarrow> x = v \<or> x \<in># objects conf" "conf_next conf < conf_next conf'"
    "cv_addr v = conf_next conf"
proof -
  note ok = new_section_ok [OF _ assms(2,3) absent]
  have conf: "conf_ok conf" using assms(1) by (simp add: keeps_well_def)
  obtain a stack where v: "v = \<lparr>cv_addr = conf_next conf, cv_section = Some (cstr s), cv_name = None, cv_value = Section a\<rparr>"
    and a: "a = conf_next conf + 1" "conf_next conf' = a + 1"
    and mem: "\<And>x. x \<in># objects conf' \<longleftrightarrow> x = v \<or> x \<in># objects conf \<and> conf_key x \<noteq> conf_key v"
    by (rule new_section_effect [OF conf assms(2,3)]) (rule that)
  have "conf_key x \<noteq> conf_key v" if "x \<in># objects conf" for x
    using that absent by (auto simp: v conf_key_eq sec_key_def)
  then show mem': "x \<in># objects conf' \<longleftrightarrow> x = v \<or> x \<in># objects conf" for x using mem by blast
  show "conf_next conf < conf_next conf'" "cv_addr v = conf_next conf" using a v by simp_all
  show "section_of conf' s v" using mem' by (simp add: section_of_def v sec_key_def)
  have "texts_short conf'"
    using assms(1) mem' by (auto simp: keeps_well_def texts_short_def v)
  then show "keeps_well conf'" using ok(1) [OF conf] by (simp add: keeps_well_def)
qed

text \<open>What \<open>NCONF_get_string\<close> finds in a section.\<close>

definition lookup :: "CONF \<Rightarrow> u8 list \<Rightarrow> u8 list \<Rightarrow> u8 list option" where
  "lookup conf s n = (case NCONF_get_string conf (Some s) n of Inl _ \<Rightarrow> None | Inr r \<Rightarrow> r)"

lemma lookup_iff:
  "table_well conf \<Longrightarrow> lookup conf s n = Some t
    \<longleftrightarrow> (\<exists>v \<in># objects conf. conf_key v = (Some (cstr s), Some (cstr n)) \<and> cv_value v = Text t)"
  using table_get_string [of conf s n t] by (auto simp: lookup_def split: sum.splits)

lemma lookup_same:
  assumes "table_well conf" "table_well conf'"
    and "\<And>v t. cv_value v = Text t \<Longrightarrow> v \<in># objects conf' \<longleftrightarrow> v \<in># objects conf"
  shows "lookup conf' s n = lookup conf s n"
proof -
  have "lookup conf' s n = Some t \<longleftrightarrow> lookup conf s n = Some t" for t
    unfolding lookup_iff [OF assms(1)] lookup_iff [OF assms(2)] using assms(3) by blast
  then show ?thesis by (metis option.exhaust)
qed

lemma lookup_update:
  assumes ok: "table_well conf" "table_well conf'"
    and mem: "\<And>x. x \<in># objects conf' \<longleftrightarrow> x = w \<or> x \<in># objects conf \<and> conf_key x \<noteq> conf_key w"
    and w: "conf_key w = (Some (cstr s), Some (cstr n))" "cv_value w = Text t"
  shows "lookup conf' s' n' = (if cstr s' = cstr s \<and> cstr n' = cstr n then Some t else lookup conf s' n')"
proof (cases "cstr s' = cstr s \<and> cstr n' = cstr n")
  case True
  then show ?thesis using lookup_iff [OF ok(2), of s' n' t] mem w by auto
next
  case False
  then have "lookup conf' s' n' = Some u \<longleftrightarrow> lookup conf s' n' = Some u" for u
    unfolding lookup_iff [OF ok(1)] lookup_iff [OF ok(2)] Bex_def mem using w by auto
  then show ?thesis using False by (metis option.exhaust)
qed

section \<open>Lines\<close>

lemma strdup_ok:
  assumes "\<forall>m. os m"
  shows "OPENSSL_strdup os (Some s) = Some (cstr s @ [0])"
  using assms by (simp add: OPENSSL_strdup_def OPENSSL_malloc_def)

lemma conf_insert_ok:
  assumes "\<forall>m. os m" "conf_insert os conf v = Inr (r, old, conf')"
  shows "r"
  using assms by (auto simp: conf_insert_def lh_insert_def OPENSSL_malloc_def Let_def split: if_splits prod.splits option.splits)

lemma add_string_keeps:
  assumes os: "\<forall>m. os m" and keeps: "keeps_well conf" and sec: "section_of conf s obj"
    and v: "cv_name v = Some n" "cv_value v = Text t" "length t < 2 ^ 63"
    and new: "\<forall>x \<in># objects conf. cv_addr x \<noteq> cv_addr v" "cv_addr v < conf_next conf"
    and room: "n_items conf + 1 < 2 ^ 64"
  obtains (full) "add_string os conf obj v = Inr (False, conf)"
  | (added) conf' where "add_string os conf obj v = Inr (True, conf')" "keeps_well conf'"
    "\<And>u s. section_of conf s u \<Longrightarrow> section_of conf' s u"
    "\<And>s' n'. lookup conf' s' n' = (if cstr s' = cstr s \<and> cstr n' = cstr n then Some t else lookup conf s' n')"
proof -
  have ok: "conf_ok conf" using keeps by (simp add: keeps_well_def)
  obtain s0 where obj: "obj \<in># objects conf" "cv_name obj = None" "cv_section obj = Some s0" "cstr s0 = cstr s"
    using sec by (auto simp: section_of_def sec_key_def)
  obtain a stack where stack: "cv_value obj = Section a" "conf_stacks conf a = Some stack"
    using ok obj by (auto simp: conf_ok_def lists_entries_def)
  let ?w = "v\<lparr>cv_section := Some (cstr s0)\<rparr>"
  have w: "v\<lparr>cv_section := map_option cstr (OPENSSL_strdup os (cv_section obj))\<rparr> = ?w"
    using strdup_ok [OF os] obj(3) by simp
  obtain k stack1 where push: "sk_push os stack (Some ?w) = (k, Some stack1)"
    using sk_insert_Some [of os stack "Some ?w" "sk_len stack"] by (auto simp: sk_push_def)
  show thesis
  proof (cases "k = 0")
    case True
    then have "stack1 = stack"
      by (cases rule: sk_insert_cases [OF push [unfolded sk_push_def]]) simp_all
    then show thesis
      using full True stack push w by (simp add: add_string_def Let_def fun_upd_idem)
  next
    case False
    have "\<exists>conf'. add_string os conf obj v = Inr (True, conf')"
    proof -
      let ?conf1 = "conf\<lparr>conf_stacks := (conf_stacks conf)(a := Some stack1)\<rparr>"
      have "cv_section ?w \<noteq> None" by simp
      then obtain r old conf2 where ins: "conf_insert os ?conf1 ?w = Inr (r, old, conf2)"
        using conf_insert_no_error [OF ok, of ?conf1 ?w os] by (cases "conf_insert os ?conf1 ?w") auto
      then have r by (rule conf_insert_ok [OF os])
      then show ?thesis
        using False stack push w ins by (auto simp: add_string_def Let_def split: option.split prod.split)
    qed
    then obtain conf' where add: "add_string os conf obj v = Inr (True, conf')" ..
    note r = add_string_result [OF ok obj(1-3) strdup_ok [OF os] v(1,2) new room add]
    have key: "conf_key ?w = (Some (cstr s), Some (cstr n))" using v(1) obj(4) by (simp add: conf_key_eq sec_key_def)
    have "texts_short conf'" using keeps r(2) v(2,3) by (auto simp: keeps_well_def texts_short_def)
    moreover have "section_of conf' x u" if "section_of conf x u" for x u
      using that r(2) key v(1) by (auto simp: section_of_def conf_key_eq)
    moreover have "lookup conf' s' n' = (if cstr s' = cstr s \<and> cstr n' = cstr n then Some t else lookup conf s' n')" for s' n'
      by (rule lookup_update [OF conf_ok_table_well [OF ok] conf_ok_table_well [OF r(1)] r(2) key]) (simp add: v(2))
    ultimately show thesis using added [OF add] r(1) by (simp add: keeps_well_def)
  qed
qed

text \<open>The errors that are undefined behaviour rather than reports, other than \<open>strcmp\<close> on \<open>NULL\<close>.\<close>

definition wild :: "conf_error \<Rightarrow> bool" where
  "wild e \<longleftrightarrow> e = Out_of_bounds \<or> e = Dangling"

lemma str_copy_keeps:
  assumes "keeps_well conf" "0 \<notin> set s" "length s < 2 ^ 63" "part x s"
  obtains (err) e where "str_copy os junk conf sec x = Inl e" "\<not> wild e"
  | (copied) out where "str_copy os junk conf sec x = Inr out" "length out < 2 ^ 63"
proof -
  have x: "0 \<notin> set x" "length x < 2 ^ 63" using assms part_no_nul part_length by fastforce+
  have "values_short conf" using assms(1) texts_short_values by (simp add: keeps_well_def)
  note r = str_copy_result [OF x this, of os junk sec]
  show thesis
  proof (cases "str_copy os junk conf sec x")
    case (Inl e)
    then show thesis using err r(1,2) by (auto simp: wild_def)
  qed (use copied r(3) in blast)
qed

lemma new_section_total:
  assumes "\<forall>m. os m" "conf_ok conf"
  obtains v conf' where "NCONF_new_section os conf s = Inr (Some v, conf')"
proof -
  obtain st :: conf_stack where st: "sk_new_null os = Some st"
    using assms(1) by (auto simp: sk_new_null_def sk_new_def OPENSSL_malloc_def)
  let ?conf1 = "conf\<lparr>conf_next := conf_next conf + 1\<rparr>"
  let ?a = "conf_next conf + 1"
  let ?conf2 = "?conf1\<lparr>conf_stacks := (conf_stacks conf)(?a := Some st), conf_next := ?a + 1\<rparr>"
  let ?v = "\<lparr>cv_addr = conf_next conf, cv_section = Some (cstr s), cv_name = None, cv_value = Section ?a\<rparr>"
  obtain r old conf3 where ins: "conf_insert os ?conf2 ?v = Inr (r, old, conf3)"
    using conf_insert_no_error [OF assms(2), of ?conf2 ?v os] by (cases "conf_insert os ?conf2 ?v") auto
  then have r by (rule conf_insert_ok [OF assms(1)])
  then show thesis
    using that ins st strdup_ok [OF assms(1)] assms(1)
    by (cases old) (simp_all add: NCONF_new_section_def CONF_VALUE_new_def OPENSSL_malloc_def Let_def)
qed

text \<open>What both kinds of line do to the configuration.\<close>

definition extends :: "CONF \<Rightarrow> CONF \<Rightarrow> bool" where
  "extends conf conf' \<longleftrightarrow> keeps_well conf' \<and> (\<forall>s u. section_of conf s u \<longrightarrow> section_of conf' s u)"

lemma extends_refl: "keeps_well conf \<Longrightarrow> extends conf conf"
  and extends_trans: "extends a b \<Longrightarrow> extends b c \<Longrightarrow> extends a c"
  by (auto simp: extends_def)

text \<open>The section named \<open>s\<close>, made if there is none.\<close>

lemma section_made:
  assumes os: "\<forall>m. os m" and keeps: "keeps_well conf" and room: "n_items conf + 1 < 2 ^ 64"
  obtains (old) sv where "get_section conf (Some s) = Inr (Some sv)" "section_of conf s sv"
  | (made) sv conf' where "get_section conf (Some s) = Inr None" "NCONF_new_section os conf s = Inr (Some sv, conf')"
    "extends conf conf'" "section_of conf' s sv" "\<And>s n. lookup conf' s n = lookup conf s n"
    "n_items conf' \<le> n_items conf + 1" "conf_next conf < conf_next conf'"
    "\<And>x. x \<in># objects conf' \<Longrightarrow> x \<in># objects conf \<or> cv_addr x = conf_next conf"
proof -
  have ok: "conf_ok conf" using keeps by (simp add: keeps_well_def)
  show thesis
  proof (cases rule: get_section_result [OF ok, of s])
    case 1
    obtain v conf' where new: "NCONF_new_section os conf s = Inr (Some v, conf')"
      by (rule new_section_total [OF os ok])
    note r = new_section_keeps [OF keeps room new 1(2)]
    have "extends conf conf'" using r(1,3) by (auto simp: extends_def section_of_def)
    moreover have "\<nexists>t. cv_value v = Text t"
      by (rule new_section_effect [OF ok room new]) simp
    then have "lookup conf' s n = lookup conf s n" for s n
      using r(1,3) ok by (intro lookup_same) (auto simp: keeps_well_def)
    moreover have "x \<in># objects conf \<or> cv_addr x = conf_next conf" if "x \<in># objects conf'" for x
      using that r(3,5) by auto
    ultimately show thesis
      by (intro made [OF 1(1) new _ r(2) _ new_section_items [OF new] r(4)])
  qed (use old in blast)
qed

lemma section_line_keeps:
  assumes os: "\<forall>m. os m" and keeps: "keeps_well conf" and room: "n_items conf + 1 < 2 ^ 64"
    and s: "0 \<notin> set s" "length s < 2 ^ 63"
  obtains (err) e where "load_section_line os junk conf s = Inl e" "\<not> wild e"
  | (loaded) name sv conf' where "load_section_line os junk conf s = Inr (name, sv, conf')" "extends conf conf'"
    "section_of conf' name sv" "\<And>s n. lookup conf' s n = lookup conf s n" "n_items conf' \<le> n_items conf + 1"
proof (cases "find_bracket (eat_ws s)")
  case None
  then show thesis using err by (simp add: load_section_line_def Let_def wild_def)
next
  case (Some stop)
  have p: "part (cut_at (eat_ws s) stop) s" by (intro parts) auto
  show thesis
  proof (cases rule: str_copy_keeps [OF keeps s p, of os junk None])
    case (1 e)
    then show thesis using err Some by (simp add: load_section_line_def)
  next
    case (2 name)
    show thesis
    proof (cases rule: section_made [OF os keeps room, of name])
      case (1 sv)
      then show thesis
        using loaded [of name sv conf] Some 2(1) extends_refl [OF keeps] by (simp add: load_section_line_def)
    next
      case (2 sv conf')
      then show thesis
        using loaded [of name sv conf'] Some \<open>str_copy os junk conf None (cut_at (eat_ws s) stop) = Inr name\<close>
        by (simp add: load_section_line_def)
    qed
  qed
qed

text \<open>
  An entry line: without an error, the value is found afterwards under the entry's section and
  name, and nothing else changes.
\<close>

definition entry_section :: "u8 list \<Rightarrow> u8 list option \<Rightarrow> u8 list" where
  "entry_section section_name named = (case named of None \<Rightarrow> section_name | Some psection \<Rightarrow> psection)"

lemma entry_section_found:
  assumes os: "\<forall>m. os m" and keeps: "keeps_well conf" and room: "n_items conf + 1 < 2 ^ 64"
    and sv: "section_of conf section_name sv"
  obtains tv conf' where "find_entry_section os conf section_name sv psection = Inr (Some tv, conf')"
    "extends conf conf'" "section_of conf' psection tv" "\<And>s n. lookup conf' s n = lookup conf s n"
    "n_items conf' \<le> n_items conf + 1" "conf_next conf \<le> conf_next conf'"
    "\<And>x. x \<in># objects conf' \<Longrightarrow> x \<in># objects conf \<or> cv_addr x = conf_next conf"
proof (cases "strcmp psection section_name = 0")
  case True
  then show thesis
    using that [of sv conf] sv extends_refl [OF keeps]
    by (auto simp: find_entry_section_def strcmp_zero_iff section_of_def)
next
  case False
  show thesis
  proof (cases rule: section_made [OF os keeps room, of psection])
    case (1 tv)
    then show thesis using that [of tv conf] False extends_refl [OF keeps] by (simp add: find_entry_section_def)
  next
    case (2 tv conf')
    then show thesis using that [of tv conf'] False by (simp add: find_entry_section_def)
  qed
qed

lemma entry_line_keeps:
  assumes os: "\<forall>m. os m" and keeps: "keeps_well conf" and room: "n_items conf + 2 < 2 ^ 64"
    and s: "0 \<notin> set s" "length s < 2 ^ 63" and sv: "section_of conf section_name sv"
    and line: "load_entry_line os junk conf section_name sv s = (e, conf')"
  shows "extends conf conf' \<and> n_items conf' \<le> n_items conf + 2 \<and> (\<forall>err. e = Some err \<longrightarrow> \<not> wild err)
    \<and> (e = None \<longrightarrow> (\<exists>named pname start t conf1.
        split_entry s = Some (named, pname, start)
        \<and> str_copy os junk conf1 (Some (entry_section section_name named)) start = Inr t
        \<and> lookup conf1 = lookup conf
        \<and> (\<forall>s' n'. lookup conf' s' n' =
             (if cstr s' = cstr (entry_section section_name named) \<and> cstr n' = cstr pname then Some t
              else lookup conf s' n'))))"
proof (cases "split_entry s")
  case None
  then show ?thesis using line extends_refl [OF keeps] by (auto simp: load_entry_line_def wild_def)
next
  case (Some parts)
  then obtain named pname start where split: "split_entry s = Some (named, pname, start)" by (cases parts) auto
  let ?sec = "entry_section section_name named"
  let ?v = "\<lparr>cv_addr = conf_next conf, cv_section = None, cv_name = None, cv_value = No_value\<rparr>"
  define conf1 where "conf1 = conf\<lparr>conf_next := conf_next conf + 1\<rparr>"
  have keeps1: "keeps_well conf1" using keeps_well_next [OF keeps] by (simp add: conf1_def)
  have sv1: "section_of conf1 section_name sv" using sv by (simp add: section_of_def conf1_def)
  have same1: "extends conf conf1" "lookup conf1 = lookup conf" "n_items conf1 = n_items conf"
  proof -
    show "extends conf conf1" using keeps1 by (auto simp: extends_def section_of_def conf1_def)
    show "lookup conf1 = lookup conf"
      using keeps keeps1 by (intro ext lookup_same) (simp_all add: keeps_well_def conf1_def)
    show "n_items conf1 = n_items conf" by (simp add: conf1_def)
  qed
  have new: "CONF_VALUE_new os conf = Some (?v, conf1)"
    using os by (simp add: CONF_VALUE_new_def OPENSSL_malloc_def conf1_def)
  note body = line [unfolded load_entry_line_def split new strdup_ok [OF os], simplified,
      folded entry_section_def]
  show ?thesis
  proof (cases rule: str_copy_keeps [OF keeps1 s part_split_entry(2) [OF split], of os junk "Some ?sec"])
    case (1 err)
    then show ?thesis using body same1 by (auto simp: Let_def entry_section_def)
  next
    case (2 t)
    have room1: "n_items conf1 + 1 < 2 ^ 64" using room same1(3) by simp
    obtain tv conf2 where found: "find_entry_section os conf1 section_name sv ?sec = Inr (Some tv, conf2)"
      and ext: "extends conf1 conf2" "section_of conf2 ?sec tv" "\<And>s n. lookup conf2 s n = lookup conf1 s n"
      and count: "n_items conf2 \<le> n_items conf1 + 1" "conf_next conf1 \<le> conf_next conf2"
      and objs: "\<And>x. x \<in># objects conf2 \<Longrightarrow> x \<in># objects conf1 \<or> cv_addr x = conf_next conf1"
      by (rule entry_section_found [OF os keeps1 room1 sv1, of ?sec]) (rule that)
    let ?w = "?v\<lparr>cv_name := Some (cstr pname), cv_value := Text t\<rparr>"
    have "cv_addr x < conf_next conf" if "x \<in># objects conf" for x using keeps that by (auto simp: keeps_well_def conf_ok_def)
    then have fresh: "\<forall>x \<in># objects conf2. cv_addr x \<noteq> cv_addr ?w" "cv_addr ?w < conf_next conf2"
      using objs count(2) by (fastforce simp: conf1_def)+
    have keeps2: "keeps_well conf2" using ext(1) by (simp add: extends_def)
    have room2: "n_items conf2 + 1 < 2 ^ 64" using room count(1) same1(3) by simp
    have step: "(e, conf') = (case add_string os conf2 tv ?w of Inl e \<Rightarrow> (Some e, conf2)
        | Inr (False, conf) \<Rightarrow> (Some No_memory, conf) | Inr (True, conf) \<Rightarrow> (None, conf))"
      using body 2(1) found by (simp add: Let_def entry_section_def split: sum.split prod.split bool.split)
    have w: "cv_name ?w = Some (cstr pname)" "cv_value ?w = Text t" by simp_all
    show ?thesis
    proof (cases rule: add_string_keeps [OF os keeps2 ext(2) w 2(2) fresh room2])
      case 1
      then show ?thesis using step extends_trans [OF same1(1) ext(1)] same1(3) count(1) by (simp add: wild_def)
    next
      case added: (2 conf3)
      have "extends conf conf3"
        using added(2,3) extends_trans [OF same1(1) ext(1)] by (auto simp: extends_def)
      moreover have "n_items conf3 \<le> n_items conf + 2"
        using add_string_items [OF added(1)] count(1) same1(3) by simp
      moreover have "lookup conf3 s' n' = (if cstr s' = cstr ?sec \<and> cstr n' = cstr pname then Some t else lookup conf s' n')"
        for s' n'
        using added(4) ext(3) same1(2) by simp
      moreover have "e = None" "conf' = conf3" using step added(1) by simp_all
      ultimately show ?thesis
        using split 2(1) same1(2) by blast
    qed
  qed
qed

definition load_ok :: "LOAD \<Rightarrow> bool" where
  "load_ok ld \<longleftrightarrow> keeps_well (ld_conf ld) \<and> section_of (ld_conf ld) (ld_section ld) (ld_sv ld)"

lemma line_keeps:
  assumes os: "\<forall>m. os m" and ok: "load_ok ld" and room: "n_items (ld_conf ld) + 2 < 2 ^ 64"
    and line: "0 \<notin> set line" "length line < 2 ^ 63" and step: "load_line os junk ld line = (e, ld')"
  shows "load_ok ld'" "n_items (ld_conf ld') \<le> n_items (ld_conf ld) + 2" "e = Some err \<Longrightarrow> \<not> wild err"
proof -
  have keeps: "keeps_well (ld_conf ld)" and sv: "section_of (ld_conf ld) (ld_section ld) (ld_sv ld)"
    using ok by (simp_all add: load_ok_def)
  let ?s = "eat_ws (clear_comments line)"
  have p: "part ?s line" "part (drop 1 ?s) line" unfolding clear_comments_def by (intro parts part_refl)+
  have "load_ok ld' \<and> n_items (ld_conf ld') \<le> n_items (ld_conf ld) + 2 \<and> (\<forall>err. e = Some err \<longrightarrow> \<not> wild err)"
  proof (cases "IS_EOF (peek ?s)")
    case False
    show ?thesis
    proof (cases "peek ?s = 91")
      case True
      have s: "0 \<notin> set (drop 1 ?s)" "length (drop 1 ?s) < 2 ^ 63"
        using part_no_nul [OF p(2) line(1)] part_length [OF p(2)] line(2) by simp_all
      have room1: "n_items (ld_conf ld) + 1 < 2 ^ 64" using room by simp
      show ?thesis
        by (rule section_line_keeps [OF os keeps room1 s, of junk])
          (use step False True ok in \<open>auto simp: load_line_def Let_def load_ok_def extends_def\<close>)
    next
      case entry: False
      have s: "0 \<notin> set ?s" "length ?s < 2 ^ 63"
        using part_no_nul [OF p(1) line(1)] part_length [OF p(1)] line(2) by simp_all
      obtain conf' where l: "load_entry_line os junk (ld_conf ld) (ld_section ld) (ld_sv ld) ?s = (e, conf')"
        "ld' = ld\<lparr>ld_conf := conf'\<rparr>"
        using step False entry by (auto simp: load_line_def Let_def split: prod.splits)
      then show ?thesis
        using entry_line_keeps [OF os keeps room s sv l(1)] sv by (auto simp: load_ok_def extends_def)
    qed
  qed (use step ok in \<open>simp add: load_line_def Let_def\<close>)
  then show "load_ok ld'" "n_items (ld_conf ld') \<le> n_items (ld_conf ld) + 2" "e = Some err \<Longrightarrow> \<not> wild err"
    by auto
qed

section \<open>The loop\<close>

definition load_room :: "LOAD \<Rightarrow> u8 list \<Rightarrow> bool \<Rightarrow> u8 list list \<Rightarrow> bool" where
  "load_room ld line again chunks \<longleftrightarrow>
     0 \<notin> set line \<and> length line + 511 * length chunks < 2 ^ 62
     \<and> n_items (ld_conf ld) + 2 * (length chunks + (if again then 1 else 0)) + 2 < 2 ^ 64"

lemma strip_newline_prefix: "set (strip_newline p) \<subseteq> set p" "length (strip_newline p) \<le> length p"
  using set_dropWhileD [of _ "\<lambda>c. c = 13 \<or> c = 10" "rev p"] length_dropWhile_le [of "\<lambda>c. c = 13 \<or> c = 10" "rev p"]
  by (auto simp: strip_newline_def)

text \<open>What one iteration takes from the chunks.\<close>

lemma piece_room:
  assumes "load_room ld line again chunks"
    and p: "p = (case chunks of [] \<Rightarrow> [] | c # _ \<Rightarrow> cstr (take (CONFBUFSIZE - 1) c))"
    and line': "line' = line @ strip_newline p \<or> line' = butlast (line @ strip_newline p)"
  shows "0 \<notin> set line'" "length line' + 511 * length (drop 1 chunks) < 2 ^ 62"
proof -
  have p0: "0 \<notin> set p" "length p \<le> 511 * (length chunks - length (drop 1 chunks))"
    using length_takeWhile_le [of "\<lambda>c. c \<noteq> 0" "take (CONFBUFSIZE - 1) (hd chunks)"]
    by (cases chunks; auto simp: p CONFBUFSIZE_def)+
  then show "0 \<notin> set line'"
    using assms(1) line' strip_newline_prefix(1) [of p] by (auto simp: load_room_def dest!: in_set_butlastD)
  have "length line' \<le> length line + length p" using line' strip_newline_prefix(2) [of p] by auto
  then show "length line' + 511 * length (drop 1 chunks) < 2 ^ 62"
    using assms(1) p0(2) by (cases chunks) (simp_all add: load_room_def)
qed

text \<open>One iteration: the loop ends, or the line goes on, or it is complete.\<close>

definition chunk_text :: "u8 list list \<Rightarrow> u8 list" where
  "chunk_text chunks = (case chunks of [] \<Rightarrow> [] | c # _ \<Rightarrow> cstr (take (CONFBUFSIZE - 1) c))"

definition same_but_line :: "LOAD \<Rightarrow> LOAD \<Rightarrow> bool" where
  "same_but_line a b \<longleftrightarrow> ld_conf a = ld_conf b \<and> ld_section a = ld_section b \<and> ld_sv a = ld_sv b"

lemma load_loop_cases:
  fixes line chunks
  defines "l \<equiv> line @ strip_newline (chunk_text chunks)"
  obtains (stops) r where "load_loop os junk ld buff line again chunks = (r, ld)" "r = None \<or> r = Some No_memory"
  | (goes_on) ld1 buff' where
    "load_loop os junk ld buff line again chunks
      = load_loop os junk ld1 buff' (if continued l then butlast l else l) True (drop 1 chunks)"
    "same_but_line ld1 ld" "chunks \<noteq> [] \<or> again \<and> continued l"
  | (complete) ld1 buff' where
    "load_loop os junk ld buff line again chunks =
       (case load_line os junk ld1 l of
          (Some e, ld) \<Rightarrow> (Some e, ld) | (None, ld) \<Rightarrow> load_loop os junk ld buff' [] False (drop 1 chunks))"
    "same_but_line ld1 ld" "chunks \<noteq> [] \<or> again"
proof -
  obtain k buff' where grow: "BUF_MEM_grow os junk buff (length line + CONFBUFSIZE) = (k, buff')" by fastforce
  let ?p = "chunk_text chunks"
  let ?more = "?p \<noteq> [] \<and> strip_newline ?p = ?p"
  let ?ld = "if ?more then ld else ld\<lparr>ld_eline := ld_eline ld + 1\<rparr>"
  have ld: "same_but_line ?ld ld" by (simp add: same_but_line_def)
  note eq = load_loop.simps [of os junk ld buff line again chunks, unfolded grow Let_def prod.case,
      folded chunk_text_def, folded l_def]
  have Nil: "chunk_text [] = []" by (simp add: chunk_text_def)
  consider "k = 0 \<or> ?p = [] \<and> \<not> again" | "k \<noteq> 0" "?p \<noteq> [] \<or> again" "?more \<or> continued l"
    | "k \<noteq> 0" "?p \<noteq> [] \<or> again" "\<not> (?more \<or> continued l)" by blast
  then show thesis
  proof cases
    case 1
    show thesis
    proof (cases "k = 0")
      case True
      then show thesis using stops [of "Some No_memory"] eq by simp
    qed (use 1 stops [of None] eq in simp)
  next
    case 2
    have "load_loop os junk ld buff line again chunks
      = load_loop os junk ?ld buff' (if continued l then butlast l else l) True (drop 1 chunks)"
      using 2(2) by (simp only: eq if_not_P [OF 2(1)] if_P [OF 2(3)]) auto
    moreover have "chunks \<noteq> [] \<or> again \<and> continued l" using 2(2,3) Nil by (cases chunks) auto
    ultimately show thesis using goes_on ld by blast
  next
    case 3
    have "load_loop os junk ld buff line again chunks =
       (case load_line os junk ?ld l of
          (Some e, ld) \<Rightarrow> (Some e, ld) | (None, ld) \<Rightarrow> load_loop os junk ld buff' [] False (drop 1 chunks))"
      using 3(2,3) by (simp only: eq if_not_P [OF 3(1)] if_not_P [OF 3(3)]) auto
    moreover have "chunks \<noteq> [] \<or> again" using 3(2) Nil by (cases chunks) auto
    ultimately show thesis using complete ld by blast
  qed
qed

lemma loop_keeps:
  assumes os: "\<forall>m. os m"
  shows "load_ok ld \<Longrightarrow> load_room ld line again chunks \<Longrightarrow> load_loop os junk ld buff line again chunks = (e, ld')
    \<Longrightarrow> load_ok ld' \<and> (\<forall>err. e = Some err \<longrightarrow> \<not> wild err)"
proof (induction "(length chunks, length line)" arbitrary: ld buff line again chunks
    rule: wf_induct_rule [OF wf_lex_prod [OF wf_less wf_less]])
  case less: (1 line chunks ld buff again)
  let ?l = "line @ strip_newline (chunk_text chunks)"
  have same: "load_ok ld1" "n_items (ld_conf ld1) = n_items (ld_conf ld)" if "same_but_line ld1 ld" for ld1
    using that less(2) by (simp_all add: same_but_line_def load_ok_def)
  note piece = piece_room [OF less(3) chunk_text_def]
  have IH: "load_ok ld2 \<Longrightarrow> load_room ld2 line2 again2 chunks2 \<Longrightarrow>
      load_loop os junk ld2 buff2 line2 again2 chunks2 = (e, ld') \<Longrightarrow>
      length chunks2 < length chunks \<or> length chunks2 = length chunks \<and> length line2 < length line \<Longrightarrow>
      load_ok ld' \<and> (\<forall>err. e = Some err \<longrightarrow> \<not> wild err)" for ld2 line2 again2 chunks2 buff2
    by (rule less(1)) auto
  show ?case
  proof (cases rule: load_loop_cases [of os junk ld buff line again chunks])
    case (stops r)
    then show ?thesis using less(2,4) by (auto simp: wild_def)
  next
    case (goes_on ld1 buff')
    let ?line = "if continued ?l then butlast ?l else ?l"
    have "length (drop 1 chunks) < length chunks
        \<or> length (drop 1 chunks) = length chunks \<and> length ?line < length line"
      using goes_on(3) by (cases chunks) (auto simp: chunk_text_def strip_newline_def continued_def)
    moreover have "load_room ld1 ?line True (drop 1 chunks)"
      using piece [of ?line] less(3) same(2) [OF goes_on(2)] goes_on(3) by (cases chunks) (auto simp: load_room_def)
    ultimately show ?thesis
      using IH [OF same(1) [OF goes_on(2)]] less(4) goes_on(1) by metis
  next
    case (complete ld1 buff')
    obtain e1 ld2 where line: "load_line os junk ld1 ?l = (e1, ld2)" by fastforce
    have l: "0 \<notin> set ?l" "length ?l < 2 ^ 63" "n_items (ld_conf ld1) + 2 < 2 ^ 64"
      using piece [of ?l] less(3) same(2) [OF complete(2)] by (auto simp: load_room_def)
    note keeps = line_keeps [OF os same(1) [OF complete(2)] l(3,1,2) line]
    show ?thesis
    proof (cases e1)
      case (Some err)
      then show ?thesis using keeps less(4) complete(1) line by auto
    next
      case None
      then have rest: "load_loop os junk ld2 buff' [] False (drop 1 chunks) = (e, ld')" using less(4) complete(1) line by simp
      have room: "load_room ld2 [] False (drop 1 chunks)"
        using less(3) keeps(2) same(2) [OF complete(2)] complete(3) by (cases chunks) (auto simp: load_room_def)
      show ?thesis
      proof (cases chunks)
        case Nil
        then have "e = None \<or> e = Some No_memory" "ld' = ld2"
          using rest by (auto simp: load_loop.simps [of _ _ _ _ "[]" False "[]"] split: prod.splits if_splits)
        then show ?thesis using keeps(1) by (auto simp: wild_def)
      next
        case (Cons c cs)
        then show ?thesis using IH [OF keeps(1) room rest] by simp
      qed
    qed
  qed
qed

text \<open>A file loaded into a new configuration.\<close>

lemma new_keeps_well: "NCONF_new os m = Some conf \<Longrightarrow> keeps_well conf \<and> n_items conf = 0"
proof -
  assume new: "NCONF_new os m = Some conf"
  note ok = NCONF_new_ok [OF new]
  then have "n_items conf = 0" by (simp add: conf_ok_def conf_table.table_ok_def lh_shape_def)
  then show ?thesis using ok by (simp add: keeps_well_def texts_short_def)
qed

lemma load_keeps:
  assumes os: "\<forall>m. os m" and keeps: "keeps_well conf" and room: "n_items conf + 2 * length chunks + 3 < 2 ^ 64"
    "511 * length chunks < 2 ^ 62"
    and absent: "get_section conf (Some [100, 101, 102, 97, 117, 108, 116]) = Inr None"
    and load: "def_load_bio os junk conf chunks = (e, conf')"
  shows "keeps_well conf' \<and> (\<forall>err n. e = Some (err, n) \<longrightarrow> \<not> wild err)"
proof -
  let ?default = "[100, 101, 102, 97, 117, 108, 116] :: u8 list"
  obtain buff where buff: "BUF_MEM_new os = Some buff" using os by (simp add: BUF_MEM_new_def OPENSSL_malloc_def)
  have "n_items conf + 1 < 2 ^ 64" using room(1) by simp
  then obtain sv conf1 where new: "NCONF_new_section os conf ?default = Inr (Some sv, conf1)"
    "extends conf conf1" "section_of conf1 ?default sv" "n_items conf1 \<le> n_items conf + 1"
    by (rule section_made [OF os keeps, of ?default]) (use absent in \<open>auto intro: that\<close>)
  let ?ld = "\<lparr>ld_conf = conf1, ld_section = ?default, ld_sv = sv, ld_eline = 0\<rparr>"
  obtain e1 ld where loop: "load_loop os junk ?ld buff [] False chunks = (e1, ld)" by fastforce
  have "load_ok ?ld" using new by (simp add: load_ok_def extends_def)
  moreover have "load_room ?ld [] False chunks" using room new(4) by (simp add: load_room_def)
  ultimately have "load_ok ld \<and> (\<forall>err. e1 = Some err \<longrightarrow> \<not> wild err)" using loop_keeps [OF os] loop by blast
  then show ?thesis
    using load buff strdup_ok [OF os] new(1) loop
    by (auto simp: def_load_bio_def Let_def load_ok_def split: option.splits)
qed

section \<open>A section that is made again, and lookups without a section\<close>

text \<open>
  \<open>def_load_bio\<close> makes its default section without asking whether there is one. The new section
  replaces the old one and its list is empty, but the old entries are still found by name.
\<close>

lemma section_made_again:
  assumes ok: "conf_ok conf" and room: "n_items conf + 1 < 2 ^ 64"
    and new: "NCONF_new_section os conf s = Inr (Some v, conf')"
  shows "\<exists>stack. NCONF_get_section conf' (Some s) = Inr (Some stack) \<and> sk_data stack = []"
    "lookup conf' s' n = lookup conf s' n"
proof -
  obtain a stack where v: "v = \<lparr>cv_addr = conf_next conf, cv_section = Some (cstr s), cv_name = None, cv_value = Section a\<rparr>"
    and stack: "sk_data stack = []" "conf_stacks conf' a = Some stack"
    and table: "conf_table.table_ok call_hash call_cmp (conf_data conf')"
    and mem: "\<And>x. x \<in># objects conf' \<longleftrightarrow> x = v \<or> x \<in># objects conf \<and> conf_key x \<noteq> conf_key v"
    by (rule new_section_effect [OF ok room new]) (rule that)
  have well: "table_well conf'" using table mem ok by (auto simp: table_well_def conf_ok_def v)
  have "conf_retrieve conf' (Some s) None = Inr (Some v)"
    using table_retrieve_iff(1) [OF well, of s None v] mem by (simp add: v conf_key_def)
  then show "\<exists>stack. NCONF_get_section conf' (Some s) = Inr (Some stack) \<and> sk_data stack = []"
    using stack by (simp add: NCONF_get_section_def get_section_def v)
  have "x \<in># objects conf' \<longleftrightarrow> x \<in># objects conf" if "cv_value x = Text t" for x t
  proof -
    have "cv_name x \<noteq> None" if "x \<in># objects conf"
      using ok that \<open>cv_value x = Text t\<close> by (auto simp: conf_ok_def lists_entries_def)
    then show ?thesis using mem that by (auto simp: v conf_key_def)
  qed
  then show "lookup conf' s' n = lookup conf s' n"
    using ok well by (intro lookup_same) auto
qed

text \<open>Without a section the template's \<open>NULL\<close> reaches \<open>strcmp\<close> as soon as the chain has an item.\<close>

lemma lookup_without_section:
  fixes n
  assumes "conf_ok conf"
  defines "chain \<equiv> lh_buckets (conf_data conf) !
      (unat (lh_strhash (Some n)) mod lh_num_buckets (conf_data conf))"
  shows "NCONF_get_string conf None n = (if chain = [] then Inr None else Inl Null_string)"
proof -
  let ?t = "\<lparr>cv_addr = conf_next conf, cv_section = None, cv_name = Some n, cv_value = No_value\<rparr>"
  have hash: "conf_value_hash ?t = lh_strhash (Some n)"
    by (simp add: conf_value_hash_def lh_strhash_def)
  then have clash: "null_clash conf ?t \<longleftrightarrow> chain \<noteq> []"
    using null_clash_iff [OF conf_ok_table_well [OF assms(1)], of ?t] by (simp add: chain_def)
  show ?thesis
  proof (cases "chain = []")
    case True
    then have "lh_retrieve call_hash call_cmp (conf_data conf) ?t = None"
      using hash by (simp add: lh_retrieve_def get_next_ptr_and_hash_def item_at_def chain_def Let_def)
    then show ?thesis using True clash by (simp add: NCONF_get_string_def conf_retrieve_def Let_def)
  qed (use clash in \<open>simp add: NCONF_get_string_def conf_retrieve_def Let_def\<close>)
qed

end
