(* ===== verification/HostName.thy ===== *)
theory HostName
  imports MbString Conf
begin

unbundle bit_operations_syntax

text \<open>
  Names in certificates: the comparison functions of \<open>crypto/x509v3/v3_utl.c\<close> and the checks of a
  certificate against a host name, an e-mail address or an IP address; \<open>ASN1_STRING_to_UTF8\<close> of
  \<open>x509/a_strex.c\<close>. A pattern or subject with its length is the list of its bytes; a position in the
  pattern is an index.
\<close>

section \<open>Comparison functions\<close>

definition X509_CHECK_FLAG_NO_WILDCARDS :: u32 where "X509_CHECK_FLAG_NO_WILDCARDS = 0x2"
definition X509_CHECK_FLAG_NO_PARTIAL_WILDCARDS :: u32 where "X509_CHECK_FLAG_NO_PARTIAL_WILDCARDS = 0x4"
definition X509_CHECK_FLAG_MULTI_LABEL_WILDCARDS :: u32 where "X509_CHECK_FLAG_MULTI_LABEL_WILDCARDS = 0x8"
definition X509_CHECK_FLAG_SINGLE_LABEL_SUBDOMAINS :: u32 where "X509_CHECK_FLAG_SINGLE_LABEL_SUBDOMAINS = 0x10"
definition X509_CHECK_FLAG_NEVER_CHECK_SUBJECT :: u32 where "X509_CHECK_FLAG_NEVER_CHECK_SUBJECT = 0x20"
definition X509_CHECK_FLAG_DOT_SUBDOMAINS :: u32 where "X509_CHECK_FLAG_DOT_SUBDOMAINS = 0x8000"

abbreviation has_flag :: "u32 \<Rightarrow> u32 \<Rightarrow> bool" where
  "has_flag flags f \<equiv> flags AND f \<noteq> 0"

fun skip_prefix_loop :: "u32 \<Rightarrow> u8 list \<Rightarrow> nat \<Rightarrow> u8 list" where
  "skip_prefix_loop flags [] subject_len = []"
| "skip_prefix_loop flags (c # pattern) subject_len =
     (if length (c # pattern) > subject_len \<and> c \<noteq> 0
         \<and> \<not> (has_flag flags X509_CHECK_FLAG_SINGLE_LABEL_SUBDOMAINS \<and> c = 46)
      then skip_prefix_loop flags pattern subject_len else c # pattern)"

definition skip_prefix :: "u32 \<Rightarrow> u8 list \<Rightarrow> u8 list \<Rightarrow> u8 list" where
  "skip_prefix flags p subject =
     (if \<not> has_flag flags X509_CHECK_FLAG_DOT_SUBDOMAINS then p
      else let pattern = skip_prefix_loop flags p (length subject)
           in if length pattern = length subject then pattern else p)"

definition ascii_lower :: "u8 \<Rightarrow> u8" where
  "ascii_lower c = (if 65 \<le> c \<and> c \<le> 90 then c - 65 + 97 else c)"

fun nocase_loop :: "u8 list \<Rightarrow> u8 list \<Rightarrow> bool" where
  "nocase_loop (l # pattern) (r # subject) =
     (if l = 0 then False
      else if l \<noteq> r \<and> ascii_lower l \<noteq> ascii_lower r then False
      else nocase_loop pattern subject)"
| "nocase_loop _ _ = True"

definition equal_nocase :: "u32 \<Rightarrow> u8 list \<Rightarrow> u8 list \<Rightarrow> bool" where
  "equal_nocase flags pattern subject =
     (let pattern = skip_prefix flags pattern subject
      in if length pattern \<noteq> length subject then False else nocase_loop pattern subject)"

definition equal_case :: "u32 \<Rightarrow> u8 list \<Rightarrow> u8 list \<Rightarrow> bool" where
  "equal_case flags pattern subject =
     (let pattern = skip_prefix flags pattern subject
      in if length pattern \<noteq> length subject then False else pattern = subject)"

text \<open>The backwards search for \<open>@\<close>: the index where it stops, or \<open>None\<close> when the domains differ.\<close>

fun email_scan :: "u8 list \<Rightarrow> u8 list \<Rightarrow> nat \<Rightarrow> nat option" where
  "email_scan a b 0 = Some 0"
| "email_scan a b (Suc i) =
     (if a ! i = 64 \<or> b ! i = 64
      then (if \<not> equal_nocase 0 (drop i a) (drop i b) then None else Some i)
      else email_scan a b i)"

definition equal_email :: "u32 \<Rightarrow> u8 list \<Rightarrow> u8 list \<Rightarrow> bool" where
  "equal_email unused_flags a b =
     (if length a \<noteq> length b then False
      else case email_scan a b (length a) of
             None \<Rightarrow> False
           | Some i \<Rightarrow> (let i = (if i = 0 then length a else i) in equal_case 0 (take i a) (take i b)))"

definition alnum :: "u8 \<Rightarrow> bool" where
  "alnum c \<longleftrightarrow> (97 \<le> c \<and> c \<le> 122) \<or> (65 \<le> c \<and> c \<le> 90) \<or> (48 \<le> c \<and> c \<le> 57)"

definition xn_prefix :: "u8 list" where "xn_prefix = [120, 110, 45, 45]"

definition idna :: "u8 list \<Rightarrow> bool" where
  "idna s \<longleftrightarrow> length s \<ge> 4 \<and> OPENSSL_strncasecmp s xn_prefix 4 = 0"

definition wildcard_match :: "u32 \<Rightarrow> u8 list \<Rightarrow> u8 list \<Rightarrow> u8 list \<Rightarrow> bool" where
  "wildcard_match flags prefix' suffix' subject =
     (if length subject < length prefix' + length suffix' then False
      else if \<not> equal_nocase flags prefix' (take (length prefix') subject) then False
      else
        let wildcard_end = drop (length subject - length suffix') subject;
            wildcard = take (length subject - length suffix' - length prefix') (drop (length prefix') subject)
        in if \<not> equal_nocase flags wildcard_end suffix' then False
           else
             let whole = (length prefix' = 0 \<and> suffix' \<noteq> [] \<and> hd suffix' = 46)
             in if whole \<and> wildcard = [] then False
                else
                  let allow_idna = whole;
                      allow_multi = (whole \<and> has_flag flags X509_CHECK_FLAG_MULTI_LABEL_WILDCARDS)
                  in if \<not> allow_idna \<and> idna subject then False
                     else if wildcard = [42] then True
                     else \<forall>c\<in>set wildcard. alnum c \<or> c = 45 \<or> (allow_multi \<and> c = 46))"

definition LABEL_START :: u32 where "LABEL_START = 1"
definition LABEL_HYPHEN :: u32 where "LABEL_HYPHEN = 4"
definition LABEL_IDNA :: u32 where "LABEL_IDNA = 8"

text \<open>The loop at index \<open>i\<close>, with what is left of the pattern; \<open>None\<close> where the code returns \<open>NULL\<close> at once.\<close>

fun valid_star_loop :: "u32 \<Rightarrow> u8 list \<Rightarrow> nat \<Rightarrow> nat option \<Rightarrow> u32 \<Rightarrow> nat \<Rightarrow> (nat option \<times> u32 \<times> nat) option" where
  "valid_star_loop flags [] i star state dots = Some (star, state, dots)"
| "valid_star_loop flags (c # p) i star state dots =
     (if c = 42
      then let atstart = (state AND LABEL_START \<noteq> 0); atend = (p = [] \<or> hd p = 46)
           in if star \<noteq> None \<or> state AND LABEL_IDNA \<noteq> 0 \<or> dots \<noteq> 0 then None
              else if has_flag flags X509_CHECK_FLAG_NO_PARTIAL_WILDCARDS \<and> (\<not> atstart \<or> \<not> atend) then None
              else if \<not> atstart \<and> \<not> atend then None
              else valid_star_loop flags p (i + 1) (Some i) (state AND NOT LABEL_START) dots
      else if alnum c
      then let state = (if state AND LABEL_START \<noteq> 0 \<and> idna (c # p) then state OR LABEL_IDNA else state)
           in valid_star_loop flags p (i + 1) star (state AND NOT (LABEL_HYPHEN OR LABEL_START)) dots
      else if c = 46
      then if state AND (LABEL_HYPHEN OR LABEL_START) \<noteq> 0 then None
           else valid_star_loop flags p (i + 1) star LABEL_START (dots + 1)
      else if c = 45
      then if state AND LABEL_START \<noteq> 0 then None
           else valid_star_loop flags p (i + 1) star (state OR LABEL_HYPHEN) dots
      else None)"

definition valid_star :: "u32 \<Rightarrow> u8 list \<Rightarrow> nat option" where
  "valid_star flags p =
     (case valid_star_loop flags p 0 None LABEL_START 0 of
        None \<Rightarrow> None
      | Some (star, state, dots) \<Rightarrow>
          if state AND (LABEL_START OR LABEL_HYPHEN) \<noteq> 0 \<or> dots < 2 then None else star)"

definition equal_wildcard :: "u32 \<Rightarrow> u8 list \<Rightarrow> u8 list \<Rightarrow> bool" where
  "equal_wildcard flags pattern subject =
     (let star = (if \<not> (length subject > 1 \<and> hd subject = 46) then valid_star flags pattern else None)
      in case star of
           None \<Rightarrow> equal_nocase flags pattern subject
         | Some k \<Rightarrow> wildcard_match flags (take k pattern) (drop (k + 1) pattern) subject)"

fun dns_name_loop :: "nat \<Rightarrow> u8 list \<Rightarrow> nat \<Rightarrow> nat \<Rightarrow> bool" where
  "dns_name_loop len [] i label_start = True"
| "dns_name_loop len (c # s) i label_start =
     (if alnum c \<or> (c = 45 \<and> i > label_start) \<or> c = 95 \<or> c = 58 then dns_name_loop len s (i + 1) label_start
      else if c = 46 \<and> i > label_start \<and> i < len - 1 then dns_name_loop len s (i + 1) (i + 1)
      else False)"

definition x509v3_looks_like_dns_name :: "u8 list \<Rightarrow> bool" where
  "x509v3_looks_like_dns_name s =
     (let s = (if s \<noteq> [] \<and> last s = 46 then butlast s else s);
          s = (if length s \<ge> 2 \<and> s ! 0 = 42 \<and> s ! 1 = 46 then drop 2 s else s)
      in if s = [] then False else dns_name_loop (length s) s 0 0)"

section \<open>Certificates\<close>

definition V_ASN1_OCTET_STRING :: int where "V_ASN1_OCTET_STRING = 4"
definition GEN_EMAIL :: nat where "GEN_EMAIL = 1"
definition GEN_DNS :: nat where "GEN_DNS = 2"
definition GEN_IPADD :: nat where "GEN_IPADD = 7"
definition NID_undef :: nat where "NID_undef = 0"
definition NID_commonName :: nat where "NID_commonName = 13"
definition NID_pkcs9_emailAddress :: nat where "NID_pkcs9_emailAddress = 48"

definition tag2nbyte :: "int list" where
  "tag2nbyte =
    [- 1, - 1, - 1, - 1, - 1, - 1, - 1, - 1, - 1, - 1, - 1, - 1, 0, - 1, - 1, - 1, - 1, - 1,
     1, 1, 1, - 1, 1, 1, 1, - 1, 1, - 1, 4, - 1, 2]"

text \<open>The conversion of a string to UTF-8, with the converted bytes; a negative result is a failure.\<close>

definition ASN1_STRING_to_UTF8 :: "(nat \<Rightarrow> bool) \<Rightarrow> ASN1_STRING \<Rightarrow> u8 list option" where
  "ASN1_STRING_to_UTF8 os inp =
     (if as_type inp < 0 \<or> as_type inp > 30 then None
      else let mbflag = tag2nbyte ! nat (as_type inp)
           in if mbflag = - 1 then None
              else case ASN1_mbstring_copy os (Some (Some \<lparr>as_length = 0, as_type = 0, as_data = None\<rparr>))
                          (case as_data inp of None \<Rightarrow> [] | Some d \<Rightarrow> d) (as_length inp)
                          (nat mbflag + MBSTRING_UTF8) B_ASN1_UTF8STRING of
                     (Inl _, _) \<Rightarrow> None
                   | (Inr _, Str s) \<Rightarrow> Some (take (nat (as_length s)) (case as_data s of None \<Rightarrow> [] | Some d \<Rightarrow> d))
                   | (Inr _, _) \<Rightarrow> None)"

type_synonym equal_fn = "u32 \<Rightarrow> u8 list \<Rightarrow> u8 list \<Rightarrow> bool"

record GENERAL_NAME =
  gen_type :: nat
  gen_string :: ASN1_STRING

text \<open>
  What the accessors of \<open>X509\<close> return: the decoded subject alternative names, if there are any, and
  the entries of the subject with their identifiers.
\<close>

record X509 =
  x509_alt_names :: "GENERAL_NAME list option"
  x509_subject :: "(nat \<times> ASN1_STRING) list"

definition string_bytes :: "ASN1_STRING \<Rightarrow> u8 list" where
  "string_bytes a = take (nat (as_length a)) (case as_data a of None \<Rightarrow> [] | Some d \<Rightarrow> d)"

text \<open>
  The result and what is stored in \<open>*peername\<close>, which stays \<open>None\<close> when the caller passes \<open>NULL\<close>.
\<close>

definition peer_copy :: "(nat \<Rightarrow> bool) \<Rightarrow> bool \<Rightarrow> int \<Rightarrow> u8 list \<Rightarrow> u8 list option" where
  "peer_copy os want rv s = (if rv > 0 \<and> want then OPENSSL_strndup os (Some s) (length s) else None)"

definition do_check_string ::
    "(nat \<Rightarrow> bool) \<Rightarrow> ASN1_STRING \<Rightarrow> int \<Rightarrow> equal_fn \<Rightarrow> u32 \<Rightarrow> nat \<Rightarrow> u8 list \<Rightarrow> bool \<Rightarrow> int \<times> u8 list option" where
  "do_check_string os a cmp_type equal flags check_type b want =
     (if as_data a = None \<or> as_length a = 0 then (0, None)
      else if cmp_type > 0
      then if cmp_type \<noteq> as_type a then (0, None)
           else let s = string_bytes a;
                    rv = (if (if cmp_type = V_ASN1_IA5STRING then equal flags s b
                              else as_length a = int (length b) \<and> s = b) then 1 else 0)
                in (rv, peer_copy os want rv s)
      else case ASN1_STRING_to_UTF8 os a of
             None \<Rightarrow> (- 1, None)
           | Some s \<Rightarrow>
               (let rv = (if check_type = GEN_DNS \<and> \<not> x509v3_looks_like_dns_name s then 0
                          else if equal flags s b then 1 else 0)
                in (rv, peer_copy os want rv s)))"

text \<open>The two loops: the first result that is not 0.\<close>

fun check_strings ::
    "(ASN1_STRING \<Rightarrow> int \<times> u8 list option) \<Rightarrow> ASN1_STRING list \<Rightarrow> int \<times> u8 list option" where
  "check_strings check [] = (0, None)"
| "check_strings check (a # as) = (let r = check a in if fst r \<noteq> 0 then r else check_strings check as)"

definition do_x509_check ::
    "(nat \<Rightarrow> bool) \<Rightarrow> X509 \<Rightarrow> u8 list \<Rightarrow> u32 \<Rightarrow> nat \<Rightarrow> bool \<Rightarrow> int \<times> u8 list option" where
  "do_x509_check os x chk flags check_type want =
     (let flags = flags AND NOT X509_CHECK_FLAG_DOT_SUBDOMAINS;
          (cnid, flags, alt_type, equal) =
            (if check_type = GEN_EMAIL then (NID_pkcs9_emailAddress, flags, V_ASN1_IA5STRING, equal_email)
             else if check_type = GEN_DNS
             then (NID_commonName,
                   if length chk > 1 \<and> chk ! 0 = 46 then flags OR X509_CHECK_FLAG_DOT_SUBDOMAINS else flags,
                   V_ASN1_IA5STRING,
                   if has_flag flags X509_CHECK_FLAG_NO_WILDCARDS then equal_nocase else equal_wildcard)
             else (NID_undef, flags, V_ASN1_OCTET_STRING, equal_case))
      in case x509_alt_names x of
           Some gens \<Rightarrow>
             check_strings (\<lambda>a. do_check_string os a alt_type equal flags check_type chk want)
               (map gen_string (filter (\<lambda>gen. gen_type gen = check_type) gens))
         | None \<Rightarrow>
             if cnid = NID_undef \<or> has_flag flags X509_CHECK_FLAG_NEVER_CHECK_SUBJECT then (0, None)
             else check_strings (\<lambda>a. do_check_string os a (- 1) equal flags check_type chk want)
                    (map snd (filter (\<lambda>(nid, _). nid = cnid) (x509_subject x))))"

text \<open>\<open>chk\<close> is \<open>None\<close> for \<open>NULL\<close>.\<close>

definition X509_check_host ::
    "(nat \<Rightarrow> bool) \<Rightarrow> X509 \<Rightarrow> u8 list option \<Rightarrow> u32 \<Rightarrow> bool \<Rightarrow> int \<times> u8 list option" where
  "X509_check_host os x chk flags want =
     (case chk of
        None \<Rightarrow> (- 2, None)
      | Some chk \<Rightarrow> if 0 \<in> set chk then (- 2, None) else do_x509_check os x chk flags GEN_DNS want)"

definition X509_check_email :: "(nat \<Rightarrow> bool) \<Rightarrow> X509 \<Rightarrow> u8 list option \<Rightarrow> u32 \<Rightarrow> int" where
  "X509_check_email os x chk flags =
     (case chk of
        None \<Rightarrow> - 2
      | Some chk \<Rightarrow> if 0 \<in> set chk then - 2 else fst (do_x509_check os x chk flags GEN_EMAIL False))"

definition X509_check_ip :: "(nat \<Rightarrow> bool) \<Rightarrow> X509 \<Rightarrow> u8 list option \<Rightarrow> u32 \<Rightarrow> int" where
  "X509_check_ip os x chk flags =
     (case chk of None \<Rightarrow> - 2 | Some chk \<Rightarrow> fst (do_x509_check os x chk flags GEN_IPADD False))"

end
