(* ===== verification/HostSpec.thy ===== *)
theory HostSpec
  imports HostName
begin

unbundle bit_operations_syntax

text \<open>
  Which patterns the code takes for wildcards, which subjects they match, and what the checks of a
  certificate find. Patterns and subjects are split into labels at the dots.
\<close>

section \<open>Letters\<close>

definition same_letters :: "u8 list \<Rightarrow> u8 list \<Rightarrow> bool" where
  "same_letters a b \<longleftrightarrow> map ascii_lower a = map ascii_lower b"

lemma same_letters_length: "same_letters a b \<Longrightarrow> length a = length b"
  unfolding same_letters_def by (rule map_eq_imp_length_eq)

lemma same_letters_refl [simp]: "same_letters a a"
  by (simp add: same_letters_def)

lemma same_letters_append:
  "length a = length c \<Longrightarrow> same_letters (a @ b) (c @ d) \<longleftrightarrow> same_letters a c \<and> same_letters b d"
  by (simp add: same_letters_def)

lemma same_letters_Nil [simp]: "same_letters [] b \<longleftrightarrow> b = []" "same_letters a [] \<longleftrightarrow> a = []"
  by (auto simp: same_letters_def)

lemma same_letters_Cons [simp]: "same_letters (x # a) (y # b) \<longleftrightarrow> ascii_lower x = ascii_lower y \<and> same_letters a b"
  by (simp add: same_letters_def)

lemma same_letters_sym: "same_letters a b = same_letters b a"
  by (auto simp: same_letters_def)

lemma ascii_lower_other: "\<not> (65 \<le> c \<and> c \<le> 90) \<Longrightarrow> \<not> (97 \<le> c \<and> c \<le> 122) \<Longrightarrow> ascii_lower x = c \<longleftrightarrow> x = c"
proof -
  assume c: "\<not> (65 \<le> c \<and> c \<le> 90)" "\<not> (97 \<le> c \<and> c \<le> 122)"
  have "97 \<le> x - 65 + 97 \<and> x - 65 + 97 \<le> 122" if "65 \<le> x" "x \<le> 90"
  proof -
    have u: "unat (x - 65) = unat x - 65" using that(1) by (simp add: unat_sub)
    have "unat x \<le> 90" "65 \<le> unat x" using that by (simp_all add: word_le_nat_alt)
    then have "unat (x - 65 + 97) = unat x - 65 + 97" using u by (simp add: unat_word_ariths)
    then show ?thesis using \<open>unat x \<le> 90\<close> \<open>65 \<le> unat x\<close> by (simp add: word_le_nat_alt)
  qed
  then show ?thesis using c by (auto simp: ascii_lower_def)
qed

lemma ascii_lower_dot [simp]: "ascii_lower x = 46 \<longleftrightarrow> x = 46" "ascii_lower x = 0 \<longleftrightarrow> x = 0"
  by (rule ascii_lower_other; simp)+

lemma nocase_loop_iff: "length a = length b \<Longrightarrow> nocase_loop a b \<longleftrightarrow> 0 \<notin> set a \<and> same_letters a b"
  by (induction a b rule: nocase_loop.induct) auto

abbreviation plain :: "u32 \<Rightarrow> bool" where
  "plain flags \<equiv> \<not> has_flag flags X509_CHECK_FLAG_DOT_SUBDOMAINS"

lemma equal_nocase_iff: "plain flags \<Longrightarrow> equal_nocase flags a b \<longleftrightarrow> 0 \<notin> set a \<and> same_letters a b"
  using same_letters_length [of a b] by (auto simp: equal_nocase_def skip_prefix_def nocase_loop_iff)

lemma equal_case_iff: "plain flags \<Longrightarrow> equal_case flags a b \<longleftrightarrow> a = b"
  by (auto simp: equal_case_def skip_prefix_def)

section \<open>Patterns with a wildcard\<close>

abbreviation ldh :: "u8 \<Rightarrow> bool" where "ldh c \<equiv> alnum c \<or> c = 45"

definition host_label :: "u8 list \<Rightarrow> bool" where
  "host_label l \<longleftrightarrow> l \<noteq> [] \<and> (\<forall>c\<in>set l. ldh c) \<and> hd l \<noteq> 45 \<and> last l \<noteq> 45"

text \<open>The state of the loop in three bits.\<close>

definition bits :: "bool \<Rightarrow> bool \<Rightarrow> bool \<Rightarrow> u32" where
  "bits s h d = (if s then LABEL_START else 0) OR (if h then LABEL_HYPHEN else 0) OR (if d then LABEL_IDNA else 0)"

lemma bits_tests:
  "bits s h d AND LABEL_START \<noteq> 0 \<longleftrightarrow> s" "bits s h d AND LABEL_IDNA \<noteq> 0 \<longleftrightarrow> d"
  "bits s h d AND (LABEL_HYPHEN OR LABEL_START) \<noteq> 0 \<longleftrightarrow> s \<or> h" "bits s h d AND (LABEL_START OR LABEL_HYPHEN) \<noteq> 0 \<longleftrightarrow> s \<or> h"
  by (cases s; cases h; cases d; simp add: bits_def LABEL_START_def LABEL_HYPHEN_def LABEL_IDNA_def)+

lemma bits_updates:
  "bits s h d AND NOT LABEL_START = bits False h d" "bits s h d OR LABEL_HYPHEN = bits s True d"
  "(bits s h d OR LABEL_IDNA) AND NOT (LABEL_HYPHEN OR LABEL_START) = bits False False True"
  "bits s h d AND NOT (LABEL_HYPHEN OR LABEL_START) = bits False False d"
  by (cases s; cases h; cases d; simp add: bits_def LABEL_START_def LABEL_HYPHEN_def LABEL_IDNA_def)+

lemma bits_start: "LABEL_START = bits True False False"
  by (simp add: bits_def)

definition star_end :: "(nat option \<times> u32 \<times> nat) option \<Rightarrow> nat option" where
  "star_end r = (case r of None \<Rightarrow> None | Some (star, state, dots) \<Rightarrow>
     if state AND (LABEL_START OR LABEL_HYPHEN) \<noteq> 0 \<or> dots < 2 then None else star)"

definition star_from :: "u32 \<Rightarrow> u8 list \<Rightarrow> nat \<Rightarrow> nat option \<Rightarrow> bool \<Rightarrow> bool \<Rightarrow> bool \<Rightarrow> nat \<Rightarrow> nat option" where
  "star_from flags p i star s h d dots = star_end (valid_star_loop flags p i star (bits s h d) dots)"

lemma alnum_other: "alnum c \<Longrightarrow> c \<noteq> 42 \<and> c \<noteq> 46 \<and> c \<noteq> 45 \<and> c \<noteq> 0"
  by (auto simp: alnum_def)

lemma not_alnum [simp]: "\<not> alnum 42" "\<not> alnum 46" "\<not> alnum 45" "\<not> alnum 0"
  by (simp_all add: alnum_def)

lemma star_from_simps:
  "star_from flags [] i star s h d dots = (if s \<or> h \<or> dots < 2 then None else star)"
  "star_from flags (42 # p) i star s h d dots =
     (if star \<noteq> None \<or> d \<or> dots \<noteq> 0 \<or> (let atend = p = [] \<or> hd p = 46 in
        (has_flag flags X509_CHECK_FLAG_NO_PARTIAL_WILDCARDS \<and> (\<not> s \<or> \<not> atend)) \<or> (\<not> s \<and> \<not> atend))
      then None else star_from flags p (i + 1) (Some i) False h d dots)"
  "alnum c \<Longrightarrow> star_from flags (c # p) i star s h d dots =
     star_from flags p (i + 1) star False False (d \<or> s \<and> idna (c # p)) dots"
  "star_from flags (46 # p) i star s h d dots = (if s \<or> h then None else star_from flags p (i + 1) star True False False (dots + 1))"
  "star_from flags (45 # p) i star s h d dots = (if s then None else star_from flags p (i + 1) star False True d dots)"
  "c \<noteq> 42 \<Longrightarrow> \<not> alnum c \<Longrightarrow> c \<noteq> 46 \<Longrightarrow> c \<noteq> 45 \<Longrightarrow> star_from flags (c # p) i star s h d dots = None"
proof -
  note unfold = star_from_def valid_star_loop.simps Let_def bits_tests bits_updates
  have none: "star_end None = None" by (simp add: star_end_def)
  show "star_from flags [] i star s h d dots = (if s \<or> h \<or> dots < 2 then None else star)"
    unfolding unfold star_end_def option.case prod.case by simp
  show "star_from flags (42 # p) i star s h d dots =
     (if star \<noteq> None \<or> d \<or> dots \<noteq> 0 \<or> (let atend = p = [] \<or> hd p = 46 in
        (has_flag flags X509_CHECK_FLAG_NO_PARTIAL_WILDCARDS \<and> (\<not> s \<or> \<not> atend)) \<or> (\<not> s \<and> \<not> atend))
      then None else star_from flags p (i + 1) (Some i) False h d dots)"
    unfolding unfold by (auto simp: none)
  show "alnum c \<Longrightarrow> star_from flags (c # p) i star s h d dots =
     star_from flags p (i + 1) star False False (d \<or> s \<and> idna (c # p)) dots"
    using alnum_other [of c] unfolding unfold by (cases "s \<and> idna (c # p)") (simp_all only: bits_updates if_True if_False simp_thms)
  show "star_from flags (46 # p) i star s h d dots = (if s \<or> h then None else star_from flags p (i + 1) star True False False (dots + 1))"
    unfolding unfold by (simp add: none bits_start [symmetric])
  show "star_from flags (45 # p) i star s h d dots = (if s then None else star_from flags p (i + 1) star False True d dots)"
    unfolding unfold by (simp add: none)
  show "c \<noteq> 42 \<Longrightarrow> \<not> alnum c \<Longrightarrow> c \<noteq> 46 \<Longrightarrow> c \<noteq> 45 \<Longrightarrow> star_from flags (c # p) i star s h d dots = None"
    unfolding unfold by (simp add: none)
qed

section \<open>After the first label\<close>

fun tail_ok :: "bool \<Rightarrow> bool \<Rightarrow> u8 list \<Rightarrow> bool" where
  "tail_ok s h [] \<longleftrightarrow> \<not> s \<and> \<not> h"
| "tail_ok s h (c # p) \<longleftrightarrow>
     (if alnum c then tail_ok False False p
      else if c = 45 then \<not> s \<and> tail_ok False True p
      else c = 46 \<and> \<not> s \<and> \<not> h \<and> tail_ok True False p)"

lemma star_from_tail:
  "star \<noteq> None \<or> dots \<noteq> 0 \<Longrightarrow> star_from flags p i star s h d dots =
     (if tail_ok s h p \<and> 2 \<le> dots + count_list p 46 then star else None)"
proof (induction p arbitrary: i s h d dots)
  case Nil
  then show ?case by (simp add: star_from_simps)
next
  case (Cons c p)
  consider "alnum c" | "c = 42" | "c = 46" | "c = 45" | "c \<noteq> 42" "\<not> alnum c" "c \<noteq> 46" "c \<noteq> 45" by blast
  then show ?case
    by cases (use Cons alnum_other [of c] in \<open>auto simp: star_from_simps\<close>)
qed

lemma tail_ok_labels:
  "tail_ok s h p \<longleftrightarrow> (\<forall>c\<in>set (hd (split_at 46 p)). ldh c)
     \<and> (s \<longrightarrow> hd (split_at 46 p) \<noteq> [] \<and> hd (hd (split_at 46 p)) \<noteq> 45)
     \<and> (if hd (split_at 46 p) = [] then \<not> h else last (hd (split_at 46 p)) \<noteq> 45)
     \<and> (\<forall>l\<in>set (tl (split_at 46 p)). host_label l)"
proof (induction p arbitrary: s h)
  case (Cons c p)
  obtain l ls where p: "split_at 46 p = l # ls" using split_at_eq [of 46 p] by blast
  consider "alnum c" | "c = 46" | "c = 45" | "\<not> alnum c" "c \<noteq> 46" "c \<noteq> 45" by blast
  then show ?case
    by cases (use Cons alnum_other [of c] in \<open>auto simp: p host_label_def\<close>)
qed simp

section \<open>The first label\<close>

definition star_ok :: "u32 \<Rightarrow> bool \<Rightarrow> bool \<Rightarrow> u8 list \<Rightarrow> bool" where
  "star_ok flags s h suf \<longleftrightarrow> (s \<or> suf = [] \<or> hd suf = 46)
     \<and> (has_flag flags X509_CHECK_FLAG_NO_PARTIAL_WILDCARDS \<longrightarrow> s \<and> (suf = [] \<or> hd suf = 46))
     \<and> tail_ok False h suf \<and> 2 \<le> count_list suf 46"

text \<open>A star not yet seen, in the first label, in a state of the loop.\<close>

definition first_ok :: "u32 \<Rightarrow> bool \<Rightarrow> bool \<Rightarrow> bool \<Rightarrow> u8 list \<Rightarrow> u8 list \<Rightarrow> bool" where
  "first_ok flags s h d pre suf \<longleftrightarrow> (\<forall>c\<in>set pre. ldh c) \<and> \<not> d
     \<and> (s \<and> pre \<noteq> [] \<longrightarrow> hd pre \<noteq> 45 \<and> \<not> idna (pre @ 42 # suf))
     \<and> star_ok flags (s \<and> pre = []) (if pre = [] then h else last pre = 45) suf"

lemma star_from_first:
  "star_from flags p i None s h d 0 = Some k \<longleftrightarrow>
     (\<exists>pre suf. p = pre @ 42 # suf \<and> k = i + length pre \<and> first_ok flags s h d pre suf)"
proof (induction p arbitrary: i s h d)
  case Nil
  then show ?case by (simp add: star_from_simps)
next
  case (Cons c p)
  have split: "(\<exists>pre suf. c # p = pre @ 42 # suf \<and> k = i + length pre \<and> first_ok flags s h d pre suf) \<longleftrightarrow>
    c = 42 \<and> k = i \<and> first_ok flags s h d [] p
    \<or> (\<exists>pre suf. p = pre @ 42 # suf \<and> k = i + 1 + length pre \<and> first_ok flags s h d (c # pre) suf)"
    (is "?l \<longleftrightarrow> ?a \<or> ?b")
  proof
    assume ?l
    then obtain pre suf where *: "c # p = pre @ 42 # suf" "k = i + length pre" "first_ok flags s h d pre suf" by blast
    then show "?a \<or> ?b" by (cases pre) auto
  next
    assume "?a \<or> ?b"
    then show ?l
    proof
      assume ?a
      then show ?l by (intro exI [of _ "[]"] exI [of _ p]) simp
    next
      assume ?b
      then obtain pre suf where "p = pre @ 42 # suf" "k = i + 1 + length pre" "first_ok flags s h d (c # pre) suf" by blast
      then show ?l by (intro exI [of _ "c # pre"] exI [of _ suf]) simp
    qed
  qed
  consider "c = 42" | "alnum c" | "c = 46" | "c = 45" | "c \<noteq> 42" "\<not> alnum c" "c \<noteq> 46" "c \<noteq> 45" by blast
  then show ?case
  proof cases
    case 1
    then show ?thesis unfolding split
      by (auto simp: star_from_simps star_from_tail first_ok_def star_ok_def)
  next
    case 2
    have "first_ok flags s h d (c # pre) suf \<longleftrightarrow> first_ok flags False False (d \<or> s \<and> idna (c # p)) pre suf"
      if "p = pre @ 42 # suf" for pre suf
      using 2 alnum_other [of c] that by (auto simp: first_ok_def)
    then show ?thesis unfolding split using 2 alnum_other [of c] Cons by (auto simp: star_from_simps)
  next
    case 3
    then show ?thesis unfolding split by (auto simp: star_from_simps star_from_tail first_ok_def)
  next
    case 4
    have "first_ok flags s h d (c # pre) suf \<longleftrightarrow> \<not> s \<and> first_ok flags False True d pre suf" for pre suf
      using 4 by (auto simp: first_ok_def)
    then show ?thesis unfolding split using 4 Cons by (auto simp: star_from_simps)
  next
    case 5
    then show ?thesis unfolding split by (auto simp: star_from_simps first_ok_def)
  qed
qed

lemma valid_star_first:
  "valid_star flags p = Some k \<longleftrightarrow> (\<exists>pre suf. p = pre @ 42 # suf \<and> k = length pre \<and> first_ok flags True False False pre suf)"
proof -
  have "valid_star flags p = star_from flags p 0 None True False False 0"
    by (simp add: valid_star_def star_from_def star_end_def bits_start [symmetric] split: option.split)
  then show ?thesis using star_from_first [of flags p 0 True False False k] by simp
qed

section \<open>Labels\<close>

lemma split_at_join: "hd (split_at sep s) @ concat (map ((#) sep) (tl (split_at sep s))) = s"
proof (induction s)
  case (Cons c s)
  obtain l ls where "split_at sep s = l # ls" using split_at_eq [of sep s] by blast
  then show ?case using Cons by auto
qed simp

lemma split_at_append: "sep \<notin> set a \<Longrightarrow> split_at sep (a @ b) = (a @ hd (split_at sep b)) # tl (split_at sep b)"
proof (induction a)
  case Nil
  obtain l ls where "split_at sep b = l # ls" using split_at_eq [of sep b] by blast
  then show ?case by simp
qed auto

lemma length_split_at: "length (split_at sep s) = Suc (count_list s sep)"
proof (induction s)
  case (Cons c s)
  obtain l ls where "split_at sep s = l # ls" using split_at_eq [of sep s] by blast
  then show ?case using Cons by simp
qed simp

lemma split_at_letters: "same_letters a b \<Longrightarrow> list_all2 same_letters (split_at 46 a) (split_at 46 b)"
proof (induction a arbitrary: b)
  case (Cons c a)
  then obtain d b' where b: "b = d # b'" "ascii_lower c = ascii_lower d" "same_letters a b'" by (cases b) auto
  obtain l ls where l: "split_at 46 a = l # ls" using split_at_eq [of 46 a] by blast
  obtain m ms where m: "split_at 46 b' = m # ms" using split_at_eq [of 46 b'] by blast
  have "c = 46 \<longleftrightarrow> d = 46" using ascii_lower_dot(1) b(2) by metis
  then show ?case using Cons.IH [OF b(3)] b by (auto simp: l m)
qed simp

lemma join_letters:
  "list_all2 same_letters ls ms \<Longrightarrow> same_letters (concat (map ((#) 46) ls)) (concat (map ((#) 46) ms))"
  by (induction ls ms rule: list_all2_induct) (auto simp: same_letters_append same_letters_length)

lemma letters_keep:
  assumes "\<And>x. ascii_lower x = k \<longleftrightarrow> x = k"
  shows "same_letters a b \<Longrightarrow> k \<notin> set a \<longleftrightarrow> k \<notin> set b"
proof (induction a arbitrary: b)
  case (Cons c a)
  then obtain d b' where b: "b = d # b'" "ascii_lower c = ascii_lower d" "same_letters a b'" by (cases b) auto
  have "c = k \<longleftrightarrow> d = k" using assms b(2) by metis
  then show ?case using Cons.IH [OF b(3)] b(1) by auto
qed simp

lemmas letters_no_dot = letters_keep [OF ascii_lower_dot(1)]
lemmas letters_no_zero = letters_keep [OF ascii_lower_dot(2)]

lemma ldh_plain: "\<forall>c\<in>set l. ldh c \<Longrightarrow> 46 \<notin> set l" "\<forall>c\<in>set l. ldh c \<Longrightarrow> 0 \<notin> set l" "\<forall>c\<in>set l. ldh c \<Longrightarrow> 42 \<notin> set l"
  by (auto simp: alnum_def)

text \<open>
  A wildcard: the first label \<open>pre*post\<close> with the star at one of its ends, and at least two more
  labels, which are those of a host name.
\<close>

definition wildcard_pattern :: "u32 \<Rightarrow> u8 list \<Rightarrow> u8 list \<Rightarrow> u8 list list \<Rightarrow> bool" where
  "wildcard_pattern flags pre post rest \<longleftrightarrow>
     (pre = [] \<or> post = []) \<and> (\<forall>c\<in>set (pre @ post). ldh c)
     \<and> (pre \<noteq> [] \<longrightarrow> hd pre \<noteq> 45 \<and> \<not> idna (pre @ 42 # post @ concat (map ((#) 46) rest)))
     \<and> (pre @ post = [] \<or> last (pre @ post) \<noteq> 45)
     \<and> (has_flag flags X509_CHECK_FLAG_NO_PARTIAL_WILDCARDS \<longrightarrow> pre @ post = [])
     \<and> 2 \<le> length rest \<and> (\<forall>l\<in>set rest. host_label l)"

lemma first_ok_labels:
  assumes "split_at 46 suf = post # rest"
  shows "first_ok flags True False False pre suf \<longleftrightarrow> wildcard_pattern flags pre post rest"
proof -
  have suf: "suf = post @ concat (map ((#) 46) rest)" using split_at_join [of 46 suf] assms by simp
  have count: "count_list suf 46 = length rest" using length_split_at [of 46 suf] assms by simp
  have stop: "suf = [] \<or> hd suf = 46 \<longleftrightarrow> post = []"
    using assms by (cases suf) (auto split: if_splits)
  show ?thesis
    unfolding first_ok_def star_ok_def wildcard_pattern_def stop count tail_ok_labels assms list.sel suf [symmetric]
    by (auto simp: suf [symmetric])
qed

theorem valid_star_iff:
  "valid_star flags p = Some k \<longleftrightarrow>
     (\<exists>pre post rest. split_at 46 p = (pre @ 42 # post) # rest \<and> k = length pre \<and> wildcard_pattern flags pre post rest)"
proof
  assume "valid_star flags p = Some k"
  then obtain pre suf where p: "p = pre @ 42 # suf" "k = length pre" "first_ok flags True False False pre suf"
    by (auto simp: valid_star_first)
  obtain post rest where suf: "split_at 46 suf = post # rest" using split_at_eq [of 46 suf] by blast
  have w: "wildcard_pattern flags pre post rest" using p(3) first_ok_labels [OF suf] by simp
  then have "46 \<notin> set pre" using ldh_plain(1) by (simp add: wildcard_pattern_def)
  then have "split_at 46 p = (pre @ 42 # post) # rest" using split_at_append [of 46 pre "42 # suf"] suf p(1) by simp
  then show "\<exists>pre post rest. split_at 46 p = (pre @ 42 # post) # rest \<and> k = length pre \<and> wildcard_pattern flags pre post rest"
    using w p(2) by blast
next
  assume "\<exists>pre post rest. split_at 46 p = (pre @ 42 # post) # rest \<and> k = length pre \<and> wildcard_pattern flags pre post rest"
  then obtain pre post rest where p: "split_at 46 p = (pre @ 42 # post) # rest" "k = length pre"
    and w: "wildcard_pattern flags pre post rest" by blast
  define suf where "suf = post @ concat (map ((#) 46) rest)"
  have eq: "p = pre @ 42 # suf" using split_at_join [of 46 p] p(1) by (simp add: suf_def)
  have "46 \<notin> set pre" using w ldh_plain(1) by (simp add: wildcard_pattern_def)
  then have "split_at 46 suf = post # rest"
    using split_at_append [of 46 pre "42 # suf"] p(1) split_at_eq [of 46 suf] unfolding eq by auto
  then show "valid_star flags p = Some k" using first_ok_labels w eq p(2) valid_star_first by blast
qed

section \<open>Matching\<close>

lemma wildcard_match_parts:
  assumes "plain flags" "0 \<notin> set pre" "0 \<notin> set suf" "suf \<noteq> []"
  defines "whole \<equiv> pre = [] \<and> hd suf = 46"
  shows "wildcard_match flags pre suf subject \<longleftrightarrow>
     (\<exists>a m b. subject = a @ m @ b \<and> same_letters pre a \<and> same_letters b suf \<and> (whole \<longrightarrow> m \<noteq> []) \<and> (idna subject \<longrightarrow> whole)
       \<and> (m = [42] \<or> (\<forall>c\<in>set m. ldh c \<or> (whole \<and> has_flag flags X509_CHECK_FLAG_MULTI_LABEL_WILDCARDS \<and> c = 46))))"
    (is "?l \<longleftrightarrow> ?r")
proof
  let ?a = "take (length pre) subject" and ?b = "drop (length subject - length suf) subject"
  let ?m = "take (length subject - length suf - length pre) (drop (length pre) subject)"
  assume ?l
  then have len: "length pre + length suf \<le> length subject" by (simp add: wildcard_match_def not_less split: if_splits)
  have "length pre \<le> length subject - length suf" using len by simp
  then have "?a @ ?m = take (length subject - length suf) subject"
    by (metis drop_take append_take_drop_id take_take min.absorb1)
  then have parts: "subject = ?a @ ?m @ ?b" by (metis append.assoc append_take_drop_id)
  show ?r
    by (rule exI [of _ ?a], rule exI [of _ ?m], rule exI [of _ ?b])
      (use \<open>?l\<close> len parts assms in \<open>auto simp: wildcard_match_def equal_nocase_iff Let_def split: if_splits\<close>)
next
  assume ?r
  then obtain a m b where s: "subject = a @ m @ b" "same_letters pre a" "same_letters b suf"
    and m: "whole \<longrightarrow> m \<noteq> []" "idna subject \<longrightarrow> whole"
      "m = [42] \<or> (\<forall>c\<in>set m. ldh c \<or> (whole \<and> has_flag flags X509_CHECK_FLAG_MULTI_LABEL_WILDCARDS \<and> c = 46))"
    by blast
  have len: "length a = length pre" "length b = length suf" using same_letters_length s(2,3) by auto
  have b: "0 \<notin> set b" using assms(3) letters_no_zero [OF s(3)] by simp
  show ?l
    using s m b assms by (auto simp: wildcard_match_def equal_nocase_iff Let_def len [symmetric])
qed

definition label_match :: "u8 list \<Rightarrow> u8 list \<Rightarrow> u8 list \<Rightarrow> bool" where
  "label_match pre post l \<longleftrightarrow> (\<exists>a m b. l = a @ m @ b \<and> same_letters pre a \<and> same_letters post b
     \<and> (m = [42] \<or> (\<forall>c\<in>set m. ldh c)) \<and> (pre = [] \<and> post = [] \<longrightarrow> m \<noteq> []))"

theorem wildcard_match_labels:
  assumes flags: "plain flags" "\<not> has_flag flags X509_CHECK_FLAG_MULTI_LABEL_WILDCARDS"
    and w: "wildcard_pattern flags pre post rest"
  shows "wildcard_match flags pre (post @ concat (map ((#) 46) rest)) subject \<longleftrightarrow>
     label_match pre post (hd (split_at 46 subject)) \<and> list_all2 same_letters rest (tl (split_at 46 subject))
     \<and> (pre @ post \<noteq> [] \<longrightarrow> \<not> idna subject)"
    (is "?l \<longleftrightarrow> ?r")
proof -
  define suf where "suf = post @ concat (map ((#) 46) rest)"
  have chars: "0 \<notin> set pre" "0 \<notin> set post" "46 \<notin> set pre" "46 \<notin> set post" "rest \<noteq> []"
    using w ldh_plain(1,2) by (auto simp: wildcard_pattern_def)
  have rest0: "\<forall>l\<in>set rest. 0 \<notin> set l \<and> 46 \<notin> set l"
    using w ldh_plain(1,2) by (auto simp: wildcard_pattern_def host_label_def)
  have suf: "0 \<notin> set suf" "suf \<noteq> []" "hd suf = 46 \<longleftrightarrow> post = []"
    using chars rest0 by (auto simp: suf_def neq_Nil_conv) (cases post; auto)
  have whole: "pre = [] \<and> hd suf = 46 \<longleftrightarrow> pre @ post = []" using suf(3) by auto
  have tails: "split_at 46 (concat (map ((#) 46) ls)) = [] # ls" if "\<forall>l\<in>set ls. 46 \<notin> set l" for ls
    using that
  proof (induction ls)
    case (Cons l ls)
    then have "split_at 46 (l @ concat (map ((#) 46) ls)) = l # ls" using split_at_append [of 46 l] by simp
    then show ?case by simp
  qed simp
  have split_suf: "split_at 46 suf = post # rest"
    using split_at_append [of 46 post "concat (map ((#) 46) rest)"] tails [of rest] rest0 chars(4) by (simp add: suf_def)
  have parts: "wildcard_match flags pre suf subject \<longleftrightarrow>
     (\<exists>a m b. subject = a @ m @ b \<and> same_letters pre a \<and> same_letters b suf \<and> (pre @ post = [] \<longrightarrow> m \<noteq> [])
       \<and> (idna subject \<longrightarrow> pre @ post = []) \<and> (m = [42] \<or> (\<forall>c\<in>set m. ldh c)))"
    unfolding wildcard_match_parts [OF flags(1) chars(1) suf(1,2)] whole using flags(2) by simp
  have "wildcard_match flags pre suf subject \<longleftrightarrow> ?r"
  proof
    assume "wildcard_match flags pre suf subject"
    then obtain a m b where s: "subject = a @ m @ b" "same_letters pre a" "same_letters b suf" "pre @ post = [] \<longrightarrow> m \<noteq> []"
      "idna subject \<longrightarrow> pre @ post = []" and m: "m = [42] \<or> (\<forall>c\<in>set m. ldh c)"
      unfolding parts by blast
    have dots: "46 \<notin> set a" "46 \<notin> set m" using letters_no_dot [OF s(2)] chars(3) m ldh_plain(1) by auto
    have l2: "list_all2 same_letters (split_at 46 b) (post # rest)" using split_at_letters [OF s(3)] split_suf by simp
    then obtain b0 bs where b: "split_at 46 b = b0 # bs" "same_letters b0 post" "list_all2 same_letters bs rest"
      by (auto simp: list_all2_Cons2)
    have sub: "split_at 46 subject = (a @ m @ b0) # bs"
      using split_at_append [of 46 "a @ m" b] dots b(1) by (simp add: s(1))
    have "label_match pre post (a @ m @ b0)"
      unfolding label_match_def using s m b(2) same_letters_sym by blast
    moreover have "list_all2 same_letters rest bs"
      using b(3) same_letters_sym by (simp add: list_all2_conv_all_nth)
    ultimately show ?r using sub s(5) by auto
  next
    assume r: ?r
    then obtain a m b where l: "hd (split_at 46 subject) = a @ m @ b" "same_letters pre a" "same_letters post b"
      "m = [42] \<or> (\<forall>c\<in>set m. ldh c)" "pre = [] \<and> post = [] \<longrightarrow> m \<noteq> []"
      by (auto simp: label_match_def)
    define b' where "b' = b @ concat (map ((#) 46) (tl (split_at 46 subject)))"
    have sub: "subject = a @ m @ b'" using split_at_join [of 46 subject] l(1) by (simp add: b'_def)
    have "same_letters suf b'"
      using join_letters [of rest] r l(3) same_letters_length [OF l(3)] by (simp add: suf_def b'_def same_letters_append)
    then have "same_letters b' suf" using same_letters_sym by blast
    then show "wildcard_match flags pre suf subject"
      unfolding parts using sub l r by (intro exI [of _ a] exI [of _ m] exI [of _ b']) auto
  qed
  then show ?thesis by (simp only: suf_def)
qed

text \<open>What the comparison of a pattern with a host name means.\<close>

definition host_match :: "u32 \<Rightarrow> u8 list \<Rightarrow> u8 list \<Rightarrow> bool" where
  "host_match flags pattern host \<longleftrightarrow>
     (case valid_star flags pattern of
        None \<Rightarrow> 0 \<notin> set pattern \<and> same_letters pattern host
      | Some k \<Rightarrow>
          (let first = hd (split_at 46 pattern)
           in label_match (take k first) (drop (k + 1) first) (hd (split_at 46 host))
              \<and> list_all2 same_letters (tl (split_at 46 pattern)) (tl (split_at 46 host))
              \<and> (first \<noteq> [42] \<longrightarrow> \<not> idna host)))"

abbreviation dotted_host :: "u8 list \<Rightarrow> bool" where
  "dotted_host host \<equiv> length host > 1 \<and> hd host = 46"

theorem equal_wildcard_iff:
  assumes flags: "plain flags" "\<not> has_flag flags X509_CHECK_FLAG_MULTI_LABEL_WILDCARDS" and host: "\<not> dotted_host host"
  shows "equal_wildcard flags pattern host \<longleftrightarrow> host_match flags pattern host"
proof (cases "valid_star flags pattern")
  case None
  then show ?thesis using host by (simp add: equal_wildcard_def host_match_def equal_nocase_iff [OF flags(1)])
next
  case (Some k)
  then obtain pre post rest where p: "split_at 46 pattern = (pre @ 42 # post) # rest" "k = length pre"
    and w: "wildcard_pattern flags pre post rest" by (auto simp: valid_star_iff)
  have "pattern = pre @ 42 # post @ concat (map ((#) 46) rest)" using split_at_join [of 46 pattern] p(1) by simp
  then have "equal_wildcard flags pattern host \<longleftrightarrow> wildcard_match flags pre (post @ concat (map ((#) 46) rest)) host"
    using host Some p(2) by (simp add: equal_wildcard_def)
  also have "\<dots> \<longleftrightarrow> host_match flags pattern host"
    unfolding wildcard_match_labels [OF flags w] using Some p
    by (auto simp: host_match_def Let_def append_eq_Cons_conv)
  finally show ?thesis .
qed

text \<open>A name is matched label by label: all but the first are the same.\<close>

lemma host_match_labels:
  "host_match flags pattern host \<Longrightarrow> list_all2 same_letters (tl (split_at 46 pattern)) (tl (split_at 46 host))"
  using split_at_letters [of pattern host] split_at_eq [of 46 pattern] split_at_eq [of 46 host]
  by (auto simp: host_match_def Let_def split: option.splits)

section \<open>Checks of a certificate\<close>

lemma check_strings_first:
  "check_strings check as = (case filter (\<lambda>a. fst (check a) \<noteq> 0) as of [] \<Rightarrow> (0, None) | a # _ \<Rightarrow> check a)"
  by (induction as) (auto simp: Let_def)

lemma check_strings_positive:
  assumes "\<And>a. a \<in> set as \<Longrightarrow> fst (check a) = (if good a then 1 else 0)"
  shows "fst (check_strings check as) = (if \<exists>a\<in>set as. good a then 1 else 0)"
  using assms by (induction as) (auto simp: Let_def)

text \<open>A name of the certificate that has the type and matches.\<close>

definition name_matches :: "nat \<Rightarrow> int \<Rightarrow> (u8 list \<Rightarrow> bool) \<Rightarrow> GENERAL_NAME \<Rightarrow> bool" where
  "name_matches check_type alt_type matches gen \<longleftrightarrow> gen_type gen = check_type \<and> as_type (gen_string gen) = alt_type
     \<and> as_data (gen_string gen) \<noteq> None \<and> as_length (gen_string gen) \<noteq> 0 \<and> matches (string_bytes (gen_string gen))"

lemma flags_without_dot: "plain (flags AND NOT X509_CHECK_FLAG_DOT_SUBDOMAINS)"
  by (simp add: X509_CHECK_FLAG_DOT_SUBDOMAINS_def and.assoc)

lemma other_flags:
  "has_flag (flags AND NOT X509_CHECK_FLAG_DOT_SUBDOMAINS) X509_CHECK_FLAG_MULTI_LABEL_WILDCARDS \<longleftrightarrow> has_flag flags X509_CHECK_FLAG_MULTI_LABEL_WILDCARDS"
  "has_flag (flags AND NOT X509_CHECK_FLAG_DOT_SUBDOMAINS) X509_CHECK_FLAG_NO_WILDCARDS \<longleftrightarrow> has_flag flags X509_CHECK_FLAG_NO_WILDCARDS"
  "has_flag (flags AND NOT X509_CHECK_FLAG_DOT_SUBDOMAINS) X509_CHECK_FLAG_NO_PARTIAL_WILDCARDS \<longleftrightarrow> has_flag flags X509_CHECK_FLAG_NO_PARTIAL_WILDCARDS"
  by (simp_all add: X509_CHECK_FLAG_DOT_SUBDOMAINS_def X509_CHECK_FLAG_MULTI_LABEL_WILDCARDS_def
      X509_CHECK_FLAG_NO_WILDCARDS_def X509_CHECK_FLAG_NO_PARTIAL_WILDCARDS_def and.assoc)

lemma valid_star_flags: "valid_star (flags AND NOT X509_CHECK_FLAG_DOT_SUBDOMAINS) p = valid_star flags p"
proof -
  have "valid_star (flags AND NOT X509_CHECK_FLAG_DOT_SUBDOMAINS) p = Some k \<longleftrightarrow> valid_star flags p = Some k" for k
    unfolding valid_star_iff wildcard_pattern_def other_flags ..
  then show ?thesis by (metis not_Some_eq)
qed

theorem check_host_alt_names:
  assumes "x509_alt_names x = Some gens" and "0 \<notin> set host" and "\<not> dotted_host host"
    and "\<not> has_flag flags X509_CHECK_FLAG_NO_WILDCARDS" and "\<not> has_flag flags X509_CHECK_FLAG_MULTI_LABEL_WILDCARDS"
  shows "fst (X509_check_host os x (Some host) flags want) =
    (if \<exists>gen\<in>set gens. name_matches GEN_DNS V_ASN1_IA5STRING (\<lambda>name. host_match flags name host) gen then 1 else 0)"
proof -
  define fl where "fl = flags AND NOT X509_CHECK_FLAG_DOT_SUBDOMAINS"
  have fl: "plain fl" "\<not> has_flag fl X509_CHECK_FLAG_MULTI_LABEL_WILDCARDS" "\<not> has_flag fl X509_CHECK_FLAG_NO_WILDCARDS"
    using flags_without_dot other_flags assms(4,5) by (simp_all only: fl_def simp_thms)
  have match: "equal_wildcard fl name host = host_match flags name host" for name
    unfolding equal_wildcard_iff [OF fl(1,2) assms(3)] by (simp add: host_match_def fl_def valid_star_flags)
  have dot: "\<not> (length host > 1 \<and> host ! 0 = 46)" using assms(3) by (cases host) auto
  have "do_x509_check os x host flags GEN_DNS want =
    check_strings (\<lambda>a. do_check_string os a V_ASN1_IA5STRING equal_wildcard fl GEN_DNS host want)
      (map gen_string (filter (\<lambda>gen. gen_type gen = GEN_DNS) gens))"
    unfolding do_x509_check_def fl_def [symmetric] Let_def if_not_P [OF dot] if_not_P [OF fl(3)]
    using assms(1) by (simp add: GEN_DNS_def GEN_EMAIL_def)
  also have "fst \<dots> = (if \<exists>a\<in>set (map gen_string (filter (\<lambda>gen. gen_type gen = GEN_DNS) gens)).
      as_data a \<noteq> None \<and> as_length a \<noteq> 0 \<and> as_type a = V_ASN1_IA5STRING \<and> host_match flags (string_bytes a) host then 1 else 0)"
    by (rule check_strings_positive) (auto simp: do_check_string_def V_ASN1_IA5STRING_def match Let_def)
  finally show ?thesis
    using assms(2) by (simp add: X509_check_host_def name_matches_def) auto
qed

end
