(* ===== verification/Calendar.thy ===== *)
theory Calendar
  imports Prelude "HOL-Library.Signed_Division"
begin

text \<open>
  \<open>crypto/asn1/time_support.c\<close>: calendar arithmetic over \<open>struct tm\<close>. C's division truncates:
  \<open>sdiv\<close>. The \<open>int\<close> and \<open>long\<close> values are integers: the code has no defined behaviour when
  one overflows; conversions from \<open>long\<close> to \<open>int\<close> are written out.
\<close>

section \<open>Code\<close>

record tm =
  tm_sec :: int
  tm_min :: int
  tm_hour :: int
  tm_mday :: int
  tm_mon :: int
  tm_year :: int

abbreviation SECS_PER_DAY :: int where "SECS_PER_DAY \<equiv> 86400"

abbreviation int_of_long :: "int \<Rightarrow> int" where
  "int_of_long n \<equiv> sint (of_int n :: 32 word)"

definition date_to_julian :: "int \<Rightarrow> int \<Rightarrow> int \<Rightarrow> int" where
  "date_to_julian y m d =
     (1461 * (y + 4800 + (m - 14) sdiv 12)) sdiv 4 +
     (367 * (m - 2 - 12 * ((m - 14) sdiv 12))) sdiv 12 -
     (3 * ((y + 4900 + (m - 14) sdiv 12) sdiv 100)) sdiv 4 + d - 32075"

definition julian_to_date :: "int \<Rightarrow> int \<times> int \<times> int" where
  "julian_to_date jd =
     (let L = jd + 68569;
          n = (4 * L) sdiv 146097;
          L = L - (146097 * n + 3) sdiv 4;
          i = (4000 * (L + 1)) sdiv 1461001;
          L = L - (1461 * i) sdiv 4 + 31;
          j = (80 * L) sdiv 2447;
          d = L - (2447 * j) sdiv 80;
          L = j sdiv 11;
          m = j + 2 - 12 * L;
          y = 100 * (n - 49) + i + L
      in (y, m, d))"

definition julian_adj :: "tm \<Rightarrow> int \<Rightarrow> int \<Rightarrow> (int \<times> int) option" where
  "julian_adj tm off_day offset_sec =
     (let offset_day = int_of_long (offset_sec sdiv SECS_PER_DAY);
          offset_hms = offset_sec - offset_day * SECS_PER_DAY;
          offset_day = offset_day + off_day;
          offset_hms = offset_hms + (tm_hour tm * 3600 + tm_min tm * 60 + tm_sec tm);
          (offset_day, offset_hms) =
            (if offset_hms \<ge> SECS_PER_DAY then (offset_day + 1, offset_hms - SECS_PER_DAY)
             else if offset_hms < 0 then (offset_day - 1, offset_hms + SECS_PER_DAY)
             else (offset_day, offset_hms));
          time_jd = date_to_julian (tm_year tm + 1900) (tm_mon tm + 1) (tm_mday tm) + offset_day
      in if time_jd < 0 then None else Some (time_jd, offset_hms))"

definition OPENSSL_gmtime_adj :: "tm \<Rightarrow> int \<Rightarrow> int \<Rightarrow> tm option" where
  "OPENSSL_gmtime_adj tm off_day offset_sec =
     (case julian_adj tm off_day offset_sec of
        None \<Rightarrow> None
      | Some (time_jd, time_sec) \<Rightarrow>
          (let (time_year, time_month, time_day) = julian_to_date time_jd
           in if time_year < 1900 \<or> time_year > 9999 then None
              else Some \<lparr>tm_sec = time_sec smod 60, tm_min = (time_sec sdiv 60) smod 60, tm_hour = time_sec sdiv 3600,
                         tm_mday = time_day, tm_mon = time_month - 1, tm_year = time_year - 1900\<rparr>))"

definition OPENSSL_gmtime_diff :: "tm \<Rightarrow> tm \<Rightarrow> (int \<times> int) option" where
  "OPENSSL_gmtime_diff from_tm to_tm =
     (case (julian_adj from_tm 0 0, julian_adj to_tm 0 0) of
        (Some (from_jd, from_sec), Some (to_jd, to_sec)) \<Rightarrow>
          (let diff_day = to_jd - from_jd;
               diff_sec = to_sec - from_sec;
               (diff_day, diff_sec) =
                 (if diff_day > 0 \<and> diff_sec < 0 then (diff_day - 1, diff_sec + SECS_PER_DAY)
                  else (diff_day, diff_sec));
               (diff_day, diff_sec) =
                 (if diff_day < 0 \<and> diff_sec > 0 then (diff_day + 1, diff_sec - SECS_PER_DAY)
                  else (diff_day, diff_sec))
           in Some (int_of_long diff_day, diff_sec))
      | _ \<Rightarrow> None)"

section \<open>The Gregorian calendar\<close>

definition leap_year :: "int \<Rightarrow> bool" where
  "leap_year y \<longleftrightarrow> y mod 4 = 0 \<and> (y mod 100 \<noteq> 0 \<or> y mod 400 = 0)"

definition month_length :: "int \<Rightarrow> int \<Rightarrow> int" where
  "month_length y m =
     (if m = 2 then if leap_year y then 29 else 28 else if m \<in> {4, 6, 9, 11} then 30 else 31)"

definition valid_date :: "int \<Rightarrow> int \<Rightarrow> int \<Rightarrow> bool" where
  "valid_date y m d \<longleftrightarrow> 1 \<le> m \<and> m \<le> 12 \<and> 1 \<le> d \<and> d \<le> month_length y m"

fun days_before_month :: "int \<Rightarrow> nat \<Rightarrow> int" where
  "days_before_month y 0 = 0"
| "days_before_month y (Suc k) = days_before_month y k + month_length y (int k + 1)"

text \<open>The leap years from the year 1 to \<open>y\<close>, and the days from 1 January of the year 1, which is day 1.\<close>

definition leap_days :: "int \<Rightarrow> int" where
  "leap_days y = y div 4 - y div 100 + y div 400"

definition gregorian_day :: "int \<Rightarrow> int \<Rightarrow> int \<Rightarrow> int" where
  "gregorian_day y m d =
     365 * (y - 1) + leap_days (y - 1) + days_before_month y (nat (m - 1)) + d"

lemma months: "1 \<le> m \<Longrightarrow> m \<le> 12 \<Longrightarrow>
    m = 1 \<or> m = 2 \<or> m = 3 \<or> m = 4 \<or> m = 5 \<or> m = 6 \<or> m = 7 \<or> m = 8 \<or> m = 9 \<or> m = 10 \<or> m = 11 \<or> m = (12::int)"
  by presburger

lemma sdiv_pos: "0 \<le> a \<Longrightarrow> 0 < b \<Longrightarrow> a sdiv b = a div (b::int)"
  by (cases "a = 0") (simp_all add: signed_divide_int_def sgn_if)

lemma smod_pos: "0 \<le> a \<Longrightarrow> 0 < b \<Longrightarrow> a smod b = a mod (b::int)"
  by (cases "a = 0") (simp_all add: signed_modulo_int_def sgn_if)

lemma month_shift: "1 \<le> m \<Longrightarrow> m \<le> 12 \<Longrightarrow> (m - 14) sdiv 12 = (if m \<le> 2 then - 1 else 0 :: int)"
  using months [of m] by (auto simp: signed_divide_int_def)

text \<open>Years that start in March: \<open>march_year\<close> is such a year, \<open>march_month\<close> counts from March.\<close>

definition march_year :: "int \<Rightarrow> int \<Rightarrow> int" where
  "march_year y m = (if m \<le> 2 then y - 1 else y)"

definition march_month :: "int \<Rightarrow> int" where
  "march_month m = (if m \<le> 2 then m + 10 else m - 2)"

lemma div_step:
  assumes "0 < k"
  shows "y div k = (y - 1) div k + (if y mod k = 0 then 1 else (0 :: int))"
proof -
  define q r where "q = y div k" and "r = y mod k"
  then have y: "y = k * q + r" "0 \<le> r" "r < k" using assms by simp_all
  show ?thesis
  proof (cases "r = 0")
    case True
    then have "(y - 1) div k = q - 1"
      using y assms by (intro int_div_pos_eq [where r = "k - 1"]) (simp_all add: algebra_simps)
    then show ?thesis using True by (simp add: q_def r_def)
  next
    case False
    then have "(y - 1) div k = q"
      using y by (intro int_div_pos_eq [where r = "r - 1"]) simp_all
    then show ?thesis using False by (simp add: q_def r_def)
  qed
qed

lemma div_shift: "0 < b \<Longrightarrow> (a + k * b) div b = a div b + (k :: int)"
  by simp

lemma leap_count:
  "(r \<Longrightarrow> q) \<Longrightarrow> (q \<Longrightarrow> p) \<Longrightarrow>
    (A + (if p then 1 else 0)) - (B + (if q then 1 else 0)) + (C + (if r then 1 else 0))
      = A - B + C + (if p \<and> (\<not> q \<or> r) then 1 else (0 :: int))"
  by (cases p; cases q; cases r; simp)

lemma leap_days_step: "leap_days y = leap_days (y - 1) + (if leap_year y then 1 else 0)"
proof -
  have m: "y mod 100 = 0 \<Longrightarrow> y mod 4 = 0" using mod_mod_cancel [of 4 100 y] by simp
  have n: "y mod 400 = 0 \<Longrightarrow> y mod 100 = 0" using mod_mod_cancel [of 100 400 y] by simp
  have step: "y div 4 = (y - 1) div 4 + (if y mod 4 = 0 then 1 else 0)"
    "y div 100 = (y - 1) div 100 + (if y mod 100 = 0 then 1 else 0)"
    "y div 400 = (y - 1) div 400 + (if y mod 400 = 0 then 1 else 0)"
    by (rule div_step; simp only: zero_less_numeral)+
  show ?thesis
    unfolding leap_days_def leap_year_def step by (rule leap_count [OF n m])
qed

lemma leap_days_code:
  "(Y + 4800) div 4 - (3 * ((Y + 4900) div 100)) div 4 = leap_days Y + 1164"
proof -
  have c: "(3 * (c + 49)) div 4 = c - c div 4 + 36" for c :: int
  proof -
    define q r where "q = c div 4" and "r = c mod 4"
    then have "c = 4 * q + r" "0 \<le> r" "r < 4" by simp_all
    then have "(3 * (c + 49)) div 4 = c - q + 36" by (intro int_div_pos_eq [where r = "3 - r"]) simp_all
    then show ?thesis by (simp only: q_def)
  qed
  have ab: "(Y + 4900) div 100 = Y div 100 + 49" "(Y + 4800) div 4 = Y div 4 + 1200"
    using div_shift [of 100 Y 49] div_shift [of 4 Y 1200] by simp_all
  have d: "Y div 100 div 4 = Y div 400" by (simp add: zdiv_zmult2_eq [symmetric])
  have "A + 1200 - (B - C + 36) = A - B + C + 1164" for A B C :: int by simp
  then show ?thesis unfolding leap_days_def ab c d .
qed

lemma days_before_month_pos:
  "0 < k \<Longrightarrow> days_before_month y k = days_before_month y (k - 1) + month_length y (int k)"
  by (cases k) (simp_all add: add.commute)

lemma date_to_julian_march:
  assumes "1 \<le> m" "m \<le> 12" "- 4799 \<le> y"
  shows "date_to_julian y m d = 365 * march_year y m + leap_days (march_year y m)
    + (367 * march_month m) div 12 + d + 1721089"
proof -
  define Y where "Y = march_year y m"
  have "- 4800 \<le> Y" using assms by (simp add: Y_def march_year_def)
  then have pos: "0 \<le> 1461 * (Y + 4800)" "0 \<le> Y + 4900" "0 \<le> 3 * ((Y + 4900) div 100)" "0 \<le> 367 * march_month m"
    using assms(1) by (simp_all add: march_month_def pos_imp_zdiv_nonneg_iff)
  have args: "y + 4800 + (m - 14) sdiv 12 = Y + 4800" "y + 4900 + (m - 14) sdiv 12 = Y + 4900"
    "m - 2 - 12 * ((m - 14) sdiv 12) = march_month m"
    using assms by (simp_all add: month_shift Y_def march_year_def march_month_def)
  have "1461 * (Y + 4800) = (Y + 4800) + (365 * (Y + 4800)) * 4" by simp
  then have "1461 * (Y + 4800) div 4 = 365 * Y + 1752000 + (Y + 4800) div 4"
    using div_shift [of 4 "Y + 4800" "365 * (Y + 4800)"] by simp
  then show ?thesis
    unfolding date_to_julian_def args using pos leap_days_code [of Y]
    by (simp add: sdiv_pos flip: Y_def)
qed

lemma days_before_months:
  fixes y :: int
  defines "l \<equiv> if leap_year y then 1 else 0"
  shows "days_before_month y 0 = 0" "days_before_month y (Suc 0) = 31" "days_before_month y 2 = 59 + l"
    "days_before_month y 3 = 90 + l" "days_before_month y 4 = 120 + l" "days_before_month y 5 = 151 + l"
    "days_before_month y 6 = 181 + l" "days_before_month y 7 = 212 + l" "days_before_month y 8 = 243 + l"
    "days_before_month y 9 = 273 + l" "days_before_month y 10 = 304 + l" "days_before_month y 11 = 334 + l"
  by (simp_all add: days_before_month_pos month_length_def l_def)

theorem date_to_julian_gregorian:
  assumes "1 \<le> m" "m \<le> 12" "- 4799 \<le> y"
  shows "date_to_julian y m d = gregorian_day y m d + 1721425"
proof -
  have "days_before_month y (nat (m - 1)) + 336 =
      365 * (march_year y m - (y - 1)) + leap_days (march_year y m) - leap_days (y - 1) + (367 * march_month m) div 12"
    using months [OF assms(1,2)] unfolding leap_days_step [of y]
    by (elim disjE) (simp_all add: march_year_def march_month_def days_before_months leap_days_step [of y] del: days_before_month.simps(2))
  then show ?thesis
    unfolding date_to_julian_march [OF assms] gregorian_day_def by (simp only: right_diff_distrib)
qed

section \<open>Back to the date\<close>

text \<open>
  The century \<open>c\<close> of the March year \<open>Y\<close>, the year \<open>r\<close> in it and the day \<open>t\<close> of the century.
\<close>

lemma julian_to_date_parts:
  assumes c: "0 \<le> c" and r: "0 \<le> r" "r < 100" and M: "1 \<le> M" "M \<le> 12" and d: "1 \<le> d" "d \<le> 31"
    and short: "M \<in> {2, 4, 7, 9} \<Longrightarrow> d \<le> 30" "M = 12 \<Longrightarrow> d \<le> 29"
      "M = 12 \<Longrightarrow> d = 29 \<Longrightarrow> r mod 4 = 3 \<and> (r = 99 \<longrightarrow> c mod 4 = 0)"
    and jd: "jd + 68569 = (146097 * c + 3) div 4 + (1461 * r) div 4 + (367 * M) div 12 + d - 31"
  shows "julian_to_date jd = (100 * (c - 49) + r + (if M \<le> 10 then 0 else 1), (if M \<le> 10 then M + 2 else M - 10), d)"
proof -
  define s e where "s = (146097 * c + 3) div 4" and "e = 4 * s - 146097 * c"
  define v g where "v = (1461 * r) div 4" and "g = (1461 * r) mod 4"
  define u where "u = (367 * M) div 12 + d - 31"
  define t where "t = v + u"
  have e: "0 \<le> e" "e \<le> 3" "c mod 4 = 0 \<Longrightarrow> e = 0"
  proof -
    have "146097 * c + 3 = 4 * s + (146097 * c + 3) mod 4" by (simp add: s_def)
    moreover have "0 \<le> (146097 * c + 3) mod 4" "(146097 * c + 3) mod 4 \<le> 3" by simp_all
    ultimately show "0 \<le> e" "e \<le> 3" by (simp_all only: e_def)
    assume "c mod 4 = 0"
    then obtain k where "c = 4 * k" by (auto simp: mod_eq_0_iff_dvd)
    moreover from this have "s = 146097 * k" by (simp add: s_def)
    ultimately show "e = 0" by (simp add: e_def)
  qed
  have g: "1461 * r = 4 * v + g" "0 \<le> g" "g \<le> 3" by (simp_all add: v_def g_def)
  have g3: "g = 3" if "r mod 4 = 3"
  proof -
    have "(1461 * r) mod 4 = (1461 mod 4) * (r mod 4) mod 4" by (rule mod_mult_eq [symmetric])
    then show ?thesis using that by (simp add: g_def)
  qed
  have u: "0 \<le> u" "u \<le> 365" "u = 365 \<Longrightarrow> M = 12 \<and> d = 29"
    using months [OF M] d short(1,2) unfolding u_def by (elim disjE; simp; fail)+
  have v: "v \<le> 36159" "r < 99 \<Longrightarrow> v \<le> 35794" "0 \<le> v" using g r by simp_all
  have leap: "g = 3 \<and> (r = 99 \<longrightarrow> e = 0)" if "u = 365"
    using u(3) [OF that] short(3) e(3) g3 by (elim conjE) simp
  have t: "0 \<le> t" "4 * t + e < 146097"
  proof -
    show "0 \<le> t" using u v by (simp add: t_def)
    show "4 * t + e < 146097"
      using leap u(2) v e(2) r(2) unfolding t_def by (cases "u = 365"; cases "r = 99"; simp)
  qed
  have n: "(4 * (s + t)) sdiv 146097 = c"
  proof -
    have "4 * (s + t) = 146097 * c + (4 * t + e)" by (simp add: e_def)
    moreover have "0 \<le> 146097 * c + (4 * t + e)" using c t(1) e(1) by simp
    ultimately show ?thesis
      using t e(1) by (subst sdiv_pos) (simp_all add: int_div_pos_eq [where r = "4 * t + e"])
  qed
  have i: "(4000 * (t + 1)) sdiv 1461001 = r"
  proof -
    have "1461001 * r \<le> 4000 * (t + 1)" "4000 * (t + 1) < 1461001 * (r + 1)"
      using g leap u(1,2) r unfolding t_def by (cases "u = 365"; simp)+
    then have "(4000 * (t + 1)) div 1461001 = r"
      by (intro int_div_pos_eq [where r = "4000 * (t + 1) - 1461001 * r"]) (simp_all add: distrib_left)
    then show ?thesis using t(1) by (simp add: sdiv_pos)
  qed
  have sv: "(146097 * c + 3) sdiv 4 = s" "(1461 * r) sdiv 4 = v"
    using c r(1) by (simp_all add: sdiv_pos s_def v_def)
  have j: "(80 * (u + 31)) sdiv 2447 = M" "u + 31 - (2447 * M) sdiv 80 = d" "M sdiv 11 = (if M \<le> 10 then 0 else 1)"
    using months [OF M] d short(1,2) unfolding u_def
    by (elim disjE; simp add: sdiv_pos; fail)+
  have L0: "jd + 68569 = s + t" using jd by (simp add: s_def t_def v_def u_def)
  have st: "s + t - s = t" "t - v + 31 = u + 31" by (simp_all add: t_def)
  show ?thesis
    unfolding julian_to_date_def Let_def L0 n sv st i j by simp
qed

theorem julian_to_date_inverse:
  assumes "valid_date y m d" "- 4799 \<le> y"
  shows "julian_to_date (date_to_julian y m d) = (y, m, d)"
proof -
  have m: "1 \<le> m" "m \<le> 12" and d: "1 \<le> d" "d \<le> month_length y m" using assms(1) by (simp_all add: valid_date_def)
  define Y M where "Y = march_year y m" and "M = march_month m"
  define c r where "c = (Y + 4900) div 100" and "r = (Y + 4900) mod 100"
  then have Y: "Y = 100 * c + r - 4900" and r: "0 \<le> r" "r < 100" by simp_all
  have c: "0 \<le> c" using assms(2) m by (simp add: c_def Y_def march_year_def pos_imp_zdiv_nonneg_iff)
  have M: "1 \<le> M" "M \<le> 12" using m by (simp_all add: M_def march_month_def)
  have short: "M \<in> {2, 4, 7, 9} \<Longrightarrow> d \<le> 30" "M = 12 \<Longrightarrow> d \<le> 29" "d \<le> 31"
    using d(2) months [OF m] by (auto simp: M_def march_month_def month_length_def split: if_splits)
  have feb: "r mod 4 = 3 \<and> (r = 99 \<longrightarrow> c mod 4 = 0)" if "M = 12" "d = 29"
  proof -
    have "m = 2" using that(1) m by (simp add: M_def march_month_def split: if_splits)
    then have leap: "leap_year y" and y: "y = (r + 1) + (25 * c - 1225) * 4"
      using d(2) that(2) Y by (auto simp: month_length_def Y_def march_year_def split: if_splits)
    have "y mod 4 = (r + 1) mod 4" unfolding y by (rule mod_mult_self1)
    then have "(r + 1) mod 4 = 0" using leap by (simp only: leap_year_def)
    then have "r mod 4 = 3" by presburger
    moreover have "c mod 4 = 0" if "r = 99"
    proof -
      have "y = 100 * (c - 48)" using y that by simp
      then have "y mod 400 = 0" using leap by (simp add: leap_year_def)
      then have "400 dvd 100 * (c - 48)" using \<open>y = 100 * (c - 48)\<close> by (simp add: mod_eq_0_iff_dvd)
      then have "4 dvd c - 48" using dvd_mult_cancel_left [of 100 4 "c - 48"] by simp
      then show ?thesis by presburger
    qed
    ultimately show ?thesis by blast
  qed
  have "date_to_julian y m d + 68569
    = (146097 * c + 3) div 4 + (1461 * r) div 4 + (367 * M) div 12 + d - 31"
  proof -
    have eq1: "(146097 * c + 3) div 4 = 36524 * c + (c + 3) div 4"
      using div_shift [of 4 "c + 3" "36524 * c"] by (simp add: algebra_simps)
    have eq2: "(1461 * r) div 4 = 365 * r + r div 4"
      using div_shift [of 4 r "365 * r"] by (simp add: algebra_simps)
    have eq3: "Y div 4 = 25 * c - 1225 + r div 4"
      using div_shift [of 4 r "25 * c - 1225"] by (simp add: Y algebra_simps)
    have eq4: "Y div 100 = c - 49"
      using div_shift [of 100 r "c - 49"] r by (simp add: Y algebra_simps)
    have eq5: "Y div 400 = (c + 3) div 4 - 13"
    proof -
      have "Y div 400 = Y div 100 div 4" by (simp add: zdiv_zmult2_eq [symmetric])
      also have "\<dots> = ((c + 3) + (- 13) * 4) div 4" using \<open>Y div 100 = c - 49\<close> by simp
      finally show ?thesis using div_shift [of 4 "c + 3" "- 13"] by simp
    qed
    have "Y = 100 * c + r - 4900 \<Longrightarrow> 365 * Y + (25 * c - 1225 + B - (c - 49) + (A - 13)) + W + d + 1721089 + 68569
      = 36524 * c + A + (365 * r + B) + W + d - 31" for A B W :: int by simp
    from this [OF Y] show ?thesis
      unfolding date_to_julian_march [OF m assms(2)] leap_days_def Y_def [symmetric] M_def [symmetric] eq1 eq2 eq3 eq4 eq5 .
  qed
  from julian_to_date_parts [OF c r M d(1) short(3,1,2) feb this]
  have parts: "julian_to_date (date_to_julian y m d) =
    (100 * (c - 49) + r + (if M \<le> 10 then 0 else 1), (if M \<le> 10 then M + 2 else M - 10), d)" .
  show ?thesis
  proof (cases "m \<le> 2")
    case True
    then have "M = m + 10" "y - 1 = 100 * c + r - 4900" using Y by (simp_all add: M_def march_month_def Y_def march_year_def)
    then show ?thesis using parts m(1) by simp
  next
    case False
    then have "M = m - 2" "y = 100 * c + r - 4900" using Y by (simp_all add: M_def march_month_def Y_def march_year_def)
    then show ?thesis using parts m(2) by simp
  qed
qed

section \<open>Every day has a date\<close>

lemma month_length_pos: "28 \<le> month_length y m" "month_length y m \<le> 31"
  by (auto simp: month_length_def)

lemma date_to_julian_day: "date_to_julian y m (d + k) = date_to_julian y m d + k"
  by (simp add: date_to_julian_def)

lemma next_month:
  assumes "1 \<le> m" "m < 12" "- 4799 \<le> y"
  shows "date_to_julian y (m + 1) 1 = date_to_julian y m (month_length y m) + 1"
proof -
  have "nat (m + 1 - 1) = Suc (nat (m - 1))" "int (nat (m - 1)) + 1 = m" using assms by simp_all
  then have "gregorian_day y (m + 1) 1 = gregorian_day y m (month_length y m) + 1"
    by (simp add: gregorian_day_def)
  then show ?thesis using assms by (simp add: date_to_julian_gregorian)
qed

lemma next_year:
  assumes "- 4799 \<le> y"
  shows "date_to_julian (y + 1) 1 1 = date_to_julian y 12 31 + 1"
proof -
  have "gregorian_day (y + 1) 1 1 = gregorian_day y 12 31 + 1"
    using leap_days_step [of y] by (simp add: gregorian_day_def days_before_months)
  then show ?thesis using assms by (simp add: date_to_julian_gregorian)
qed

lemma every_day:
  assumes "date_to_julian (- 4799) 1 1 \<le> jd"
  shows "\<exists>y m d. valid_date y m d \<and> - 4799 \<le> y \<and> date_to_julian y m d = jd"
  using assms
proof (induction jd rule: int_ge_induct)
  case base
  have "valid_date (- 4799) 1 1" using month_length_pos [of "- 4799" 1] by (simp add: valid_date_def)
  then show ?case by (intro exI [of _ "- 4799"] exI [of _ 1]) simp
next
  case (step jd)
  then obtain y m d where d: "valid_date y m d" "- 4799 \<le> y" "date_to_julian y m d = jd" by blast
  consider "d < month_length y m" | "d = month_length y m" "m < 12" | "d = month_length y m" "m = 12"
    using d(1) by (fastforce simp: valid_date_def)
  then show ?case
  proof cases
    case 1
    then have "valid_date y m (d + 1)" using d(1) by (simp add: valid_date_def)
    then show ?thesis using d date_to_julian_day [of y m d 1] by metis
  next
    case 2
    then have "valid_date y (m + 1) 1"
      using d(1) month_length_pos(1) [of y "m + 1"] by (simp add: valid_date_def)
    then show ?thesis using d 2 next_month [of m y] by (metis valid_date_def)
  next
    case 3
    then have "valid_date (y + 1) 1 1" "d = 31"
      using month_length_pos(1) [of "y + 1" 1] by (simp_all add: valid_date_def month_length_def)
    then show ?thesis using d 3 next_year [of y] by (metis add_increasing2 zero_le_one)
  qed
qed

lemma julian_to_date_iff:
  assumes "0 \<le> jd"
  shows "julian_to_date jd = (y, m, d) \<and> - 4799 \<le> y \<longleftrightarrow> valid_date y m d \<and> - 4799 \<le> y \<and> date_to_julian y m d = jd"
proof -
  have "date_to_julian (- 4799) 1 1 \<le> jd"
    using assms by (simp add: date_to_julian_gregorian gregorian_day_def leap_days_def)
  from every_day [OF this] obtain y' m' d' where
    "valid_date y' m' d'" "- 4799 \<le> y'" "date_to_julian y' m' d' = jd" by blast
  then show ?thesis using julian_to_date_inverse by (metis prod.inject)
qed

section \<open>Broken-down times\<close>

definition time_of_day :: "tm \<Rightarrow> int" where
  "time_of_day tm = tm_hour tm * 3600 + tm_min tm * 60 + tm_sec tm"

definition valid_tm :: "tm \<Rightarrow> bool" where
  "valid_tm tm \<longleftrightarrow> valid_date (tm_year tm + 1900) (tm_mon tm + 1) (tm_mday tm) \<and> - 4799 \<le> tm_year tm + 1900
     \<and> 0 \<le> tm_hour tm \<and> tm_hour tm < 24 \<and> 0 \<le> tm_min tm \<and> tm_min tm < 60 \<and> 0 \<le> tm_sec tm \<and> tm_sec tm < 60"

definition tm_day :: "tm \<Rightarrow> int" where
  "tm_day tm = date_to_julian (tm_year tm + 1900) (tm_mon tm + 1) (tm_mday tm)"

text \<open>Seconds since the beginning of the Julian day 0.\<close>

definition tm_seconds :: "tm \<Rightarrow> int" where
  "tm_seconds tm = tm_day tm * SECS_PER_DAY + time_of_day tm"

lemma time_of_day_range: "valid_tm tm \<Longrightarrow> 0 \<le> time_of_day tm \<and> time_of_day tm < SECS_PER_DAY"
  by (simp add: valid_tm_def time_of_day_def)

lemma int_of_long_id: "- (2 ^ 31) \<le> n \<Longrightarrow> n < 2 ^ 31 \<Longrightarrow> int_of_long n = n"
  by (simp add: signed_of_int signed_take_bit_int_eq_self)

lemma digits_unique:
  fixes d s d' s' :: int
  assumes "d * n + s = d' * n + s'" "0 \<le> s" "s < n" "0 \<le> s'" "s' < n"
  shows "d = d'" "s = s'"
proof -
  have "(d * n + s) div n = d" "(d' * n + s') div n = d'" using assms(2-5) by simp_all
  then show "d = d'" using assms(1) by metis
  then show "s = s'" using assms(1) by simp
qed

lemmas days_and_seconds = digits_unique [of _ "86400"]

lemma truncated_rest:
  fixes n :: int
  shows "- 86400 < n - n sdiv 86400 * 86400" "n - n sdiv 86400 * 86400 < 86400"
proof -
  have q: "n sdiv 86400 = (if 0 \<le> n then n div 86400 else - ((- n) div 86400))"
    by (auto simp: signed_divide_int_def sgn_if)
  have r: "k - k div 86400 * 86400 = k mod 86400" "0 \<le> k mod 86400" "k mod 86400 < 86400" for k :: int
    by (simp_all add: minus_div_mult_eq_mod)
  show "- 86400 < n - n sdiv 86400 * 86400" "n - n sdiv 86400 * 86400 < 86400"
    using r [of n] r [of "- n"] unfolding q by (cases "0 \<le> n"; simp)+
qed

lemma julian_adj_iff:
  assumes tod: "0 \<le> time_of_day tm" "time_of_day tm < SECS_PER_DAY"
    and fits: "- (2 ^ 31) \<le> offset_sec sdiv SECS_PER_DAY" "offset_sec sdiv SECS_PER_DAY < 2 ^ 31"
  shows "julian_adj tm off_day offset_sec = Some (jd, s) \<longleftrightarrow>
    0 \<le> jd \<and> 0 \<le> s \<and> s < SECS_PER_DAY \<and> jd * SECS_PER_DAY + s = tm_seconds tm + off_day * SECS_PER_DAY + offset_sec"
proof -
  define q where "q = offset_sec sdiv SECS_PER_DAY"
  have q: "int_of_long q = q" using fits int_of_long_id by (simp only: q_def)
  have rem: "- 86400 < offset_sec - q * 86400" "offset_sec - q * 86400 < 86400"
    using truncated_rest [of offset_sec] by (simp_all add: q_def)
  define h where "h = offset_sec - q * 86400 + time_of_day tm"
  define k where "k = (if h \<ge> 86400 then 1 else if h < 0 then - 1 else (0 :: int))"
  have adj: "julian_adj tm off_day offset_sec =
    (if tm_day tm + (q + off_day + k) < 0 then None else Some (tm_day tm + (q + off_day + k), h - k * 86400))"
    unfolding julian_adj_def Let_def q_def [symmetric] q time_of_day_def [symmetric] tm_day_def [symmetric] h_def [symmetric]
    by (simp add: k_def)
  have range': "0 \<le> h - k * 86400" "h - k * 86400 < 86400" using rem tod by (auto simp: h_def k_def)
  have sum: "(tm_day tm + (q + off_day + k)) * 86400 + (h - k * 86400) = tm_seconds tm + off_day * 86400 + offset_sec"
    by (simp add: tm_seconds_def h_def algebra_simps)
  show ?thesis
  proof
    assume "julian_adj tm off_day offset_sec = Some (jd, s)"
    then have "jd = tm_day tm + (q + off_day + k)" "s = h - k * 86400" "0 \<le> jd"
      by (simp_all add: adj split: if_splits)
    then show "0 \<le> jd \<and> 0 \<le> s \<and> s < 86400 \<and> jd * 86400 + s = tm_seconds tm + off_day * 86400 + offset_sec"
      using range' sum by (simp only:)
  next
    assume r: "0 \<le> jd \<and> 0 \<le> s \<and> s < 86400 \<and> jd * 86400 + s = tm_seconds tm + off_day * 86400 + offset_sec"
    then have "jd * 86400 + s = (tm_day tm + (q + off_day + k)) * 86400 + (h - k * 86400)" using sum by (simp only:)
    from days_and_seconds [OF this] r range'
    have "jd = tm_day tm + (q + off_day + k)" "s = h - k * 86400" by blast+
    then show "julian_adj tm off_day offset_sec = Some (jd, s)" using r by (simp add: adj)
  qed
qed

lemma split_seconds:
  fixes s :: int
  assumes "0 \<le> s" "s < 86400"
  defines "h \<equiv> s sdiv 3600" and "m \<equiv> (s sdiv 60) smod 60" and "c \<equiv> s smod 60"
  shows "0 \<le> h" "h < 24" "0 \<le> m" "m < 60" "0 \<le> c" "c < 60" "h * 3600 + m * 60 + c = s"
proof -
  define n where "n = s div 60"
  have n: "0 \<le> n" "n < 1440" using assms(1,2) by (simp_all add: n_def)
  have c: "c = s mod 60" "m = n mod 60" "h = n div 60"
    using assms(1,2) n(1) by (simp_all add: h_def m_def c_def sdiv_pos smod_pos n_def zdiv_zmult2_eq [symmetric])
  show "0 \<le> c" "c < 60" "0 \<le> m" "m < 60" by (simp_all add: c)
  show "0 \<le> h" "h < 24" using n by (simp_all add: c)
  have "n = h * 60 + m" "s = n * 60 + c" by (simp_all add: c n_def)
  then show "h * 3600 + m * 60 + c = s" by simp
qed

lemma day_number_nonneg: "1900 \<le> y \<Longrightarrow> valid_date y m d \<Longrightarrow> 0 \<le> date_to_julian y m d"
proof -
  assume y: "1900 \<le> y" and v: "valid_date y m d"
  have "0 \<le> days_before_month y k" for k
    using month_length_pos(1) [of y] by (induction k) (simp_all, smt (verit))
  moreover have "0 \<le> leap_days (y - 1)"
  proof -
    have "(y - 1) div 100 \<le> (y - 1) div 4" using y by (intro zdiv_mono2) simp_all
    then show ?thesis using y by (simp add: leap_days_def pos_imp_zdiv_nonneg_iff)
  qed
  ultimately show ?thesis using y v by (simp add: date_to_julian_gregorian valid_date_def gregorian_day_def)
qed

theorem gmtime_adj_iff:
  assumes tm: "valid_tm tm"
    and fits: "- (2 ^ 31) \<le> offset_sec sdiv SECS_PER_DAY" "offset_sec sdiv SECS_PER_DAY < 2 ^ 31"
  shows "OPENSSL_gmtime_adj tm off_day offset_sec = Some tm' \<longleftrightarrow>
    valid_tm tm' \<and> 1900 \<le> tm_year tm' + 1900 \<and> tm_year tm' + 1900 \<le> 9999
    \<and> tm_seconds tm' = tm_seconds tm + off_day * SECS_PER_DAY + offset_sec"
    (is "?l \<longleftrightarrow> ?r")
proof
  note adj = julian_adj_iff [OF time_of_day_range [OF tm, THEN conjunct1] time_of_day_range [OF tm, THEN conjunct2] fits]
  assume ?l
  then obtain jd s y m d where j: "julian_adj tm off_day offset_sec = Some (jd, s)"
    and date: "julian_to_date jd = (y, m, d)" and y: "1900 \<le> y" "y \<le> 9999"
    and tm': "tm' = \<lparr>tm_sec = s smod 60, tm_min = (s sdiv 60) smod 60, tm_hour = s sdiv 3600,
                         tm_mday = d, tm_mon = m - 1, tm_year = y - 1900\<rparr>"
    by (auto simp: OPENSSL_gmtime_adj_def Let_def split: option.splits prod.splits if_splits)
  have jd: "0 \<le> jd" "0 \<le> s" "s < 86400" "jd * 86400 + s = tm_seconds tm + off_day * 86400 + offset_sec"
    using j adj by auto
  have "valid_date y m d" "date_to_julian y m d = jd" using julian_to_date_iff [OF jd(1), of y m d] date y by auto
  then show ?r
    using jd split_seconds [OF jd(2,3)] y by (simp add: tm' valid_tm_def tm_seconds_def tm_day_def time_of_day_def)
next
  note adj = julian_adj_iff [OF time_of_day_range [OF tm, THEN conjunct1] time_of_day_range [OF tm, THEN conjunct2] fits]
  assume r: ?r
  then have v: "valid_date (tm_year tm' + 1900) (tm_mon tm' + 1) (tm_mday tm')" by (simp add: valid_tm_def)
  let ?s = "time_of_day tm'"
  have s: "0 \<le> ?s" "?s < 86400" using r time_of_day_range by auto
  have day: "0 \<le> tm_day tm'" using day_number_nonneg [OF _ v] r by (simp add: tm_day_def)
  have "julian_adj tm off_day offset_sec = Some (tm_day tm', ?s)"
    using adj s day r by (simp add: tm_seconds_def)
  moreover have "julian_to_date (tm_day tm') = (tm_year tm' + 1900, tm_mon tm' + 1, tm_mday tm')"
    using julian_to_date_inverse [OF v] r by (simp add: tm_day_def)
  moreover have "?s smod 60 = tm_sec tm' \<and> (?s sdiv 60) smod 60 = tm_min tm' \<and> ?s sdiv 3600 = tm_hour tm'"
  proof -
    note parts = split_seconds [OF s]
    have "(?s sdiv 3600 * 60 + (?s sdiv 60) smod 60) * 60 + ?s smod 60
        = (tm_hour tm' * 60 + tm_min tm') * 60 + tm_sec tm'"
      using parts(7) by (simp add: time_of_day_def)
    note * = digits_unique [OF this parts(5,6)]
    show ?thesis using * digits_unique [OF *(1) parts(3,4)] r by (simp add: valid_tm_def)
  qed
  ultimately show ?l using r by (simp add: OPENSSL_gmtime_adj_def Let_def)
qed

lemma julian_adj_0:
  assumes "valid_tm tm" "0 \<le> tm_day tm"
  shows "julian_adj tm 0 0 = Some (tm_day tm, time_of_day tm)"
  using julian_adj_iff [of tm 0 0 "tm_day tm" "time_of_day tm"] time_of_day_range [OF assms(1)] assms(2)
  by (simp add: tm_seconds_def)

lemma gmtime_diff_result:
  assumes a: "valid_tm a" "0 \<le> tm_day a" and b: "valid_tm b" "0 \<le> tm_day b"
    and fits: "\<bar>tm_day b - tm_day a\<bar> < 2 ^ 31"
  obtains days secs where "OPENSSL_gmtime_diff a b = Some (days, secs)"
    "days * SECS_PER_DAY + secs = tm_seconds b - tm_seconds a" "\<bar>secs\<bar> < SECS_PER_DAY"
    "0 < days \<Longrightarrow> 0 \<le> secs" "days < 0 \<Longrightarrow> secs \<le> 0"
proof -
  define D S where "D = tm_day b - tm_day a" and "S = time_of_day b - time_of_day a"
  define k where "k = (if 0 < D \<and> S < 0 then - 1 else if D < 0 \<and> 0 < S then 1 else (0 :: int))"
  have S: "- 86400 < S" "S < 86400" using time_of_day_range [OF a(1)] time_of_day_range [OF b(1)] by (simp_all add: S_def)
  have fit: "int_of_long (D + k) = D + k"
    using fits by (intro int_of_long_id) (auto simp: D_def k_def)
  have "OPENSSL_gmtime_diff a b =
    (let (d, s) = (if D > 0 \<and> S < 0 then (D - 1, S + 86400) else (D, S));
         (d, s) = (if d < 0 \<and> s > 0 then (d + 1, s - 86400) else (d, s))
     in Some (int_of_long d, s))"
    unfolding OPENSSL_gmtime_diff_def julian_adj_0 [OF a] julian_adj_0 [OF b] option.case prod.case Let_def
      D_def [symmetric] S_def [symmetric] ..
  also have "\<dots> = Some (int_of_long (D + k), S - k * 86400)"
    by (auto simp: k_def Let_def simp del: of_int_add of_int_diff)
  finally have "OPENSSL_gmtime_diff a b = Some (D + k, S - k * 86400)" by (simp only: fit)
  moreover have "(D + k) * 86400 + (S - k * 86400) = tm_seconds b - tm_seconds a"
    by (simp add: tm_seconds_def D_def S_def algebra_simps)
  moreover have "\<bar>S - k * 86400\<bar> < 86400" "0 < D + k \<Longrightarrow> 0 \<le> S - k * 86400" "D + k < 0 \<Longrightarrow> S - k * 86400 \<le> 0"
    using S by (auto simp: k_def split: if_splits)
  ultimately show thesis using that by blast
qed

lemma adj_undoes_diff:
  assumes a: "valid_tm a" "0 \<le> tm_day a" and b: "valid_tm b" "1900 \<le> tm_year b + 1900" "tm_year b + 1900 \<le> 9999"
    and fits: "\<bar>tm_day b - tm_day a\<bar> < 2 ^ 31" and diff: "OPENSSL_gmtime_diff a b = Some (days, secs)"
  shows "OPENSSL_gmtime_adj a days secs = Some b"
proof -
  have "0 \<le> tm_day b" using day_number_nonneg [OF b(2)] b(1) by (simp add: valid_tm_def tm_day_def)
  from gmtime_diff_result [OF a b(1) this fits] diff
  have "days * SECS_PER_DAY + secs = tm_seconds b - tm_seconds a" "\<bar>secs\<bar> < SECS_PER_DAY" by auto
  moreover from this have "secs sdiv SECS_PER_DAY = 0"
    by (auto simp: signed_divide_int_def)
  ultimately show ?thesis
    using b by (subst gmtime_adj_iff [OF a(1)]) simp_all
qed

end
