(* ===== verification/AsnTime.thy ===== *)
theory AsnTime
  imports Calendar MbString Oid
begin

text \<open>
  UTCTime and GeneralizedTime strings: \<open>crypto/asn1/a_utctm.c\<close>, \<open>a_gentm.c\<close>, \<open>a_time.c\<close>. A
  \<open>struct tm *\<close> argument is \<open>None\<close> when the caller passes \<open>NULL\<close>; the structure comes back as far
  as it was filled. The data of a string is its block, with the terminator \<open>ASN1_STRING_set\<close>
  writes; reading beyond it gives 0. \<open>char\<close> comparisons with digits are the same on \<open>u8\<close>.
\<close>

section \<open>Strings\<close>

definition V_ASN1_UTCTIME :: int where "V_ASN1_UTCTIME = 23"
definition V_ASN1_GENERALIZEDTIME :: int where "V_ASN1_GENERALIZEDTIME = 24"

definition byte_at :: "u8 list \<Rightarrow> nat \<Rightarrow> u8" where
  "byte_at a pos = (if pos < length a then a ! pos else 0)"

definition time_bytes :: "ASN1_STRING \<Rightarrow> u8 list" where
  "time_bytes d = (case as_data d of None \<Rightarrow> [] | Some a \<Rightarrow> a)"

definition ASN1_STRING_type_new :: "(nat \<Rightarrow> bool) \<Rightarrow> int \<Rightarrow> ASN1_STRING option" where
  "ASN1_STRING_type_new os type' =
     (if malloc_ok os sizeof_ASN1_STRING then Some \<lparr>as_length = 0, as_type = type', as_data = None\<rparr> else None)"

text \<open>
  \<open>ASN1_STRING_set\<close> on any string, with a length that is not negative: the block is replaced
  when the current length does not exceed the new one; \<open>NULL\<close> data is not copied.
\<close>

definition asn1_string_set ::
    "(nat \<Rightarrow> bool) \<Rightarrow> (nat \<Rightarrow> u8) \<Rightarrow> ASN1_STRING \<Rightarrow> u8 list option \<Rightarrow> nat \<Rightarrow> bool \<times> ASN1_STRING" where
  "asn1_string_set os junk str data len =
     (case (if as_length str \<le> int len \<or> as_data str = None
            then OPENSSL_realloc os junk (as_data str) (len + 1) else as_data str) of
        None \<Rightarrow> (False, str)
      | Some block \<Rightarrow>
          (True, str\<lparr>as_length := int len,
                     as_data := Some (case data of
                       None \<Rightarrow> block
                     | Some bytes \<Rightarrow> take len bytes @ 0 # drop (len + 1) block)\<rparr>))"

section \<open>Reading\<close>

definition is_decimal :: "u8 \<Rightarrow> bool" where
  "is_decimal c \<longleftrightarrow> 48 \<le> c \<and> c \<le> 57"

definition two_digits :: "u8 list \<Rightarrow> nat \<Rightarrow> nat \<Rightarrow> int option" where
  "two_digits a len pos =
     (if \<not> is_decimal (byte_at a pos) then None
      else if pos + 1 > len then None
      else if \<not> is_decimal (byte_at a (pos + 1)) then None
      else if pos + 2 > len then None
      else Some ((int (unat (byte_at a pos)) - 48) * 10 + int (unat (byte_at a (pos + 1))) - 48))"

definition utc_min :: "int list" where "utc_min = [0, 1, 1, 0, 0, 0, 0, 0]"
definition utc_max :: "int list" where "utc_max = [99, 12, 31, 23, 59, 59, 12, 59]"
definition gen_min :: "int list" where "gen_min = [0, 0, 1, 1, 0, 0, 0, 0, 0]"
definition gen_max :: "int list" where "gen_max = [99, 99, 12, 31, 23, 59, 59, 12, 59]"

definition utc_set :: "nat \<Rightarrow> int \<Rightarrow> tm \<Rightarrow> tm" where
  "utc_set i n tm =
     (if i = 0 then tm\<lparr>tm_year := if n < 50 then n + 100 else n\<rparr>
      else if i = 1 then tm\<lparr>tm_mon := n - 1\<rparr>
      else if i = 2 then tm\<lparr>tm_mday := n\<rparr>
      else if i = 3 then tm\<lparr>tm_hour := n\<rparr>
      else if i = 4 then tm\<lparr>tm_min := n\<rparr>
      else tm\<lparr>tm_sec := n\<rparr>)"

definition gen_set :: "nat \<Rightarrow> int \<Rightarrow> tm \<Rightarrow> tm" where
  "gen_set i n tm =
     (if i = 0 then tm\<lparr>tm_year := n * 100 - 1900\<rparr>
      else if i = 1 then tm\<lparr>tm_year := tm_year tm + n\<rparr>
      else if i = 2 then tm\<lparr>tm_mon := n - 1\<rparr>
      else if i = 3 then tm\<lparr>tm_mday := n\<rparr>
      else if i = 4 then tm\<lparr>tm_hour := n\<rparr>
      else if i = 5 then tm\<lparr>tm_min := n\<rparr>
      else tm\<lparr>tm_sec := n\<rparr>)"

abbreviation zone_mark :: "u8 \<Rightarrow> bool" where
  "zone_mark c \<equiv> c = 90 \<or> c = 43 \<or> c = 45"

text \<open>
  The loop over the fields, the same in both readers but for the number of fields, the tables
  and where a field is stored: the position after them, or \<open>None\<close> at an error.
\<close>

function time_fields ::
    "nat \<Rightarrow> int list \<Rightarrow> int list \<Rightarrow> (nat \<Rightarrow> int \<Rightarrow> tm \<Rightarrow> tm) \<Rightarrow> u8 list \<Rightarrow> nat \<Rightarrow> nat \<Rightarrow> nat \<Rightarrow> tm option
      \<Rightarrow> nat option \<times> tm option" where
  "time_fields nf mins maxs set_field a len i pos tm =
     (if i \<ge> nf then (Some pos, tm)
      else if i = nf - 1 \<and> zone_mark (byte_at a pos) then (Some pos, map_option (tm_sec_update (\<lambda>_. 0)) tm)
      else case two_digits a len pos of
             None \<Rightarrow> (None, tm)
           | Some n \<Rightarrow>
               if n < mins ! i \<or> n > maxs ! i then (None, tm)
               else time_fields nf mins maxs set_field a len (i + 1) (pos + 2) (map_option (set_field i n) tm))"
  by pat_completeness auto
termination
  by (relation "measure (\<lambda>(nf, _, _, _, _, _, i, _, _). nf - i)") auto

declare time_fields.simps [simp del]

definition utc_fields :: "u8 list \<Rightarrow> nat \<Rightarrow> nat \<Rightarrow> nat \<Rightarrow> tm option \<Rightarrow> nat option \<times> tm option" where
  "utc_fields = time_fields 6 utc_min utc_max utc_set"

definition gen_fields :: "u8 list \<Rightarrow> nat \<Rightarrow> nat \<Rightarrow> nat \<Rightarrow> tm option \<Rightarrow> nat option \<times> tm option" where
  "gen_fields = time_fields 7 gen_min gen_max gen_set"

text \<open>
  Two digits of an offset from UTC; the length was checked before. The bounds are the last two
  entries of both tables.
\<close>

definition zone_digits :: "u8 list \<Rightarrow> int \<Rightarrow> int \<Rightarrow> nat \<Rightarrow> int option" where
  "zone_digits a lo_bound hi_bound pos =
     (if \<not> is_decimal (byte_at a pos) \<or> \<not> is_decimal (byte_at a (pos + 1)) then None
      else let n = (int (unat (byte_at a pos)) - 48) * 10 + int (unat (byte_at a (pos + 1))) - 48
           in if n < lo_bound \<or> n > hi_bound then None else Some n)"

text \<open>
  What follows the sign at \<open>pos\<close>: the position after it and the offset in seconds to be added,
  which stays 0 without a structure.
\<close>

definition zone_offset :: "int list \<Rightarrow> int list \<Rightarrow> nat \<Rightarrow> u8 list \<Rightarrow> nat \<Rightarrow> nat \<Rightarrow> bool \<Rightarrow> (nat \<times> int) option" where
  "zone_offset mins maxs k a len pos given =
     (let offsign = (if byte_at a pos = 45 then 1 else - 1); pos = pos + 1
      in if pos + 4 > len then None
         else case zone_digits a (mins ! k) (maxs ! k) pos of
                None \<Rightarrow> None
              | Some hours \<Rightarrow>
                  (case zone_digits a (mins ! (k + 1)) (maxs ! (k + 1)) (pos + 2) of
                     None \<Rightarrow> None
                   | Some minutes \<Rightarrow>
                       Some (pos + 4, if given then (hours * 3600 + minutes * 60) * offsign else 0)))"

text \<open>The end of both readers: the zone, and whether it ends the string.\<close>

definition finish_time :: "nat \<Rightarrow> (nat \<times> int) option \<Rightarrow> tm option \<Rightarrow> bool \<times> tm option" where
  "finish_time len zone tm =
     (case zone of
        None \<Rightarrow> (False, tm)
      | Some (pos, offset) \<Rightarrow>
          (case tm of
             None \<Rightarrow> (pos = len, None)
           | Some t \<Rightarrow>
               if offset = 0 then (pos = len, Some t)
               else case OPENSSL_gmtime_adj t 0 offset of
                      None \<Rightarrow> (False, Some t)
                    | Some t' \<Rightarrow> (pos = len, Some t')))"

definition asn1_utctime_to_tm :: "tm option \<Rightarrow> ASN1_STRING \<Rightarrow> bool \<times> tm option" where
  "asn1_utctime_to_tm tm d =
     (if as_type d \<noteq> V_ASN1_UTCTIME then (False, tm)
      else if as_length d < 11 then (False, tm)
      else let len = nat (as_length d); a = time_bytes d
           in case utc_fields a len 0 0 tm of
                (None, tm) \<Rightarrow> (False, tm)
              | (Some pos, tm) \<Rightarrow>
                  if byte_at a pos = 90 then (pos + 1 = len, tm)
                  else if byte_at a pos = 43 \<or> byte_at a pos = 45
                  then finish_time len (zone_offset utc_min utc_max 6 a len pos (tm \<noteq> None)) tm
                  else (pos = len, tm))"

function skip_decimals :: "u8 list \<Rightarrow> nat \<Rightarrow> nat \<Rightarrow> nat" where
  "skip_decimals a len pos =
     (if is_decimal (byte_at a pos) \<and> pos \<le> len then skip_decimals a len (pos + 1) else pos)"
  by pat_completeness auto
termination
  by (relation "measure (\<lambda>(_, len, pos). Suc len - pos)") auto

declare skip_decimals.simps [simp del]

text \<open>Optional fractional seconds.\<close>

definition skip_fraction :: "u8 list \<Rightarrow> nat \<Rightarrow> nat \<Rightarrow> nat option" where
  "skip_fraction a len pos =
     (if byte_at a pos = 46
      then if pos + 1 > len then None
           else let stop = skip_decimals a len (pos + 1) in if stop = pos + 1 then None else Some stop
      else Some pos)"

definition asn1_generalizedtime_to_tm :: "tm option \<Rightarrow> ASN1_STRING \<Rightarrow> bool \<times> tm option" where
  "asn1_generalizedtime_to_tm tm d =
     (if as_type d \<noteq> V_ASN1_GENERALIZEDTIME then (False, tm)
      else if as_length d < 13 then (False, tm)
      else let len = nat (as_length d); a = time_bytes d
           in case gen_fields a len 0 0 tm of
                (None, tm) \<Rightarrow> (False, tm)
              | (Some pos, tm) \<Rightarrow>
                  (case skip_fraction a len pos of
                     None \<Rightarrow> (False, tm)
                   | Some pos \<Rightarrow>
                       if byte_at a pos = 90 then (pos + 1 = len, tm)
                       else if byte_at a pos = 43 \<or> byte_at a pos = 45
                       then finish_time len (zone_offset gen_min gen_max 7 a len pos (tm \<noteq> None)) tm
                       else if byte_at a pos \<noteq> 0 then (False, tm)
                       else (pos = len, tm)))"

definition ASN1_UTCTIME_check :: "ASN1_STRING \<Rightarrow> bool" where
  "ASN1_UTCTIME_check d = fst (asn1_utctime_to_tm None d)"

definition ASN1_GENERALIZEDTIME_check :: "ASN1_STRING \<Rightarrow> bool" where
  "ASN1_GENERALIZEDTIME_check d = fst (asn1_generalizedtime_to_tm None d)"

definition ASN1_TIME_check :: "ASN1_STRING \<Rightarrow> bool" where
  "ASN1_TIME_check t =
     (if as_type t = V_ASN1_GENERALIZEDTIME then ASN1_GENERALIZEDTIME_check t
      else if as_type t = V_ASN1_UTCTIME then ASN1_UTCTIME_check t
      else False)"

section \<open>Writing\<close>

text \<open>libc's \<open>gmtime_r\<close>: the Gregorian date and the time of day of \<open>t\<close> seconds after 1970, for times after Julian day 0.\<close>

definition OPENSSL_gmtime :: "int \<Rightarrow> tm option" where
  "OPENSSL_gmtime t =
     (let (y, m, d) = julian_to_date (t div SECS_PER_DAY + 2440588); s = t mod SECS_PER_DAY
      in if y - 1900 < - (2 ^ 31) \<or> y - 1900 \<ge> 2 ^ 31 then None
         else Some \<lparr>tm_sec = s mod 60, tm_min = s div 60 mod 60, tm_hour = s div 3600,
                    tm_mday = d, tm_mon = m - 1, tm_year = y - 1900\<rparr>)"

text \<open>The conversion \<open>%0wd\<close>.\<close>

definition fmt_d :: "nat \<Rightarrow> int \<Rightarrow> u8 list" where
  "fmt_d w n =
     (let sign = (if n < 0 then [45] else []); digits = decimal (nat \<bar>n\<bar>)
      in sign @ replicate (w - length sign - length digits) 48 @ digits)"

definition fmt_fields :: "tm \<Rightarrow> u8 list" where
  "fmt_fields ts = fmt_d 2 (tm_mon ts + 1) @ fmt_d 2 (tm_mday ts) @ fmt_d 2 (tm_hour ts) @ fmt_d 2 (tm_min ts)
     @ fmt_d 2 (tm_sec ts) @ [90]"

text \<open>\<open>BIO_snprintf\<close> into a block: the text, cut at \<open>len - 1\<close> bytes, and a terminator.\<close>

definition snprintf_into :: "u8 list \<Rightarrow> nat \<Rightarrow> u8 list \<Rightarrow> u8 list" where
  "snprintf_into block len txt = (let out = take (len - 1) txt @ [0] in out @ drop (length out) block)"

text \<open>The block the two writers print into, a new one if the string's is missing or shorter than \<open>len\<close>.\<close>

definition time_block :: "(nat \<Rightarrow> bool) \<Rightarrow> (nat \<Rightarrow> u8) \<Rightarrow> nat \<Rightarrow> ASN1_STRING \<Rightarrow> u8 list option" where
  "time_block os junk len s =
     (if as_data s = None \<or> as_length s mod 2 ^ 64 < int len
      then (if malloc_ok os len then Some (map junk [0..<len]) else None)
      else as_data s)"

definition adjusted :: "int \<Rightarrow> int \<Rightarrow> int \<Rightarrow> tm option" where
  "adjusted t offset_day offset_sec =
     (case OPENSSL_gmtime t of
        None \<Rightarrow> None
      | Some ts \<Rightarrow>
          if offset_day \<noteq> 0 \<or> offset_sec \<noteq> 0 then OPENSSL_gmtime_adj ts offset_day offset_sec else Some ts)"

definition print_time :: "(nat \<Rightarrow> bool) \<Rightarrow> (nat \<Rightarrow> u8) \<Rightarrow> ASN1_STRING \<Rightarrow> int \<Rightarrow> u8 list \<Rightarrow> ASN1_STRING option" where
  "print_time os junk s type' txt =
     (case time_block os junk 20 s of
        None \<Rightarrow> None
      | Some p \<Rightarrow>
          (let p = snprintf_into p 20 txt
           in Some (s\<lparr>as_length := int (strlen p), as_type := type', as_data := Some p\<rparr>)))"

definition ASN1_UTCTIME_adj ::
    "(nat \<Rightarrow> bool) \<Rightarrow> (nat \<Rightarrow> u8) \<Rightarrow> ASN1_STRING option \<Rightarrow> int \<Rightarrow> int \<Rightarrow> int \<Rightarrow> ASN1_STRING option" where
  "ASN1_UTCTIME_adj os junk s t offset_day offset_sec =
     (case (case s of None \<Rightarrow> ASN1_STRING_type_new os V_ASN1_UTCTIME | Some s \<Rightarrow> Some s) of
        None \<Rightarrow> None
      | Some s \<Rightarrow>
          (case adjusted t offset_day offset_sec of
             None \<Rightarrow> None
           | Some ts \<Rightarrow>
               if tm_year ts < 50 \<or> tm_year ts \<ge> 150 then None
               else print_time os junk s V_ASN1_UTCTIME (fmt_d 2 (tm_year ts smod 100) @ fmt_fields ts)))"

definition ASN1_UTCTIME_set where "ASN1_UTCTIME_set os junk s t = ASN1_UTCTIME_adj os junk s t 0 0"

definition ASN1_GENERALIZEDTIME_adj ::
    "(nat \<Rightarrow> bool) \<Rightarrow> (nat \<Rightarrow> u8) \<Rightarrow> ASN1_STRING option \<Rightarrow> int \<Rightarrow> int \<Rightarrow> int \<Rightarrow> ASN1_STRING option" where
  "ASN1_GENERALIZEDTIME_adj os junk s t offset_day offset_sec =
     (case (case s of None \<Rightarrow> ASN1_STRING_type_new os V_ASN1_GENERALIZEDTIME | Some s \<Rightarrow> Some s) of
        None \<Rightarrow> None
      | Some tmps \<Rightarrow>
          (case adjusted t offset_day offset_sec of
             None \<Rightarrow> None
           | Some ts \<Rightarrow>
               print_time os junk tmps V_ASN1_GENERALIZEDTIME (fmt_d 4 (tm_year ts + 1900) @ fmt_fields ts)))"

definition ASN1_GENERALIZEDTIME_set where
  "ASN1_GENERALIZEDTIME_set os junk s t = ASN1_GENERALIZEDTIME_adj os junk s t 0 0"

definition ASN1_TIME_adj ::
    "(nat \<Rightarrow> bool) \<Rightarrow> (nat \<Rightarrow> u8) \<Rightarrow> ASN1_STRING option \<Rightarrow> int \<Rightarrow> int \<Rightarrow> int \<Rightarrow> ASN1_STRING option" where
  "ASN1_TIME_adj os junk s t offset_day offset_sec =
     (case adjusted t offset_day offset_sec of
        None \<Rightarrow> None
      | Some ts \<Rightarrow>
          if tm_year ts \<ge> 50 \<and> tm_year ts < 150 then ASN1_UTCTIME_adj os junk s t offset_day offset_sec
          else ASN1_GENERALIZEDTIME_adj os junk s t offset_day offset_sec)"

definition ASN1_TIME_set where "ASN1_TIME_set os junk s t = ASN1_TIME_adj os junk s t 0 0"

section \<open>Setting, converting and comparing\<close>

text \<open>The local string the \<open>set_string\<close> functions check: the caller's text and its length.\<close>

definition text_string :: "int \<Rightarrow> u8 list \<Rightarrow> ASN1_STRING" where
  "text_string type' str = \<lparr>as_length = int (strlen str), as_type = type', as_data = Some (take (strlen str) str @ [0])\<rparr>"

definition ASN1_UTCTIME_set_string ::
    "(nat \<Rightarrow> bool) \<Rightarrow> (nat \<Rightarrow> u8) \<Rightarrow> ASN1_STRING option \<Rightarrow> u8 list \<Rightarrow> bool \<times> ASN1_STRING option" where
  "ASN1_UTCTIME_set_string os junk s str =
     (if ASN1_UTCTIME_check (text_string V_ASN1_UTCTIME str)
      then case s of
             None \<Rightarrow> (True, None)
           | Some s \<Rightarrow>
               (case asn1_string_set os junk s (Some str) (strlen str) of
                  (False, s) \<Rightarrow> (False, Some s)
                | (True, s) \<Rightarrow> (True, Some (s\<lparr>as_type := V_ASN1_UTCTIME\<rparr>)))
      else (False, s))"

definition ASN1_GENERALIZEDTIME_set_string ::
    "(nat \<Rightarrow> bool) \<Rightarrow> (nat \<Rightarrow> u8) \<Rightarrow> ASN1_STRING option \<Rightarrow> u8 list \<Rightarrow> bool \<times> ASN1_STRING option" where
  "ASN1_GENERALIZEDTIME_set_string os junk s str =
     (if ASN1_GENERALIZEDTIME_check (text_string V_ASN1_GENERALIZEDTIME str)
      then case s of
             None \<Rightarrow> (True, None)
           | Some s \<Rightarrow>
               (case asn1_string_set os junk s (Some str) (strlen str) of
                  (False, s) \<Rightarrow> (False, Some s)
                | (True, s) \<Rightarrow> (True, Some (s\<lparr>as_type := V_ASN1_GENERALIZEDTIME\<rparr>)))
      else (False, s))"

definition ASN1_STRING_copy ::
    "(nat \<Rightarrow> bool) \<Rightarrow> (nat \<Rightarrow> u8) \<Rightarrow> ASN1_STRING \<Rightarrow> ASN1_STRING option \<Rightarrow> bool \<times> ASN1_STRING" where
  "ASN1_STRING_copy os junk dst str =
     (case str of
        None \<Rightarrow> (False, dst)
      | Some str \<Rightarrow>
          asn1_string_set os junk (dst\<lparr>as_type := as_type str\<rparr>) (as_data str) (nat (as_length str)))"

definition ASN1_TIME_set_string ::
    "(nat \<Rightarrow> bool) \<Rightarrow> (nat \<Rightarrow> u8) \<Rightarrow> ASN1_STRING option \<Rightarrow> u8 list \<Rightarrow> bool \<times> ASN1_STRING option" where
  "ASN1_TIME_set_string os junk s str =
     (let t = text_string V_ASN1_UTCTIME str;
          t = (if ASN1_TIME_check t then t else t\<lparr>as_type := V_ASN1_GENERALIZEDTIME\<rparr>)
      in if \<not> ASN1_TIME_check t then (False, s)
         else case s of
                None \<Rightarrow> (True, None)
              | Some s \<Rightarrow> (case ASN1_STRING_copy os junk s (Some t) of (ok, s) \<Rightarrow> (ok, Some s)))"

text \<open>
  The conversion to GeneralizedTime with \<open>out\<close> the string \<open>*out\<close> points to, if any. The century
  is prepended in the block by \<open>strlcpy\<close> and \<open>strlcat\<close>.
\<close>

definition ASN1_TIME_to_generalizedtime ::
    "(nat \<Rightarrow> bool) \<Rightarrow> (nat \<Rightarrow> u8) \<Rightarrow> ASN1_STRING \<Rightarrow> ASN1_STRING option \<Rightarrow> ASN1_STRING option" where
  "ASN1_TIME_to_generalizedtime os junk t out =
     (if \<not> ASN1_TIME_check t then None
      else case (case out of None \<Rightarrow> ASN1_STRING_type_new os V_ASN1_GENERALIZEDTIME | Some ret \<Rightarrow> Some ret) of
             None \<Rightarrow> None
           | Some ret \<Rightarrow>
               if as_type t = V_ASN1_GENERALIZEDTIME
               then (case asn1_string_set os junk ret (as_data t) (nat (as_length t)) of
                       (False, _) \<Rightarrow> None
                     | (True, ret) \<Rightarrow> Some ret)
               else (case asn1_string_set os junk ret None (nat (as_length t) + 2) of
                       (False, _) \<Rightarrow> None
                     | (True, ret) \<Rightarrow>
                         (let newlen = nat (as_length t) + 2 + 1;
                              block = time_bytes ret;
                              century = (if byte_at (time_bytes t) 0 \<ge> 53 then [49, 57, 0] else [50, 48, 0]);
                              str = snd (OPENSSL_strlcpy (take newlen block) century);
                              str = snd (OPENSSL_strlcat str (time_bytes t))
                          in Some (ret\<lparr>as_data := Some (str @ drop newlen block)\<rparr>))))"

text \<open>\<open>now\<close> is the time \<open>time\<close> reports.\<close>

definition asn1_time_to_tm :: "int \<Rightarrow> tm option \<Rightarrow> ASN1_STRING option \<Rightarrow> bool \<times> tm option" where
  "asn1_time_to_tm now tm t =
     (case t of
        None \<Rightarrow> (case OPENSSL_gmtime now of None \<Rightarrow> (False, tm) | Some r \<Rightarrow> (True, Some r))
      | Some t \<Rightarrow>
          if as_type t = V_ASN1_UTCTIME then asn1_utctime_to_tm tm t
          else if as_type t = V_ASN1_GENERALIZEDTIME then asn1_generalizedtime_to_tm tm t
          else (False, tm))"

definition blank_tm :: tm where
  "blank_tm = \<lparr>tm_sec = 0, tm_min = 0, tm_hour = 0, tm_mday = 0, tm_mon = 0, tm_year = 0\<rparr>"

definition ASN1_TIME_diff :: "int \<Rightarrow> ASN1_STRING option \<Rightarrow> ASN1_STRING option \<Rightarrow> (int \<times> int) option" where
  "ASN1_TIME_diff now from_time to_time =
     (case asn1_time_to_tm now (Some blank_tm) from_time of
        (True, Some tm_from) \<Rightarrow>
          (case asn1_time_to_tm now (Some blank_tm) to_time of
             (True, Some tm_to) \<Rightarrow> OPENSSL_gmtime_diff tm_from tm_to
           | _ \<Rightarrow> None)
      | _ \<Rightarrow> None)"

definition ASN1_UTCTIME_cmp_time_t :: "ASN1_STRING \<Rightarrow> int \<Rightarrow> int" where
  "ASN1_UTCTIME_cmp_time_t s t =
     (case asn1_utctime_to_tm (Some blank_tm) s of
        (True, Some stm) \<Rightarrow>
          (case OPENSSL_gmtime t of
             None \<Rightarrow> - 2
           | Some ttm \<Rightarrow>
               (case OPENSSL_gmtime_diff ttm stm of
                  None \<Rightarrow> - 2
                | Some (day, sec) \<Rightarrow>
                    if day > 0 then 1 else if day < 0 then - 1
                    else if sec > 0 then 1 else if sec < 0 then - 1 else 0))
      | _ \<Rightarrow> - 2)"

section \<open>What is read is what was written\<close>

definition digit_pair :: "nat \<Rightarrow> u8 list" where
  "digit_pair n = [of_nat (48 + n div 10), of_nat (48 + n mod 10)]"

lemma length_digit_pair [simp]: "length (digit_pair n) = 2"
  by (simp add: digit_pair_def)

lemma decimal_small: "n < 10 \<Longrightarrow> decimal n = [of_nat (48 + n)]"
  by (simp add: decimal.simps)

lemma fmt_d_2: "n < 100 \<Longrightarrow> fmt_d 2 (int n) = digit_pair n"
proof (cases "n < 10")
  case False
  assume "n < 100"
  then have "decimal n = [of_nat (48 + n div 10), of_nat (48 + n mod 10)]"
    using False by (subst decimal.simps) (simp add: decimal_small)
  then show ?thesis by (simp add: fmt_d_def digit_pair_def Let_def)
qed (simp add: fmt_d_def digit_pair_def decimal_small Let_def)

lemma digit_byte:
  assumes "k < 10"
  shows "unat (of_nat (48 + k) :: u8) = 48 + k" "is_decimal (of_nat (48 + k))"
proof -
  show u: "unat (of_nat (48 + k) :: u8) = 48 + k" using assms by (intro unat_of_nat_id) simp
  show "is_decimal (of_nat (48 + k))" unfolding is_decimal_def word_le_nat_alt u using assms by simp
qed

lemma byte_at_append: "byte_at (pre @ c # rest) (length pre) = c" "byte_at (pre @ [c]) (length pre) = c"
  by (simp_all add: byte_at_def)

lemma read_digit_pair:
  assumes "n < 100" "length pre + 2 \<le> len"
  shows "two_digits (pre @ digit_pair n @ rest) len (length pre) = Some (int n)"
proof -
  have d: "n div 10 < 10" "n mod 10 < 10" using assms(1) by auto
  have at: "byte_at (pre @ digit_pair n @ rest) (length pre) = of_nat (48 + n div 10)"
    "byte_at (pre @ digit_pair n @ rest) (length pre + 1) = of_nat (48 + n mod 10)"
    by (simp_all add: byte_at_def digit_pair_def nth_append)
  have "int (n div 10 * 10 + n mod 10) = int n" by simp
  then have "(int (48 + n div 10) - 48) * 10 + int (48 + n mod 10) - 48 = int n"
    by (simp only: of_nat_add of_nat_mult of_nat_numeral) simp
  then show ?thesis
    unfolding two_digits_def at digit_byte(1) [OF d(1)] digit_byte(1) [OF d(2)]
    using digit_byte(2) [OF d(1)] digit_byte(2) [OF d(2)] assms(2) by simp
qed

lemma first_digit:
  assumes "n < 100"
  shows "is_decimal (byte_at (pre @ digit_pair n @ rest) (length pre))" "\<not> zone_mark (byte_at (pre @ digit_pair n @ rest) (length pre))"
proof -
  have "byte_at (pre @ digit_pair n @ rest) (length pre) = of_nat (48 + n div 10)"
    by (simp add: byte_at_def digit_pair_def nth_append)
  then show d: "is_decimal (byte_at (pre @ digit_pair n @ rest) (length pre))"
    using digit_byte(2) [of "n div 10"] assms by simp
  then show "\<not> zone_mark (byte_at (pre @ digit_pair n @ rest) (length pre))"
    by (auto simp: is_decimal_def)
qed

text \<open>The digits of fields within their bounds, and the structure they fill.\<close>

definition digits_of :: "nat list \<Rightarrow> u8 list" where
  "digits_of ns = concat (map digit_pair ns)"

lemma digits_of_simps [simp]: "digits_of [] = []" "digits_of (n # ns) = digit_pair n @ digits_of ns"
  by (simp_all add: digits_of_def)

fun in_bounds :: "int list \<Rightarrow> int list \<Rightarrow> nat \<Rightarrow> nat list \<Rightarrow> bool" where
  "in_bounds mins maxs i [] = True"
| "in_bounds mins maxs i (n # ns) =
     (n < 100 \<and> mins ! i \<le> int n \<and> int n \<le> maxs ! i \<and> in_bounds mins maxs (Suc i) ns)"

fun set_fields :: "(nat \<Rightarrow> int \<Rightarrow> tm \<Rightarrow> tm) \<Rightarrow> nat \<Rightarrow> nat list \<Rightarrow> tm \<Rightarrow> tm" where
  "set_fields set_field i [] tm = tm"
| "set_fields set_field i (n # ns) tm = set_fields set_field (Suc i) ns (set_field i (int n) tm)"

lemma time_fields_digits:
  "in_bounds mins maxs i ns \<Longrightarrow> i + length ns \<le> nf \<Longrightarrow> length pre + 2 * length ns \<le> len \<Longrightarrow>
   time_fields nf mins maxs f (pre @ digits_of ns @ rest) len i (length pre) tm
     = time_fields nf mins maxs f (pre @ digits_of ns @ rest) len (i + length ns) (length pre + 2 * length ns)
         (map_option (set_fields f i ns) tm)"
proof (induction ns arbitrary: i pre tm)
  case Nil
  then show ?case by (cases tm) simp_all
next
  case (Cons n ns)
  have n: "n < 100" using Cons.prems(1) by simp
  have "time_fields nf mins maxs f (pre @ digits_of (n # ns) @ rest) len i (length pre) tm
    = time_fields nf mins maxs f ((pre @ digit_pair n) @ digits_of ns @ rest) len (Suc i) (length (pre @ digit_pair n)) (map_option (f i (int n)) tm)"
    using read_digit_pair [OF n, of pre len "digits_of ns @ rest"] first_digit [OF n, of pre "digits_of ns @ rest"] Cons.prems
    by (subst time_fields.simps) simp
  also have "\<dots> = time_fields nf mins maxs f ((pre @ digit_pair n) @ digits_of ns @ rest) len (Suc i + length ns)
      (length (pre @ digit_pair n) + 2 * length ns) (map_option (set_fields f (Suc i) ns) (map_option (f i (int n)) tm))"
    using Cons.prems by (intro Cons.IH) simp_all
  also have "map_option (set_fields f (Suc i) ns) (map_option (f i (int n)) tm) = map_option (set_fields f i (n # ns)) tm"
    by (cases tm) simp_all
  finally show ?case by (cases tm) simp_all
qed

lemma all_fields_digits:
  assumes "in_bounds mins maxs 0 ns" "length ns = nf" "2 * nf \<le> len"
  shows "time_fields nf mins maxs f (digits_of ns @ rest) len 0 0 tm = (Some (2 * nf), map_option (set_fields f 0 ns) tm)"
proof -
  have "time_fields nf mins maxs f (digits_of ns @ rest) len 0 0 tm
    = time_fields nf mins maxs f (digits_of ns @ rest) len nf (2 * nf) (map_option (set_fields f 0 ns) tm)"
    using time_fields_digits [of mins maxs 0 ns nf "[]" len f rest tm] assms by simp
  then show ?thesis using assms(2) by (simp add: time_fields.simps [of nf mins maxs f _ len nf])
qed

lemma length_digits_of [simp]: "length (digits_of ns) = 2 * length ns"
  by (induction ns) simp_all

text \<open>The structure \<open>ts\<close> as the numbers the fields hold.\<close>

definition utc_numbers :: "tm \<Rightarrow> nat list" where
  "utc_numbers ts = map nat [tm_year ts mod 100, tm_mon ts + 1, tm_mday ts, tm_hour ts, tm_min ts, tm_sec ts]"

definition gen_numbers :: "tm \<Rightarrow> nat list" where
  "gen_numbers ts = map nat [(tm_year ts + 1900) div 100, (tm_year ts + 1900) mod 100, tm_mon ts + 1, tm_mday ts,
     tm_hour ts, tm_min ts, tm_sec ts]"

lemma valid_tm_ranges:
  assumes "valid_tm ts"
  shows "0 \<le> tm_mon ts" "tm_mon ts < 12" "1 \<le> tm_mday ts" "tm_mday ts \<le> 31" "0 \<le> tm_hour ts" "tm_hour ts < 24"
    "0 \<le> tm_min ts" "tm_min ts < 60" "0 \<le> tm_sec ts" "tm_sec ts < 60"
  using assms month_length_pos(2) [of "tm_year ts + 1900" "tm_mon ts + 1"] by (simp_all add: valid_tm_def valid_date_def)

lemma fmt_fields_digits: "valid_tm ts \<Longrightarrow> fmt_fields ts =
    digits_of (map nat [tm_mon ts + 1, tm_mday ts, tm_hour ts, tm_min ts, tm_sec ts]) @ [90]"
  using valid_tm_ranges [of ts] fmt_d_2 [of "nat (tm_mon ts + 1)"] fmt_d_2 [of "nat (tm_mday ts)"]
    fmt_d_2 [of "nat (tm_hour ts)"] fmt_d_2 [of "nat (tm_min ts)"] fmt_d_2 [of "nat (tm_sec ts)"]
  by (simp add: fmt_fields_def)

lemma utc_numbers_read:
  assumes "valid_tm ts" "50 \<le> tm_year ts" "tm_year ts < 150"
  shows "in_bounds utc_min utc_max 0 (utc_numbers ts)" "set_fields utc_set 0 (utc_numbers ts) tm = ts"
proof -
  note r = valid_tm_ranges [OF assms(1)]
  have y: "0 \<le> tm_year ts mod 100" "tm_year ts mod 100 < 100" by simp_all
  have "tm_year ts mod 100 = (if tm_year ts < 100 then tm_year ts else tm_year ts - 100)"
    using assms(2,3) mod_add_self2 [of "tm_year ts - 100" 100] mod_pos_pos_trivial [of "tm_year ts - 100" 100] by auto
  then show "set_fields utc_set 0 (utc_numbers ts) tm = ts"
    using r assms(2,3) by (cases ts) (simp add: utc_numbers_def utc_set_def)
  show "in_bounds utc_min utc_max 0 (utc_numbers ts)"
    using r y by (simp add: utc_numbers_def utc_min_def utc_max_def nat_less_iff)
qed

lemma gen_numbers_read:
  assumes "valid_tm ts" "0 \<le> tm_year ts + 1900" "tm_year ts + 1900 \<le> 9999"
  shows "in_bounds gen_min gen_max 0 (gen_numbers ts)" "set_fields gen_set 0 (gen_numbers ts) tm = ts"
proof -
  note r = valid_tm_ranges [OF assms(1)]
  define q c where "q = (tm_year ts + 1900) div 100" and "c = (tm_year ts + 1900) mod 100"
  have y: "0 \<le> q" "q < 100" "0 \<le> c" "c < 100"
    using assms(2,3) by (simp_all add: q_def c_def pos_imp_zdiv_nonneg_iff)
  have "q * 100 + c = tm_year ts + 1900" unfolding q_def c_def by (rule div_mult_mod_eq)
  then have sum: "q * 100 - 1900 + c = tm_year ts" by linarith
  have n: "gen_numbers ts = map nat [q, c, tm_mon ts + 1, tm_mday ts, tm_hour ts, tm_min ts, tm_sec ts]"
    by (simp only: gen_numbers_def q_def c_def)
  show "set_fields gen_set 0 (gen_numbers ts) tm = ts"
    unfolding n using r y sum by (cases ts) (simp add: gen_set_def)
  show "in_bounds gen_min gen_max 0 (gen_numbers ts)"
    unfolding n using r y by (simp add: gen_min_def gen_max_def nat_less_iff)
qed

end
