(* ===== verification/IpAddr.thy ===== *)
theory IpAddr
  imports HostSpec AsnTime
begin

unbundle bit_operations_syntax

text \<open>
  Addresses and hexadecimal strings of \<open>crypto/x509v3/v3_utl.c\<close>. C strings are lists without NUL. What
  libc's \<open>sscanf\<close> stores for a number that does not fit an \<open>int\<close> is a parameter, \<open>wide\<close>.
\<close>

section \<open>Dotted addresses\<close>

text \<open>A conversion \<open>%d\<close>: white space, a sign, digits.\<close>

definition scan_d :: "(int \<Rightarrow> int) \<Rightarrow> u8 list \<Rightarrow> (int \<times> u8 list) option" where
  "scan_d wide s =
     (let s = dropWhile isspace s;
          neg = (s \<noteq> [] \<and> hd s = 45);
          s = (if s \<noteq> [] \<and> (hd s = 45 \<or> hd s = 43) then tl s else s);
          ds = takeWhile is_decimal s;
          n = foldl (\<lambda>n c. n * 10 + (int (unat c) - 48)) 0 ds;
          n = (if neg then - n else n)
      in if ds = [] then None
         else Some (if - (2 ^ 31) \<le> n \<and> n < 2 ^ 31 then n else wide n, dropWhile is_decimal s))"

text \<open>A literal dot, then a conversion.\<close>

definition scan_dot_d :: "(int \<Rightarrow> int) \<Rightarrow> u8 list \<Rightarrow> (int \<times> u8 list) option" where
  "scan_dot_d wide s = (if s \<noteq> [] \<and> hd s = 46 then scan_d wide (tl s) else None)"

definition ipv4_from_asc :: "(int \<Rightarrow> int) \<Rightarrow> u8 list \<Rightarrow> u8 list option" where
  "ipv4_from_asc wide s =
     (case scan_d wide s of
        None \<Rightarrow> None
      | Some (a0, s) \<Rightarrow>
     (case scan_dot_d wide s of
        None \<Rightarrow> None
      | Some (a1, s) \<Rightarrow>
     (case scan_dot_d wide s of
        None \<Rightarrow> None
      | Some (a2, s) \<Rightarrow>
     (case scan_dot_d wide s of
        None \<Rightarrow> None
      | Some (a3, s) \<Rightarrow>
          if a0 < 0 \<or> a0 > 255 \<or> a1 < 0 \<or> a1 > 255 \<or> a2 < 0 \<or> a2 > 255 \<or> a3 < 0 \<or> a3 > 255 then None
          else Some (map of_int [a0, a1, a2, a3])))))"

section \<open>Addresses with colons\<close>

text \<open>\<open>v6_tmp\<close> holds the bytes of \<open>tmp\<close> that were written; \<open>total\<close> is their number.\<close>

record IPV6_STAT =
  v6_tmp :: "u8 list"
  v6_zero_pos :: int
  v6_zero_cnt :: int

abbreviation v6_total :: "IPV6_STAT \<Rightarrow> int" where "v6_total s \<equiv> int (length (v6_tmp s))"

definition hex_digit :: "u8 \<Rightarrow> u32 option" where
  "hex_digit c =
     (if 48 \<le> c \<and> c \<le> 57 then Some (ucast c - 48)
      else if 65 \<le> c \<and> c \<le> 70 then Some (ucast c - 65 + 10)
      else if 97 \<le> c \<and> c \<le> 102 then Some (ucast c - 97 + 10)
      else None)"

fun ipv6_hex_loop :: "u32 \<Rightarrow> u8 list \<Rightarrow> u32 option" where
  "ipv6_hex_loop num [] = Some num"
| "ipv6_hex_loop num (c # s) =
     (case hex_digit c of None \<Rightarrow> None | Some d \<Rightarrow> ipv6_hex_loop (push_bit 4 num OR d) s)"

definition ipv6_hex :: "u8 list \<Rightarrow> u8 list option" where
  "ipv6_hex s =
     (if length s > 4 then None
      else case ipv6_hex_loop 0 s of
             None \<Rightarrow> None
           | Some num \<Rightarrow> Some [ucast (drop_bit 8 num), ucast (num AND 0xff)])"

definition ipv6_cb :: "(int \<Rightarrow> int) \<Rightarrow> (u8 list \<times> nat) option \<Rightarrow> IPV6_STAT \<Rightarrow> int \<times> IPV6_STAT" where
  "ipv6_cb wide e s =
     (if v6_total s = 16 then (0, s)
      else case e of
             None \<Rightarrow>
               if v6_zero_pos s = - 1
               then (1, s\<lparr>v6_zero_pos := v6_total s, v6_zero_cnt := v6_zero_cnt s + 1\<rparr>)
               else if v6_zero_pos s \<noteq> v6_total s then (0, s)
               else (1, s\<lparr>v6_zero_cnt := v6_zero_cnt s + 1\<rparr>)
           | Some (elem, len) \<Rightarrow>
               if len > 4
               then if v6_total s > 12 then (0, s)
                    else if len < length elem then (0, s)
                    else case ipv4_from_asc wide elem of
                           None \<Rightarrow> (0, s)
                         | Some bs \<Rightarrow> (1, s\<lparr>v6_tmp := v6_tmp s @ bs\<rparr>)
               else case ipv6_hex (take len elem) of
                      None \<Rightarrow> (0, s)
                    | Some bs \<Rightarrow> (1, s\<lparr>v6_tmp := v6_tmp s @ bs\<rparr>))"

definition v6_zeros_ok :: "IPV6_STAT \<Rightarrow> bool" where
  "v6_zeros_ok s =
     (if v6_zero_pos s = - 1 then v6_total s = 16
      else if v6_total s = 16 then False
      else if v6_zero_cnt s > 3 then False
      else if v6_zero_cnt s = 3 then \<not> v6_total s > 0
      else if v6_zero_cnt s = 2 then \<not> (v6_zero_pos s \<noteq> 0 \<and> v6_zero_pos s \<noteq> v6_total s)
      else \<not> (v6_zero_pos s = 0 \<or> v6_zero_pos s = v6_total s))"

definition v6_format :: "IPV6_STAT \<Rightarrow> u8 list" where
  "v6_format s =
     (if v6_zero_pos s \<ge> 0
      then take (nat (v6_zero_pos s)) (v6_tmp s) @ replicate (16 - length (v6_tmp s)) 0
           @ drop (nat (v6_zero_pos s)) (v6_tmp s)
      else v6_tmp s)"

definition ipv6_from_asc :: "(int \<Rightarrow> int) \<Rightarrow> u8 list \<Rightarrow> u8 list option" where
  "ipv6_from_asc wide inp =
     (case CONF_parse_list (Some inp) 58 False (ipv6_cb wide) \<lparr>v6_tmp = [], v6_zero_pos = - 1, v6_zero_cnt = 0\<rparr> of
        (ret, v6stat) \<Rightarrow>
          if ret = 0 then None
          else if \<not> v6_zeros_ok v6stat then None
          else Some (v6_format v6stat))"

definition a2i_ipadd :: "(int \<Rightarrow> int) \<Rightarrow> u8 list \<Rightarrow> u8 list option" where
  "a2i_ipadd wide ipasc =
     (if 58 \<in> set ipasc then ipv6_from_asc wide ipasc else ipv4_from_asc wide ipasc)"

definition octet_string :: "(nat \<Rightarrow> bool) \<Rightarrow> (nat \<Rightarrow> u8) \<Rightarrow> u8 list \<Rightarrow> ASN1_STRING option" where
  "octet_string os junk bytes =
     (case ASN1_STRING_type_new os V_ASN1_OCTET_STRING of
        None \<Rightarrow> None
      | Some ret \<Rightarrow>
          (case asn1_string_set os junk ret (Some bytes) (length bytes) of
             (False, _) \<Rightarrow> None
           | (True, ret) \<Rightarrow> Some ret))"

definition a2i_IPADDRESS :: "(nat \<Rightarrow> bool) \<Rightarrow> (nat \<Rightarrow> u8) \<Rightarrow> (int \<Rightarrow> int) \<Rightarrow> u8 list \<Rightarrow> ASN1_STRING option" where
  "a2i_IPADDRESS os junk wide ipasc =
     (case a2i_ipadd wide ipasc of None \<Rightarrow> None | Some bytes \<Rightarrow> octet_string os junk bytes)"

text \<open>An address and a mask, separated by a slash.\<close>

definition a2i_IPADDRESS_NC :: "(nat \<Rightarrow> bool) \<Rightarrow> (nat \<Rightarrow> u8) \<Rightarrow> (int \<Rightarrow> int) \<Rightarrow> u8 list \<Rightarrow> ASN1_STRING option" where
  "a2i_IPADDRESS_NC os junk wide ipasc =
     (if 47 \<notin> set ipasc then None
      else case OPENSSL_strdup os (Some (ipasc @ [0])) of
             None \<Rightarrow> None
           | Some _ \<Rightarrow>
               (case a2i_ipadd wide (takeWhile (\<lambda>c. c \<noteq> 47) ipasc) of
                  None \<Rightarrow> None
                | Some addr \<Rightarrow>
                    (case a2i_ipadd wide (tl (dropWhile (\<lambda>c. c \<noteq> 47) ipasc)) of
                       None \<Rightarrow> None
                     | Some msk \<Rightarrow>
                         if length addr \<noteq> length msk then None else octet_string os junk (addr @ msk))))"

definition X509_check_ip_asc :: "(nat \<Rightarrow> bool) \<Rightarrow> (int \<Rightarrow> int) \<Rightarrow> X509 \<Rightarrow> u8 list option \<Rightarrow> u32 \<Rightarrow> int" where
  "X509_check_ip_asc os wide x ipasc flags =
     (case ipasc of
        None \<Rightarrow> - 2
      | Some ipasc \<Rightarrow>
          (case a2i_ipadd wide ipasc of
             None \<Rightarrow> - 2
           | Some ipout \<Rightarrow> fst (do_x509_check os x ipout flags GEN_IPADD False)))"

section \<open>Hexadecimal strings\<close>

definition hexdig :: "u8 list" where
  "hexdig = [48, 49, 50, 51, 52, 53, 54, 55, 56, 57, 65, 66, 67, 68, 69, 70]"

definition x509v3_bytes_to_hex :: "(nat \<Rightarrow> bool) \<Rightarrow> u8 list \<Rightarrow> u8 list option" where
  "x509v3_bytes_to_hex os buffer =
     (if buffer = [] then None
      else if \<not> malloc_ok os (length buffer * 3 + 1) then None
      else Some (butlast (concat (map (\<lambda>p. [hexdig ! unat (drop_bit 4 p AND 0xf), hexdig ! unat (p AND 0xf), 58]) buffer)) @ [0]))"

definition hex_nibble :: "u8 \<Rightarrow> u8 option" where
  "hex_nibble c =
     (if 48 \<le> c \<and> c \<le> 57 then Some (c - 48)
      else if 97 \<le> c \<and> c \<le> 102 then Some (c - (97 - 10))
      else if 65 \<le> c \<and> c \<le> 70 then Some (c - (65 - 10))
      else None)"

fun hex_to_bytes_loop :: "u8 list \<Rightarrow> u8 list option" where
  "hex_to_bytes_loop [] = Some []"
| "hex_to_bytes_loop (ch # s) =
     (if ch = 58 then hex_to_bytes_loop s
      else case s of
             [] \<Rightarrow> None
           | cl # s \<Rightarrow>
               (case (hex_nibble ch, hex_nibble cl) of
                  (Some h, Some l) \<Rightarrow> map_option ((#) (push_bit 4 h OR l)) (hex_to_bytes_loop s)
                | _ \<Rightarrow> None))"

definition x509v3_hex_to_bytes :: "(nat \<Rightarrow> bool) \<Rightarrow> u8 list option \<Rightarrow> u8 list option" where
  "x509v3_hex_to_bytes os str =
     (case str of
        None \<Rightarrow> None
      | Some s \<Rightarrow> if malloc_ok os (length s div 2) then hex_to_bytes_loop s else None)"

text \<open>\<open>strncmp\<close> of \<open>name\<close> with all of \<open>cmp\<close>: 0 exactly when \<open>cmp\<close> is a prefix.\<close>

fun strncmp_prefix :: "u8 list \<Rightarrow> u8 list \<Rightarrow> int" where
  "strncmp_prefix name [] = 0"
| "strncmp_prefix [] (c # cmp) = - int (unat c)"
| "strncmp_prefix (n # name) (c # cmp) =
     (if n = c then strncmp_prefix name cmp else int (unat n) - int (unat c))"

definition x509v3_name_cmp :: "u8 list \<Rightarrow> u8 list \<Rightarrow> int" where
  "x509v3_name_cmp name cmp =
     (let ret = strncmp_prefix name cmp
      in if ret \<noteq> 0 then ret
         else if length name = length cmp \<or> name ! length cmp = 46 then 0 else 1)"

end
