(* ===== verification/IpSpec.thy ===== *)
theory IpSpec
  imports IpAddr
begin

unbundle bit_operations_syntax

text \<open>
  Printed addresses are read back: dotted ones, whatever follows them, and ones with colons, with or
  without a gap. A certificate is found to hold an address exactly when it holds its bytes.
\<close>

section \<open>Dotted addresses\<close>

lemma digit_value: "k < 10 \<Longrightarrow> uint (of_nat (48 + k) :: u8) = 48 + int k"
proof -
  assume "k < 10"
  have "uint (of_nat (48 + k) :: u8) = int (unat (of_nat (48 + k) :: u8))" by simp
  also have "\<dots> = int (48 + k)" by (simp only: digit_byte(1) [OF \<open>k < 10\<close>])
  finally show ?thesis by simp
qed

lemma decimal_chars:
  "(\<forall>c\<in>set (decimal n). is_decimal c) \<and> foldl (\<lambda>n c. n * 10 + (int (unat c) - 48)) 0 (decimal n) = int n"
proof (induction n rule: decimal.induct)
  case (1 n)
  show ?case
  proof (cases "n < 10")
    case True
    then show ?thesis using digit_byte [of n] by (simp add: decimal_digit digit_value del: of_nat_add)
  next
    case False
    have "decimal n = decimal (n div 10) @ [of_nat (48 + n mod 10)]"
      using False by (subst decimal.simps) (simp only: if_False)
    moreover have "int (n div 10) * 10 + int (n mod 10) = int n" by (metis div_mult_mod_eq of_nat_add of_nat_mult of_nat_numeral)
    ultimately show ?thesis using 1 [OF False] digit_byte [of "n mod 10"] by (simp add: digit_value del: of_nat_add)
  qed
qed

lemma not_decimal: "\<not> is_decimal 45" "\<not> is_decimal 43" "\<not> is_decimal 46" "isspace c \<Longrightarrow> \<not> is_decimal c"
  by (auto simp: is_decimal_def isspace_def word_le_nat_alt)

definition ends_number :: "u8 list \<Rightarrow> bool" where
  "ends_number g \<longleftrightarrow> g = [] \<or> \<not> is_decimal (hd g)"

lemma scan_decimal:
  assumes "n < 2 ^ 31" "ends_number g"
  shows "scan_d wide (decimal n @ g) = Some (int n, g)"
proof -
  obtain c ds where d: "decimal n = c # ds" using decimal_not_Nil [of n] by (cases "decimal n") auto
  have digits: "\<forall>c\<in>set (decimal n). is_decimal c" using decimal_chars by blast
  then have c: "\<not> isspace c" "c \<noteq> 45" "c \<noteq> 43" using not_decimal by (auto simp: d)
  have "takeWhile is_decimal (decimal n @ g) = decimal n" "dropWhile is_decimal (decimal n @ g) = g"
    using digits assms(2) by (auto simp: ends_number_def takeWhile_append dropWhile_append takeWhile_eq_Nil_iff dropWhile_eq_self_iff)
  then show ?thesis
    using c assms(1) decimal_chars [of n] d by (simp add: scan_d_def Let_def)
qed

theorem ipv4_dotted:
  assumes "length bs = 4" "ends_number g"
  shows "ipv4_from_asc wide (dotted (map unat bs) @ g) = Some bs"
proof -
  obtain a b c d where bs: "bs = [a, b, c, d]" using assms(1) by (auto simp: eval_nat_numeral length_Suc_conv)
  have dot: "ends_number (46 # r)" for r by (simp add: ends_number_def not_decimal)
  have small: "unat x < 2 ^ 31" "int (unat x) \<le> 255" for x :: u8
    by (rule less_le_trans [OF unat_u8_less], simp) (use unat_u8_le [of x] in linarith)
  show ?thesis
    unfolding bs ipv4_from_asc_def
    using scan_decimal [OF small(1) dot, of wide] scan_decimal [OF small(1) assms(2), of wide] small(2)
    by (simp add: scan_dot_d_def not_less [symmetric])
qed

section \<open>Groups\<close>

definition hex_char :: "nat \<Rightarrow> u8" where
  "hex_char k = (if k < 10 then of_nat (48 + k) else of_nat (87 + k))"

fun hexadecimal :: "nat \<Rightarrow> u8 list" where
  "hexadecimal n = (if n < 16 then [hex_char n] else hexadecimal (n div 16) @ [hex_char (n mod 16)])"

declare hexadecimal.simps [simp del]

lemma hex_char_digit: "k < 16 \<Longrightarrow> hex_digit (hex_char k) = Some (of_nat k)"
proof -
  assume "k < 16"
  then have "k = 0 \<or> k = 1 \<or> k = 2 \<or> k = 3 \<or> k = 4 \<or> k = 5 \<or> k = 6 \<or> k = 7 \<or> k = 8 \<or> k = 9 \<or> k = 10 \<or> k = 11
      \<or> k = 12 \<or> k = 13 \<or> k = 14 \<or> k = 15" by presburger
  then show ?thesis by (elim disjE; simp add: hex_char_def hex_digit_def)
qed

lemma ipv6_hex_loop_append:
  "ipv6_hex_loop num (s @ t) = (case ipv6_hex_loop num s of None \<Rightarrow> None | Some m \<Rightarrow> ipv6_hex_loop m t)"
  by (induction num s rule: ipv6_hex_loop.induct) (simp_all split: option.split)

lemma ipv6_hex_loop_number: "n < 2 ^ 16 \<Longrightarrow> ipv6_hex_loop 0 (hexadecimal n) = Some (of_nat n)"
proof (induction n rule: hexadecimal.induct)
  case (1 n)
  show ?case
  proof (cases "n < 16")
    case True
    then show ?thesis by (simp add: hexadecimal.simps hex_char_digit)
  next
    case False
    have "unat (push_bit 4 (of_nat (n div 16) :: u32) OR of_nat (n mod 16)) = n"
    proof -
      have "n div 16 < 2 ^ 12" using 1(2) by simp
      then have "unat (of_nat (n div 16) :: u32) = n div 16" "unat (of_nat (n mod 16) :: u32) = n mod 16"
        by (simp_all add: unat_of_nat_id)
      then show ?thesis using \<open>n div 16 < 2 ^ 12\<close> by (subst unat_push_or) simp_all
    qed
    then have "push_bit 4 (of_nat (n div 16) :: u32) OR of_nat (n mod 16) = of_nat n" by (metis of_nat_unat_id)
    then show ?thesis using False 1 by (subst hexadecimal.simps) (simp add: ipv6_hex_loop_append hex_char_digit)
  qed
qed

lemma length_hexadecimal: "n < 16 ^ Suc k \<Longrightarrow> length (hexadecimal n) \<le> Suc k"
proof (induction k arbitrary: n)
  case 0
  then show ?case by (simp add: hexadecimal.simps)
next
  case (Suc k)
  then show ?case by (cases "n < 16") (simp_all add: hexadecimal.simps [of n])
qed

lemma hexadecimal_chars: "hexadecimal n \<noteq> [] \<and> 58 \<notin> set (hexadecimal n)"
proof (induction n rule: hexadecimal.induct)
  case (1 n)
  have "hex_char k \<noteq> 58" if "k < 16" for k
    using hex_char_digit [OF that] by (auto simp: hex_digit_def)
  then show ?case using 1 by (cases "n < 16") (simp_all add: hexadecimal.simps [of n])
qed

definition group_text :: "u16 \<Rightarrow> u8 list" where
  "group_text w = hexadecimal (unat w)"

lemma group_text_chars: "group_text w \<noteq> []" "58 \<notin> set (group_text w)" "length (group_text w) \<le> 4"
  using hexadecimal_chars length_hexadecimal [of "unat w" 3] unsigned_less [where ?'a = nat, of w] by (simp_all add: group_text_def)

lemma ipv6_hex_group: "ipv6_hex (group_text w) = Some (be_bytes 2 (unat w))"
proof -
  have w: "unat w < 2 ^ 16" using unsigned_less [where ?'a = nat, of w] by simp
  define v where "v = (of_nat (unat w) :: u32)"
  have v: "unat v = unat w" unfolding v_def by (rule unat_of_nat_id) (use w in simp)
  have "ucast (drop_bit 8 v) = (of_nat (unat w div 256) :: u8)"
    unfolding word_unat_eq_iff by (simp add: byte_simps v)
  moreover have "ucast (v AND 0xff) = (of_nat (unat w) :: u8)"
    unfolding word_unat_eq_iff using unat_and_mask [of "0xff" 8 v] by (simp add: byte_simps mask_eq_exp_minus_1 v)
  ultimately show ?thesis
    using group_text_chars(3) [of w] ipv6_hex_loop_number [OF w]
    unfolding ipv6_hex_def group_text_def be_bytes_def v_def [symmetric] by (simp add: numeral_2_eq_2)
qed

section \<open>Elements between colons\<close>

text \<open>The callback on an element that has no more than four characters, or is the last one.\<close>

definition v6_element :: "(int \<Rightarrow> int) \<Rightarrow> u8 list \<Rightarrow> IPV6_STAT \<Rightarrow> int \<times> IPV6_STAT" where
  "v6_element wide e = ipv6_cb wide (if e = [] then None else Some (e, length e))"

lemma ipv6_cb_element:
  assumes "length e \<le> 4 \<or> rest = []"
  shows "ipv6_cb wide (if e = [] then None else Some (e @ rest, length e)) = v6_element wide e"
  using assms by (auto simp: ipv6_cb_def v6_element_def fun_eq_iff)

lemma split_at_not_Nil [simp]: "split_at sep s \<noteq> []"
  using length_split_at [of sep s] by auto

lemma parse_elements:
  assumes "\<forall>e\<in>set (butlast (split_at 58 s)). length e \<le> 4"
  shows "parse_list_loop 58 False (ipv6_cb wide) s st = visit (v6_element wide) (split_at 58 s) st"
  using assms
proof (induction "length s" arbitrary: s st rule: less_induct)
  case less
  let ?e = "takeWhile (\<lambda>c. c \<noteq> 58) s" and ?p = "dropWhile (\<lambda>c. c \<noteq> 58) s"
  note split = split_at_eq [of 58 s]
  have short: "length ?e \<le> 4 \<or> ?p = []" using less.prems split by (cases ?p) auto
  have "ipv6_cb wide (if ?e = [] then None else Some (s, length ?e)) = v6_element wide ?e"
    using ipv6_cb_element [OF short, of wide] unfolding takeWhile_dropWhile_id .
  then have step: "parse_list_loop 58 False (ipv6_cb wide) s st =
     (let (ret, st) = v6_element wide ?e st in if ret \<le> 0 then (ret, st)
      else if ?p = [] then (1, st) else parse_list_loop 58 False (ipv6_cb wide) (drop 1 ?p) st)"
    by (simp add: parse_list_loop.simps [of 58 False "ipv6_cb wide" s st] Let_def split: if_splits)
  show ?case
  proof (cases ?p)
    case Nil
    then show ?thesis unfolding step split Nil by (simp add: Let_def split: prod.split)
  next
    case (Cons c r)
    have "length r < length s" using length_dropWhile_le [of "\<lambda>c. c \<noteq> 58" s] Cons by simp
    moreover have "\<forall>e\<in>set (butlast (split_at 58 r)). length e \<le> 4"
      using less.prems unfolding split Cons by (simp split: if_splits)
    ultimately have "parse_list_loop 58 False (ipv6_cb wide) r st = visit (v6_element wide) (split_at 58 r) st" for st
      by (rule less.hyps)
    then show ?thesis unfolding step split Cons by (simp add: Let_def split: prod.split)
  qed
qed

definition groups_text :: "u16 list \<Rightarrow> u8 list list" where
  "groups_text ws = map group_text ws"

definition groups_bytes :: "u16 list \<Rightarrow> u8 list" where
  "groups_bytes ws = concat (map (\<lambda>w. be_bytes 2 (unat w)) ws)"

lemma groups_simps [simp]:
  "groups_text [] = []" "groups_text (w # ws) = group_text w # groups_text ws" "length (groups_text ws) = length ws"
  "groups_bytes [] = []" "groups_bytes (w # ws) = be_bytes 2 (unat w) @ groups_bytes ws"
  by (simp_all add: groups_text_def groups_bytes_def)

lemma length_groups_bytes [simp]: "length (groups_bytes ws) = 2 * length ws"
  by (induction ws) simp_all

lemma visit_groups:
  "length (v6_tmp st) + 2 * length ws \<le> 16 \<Longrightarrow>
   visit (v6_element wide) (groups_text ws @ es) st = visit (v6_element wide) es (st\<lparr>v6_tmp := v6_tmp st @ groups_bytes ws\<rparr>)"
proof (induction ws arbitrary: st)
  case (Cons w ws)
  have "v6_element wide (group_text w) st = (1, st\<lparr>v6_tmp := v6_tmp st @ be_bytes 2 (unat w)\<rparr>)"
    using Cons.prems group_text_chars(1,3) [of w] by (simp add: v6_element_def ipv6_cb_def ipv6_hex_group)
  then show ?case using Cons.IH [of "st\<lparr>v6_tmp := v6_tmp st @ be_bytes 2 (unat w)\<rparr>"] Cons.prems by simp
qed simp

lemma visit_gap:
  "length (v6_tmp st) < 16 \<Longrightarrow> v6_zero_pos st = - 1 \<or> v6_zero_pos st = v6_total st \<Longrightarrow>
   visit (v6_element wide) ([] # es) st =
     visit (v6_element wide) es (st\<lparr>v6_zero_pos := v6_total st, v6_zero_cnt := v6_zero_cnt st + 1\<rparr>)"
  by (cases st) (auto simp: v6_element_def ipv6_cb_def)

text \<open>The text of elements, and its elements.\<close>

fun colon_text :: "u8 list list \<Rightarrow> u8 list" where
  "colon_text [] = []"
| "colon_text [e] = e"
| "colon_text (e # es) = e @ 58 # colon_text es"

lemma split_at_whole: "58 \<notin> set a \<Longrightarrow> split_at 58 a = [a]"
  by (induction a) auto

lemma split_colon_text: "es \<noteq> [] \<Longrightarrow> \<forall>e\<in>set es. 58 \<notin> set e \<Longrightarrow> split_at 58 (colon_text es) = es"
proof (induction es rule: colon_text.induct)
  case (3 e e' es)
  then show ?case using split_at_append [of 58 e "58 # colon_text (e' # es)"] by simp
qed (simp_all add: split_at_whole)

abbreviation v6_start :: IPV6_STAT where
  "v6_start \<equiv> \<lparr>v6_tmp = [], v6_zero_pos = - 1, v6_zero_cnt = 0\<rparr>"

lemma ipv6_elements:
  assumes "es \<noteq> []" "\<forall>e\<in>set es. 58 \<notin> set e" "\<forall>e\<in>set (butlast es). length e \<le> 4"
    and "visit (v6_element wide) es v6_start = (1, st)"
  shows "ipv6_from_asc wide (colon_text es) = (if v6_zeros_ok st then Some (v6_format st) else None)"
  using parse_elements [of "colon_text es" wide v6_start] split_colon_text [OF assms(1,2)] assms(3,4)
  by (simp add: ipv6_from_asc_def CONF_parse_list_def)

lemma groups_text_elements: "e \<in> set (groups_text ws) \<Longrightarrow> 58 \<notin> set e \<and> length e \<le> 4"
  using group_text_chars by (auto simp: groups_text_def)

theorem ipv6_groups:
  assumes "length ws = 8"
  shows "ipv6_from_asc wide (colon_text (groups_text ws)) = Some (groups_bytes ws)"
proof -
  have "visit (v6_element wide) (groups_text ws) v6_start = (1, v6_start\<lparr>v6_tmp := groups_bytes ws\<rparr>)"
    using visit_groups [of v6_start ws wide "[]"] assms by simp
  then show ?thesis
    using assms groups_text_elements
    by (subst ipv6_elements [where st = "v6_start\<lparr>v6_tmp := groups_bytes ws\<rparr>"])
      (auto simp: v6_zeros_ok_def v6_format_def groups_text_def dest: in_set_butlastD)
qed

text \<open>A gap, written as two colons: one, two or three empty elements.\<close>

definition gap_elements :: "u16 list \<Rightarrow> u16 list \<Rightarrow> u8 list list" where
  "gap_elements pre post = (if pre = [] then [[]] else groups_text pre) @ [] # (if post = [] then [[]] else groups_text post)"

theorem ipv6_gap:
  assumes "length pre + length post < 8"
  shows "ipv6_from_asc wide (colon_text (gap_elements pre post)) =
    Some (groups_bytes pre @ replicate (16 - 2 * (length pre + length post)) 0 @ groups_bytes post)"
proof -
  define k where "k = (if pre = [] then 1 else 0) + 1 + (if post = [] then 1 else (0 :: int))"
  define st where "st = \<lparr>v6_tmp = groups_bytes pre @ groups_bytes post, v6_zero_pos = int (2 * length pre), v6_zero_cnt = k\<rparr>"
  have run: "visit (v6_element wide) (gap_elements pre post) v6_start = (1, st)"
    using assms visit_groups [of _ pre wide] visit_groups [of _ post wide "[]"]
    by (simp add: gap_elements_def visit_gap st_def k_def del: visit.simps(2))
  have "v6_zeros_ok st" using assms by (auto simp: v6_zeros_ok_def st_def k_def)
  moreover have "v6_format st = groups_bytes pre @ replicate (16 - 2 * (length pre + length post)) 0 @ groups_bytes post"
    by (simp add: v6_format_def st_def)
  moreover have "\<forall>e\<in>set (gap_elements pre post). 58 \<notin> set e \<and> length e \<le> 4"
    using groups_text_elements by (auto simp: gap_elements_def)
  moreover from this have "\<forall>e\<in>set (butlast (gap_elements pre post)). length e \<le> 4" by (blast dest: in_set_butlastD)
  moreover have "gap_elements pre post \<noteq> []" by (simp add: gap_elements_def)
  ultimately show ?thesis using ipv6_elements [OF _ _ _ run] by simp
qed

text \<open>Nothing is stored beyond the 16 bytes of \<open>tmp\<close>.\<close>

lemma ipv4_length: "ipv4_from_asc wide s = Some bs \<Longrightarrow> length bs = 4"
  by (auto simp: ipv4_from_asc_def split: option.splits prod.splits if_splits)

lemma ipv6_cb_room:
  assumes "length (v6_tmp st) \<le> 16" "even (length (v6_tmp st))" "ipv6_cb wide e st = (ret, st')"
  shows "length (v6_tmp st') \<le> 16 \<and> even (length (v6_tmp st'))"
proof -
  have "length (v6_tmp st) \<noteq> 16 \<Longrightarrow> length (v6_tmp st) + 2 \<le> 16" using assms(1,2) by presburger
  then show ?thesis
    using assms by (auto simp: ipv6_cb_def ipv6_hex_def dest!: ipv4_length split: if_splits option.splits)
qed

lemma visit_room:
  "length (v6_tmp st) \<le> 16 \<Longrightarrow> even (length (v6_tmp st)) \<Longrightarrow> visit (v6_element wide) es st = (ret, st')
     \<Longrightarrow> length (v6_tmp st') \<le> 16"
proof (induction es arbitrary: st)
  case (Cons e es)
  obtain r st1 where e: "v6_element wide e st = (r, st1)" by fastforce
  then have "length (v6_tmp st1) \<le> 16 \<and> even (length (v6_tmp st1))"
    using ipv6_cb_room [OF Cons.prems(1,2)] by (simp add: v6_element_def)
  then show ?case using Cons.IH [of st1] Cons.prems(3) e by (auto split: if_splits)
qed simp

section \<open>Addresses in certificates\<close>

text \<open>The printed forms of addresses of 4 and 16 bytes.\<close>

definition address_text :: "u8 list \<Rightarrow> u8 list \<Rightarrow> bool" where
  "address_text s bs \<longleftrightarrow>
     length bs = 4 \<and> s = dotted (map unat bs)
     \<or> (\<exists>ws. length ws = 8 \<and> s = colon_text (groups_text ws) \<and> bs = groups_bytes ws)
     \<or> (\<exists>pre post. length pre + length post < 8 \<and> s = colon_text (gap_elements pre post)
          \<and> bs = groups_bytes pre @ replicate (16 - 2 * (length pre + length post)) 0 @ groups_bytes post)"

lemma colon_in_text: "length es > 1 \<Longrightarrow> 58 \<in> set (colon_text es)"
  by (cases es rule: colon_text.cases) auto

lemma dotted_no_colon: "58 \<notin> set (dotted ns)"
proof (induction ns)
  case (Cons n ns)
  have "58 \<notin> set (decimal n)" using decimal_chars [of n] by (auto simp: is_decimal_def)
  then show ?case using Cons by simp
qed simp

theorem address_read:
  assumes "address_text s bs"
  shows "a2i_ipadd wide s = Some bs"
proof -
  consider "length bs = 4" "s = dotted (map unat bs)"
    | ws where "length ws = 8" "s = colon_text (groups_text ws)" "bs = groups_bytes ws"
    | pre post where "length pre + length post < 8" "s = colon_text (gap_elements pre post)"
        "bs = groups_bytes pre @ replicate (16 - 2 * (length pre + length post)) 0 @ groups_bytes post"
    using assms unfolding address_text_def by blast
  then show ?thesis
  proof cases
    case 1
    then show ?thesis using ipv4_dotted [of bs "[]" wide] dotted_no_colon by (simp add: a2i_ipadd_def ends_number_def)
  next
    case 2
    then have "58 \<in> set s" by (simp add: colon_in_text)
    then show ?thesis using 2 ipv6_groups [of ws wide] by (simp add: a2i_ipadd_def)
  next
    case 3
    then have "58 \<in> set s" by (simp add: colon_in_text gap_elements_def)
    then show ?thesis using 3 ipv6_gap [of pre post wide] by (simp add: a2i_ipadd_def)
  qed
qed

theorem check_ip_alt_names:
  assumes "x509_alt_names x = Some gens" and "\<forall>gen\<in>set gens. as_length (gen_string gen) \<ge> 0 \<and>
      (\<forall>d. as_data (gen_string gen) = Some d \<longrightarrow> as_length (gen_string gen) \<le> int (length d))"
  shows "fst (do_x509_check os x addr flags GEN_IPADD want) =
    (if \<exists>gen\<in>set gens. name_matches GEN_IPADD V_ASN1_OCTET_STRING (\<lambda>name. name = addr) gen then 1 else 0)"
proof -
  define fl where "fl = flags AND NOT X509_CHECK_FLAG_DOT_SUBDOMAINS"
  let ?names = "map gen_string (filter (\<lambda>gen. gen_type gen = GEN_IPADD) gens)"
  have "do_x509_check os x addr flags GEN_IPADD want =
    check_strings (\<lambda>a. do_check_string os a V_ASN1_OCTET_STRING equal_case fl GEN_IPADD addr want) ?names"
    unfolding do_x509_check_def fl_def [symmetric] Let_def using assms(1) by (simp add: GEN_DNS_def GEN_EMAIL_def GEN_IPADD_def)
  also have "fst \<dots> = (if \<exists>a\<in>set ?names.
      as_data a \<noteq> None \<and> as_length a \<noteq> 0 \<and> as_type a = V_ASN1_OCTET_STRING \<and> string_bytes a = addr then 1 else 0)"
  proof (rule check_strings_positive)
    fix a assume "a \<in> set ?names"
    then have "as_length a \<ge> 0" "\<forall>d. as_data a = Some d \<longrightarrow> as_length a \<le> int (length d)" using assms(2) by auto
    then show "fst (do_check_string os a V_ASN1_OCTET_STRING equal_case fl GEN_IPADD addr want) =
      (if as_data a \<noteq> None \<and> as_length a \<noteq> 0 \<and> as_type a = V_ASN1_OCTET_STRING \<and> string_bytes a = addr then 1 else 0)"
      by (auto simp: do_check_string_def V_ASN1_OCTET_STRING_def V_ASN1_IA5STRING_def string_bytes_def Let_def)
  qed
  finally show ?thesis by (simp add: name_matches_def) auto
qed

section \<open>Hexadecimal strings\<close>

lemma hexdig_nibble: "k < 16 \<Longrightarrow> hex_nibble (hexdig ! k) = Some (of_nat k) \<and> hexdig ! k \<noteq> 58 \<and> hexdig ! k \<noteq> 0"
proof -
  assume "k < 16"
  then have "k = 0 \<or> k = 1 \<or> k = 2 \<or> k = 3 \<or> k = 4 \<or> k = 5 \<or> k = 6 \<or> k = 7 \<or> k = 8 \<or> k = 9 \<or> k = 10 \<or> k = 11
      \<or> k = 12 \<or> k = 13 \<or> k = 14 \<or> k = 15" by presburger
  then show ?thesis by (elim disjE; simp add: hexdig_def hex_nibble_def)
qed

lemma nibbles: "push_bit 4 (of_nat (unat (drop_bit 4 p AND 0xf))) OR of_nat (unat (p AND 0xf)) = (p :: u8)"
proof -
  have "unat (drop_bit 4 p AND 0xf) = unat p div 16" "unat (p AND 0xf) = unat p mod 16"
    using unat_and_mask [of "0xf" 4 p] unat_and_mask [of "0xf" 4 "drop_bit 4 p"] unat_u8_less [of p]
    by (simp_all add: byte_simps mask_eq_exp_minus_1)
  moreover have "unat (push_bit 4 (of_nat (unat p div 16)) OR of_nat (unat p mod 16) :: u8) = unat p"
  proof -
    have d: "unat p div 16 < 16" by (rule less_mult_imp_div_less) simp
    then have "unat (of_nat (unat p div 16) :: u8) = unat p div 16" "unat (of_nat (unat p mod 16) :: u8) = unat p mod 16"
      by (simp_all add: unat_of_nat_u8_id)
    then show ?thesis using d by (subst unat_push_or) simp_all
  qed
  ultimately show ?thesis by (simp only: word_unat_eq_iff)
qed

definition hex_pair :: "u8 \<Rightarrow> u8 list" where
  "hex_pair p = [hexdig ! unat (drop_bit 4 p AND 0xf), hexdig ! unat (p AND 0xf)]"

lemma hex_pair_read: "hex_to_bytes_loop (hex_pair p @ s) = map_option ((#) p) (hex_to_bytes_loop s)"
proof -
  have "unat (drop_bit 4 p AND 0xf) < 16" "unat (p AND 0xf) < 16"
    using unat_and_mask [of "0xf" 4 p] unat_and_mask [of "0xf" 4 "drop_bit 4 p"] by (simp_all add: mask_eq_exp_minus_1)
  then show ?thesis using hexdig_nibble nibbles [of p] by (simp add: hex_pair_def del: of_nat_unat)
qed

theorem hex_round_trip:
  assumes "buffer \<noteq> []" "malloc_ok os (length buffer * 3 + 1)"
  shows "\<exists>s. x509v3_bytes_to_hex os buffer = Some (s @ [0]) \<and> hex_to_bytes_loop s = Some buffer \<and> length s = 3 * length buffer - 1"
proof -
  let ?s = "butlast (concat (map (\<lambda>p. hex_pair p @ [58]) buffer))"
  have "hex_to_bytes_loop (butlast (concat (map (\<lambda>p. hex_pair p @ [58]) ps))) = Some ps
    \<and> length (concat (map (\<lambda>p. hex_pair p @ [58]) ps)) = 3 * length ps" for ps
  proof (induction ps)
    case (Cons p ps)
    show ?case
    proof (cases "ps = []")
      case True
      then show ?thesis using hex_pair_read [of p "[]"] by (simp add: butlast_append) (simp add: hex_pair_def)
    next
      case False
      then have "concat (map (\<lambda>p. hex_pair p @ [58]) ps) \<noteq> []" by (cases ps) simp_all
      then show ?thesis
        using Cons hex_pair_read [of p "58 # butlast (concat (map (\<lambda>p. hex_pair p @ [58]) ps))"]
        by (simp add: butlast_append) (simp add: hex_pair_def)
    qed
  qed simp
  then have "hex_to_bytes_loop ?s = Some buffer" "length ?s = 3 * length buffer - 1" by simp_all
  moreover have "x509v3_bytes_to_hex os buffer = Some (?s @ [0])"
    using assms by (simp add: x509v3_bytes_to_hex_def hex_pair_def)
  ultimately show ?thesis by blast
qed

text \<open>The block of half the text's length is enough.\<close>

lemma hex_to_bytes_fits: "hex_to_bytes_loop s = Some bs \<Longrightarrow> length bs \<le> length s div 2"
proof (induction s arbitrary: bs rule: hex_to_bytes_loop.induct)
  case (2 ch s)
  then show ?case by (cases s) (fastforce split: if_splits option.splits)+
qed simp

end
