(* ===== verification/AsnTimeSpec.thy ===== *)
theory AsnTimeSpec
  imports AsnTime
begin

text \<open>
  The strings the writers of \<open>AsnTime\<close> print are read back as the moment they stand for, so
  the differences and comparisons of such strings are those of the moments, and a UTCTime is
  unchanged by its conversion to GeneralizedTime.
\<close>

section \<open>Printed numbers\<close>

fun padded :: "nat \<Rightarrow> nat \<Rightarrow> u8 list" where
  "padded 0 n = []"
| "padded (Suc w) n = padded w (n div 10) @ [of_nat (48 + n mod 10)]"

lemma padded_0: "padded w 0 = replicate w 48"
  by (induction w) (simp_all add: replicate_append_same)

lemma padded_decimal: "0 < w \<Longrightarrow> n < 10 ^ w \<Longrightarrow> replicate (w - length (decimal n)) 48 @ decimal n = padded w n"
proof (induction w arbitrary: n)
  case (Suc w)
  show ?case
  proof (cases "n < 10")
    case True
    then show ?thesis by (simp add: decimal_small padded_0)
  next
    case False
    then have "0 < w" "n div 10 < 10 ^ w" using Suc.prems(2) by (auto intro: gr0I)
    then have "replicate (w - length (decimal (n div 10))) 48 @ decimal (n div 10) = padded w (n div 10)" by (rule Suc.IH)
    then show ?thesis using False by (simp add: decimal.simps [of n])
  qed
qed simp

lemma fmt_d_padded: "0 < w \<Longrightarrow> n < 10 ^ w \<Longrightarrow> fmt_d w (int n) = padded w n"
  using padded_decimal [of w n] by (simp add: fmt_d_def)

lemma fmt_d_4:
  assumes "0 \<le> y" "y \<le> 9999"
  shows "fmt_d 4 y = digit_pair (nat (y div 100)) @ digit_pair (nat (y mod 100))"
proof -
  have four: "4 = Suc (Suc (Suc (Suc 0)))" by simp
  define n where "n = nat y"
  have n: "y = int n" "n < 10 ^ 4" using assms by (simp_all add: n_def nat_less_iff)
  have "n div 10 div 10 div 10 mod 10 = n div 100 div 10" using n(2) by (simp add: div_mult2_eq [symmetric])
  moreover have "n div 10 div 10 mod 10 = n div 100 mod 10" by (simp add: div_mult2_eq [symmetric])
  moreover have "n div 10 mod 10 = n mod 100 div 10" "n mod 10 = n mod 100 mod 10"
  proof -
    have n100: "n mod 100 = 10 * (n div 10 mod 10) + n mod 10" using mod_mult2_eq [of n 10 10] by simp
    have div10: "(10 * a + b) div 10 = a" if "b < 10" for a b :: nat using that by simp
    show "n div 10 mod 10 = n mod 100 div 10" unfolding n100 by (rule div10 [symmetric]) simp
    show "n mod 10 = n mod 100 mod 10" by (simp add: mod_mod_cancel)
  qed
  moreover have "nat (y div 100) = n div 100" "nat (y mod 100) = n mod 100"
    unfolding n(1) by (simp_all add: nat_div_distrib nat_mod_distrib)
  ultimately show ?thesis
    unfolding n(1) fmt_d_padded [OF zero_less_numeral n(2)]
    by (simp only: four padded.simps append.simps digit_pair_def)
qed

section \<open>The moments of a structure\<close>

abbreviation epoch_day :: int where "epoch_day \<equiv> 2440588"

lemma tm_seconds_inj:
  assumes a: "valid_tm a" and b: "valid_tm b" and eq: "tm_seconds a = tm_seconds b"
  shows "a = b"
proof -
  have tod: "0 \<le> time_of_day a" "time_of_day a < 86400" "0 \<le> time_of_day b" "time_of_day b < 86400"
    using time_of_day_range a b by auto
  note same = days_and_seconds [OF eq [unfolded tm_seconds_def] tod]
  have "(tm_year a + 1900, tm_mon a + 1, tm_mday a) = (tm_year b + 1900, tm_mon b + 1, tm_mday b)"
    using julian_to_date_inverse a b same(1) unfolding valid_tm_def tm_day_def by metis
  moreover have hm: "tm_hour a * 60 + tm_min a = tm_hour b * 60 + tm_min b" "tm_sec a = tm_sec b"
    using digits_unique [of "tm_hour a * 60 + tm_min a" 60 "tm_sec a" "tm_hour b * 60 + tm_min b" "tm_sec b"] same(2) a b
    by (simp_all add: time_of_day_def valid_tm_def)
  moreover have "tm_hour a = tm_hour b" "tm_min a = tm_min b"
    using digits_unique [OF hm(1)] a b by (simp_all add: valid_tm_def)
  ultimately show ?thesis by simp
qed

lemma gmtime_iff:
  assumes "0 \<le> t div SECS_PER_DAY + epoch_day"
  shows "OPENSSL_gmtime t = Some ts \<longleftrightarrow>
    valid_tm ts \<and> tm_year ts < 2 ^ 31 \<and> tm_seconds ts = t + epoch_day * SECS_PER_DAY"
proof -
  define s jd where "s = t mod 86400" and "jd = t div 86400 + epoch_day"
  have s: "0 \<le> s" "s < 86400" by (simp_all add: s_def)
  have t: "t + epoch_day * 86400 = jd * 86400 + s" by (simp add: s_def jd_def)
  have jd: "0 \<le> jd" using assms by (simp add: jd_def)
  obtain y m d where date: "julian_to_date jd = (y, m, d)"
    and v: "valid_date y m d" "- 4799 \<le> y" "date_to_julian y m d = jd"
  proof -
    have "date_to_julian (- 4799) 1 1 \<le> jd"
      using jd by (simp add: date_to_julian_gregorian gregorian_day_def leap_days_def)
    from every_day [OF this] show thesis using julian_to_date_inverse that by blast
  qed
  define r where "r = \<lparr>tm_sec = s mod 60, tm_min = s div 60 mod 60, tm_hour = s div 3600,
    tm_mday = d, tm_mon = m - 1, tm_year = y - 1900\<rparr>"
  note parts = split_seconds [OF s]
  have "s sdiv 3600 = s div 3600" "(s sdiv 60) smod 60 = s div 60 mod 60" "s smod 60 = s mod 60"
    using s by (simp_all add: sdiv_pos smod_pos pos_imp_zdiv_nonneg_iff)
  note parts = parts [unfolded this]
  have r: "valid_tm r" "tm_seconds r = t + epoch_day * 86400"
    unfolding t using v parts by (simp_all add: r_def valid_tm_def tm_seconds_def tm_day_def time_of_day_def)
  have "OPENSSL_gmtime t = (if y - 1900 < - (2 ^ 31) \<or> y - 1900 \<ge> 2 ^ 31 then None else Some r)"
    unfolding OPENSSL_gmtime_def Let_def jd_def [symmetric] s_def [symmetric] date r_def prod.case ..
  also have "\<dots> = (if tm_year r \<ge> 2 ^ 31 then None else Some r)" using v(2) by (simp add: r_def)
  finally show ?thesis using r tm_seconds_inj [of ts r] by auto
qed

text \<open>The moment \<open>t\<close> seconds after 1970 moved by the offsets.\<close>

lemma adjusted_eq:
  assumes now: "0 \<le> t div SECS_PER_DAY + epoch_day" "OPENSSL_gmtime t \<noteq> None"
    and fits: "\<bar>offset_sec\<bar> < 2 ^ 47"
    and ts: "valid_tm ts" "0 \<le> tm_year ts" "tm_year ts \<le> 8099"
    and sum: "tm_seconds ts = t + epoch_day * SECS_PER_DAY + offset_day * SECS_PER_DAY + offset_sec"
  shows "adjusted t offset_day offset_sec = Some ts"
proof -
  obtain base where base: "OPENSSL_gmtime t = Some base" using now(2) by blast
  then have b: "valid_tm base" "tm_seconds base = t + epoch_day * 86400" using gmtime_iff [OF now(1)] by auto
  have q: "- (2 ^ 31) \<le> offset_sec sdiv 86400" "offset_sec sdiv 86400 < 2 ^ 31"
  proof -
    have "offset_sec < 140737488355328" "- 140737488355328 < offset_sec" using fits by (simp_all add: abs_less_iff)
    moreover have "(2::int) ^ 31 = 2147483648" by simp
    ultimately show "- (2 ^ 31) \<le> offset_sec sdiv 86400" "offset_sec sdiv 86400 < 2 ^ 31"
      using truncated_rest [of offset_sec] by linarith+
  qed
  show ?thesis
  proof (cases "offset_day \<noteq> 0 \<or> offset_sec \<noteq> 0")
    case True
    then show ?thesis
      using gmtime_adj_iff [OF b(1) q, of offset_day ts] ts sum b(2) base
      by (simp add: adjusted_def)
  next
    case False
    then have "OPENSSL_gmtime t = Some ts" using gmtime_iff [OF now(1), of ts] ts sum by simp
    then show ?thesis using False by (simp add: adjusted_def)
  qed
qed

section \<open>What is printed is read back\<close>

lemma digit_pair_nonzero: "n < 100 \<Longrightarrow> 0 \<notin> set (digit_pair n)"
proof -
  assume "n < 100"
  then have "n div 10 < 10" "n mod 10 < 10" by simp_all
  then have "is_decimal (of_nat (48 + n div 10))" "is_decimal (of_nat (48 + n mod 10))" by (blast intro: digit_byte(2))+
  moreover have "\<not> is_decimal 0" by (simp add: is_decimal_def)
  ultimately show ?thesis unfolding digit_pair_def by auto
qed

lemma digits_of_nonzero: "in_bounds mins maxs i ns \<Longrightarrow> 0 \<notin> set (digits_of ns)"
  by (induction ns arbitrary: i) (auto dest: digit_pair_nonzero)

lemma print_time_shape:
  assumes "malloc_ok os 20" "length txt < 20" "0 \<notin> set txt"
  shows "\<exists>rest. print_time os junk s type' txt =
    Some \<lparr>as_length = int (length txt), as_type = type', as_data = Some (txt @ 0 # rest)\<rparr>"
proof -
  obtain p where p: "time_block os junk 20 s = Some p"
    using assms(1) that by (cases "time_block os junk 20 s") (auto simp: time_block_def split: if_splits)
  have "takeWhile (\<lambda>c. c \<noteq> 0) (txt @ 0 # drop 20 p) = txt" for p
    using assms(3) by (subst takeWhile_append2) auto
  then have "strlen (txt @ 0 # rest) = length txt" for rest :: "u8 list"
    using assms(3) by (simp add: strlen_def takeWhile_tail)
  then show ?thesis
    using p assms(2) by (intro exI [of _ "drop (length txt + 1) p"]) (simp add: print_time_def snprintf_into_def Let_def)
qed

definition utc_text :: "tm \<Rightarrow> u8 list" where
  "utc_text ts = digits_of (utc_numbers ts) @ [90]"

definition gen_text :: "tm \<Rightarrow> u8 list" where
  "gen_text ts = digits_of (gen_numbers ts) @ [90]"

lemma utc_text_printed:
  assumes "valid_tm ts" "50 \<le> tm_year ts" "tm_year ts < 150"
  shows "fmt_d 2 (tm_year ts smod 100) @ fmt_fields ts = utc_text ts" "length (utc_text ts) = 13" "0 \<notin> set (utc_text ts)"
  using fmt_d_2 [of "nat (tm_year ts mod 100)"] assms digits_of_nonzero [OF utc_numbers_read(1) [OF assms]]
  by (simp_all add: utc_text_def utc_numbers_def fmt_fields_digits smod_pos nat_less_iff)

lemma gen_text_printed:
  assumes "valid_tm ts" "0 \<le> tm_year ts + 1900" "tm_year ts + 1900 \<le> 9999"
  shows "fmt_d 4 (tm_year ts + 1900) @ fmt_fields ts = gen_text ts" "length (gen_text ts) = 15" "0 \<notin> set (gen_text ts)"
  using digits_of_nonzero [OF gen_numbers_read(1) [OF assms]]
  by (simp_all only: gen_text_def gen_numbers_def fmt_fields_digits [OF assms(1)] fmt_d_4 [OF assms(2,3)]) simp_all

lemma utc_text_read:
  assumes ts: "valid_tm ts" "50 \<le> tm_year ts" "tm_year ts < 150"
    and d: "as_type d = V_ASN1_UTCTIME" "as_length d = 13" "as_data d = Some (utc_text ts @ rest)"
  shows "asn1_utctime_to_tm tm d = (True, map_option (\<lambda>_. ts) tm)"
proof -
  have a: "time_bytes d = digits_of (utc_numbers ts) @ 90 # rest" using d(3) by (simp add: time_bytes_def utc_text_def)
  have n: "length (utc_numbers ts) = 6" by (simp add: utc_numbers_def)
  have "utc_fields (time_bytes d) 13 0 0 tm = (Some 12, map_option (set_fields utc_set 0 (utc_numbers ts)) tm)"
    using all_fields_digits [OF utc_numbers_read(1) [OF ts] n, of 13] by (simp add: utc_fields_def a)
  also have "set_fields utc_set 0 (utc_numbers ts) = (\<lambda>_. ts)" using utc_numbers_read(2) [OF ts] by (rule ext)
  finally show ?thesis
    using d(1,2) byte_at_append(1) [of "digits_of (utc_numbers ts)" 90 rest] n
    by (simp add: asn1_utctime_to_tm_def a Let_def)
qed

lemma gen_text_read:
  assumes ts: "valid_tm ts" "0 \<le> tm_year ts + 1900" "tm_year ts + 1900 \<le> 9999"
    and d: "as_type d = V_ASN1_GENERALIZEDTIME" "as_length d = 15" "as_data d = Some (gen_text ts @ rest)"
  shows "asn1_generalizedtime_to_tm tm d = (True, map_option (\<lambda>_. ts) tm)"
proof -
  have a: "time_bytes d = digits_of (gen_numbers ts) @ 90 # rest" using d(3) by (simp add: time_bytes_def gen_text_def)
  have n: "length (gen_numbers ts) = 7" by (simp add: gen_numbers_def)
  have "gen_fields (time_bytes d) 15 0 0 tm = (Some 14, map_option (set_fields gen_set 0 (gen_numbers ts)) tm)"
    using all_fields_digits [OF gen_numbers_read(1) [OF ts] n, of 15] by (simp add: gen_fields_def a)
  also have "set_fields gen_set 0 (gen_numbers ts) = (\<lambda>_. ts)" using gen_numbers_read(2) [OF ts] by (rule ext)
  finally show ?thesis
    using d(1,2) byte_at_append(1) [of "digits_of (gen_numbers ts)" 90 rest] n
    by (simp add: asn1_generalizedtime_to_tm_def skip_fraction_def a Let_def)
qed

text \<open>\<open>ASN1_TIME_adj\<close> picks the form by the year, and the reader finds the moment again.\<close>

lemma time_adj_read:
  assumes now: "0 \<le> t div SECS_PER_DAY + epoch_day" "OPENSSL_gmtime t \<noteq> None"
    and fits: "\<bar>offset_sec\<bar> < 2 ^ 47" and heap: "malloc_ok os sizeof_ASN1_STRING" "malloc_ok os 20"
    and ts: "valid_tm ts" "0 \<le> tm_year ts" "tm_year ts \<le> 8099"
    and sum: "tm_seconds ts = t + epoch_day * SECS_PER_DAY + offset_day * SECS_PER_DAY + offset_sec"
  obtains s' where "ASN1_TIME_adj os junk s t offset_day offset_sec = Some s'"
    "as_type s' = (if tm_year ts \<ge> 50 \<and> tm_year ts < 150 then V_ASN1_UTCTIME else V_ASN1_GENERALIZEDTIME)"
    "\<And>now' tm. asn1_time_to_tm now' tm (Some s') = (True, map_option (\<lambda>_. ts) tm)"
proof -
  note adj = adjusted_eq [OF now fits ts sum]
  obtain s0 where s0: "(case s of None \<Rightarrow> ASN1_STRING_type_new os V_ASN1_UTCTIME | Some s \<Rightarrow> Some s) = Some s0"
    using heap(1) by (cases s) (auto simp: ASN1_STRING_type_new_def)
  obtain s1 where s1: "(case s of None \<Rightarrow> ASN1_STRING_type_new os V_ASN1_GENERALIZEDTIME | Some s \<Rightarrow> Some s) = Some s1"
    using heap(1) by (cases s) (auto simp: ASN1_STRING_type_new_def)
  show thesis
  proof (cases "50 \<le> tm_year ts \<and> tm_year ts < 150")
    case True
    then have y: "50 \<le> tm_year ts" "tm_year ts < 150" by simp_all
    note printed = utc_text_printed [OF ts(1) y]
    obtain rest where p: "print_time os junk s0 V_ASN1_UTCTIME (utc_text ts) =
        Some \<lparr>as_length = int (length (utc_text ts)), as_type = V_ASN1_UTCTIME, as_data = Some (utc_text ts @ 0 # rest)\<rparr>"
      using print_time_shape [OF heap(2) _ printed(3)] printed(2) by simp blast
    show thesis
      using True p utc_text_read [OF ts(1) y]
      by (intro that [of "\<lparr>as_length = int (length (utc_text ts)), as_type = V_ASN1_UTCTIME, as_data = Some (utc_text ts @ 0 # rest)\<rparr>"])
        (simp_all add: ASN1_TIME_adj_def adj ASN1_UTCTIME_adj_def s0 printed(1,2) asn1_time_to_tm_def)
  next
    case False
    have y: "0 \<le> tm_year ts + 1900" "tm_year ts + 1900 \<le> 9999" using ts by simp_all
    note printed = gen_text_printed [OF ts(1) y]
    obtain rest where p: "print_time os junk s1 V_ASN1_GENERALIZEDTIME (gen_text ts) =
        Some \<lparr>as_length = int (length (gen_text ts)), as_type = V_ASN1_GENERALIZEDTIME, as_data = Some (gen_text ts @ 0 # rest)\<rparr>"
      using print_time_shape [OF heap(2) _ printed(3)] printed(2) by simp blast
    show thesis
      using False p gen_text_read [OF ts(1) y]
      by (intro that [of "\<lparr>as_length = int (length (gen_text ts)), as_type = V_ASN1_GENERALIZEDTIME, as_data = Some (gen_text ts @ 0 # rest)\<rparr>"])
        (auto simp: ASN1_TIME_adj_def adj ASN1_GENERALIZEDTIME_adj_def s1 printed(1,2)
        asn1_time_to_tm_def V_ASN1_UTCTIME_def V_ASN1_GENERALIZEDTIME_def)
  qed
qed

section \<open>Differences and comparisons\<close>

lemma day_of_seconds: "valid_tm a \<Longrightarrow> tm_seconds a div SECS_PER_DAY = tm_day a"
  using time_of_day_range [of a] by (simp add: tm_seconds_def)

lemma valid_tm_day: "valid_tm a \<Longrightarrow> 0 \<le> tm_year a \<Longrightarrow> 0 \<le> tm_day a"
  using day_number_nonneg [of "tm_year a + 1900" "tm_mon a + 1" "tm_mday a"] by (simp add: valid_tm_def tm_day_def)

text \<open>Days of the years 1900 to 9999.\<close>

lemma tm_day_bound: "valid_tm a \<Longrightarrow> tm_year a \<le> 8099 \<Longrightarrow> tm_day a < 2 ^ 31"
proof -
  assume v: "valid_tm a" and y: "tm_year a \<le> 8099"
  define Y where "Y = tm_year a + 1900"
  define M where "M = tm_mon a + 1"
  have "1 \<le> M" "M \<le> 12" "tm_mday a \<le> 31" "Y \<le> 9999" "- 4799 \<le> Y"
    using v y month_length_pos(2) [of Y M] by (simp_all add: valid_tm_def valid_date_def Y_def M_def)
  moreover have "days_before_month Y k \<le> 31 * int k" for k
    using month_length_pos(2) [of Y] by (induction k) (simp_all add: add.commute [of 31] add_mono)
  from this [of "nat (M - 1)"] have "days_before_month Y (nat (M - 1)) \<le> 31 * 11"
    using \<open>1 \<le> M\<close> \<open>M \<le> 12\<close> by simp
  moreover have "leap_days (Y - 1) \<le> 9998 div 4 - (- 4800) div 100 + 9998 div 400"
    unfolding leap_days_def using \<open>Y \<le> 9999\<close> \<open>- 4799 \<le> Y\<close>
    by (intro add_mono diff_mono zdiv_mono1) simp_all
  moreover have "tm_day a = gregorian_day Y M (tm_mday a) + 1721425"
    using date_to_julian_gregorian \<open>1 \<le> M\<close> \<open>M \<le> 12\<close> \<open>- 4799 \<le> Y\<close> by (simp add: tm_day_def Y_def M_def)
  ultimately show ?thesis by (simp add: gregorian_day_def)
qed

lemma time_diff_exact:
  assumes a: "valid_tm a" "0 \<le> tm_year a" "tm_year a \<le> 8099" and b: "valid_tm b" "0 \<le> tm_year b" "tm_year b \<le> 8099"
    and read: "asn1_time_to_tm now (Some blank_tm) s = (True, Some a)" "asn1_time_to_tm now (Some blank_tm) s' = (True, Some b)"
  obtains days secs where "ASN1_TIME_diff now s s' = Some (days, secs)"
    "days * SECS_PER_DAY + secs = tm_seconds b - tm_seconds a" "\<bar>secs\<bar> < SECS_PER_DAY"
    "0 < days \<Longrightarrow> 0 \<le> secs" "days < 0 \<Longrightarrow> secs \<le> 0"
proof -
  have "0 \<le> tm_day a" "tm_day a < 2 ^ 31" "0 \<le> tm_day b" "tm_day b < 2 ^ 31"
    using valid_tm_day tm_day_bound a b by blast+
  then have "\<bar>tm_day b - tm_day a\<bar> < 2 ^ 31" by linarith
  from gmtime_diff_result [OF a(1) \<open>0 \<le> tm_day a\<close> b(1) \<open>0 \<le> tm_day b\<close> this] show thesis
    using that read by (simp add: ASN1_TIME_diff_def) blast
qed

text \<open>The sign of the difference is that of its larger part that is not 0.\<close>

lemma diff_sign:
  fixes days secs :: int
  assumes "days * 86400 + secs = n" "\<bar>secs\<bar> < 86400" "0 < days \<Longrightarrow> 0 \<le> secs" "days < 0 \<Longrightarrow> secs \<le> 0"
  shows "(if days > 0 then 1 else if days < 0 then - 1 else if secs > 0 then 1 else if secs < 0 then - 1 else 0) = sgn n"
  using assms by (auto simp: sgn_if)

lemma cmp_time_exact:
  assumes a: "valid_tm a" "0 \<le> tm_year a" "tm_year a \<le> 8099" and read: "asn1_utctime_to_tm (Some blank_tm) s = (True, Some a)"
    and now: "0 \<le> t div SECS_PER_DAY + epoch_day" "t div SECS_PER_DAY + epoch_day < 2 ^ 31" "OPENSSL_gmtime t \<noteq> None"
  shows "ASN1_UTCTIME_cmp_time_t s t = sgn (tm_seconds a - (t + epoch_day * SECS_PER_DAY))"
proof -
  obtain b where b: "OPENSSL_gmtime t = Some b" using now(3) by blast
  then have v: "valid_tm b" "tm_seconds b = t + epoch_day * 86400" using gmtime_iff [OF now(1)] by auto
  have "tm_day b = t div 86400 + epoch_day"
    using day_of_seconds [OF v(1)] by (simp only: v(2) div_shift [of 86400 t epoch_day, simplified])
  then have day: "0 \<le> tm_day b" "tm_day b < 2 ^ 31" using now by simp_all
  have "0 \<le> tm_day a" "tm_day a < 2 ^ 31" using valid_tm_day tm_day_bound a by blast+
  then have "\<bar>tm_day a - tm_day b\<bar> < 2 ^ 31" using day by linarith
  from gmtime_diff_result [OF v(1) day(1) a(1) \<open>0 \<le> tm_day a\<close> this] obtain days secs where
    diff: "OPENSSL_gmtime_diff b a = Some (days, secs)" "days * 86400 + secs = tm_seconds a - tm_seconds b"
      "\<bar>secs\<bar> < 86400" "0 < days \<Longrightarrow> 0 \<le> secs" "days < 0 \<Longrightarrow> secs \<le> 0" by blast
  show ?thesis
    using diff_sign [OF diff(2-5)] by (simp only: ASN1_UTCTIME_cmp_time_t_def read b diff(1) prod.case bool.case option.case v(2))
qed

section \<open>A UTCTime as a GeneralizedTime\<close>

lemma byte_at_2: "byte_at (c # c' # a) (pos + 2) = byte_at a pos"
  by (simp add: byte_at_def)

lemma two_digits_2: "two_digits (c # c' # a) (len + 2) (pos + 2) = two_digits a len pos"
  using byte_at_2 [of c c' a "pos + 1"] by (simp add: two_digits_def byte_at_2 [simplified])

lemma time_fields_2:
  "1 \<le> i \<Longrightarrow> time_fields 7 gen_min gen_max gen_set (c # c' # a) (len + 2) (i + 1) (pos + 2) tm =
    apfst (map_option (\<lambda>p. p + 2)) (time_fields 6 utc_min utc_max utc_set a len i pos tm)"
proof (induction "6 - i" arbitrary: i pos tm)
  case 0
  then show ?case by (simp add: time_fields.simps [of 6] time_fields.simps [of 7])
next
  case (Suc k)
  then have i: "i = 1 \<or> i = 2 \<or> i = 3 \<or> i = 4 \<or> i = 5" by auto
  have tables: "gen_min ! (i + 1) = utc_min ! i" "gen_max ! (i + 1) = utc_max ! i" "gen_set (i + 1) = utc_set i"
    using i by (auto simp: gen_min_def utc_min_def gen_max_def utc_max_def gen_set_def utc_set_def fun_eq_iff)
  have next': "time_fields 7 gen_min gen_max gen_set (c # c' # a) (len + 2) (i + 1 + 1) (pos + 2 + 2) tm' =
    apfst (map_option (\<lambda>p. p + 2)) (time_fields 6 utc_min utc_max utc_set a len (i + 1) (pos + 2) tm')" for tm'
    using Suc.hyps(1) [of "i + 1" "pos + 2" tm'] Suc.hyps(2) by simp
  show ?case
    unfolding time_fields.simps [of 6 _ _ _ a len i pos tm] time_fields.simps [of 7 _ _ _ _ _ "i + 1" "pos + 2" tm]
      byte_at_2 two_digits_2 tables next'
    using i by (cases "two_digits a len pos") auto
qed

lemma time_fields_position: "fst (time_fields nf mins maxs f a len i pos tm) = fst (time_fields nf mins maxs f a len i pos None)"
proof (induction nf mins maxs f a len i pos tm rule: time_fields.induct)
  case (1 nf mins maxs f a len i pos tm)
  show ?case
    unfolding time_fields.simps [of nf mins maxs f a len i pos tm] time_fields.simps [of nf mins maxs f a len i pos None]
    using 1 by (cases "two_digits a len pos") auto
qed

lemma zone_offset_2: "zone_offset gen_min gen_max 7 (c # c' # a) (len + 2) (pos + 2) given =
    map_option (apfst (\<lambda>p. p + 2)) (zone_offset utc_min utc_max 6 a len pos given)"
proof -
  have at: "byte_at (c # c' # a) (Suc (Suc p)) = byte_at a p" for p by (simp add: byte_at_def)
  have "zone_digits (c # c' # a) l h (Suc (Suc p)) = zone_digits a l h p" for l h p by (simp add: zone_digits_def at)
  then show ?thesis
    by (simp add: zone_offset_def at Let_def gen_min_def gen_max_def utc_min_def utc_max_def split: option.split)
qed

lemma finish_time_2: "finish_time (len + 2) (map_option (apfst (\<lambda>p. p + 2)) zone) tm = finish_time len zone tm"
  by (simp add: finish_time_def split: option.split)

definition century :: "u8 list \<Rightarrow> u8 \<times> u8" where
  "century a = (if byte_at a 0 \<ge> 53 then (49, 57) else (50, 48))"

lemma first_year:
  assumes "two_digits a len 0 = Some n"
  shows "0 \<le> n" "n \<le> 99" "53 \<le> byte_at a 0 \<longleftrightarrow> 50 \<le> n"
proof -
  define b c where "b = int (unat (byte_at a 0))" and "c = int (unat (byte_at a 1))"
  have r: "48 \<le> b" "b \<le> 57" "48 \<le> c" "c \<le> 57" "n = (b - 48) * 10 + c - 48"
    using assms by (auto simp: two_digits_def is_decimal_def word_le_def b_def c_def split: if_splits)
  show "0 \<le> n" "n \<le> 99" using r by simp_all
  have "53 \<le> byte_at a 0 \<longleftrightarrow> 53 \<le> b" by (simp add: word_le_def b_def)
  then show "53 \<le> byte_at a 0 \<longleftrightarrow> 50 \<le> n" using r by auto
qed

lemma gen_fields_utc:
  assumes "century a = (c, c')" "fst (utc_fields a len 0 0 tm) = Some pos"
  shows "gen_fields (c # c' # a) (len + 2) 0 0 tm = apfst (map_option (\<lambda>p. p + 2)) (utc_fields a len 0 0 tm)"
proof -
  obtain n where n: "two_digits a len 0 = Some n"
    using assms(2) by (auto simp: utc_fields_def time_fields.simps [of 6 _ _ _ a len 0 0] split: option.splits)
  note n' = first_year [OF n]
  have cc: "two_digits (c # c' # a) (len + 2) 0 = Some (if 50 \<le> n then 19 else 20)"
    using assms(1) n'(3) by (auto simp: century_def two_digits_def is_decimal_def byte_at_def split: if_splits)
  have year: "gen_set 1 n (gen_set 0 (if 50 \<le> n then 19 else 20) t) = utc_set 0 n t" for t
    by (simp add: gen_set_def utc_set_def)
  have tables: "gen_min ! 0 = 0" "gen_max ! 0 = 99" "gen_min ! 1 = 0" "gen_max ! 1 = 99" "utc_min ! 0 = 0" "utc_max ! 0 = 99"
    by (simp_all add: gen_min_def gen_max_def utc_min_def utc_max_def)
  have n1: "two_digits (c # c' # a) (len + 2) (0 + 2) = Some n" using n two_digits_2 [of c c' a len 0] by simp
  have "gen_fields (c # c' # a) (len + 2) 0 0 tm = time_fields 7 gen_min gen_max gen_set (c # c' # a) (len + 2) (0 + 1) (0 + 2)
      (map_option (gen_set 0 (if 50 \<le> n then 19 else 20)) tm)"
    unfolding gen_fields_def time_fields.simps [of 7 _ _ _ _ _ 0 0] cc option.case tables by simp
  also have "\<dots> = time_fields 7 gen_min gen_max gen_set (c # c' # a) (len + 2) (0 + 1 + 1) (0 + 2 + 2) (map_option (utc_set 0 n) tm)"
    using n'(1,2) unfolding time_fields.simps [of 7 _ _ _ _ _ "0 + 1" "0 + 2"] n1 option.case
    by (cases tm) (simp_all add: tables [simplified] year [simplified])
  also have "\<dots> = apfst (map_option (\<lambda>p. p + 2)) (time_fields 6 utc_min utc_max utc_set a len 1 (0 + 2) (map_option (utc_set 0 n) tm))"
    using time_fields_2 [of 1 c c' a len "0 + 2"] by simp
  also have "time_fields 6 utc_min utc_max utc_set a len 1 (0 + 2) (map_option (utc_set 0 n) tm) = utc_fields a len 0 0 tm"
    using n'(1,2) unfolding utc_fields_def time_fields.simps [of 6 _ _ _ a len 0 0] n option.case tables by simp
  finally show ?thesis .
qed

lemma utc_read_as_gen:
  assumes d: "as_type d = V_ASN1_UTCTIME" "ASN1_UTCTIME_check d" "byte_at (time_bytes d) (nat (as_length d)) = 0"
    and g: "as_type g = V_ASN1_GENERALIZEDTIME" "as_length g = as_length d + 2"
      "time_bytes g = fst (century (time_bytes d)) # snd (century (time_bytes d)) # time_bytes d"
  shows "asn1_generalizedtime_to_tm tm g = asn1_utctime_to_tm tm d"
proof -
  define a len where "a = time_bytes d" and "len = nat (as_length d)"
  obtain c c' where cc: "century a = (c, c')" by (cases "century a")
  have len: "11 \<le> as_length d" "nat (as_length d + 2) = len + 2"
    using d(2) by (auto simp: ASN1_UTCTIME_check_def asn1_utctime_to_tm_def len_def split: if_splits)
  obtain pos where pos: "fst (utc_fields a len 0 0 None) = Some pos"
    using d(1,2) len(1) by (auto simp: ASN1_UTCTIME_check_def asn1_utctime_to_tm_def a_def len_def Let_def split: option.splits prod.splits)
  obtain tm' where utc: "utc_fields a len 0 0 tm = (Some pos, tm')"
    using pos time_fields_position [of 6 utc_min utc_max utc_set a len 0 0 tm]
    by (cases "utc_fields a len 0 0 tm") (auto simp: utc_fields_def)
  have gen: "gen_fields (c # c' # a) (len + 2) 0 0 tm = (Some (pos + 2), tm')"
    using gen_fields_utc [OF cc, of len tm pos] utc by simp
  have stop: "zone_mark (byte_at a pos) \<or> pos = len \<and> byte_at a pos = 0"
    using d pos len(1) by (auto simp: ASN1_UTCTIME_check_def asn1_utctime_to_tm_def a_def len_def Let_def
      split: option.splits prod.splits if_splits)
  then have "byte_at a pos \<noteq> 46" by auto
  then have frac: "skip_fraction (c # c' # a) (len + 2) (pos + 2) = Some (pos + 2)"
    unfolding skip_fraction_def byte_at_2 by simp
  show ?thesis
    using stop len(1) d(1) g(1)
    unfolding asn1_generalizedtime_to_tm_def asn1_utctime_to_tm_def g(2,3) len(2) Let_def a_def [symmetric] len_def [symmetric]
      cc fst_conv snd_conv gen utc prod.case option.case frac byte_at_2 zone_offset_2 finish_time_2
    by auto
qed

lemma takeWhile_whole:
  assumes "length xs = Suc (length (takeWhile (\<lambda>c. c \<noteq> 0) xs))"
  shows "xs = takeWhile (\<lambda>c. c \<noteq> 0) xs @ [0 :: u8]"
proof -
  have "length (dropWhile (\<lambda>c. c \<noteq> 0) xs) = 1"
  proof -
    have "length xs = length (takeWhile (\<lambda>c. c \<noteq> 0) xs) + length (dropWhile (\<lambda>c. c \<noteq> 0) xs)"
      by (metis length_append takeWhile_dropWhile_id)
    then show ?thesis using assms by linarith
  qed
  then obtain c where c: "dropWhile (\<lambda>c. c \<noteq> 0) xs = [c]" by (cases "dropWhile (\<lambda>c. c \<noteq> 0) xs") auto
  then have "c = 0" using hd_dropWhile [of "\<lambda>c. c \<noteq> 0" xs] by simp
  then show ?thesis using c takeWhile_dropWhile_id [of "\<lambda>c. c \<noteq> 0" xs] by simp
qed

text \<open>\<open>strlcpy\<close> of a text without a 0, then \<open>strlcat\<close> of another, in a block that just holds both.\<close>

lemma strlcpy_strlcat_exact:
  assumes "0 \<notin> set p" "0 \<notin> set q" "length block = length p + length q + 1"
  shows "snd (OPENSSL_strlcat (snd (OPENSSL_strlcpy block (p @ [0]))) (q @ [0])) = p @ q @ [0]"
proof -
  let ?cut = "takeWhile (\<lambda>c. c \<noteq> (0 :: u8))"
  define mid where "mid = snd (OPENSSL_strlcpy block (p @ [0]))"
  define out where "out = snd (OPENSSL_strlcat mid (q @ [0]))"
  have cut: "?cut (r @ [0]) = r" if "0 \<notin> set r" for r using that by (auto simp: takeWhile_tail takeWhile_eq_all_conv)
  have mid: "length mid = length block" "0 \<in> set mid" "?cut mid = p"
    using OPENSSL_strlcpy_spec [of block "p @ [0]"] assms cut [OF assms(1)] by (auto simp: mid_def)
  have "length out = length block" "?cut out = take (length block - 1) (p @ q)"
    using OPENSSL_strlcat_spec [of mid "q @ [0]"] mid cut [OF assms(2)] by (simp_all add: out_def)
  then have "?cut out = p @ q" "length out = Suc (length (p @ q))" using assms(3) by simp_all
  then have "out = p @ q @ [0]" using takeWhile_whole [of out] by simp
  then show ?thesis by (simp only: out_def mid_def)
qed

lemma to_generalizedtime_read:
  assumes d: "as_type d = V_ASN1_UTCTIME" "ASN1_UTCTIME_check d" "as_length d = int (length txt')"
      "as_data d = Some (txt' @ [0])" "0 \<notin> set txt'"
    and heap: "malloc_ok os sizeof_ASN1_STRING" "malloc_ok os (length txt' + 3)"
  obtains g where "ASN1_TIME_to_generalizedtime os junk d None = Some g" "as_type g = V_ASN1_GENERALIZEDTIME"
    "\<And>tm. asn1_generalizedtime_to_tm tm g = asn1_utctime_to_tm tm d"
proof -
  let ?c = "century (txt' @ [0])"
  define g where "g = \<lparr>as_length = as_length d + 2, as_type = V_ASN1_GENERALIZEDTIME,
    as_data = Some (fst ?c # snd ?c # txt' @ [0])\<rparr>"
  have check: "ASN1_TIME_check d"
    using d(1,2) by (simp add: ASN1_TIME_check_def V_ASN1_UTCTIME_def V_ASN1_GENERALIZEDTIME_def)
  have len: "nat (as_length d) = length txt'" using d(3) by simp
  define block where "block = map junk [0..<length txt' + 3]"
  have fresh: "asn1_string_set os junk \<lparr>as_length = 0, as_type = V_ASN1_GENERALIZEDTIME, as_data = None\<rparr> None (length txt' + 2)
    = (True, \<lparr>as_length = int (length txt' + 2), as_type = V_ASN1_GENERALIZEDTIME, as_data = Some block\<rparr>)"
  proof -
    have "OPENSSL_realloc os junk None (length txt' + 2 + 1) = Some block"
      using heap(2) by (auto simp: OPENSSL_realloc_def block_def numeral_3_eq_3)
    then show ?thesis by (simp add: asn1_string_set_def)
  qed
  have "snd (OPENSSL_strlcat (snd (OPENSSL_strlcpy block ([fst ?c, snd ?c] @ [0]))) (txt' @ [0])) = [fst ?c, snd ?c] @ txt' @ [0]"
    using d(5) by (intro strlcpy_strlcat_exact) (simp_all add: block_def century_def)
  then have cat: "snd (OPENSSL_strlcat (snd (OPENSSL_strlcpy block (if byte_at (txt' @ [0]) 0 \<ge> 53 then [49, 57, 0] else [50, 48, 0]))) (txt' @ [0]))
    = fst ?c # snd ?c # txt' @ [0]"
    by (simp add: century_def split: if_splits)
  have gen: "ASN1_TIME_to_generalizedtime os junk d None = Some g"
  proof -
    have "V_ASN1_UTCTIME \<noteq> V_ASN1_GENERALIZEDTIME" by (simp add: V_ASN1_UTCTIME_def V_ASN1_GENERALIZEDTIME_def)
    moreover have "length block = length txt' + 2 + 1" by (simp add: block_def)
    ultimately show ?thesis
      using heap(1) check d(1,3,4) cat
      by (simp add: ASN1_TIME_to_generalizedtime_def ASN1_STRING_type_new_def len fresh [simplified] Let_def time_bytes_def g_def)
  qed
  have "byte_at (time_bytes d) (nat (as_length d)) = 0" by (simp add: time_bytes_def d(3,4) byte_at_append)
  then have "asn1_generalizedtime_to_tm tm g = asn1_utctime_to_tm tm d" for tm
    by (rule utc_read_as_gen [OF d(1,2)]) (simp_all add: g_def time_bytes_def d(4))
  then show thesis using that [of g] gen by (simp add: g_def)
qed

section \<open>Times the readers should refuse\<close>

text \<open>
  A GeneralizedTime that ends after its seconds: the terminator is taken for the end of a time that
  has a zone.
\<close>

lemma gen_without_zone_read:
  assumes ts: "valid_tm ts" "0 \<le> tm_year ts + 1900" "tm_year ts + 1900 \<le> 9999"
    and d: "as_type d = V_ASN1_GENERALIZEDTIME" "as_length d = 14" "as_data d = Some (digits_of (gen_numbers ts) @ [0])"
  shows "asn1_generalizedtime_to_tm tm d = (True, map_option (\<lambda>_. ts) tm)"
proof -
  have a: "time_bytes d = digits_of (gen_numbers ts) @ [0]" using d(3) by (simp add: time_bytes_def)
  have n: "length (gen_numbers ts) = 7" by (simp add: gen_numbers_def)
  have "gen_fields (time_bytes d) 14 0 0 tm = (Some 14, map_option (set_fields gen_set 0 (gen_numbers ts)) tm)"
    using all_fields_digits [OF gen_numbers_read(1) [OF ts] n, of 14] by (simp add: gen_fields_def a)
  also have "set_fields gen_set 0 (gen_numbers ts) = (\<lambda>_. ts)" using gen_numbers_read(2) [OF ts] by (rule ext)
  finally show ?thesis
    using d(1,2) byte_at_append(1) [of "digits_of (gen_numbers ts)" 0 "[]"] n
    by (simp add: asn1_generalizedtime_to_tm_def skip_fraction_def a Let_def)
qed

text \<open>The day is compared with 31 in every month; 30 February is a day before or on 2 March.\<close>

lemma utc_day_unchecked:
  assumes y: "0 \<le> y" "y < 100" and m: "1 \<le> m" "m \<le> 12" and d: "1 \<le> d" "d \<le> 31"
    and s: "as_type s = V_ASN1_UTCTIME" "as_length s = 13" "as_data s = Some (digits_of [y, m, d, 0, 0, 0] @ [90, 0])"
  shows "ASN1_UTCTIME_check s"
proof -
  have a: "time_bytes s = digits_of [y, m, d, 0, 0, 0] @ 90 # [0]" using s(3) by (simp add: time_bytes_def)
  have "in_bounds utc_min utc_max 0 [y, m, d, 0, 0, 0]"
    using assms by (simp add: utc_min_def utc_max_def)
  from all_fields_digits [OF this, of 6 13]
  have "utc_fields (time_bytes s) 13 0 0 None = (Some 12, None)" unfolding a utc_fields_def by simp
  then show ?thesis
    using s(1,2) byte_at_append(1) [of "digits_of [y, m, d, 0, 0, 0]" 90 "[0]"]
    unfolding ASN1_UTCTIME_check_def asn1_utctime_to_tm_def a by (simp add: Let_def)
qed

end
