(* ===== verification/TlsCbc.thy ===== *)
theory TlsCbc
  imports ConstTime
begin

unbundle bit_operations_syntax

text \<open>
  TLS records in CBC mode, \<open>crypto/cipher_extra/tls_cbc.c\<close>: padding, MAC and digest of a record
  whose length is secret. The functions of the hash, which the code calls through pointers, and the
  digest that ends the HMAC are parameters. Lengths are natural numbers; where they meet the
  constant-time operations they are words.
\<close>

abbreviation word_of :: "nat \<Rightarrow> u64" where "word_of n \<equiv> of_nat n"

section \<open>Padding\<close>

definition check_pad_byte :: "u8 list \<Rightarrow> u64 \<Rightarrow> u64 \<Rightarrow> nat \<Rightarrow> u64" where
  "check_pad_byte inp padding_length good i =
     (let msk = constant_time_ge_8 padding_length (word_of i);
          b = inp ! (length inp - 1 - i)
      in good AND NOT (ucast msk AND (padding_length XOR ucast b)))"

definition EVP_tls_cbc_remove_padding :: "u8 list \<Rightarrow> nat \<Rightarrow> nat \<Rightarrow> (u64 \<times> u64) option" where
  "EVP_tls_cbc_remove_padding inp block_size mac_size =
     (let overhead = 1 + mac_size
      in if overhead > length inp then None
         else
           let padding_length = ucast (inp ! (length inp - 1)) :: u64;
               good = constant_time_ge_w (word_of (length inp)) (word_of overhead + padding_length);
               to_check = (if 256 > length inp then length inp else 256);
               good = foldl (check_pad_byte inp padding_length) good [0..<to_check];
               good = constant_time_eq_w 0xff (good AND 0xff);
               padding_length = good AND (padding_length + 1)
           in Some (good, word_of (length inp) - padding_length))"

section \<open>The MAC of a record\<close>

record mac_scan =
  rotated_mac :: "u8 list"
  mac_started :: u8
  rotate_offset :: u64
  scan_j :: nat

definition mac_scan_step :: "nat \<Rightarrow> u8 list \<Rightarrow> nat \<Rightarrow> nat \<Rightarrow> mac_scan \<Rightarrow> nat \<Rightarrow> mac_scan" where
  "mac_scan_step md_size inp mac_start mac_end s i =
     (let j = (if scan_j s \<ge> md_size then scan_j s - md_size else scan_j s);
          is_mac_start = constant_time_eq_w (word_of i) (word_of mac_start);
          started = mac_started s OR ucast is_mac_start;
          mac_ended = constant_time_ge_8 (word_of i) (word_of mac_end)
      in \<lparr>rotated_mac = (rotated_mac s)[j := rotated_mac s ! j OR (inp ! i AND started AND NOT mac_ended)],
          mac_started = started,
          rotate_offset = rotate_offset s OR (word_of j AND is_mac_start),
          scan_j = j + 1\<rparr>)"

definition rotate_step :: "nat \<Rightarrow> nat \<Rightarrow> u64 \<Rightarrow> u8 list \<Rightarrow> u8 list" where
  "rotate_step md_size offset rotate_off mac =
     (let skip_rotate = ucast ((rotate_off AND 1) - 1) :: u8
      in map (\<lambda>i. let j = (if i + offset \<ge> md_size then i + offset - md_size else i + offset)
                  in constant_time_select_8 skip_rotate (mac ! i) (mac ! j)) [0..<md_size])"

function rotate_loop :: "nat \<Rightarrow> nat \<Rightarrow> u64 \<Rightarrow> u8 list \<Rightarrow> u8 list" where
  "rotate_loop md_size offset rotate_off mac =
     (if 0 < offset \<and> offset < md_size
      then rotate_loop md_size (2 * offset) (drop_bit 1 rotate_off) (rotate_step md_size offset rotate_off mac)
      else mac)"
  by pat_completeness auto
termination
  by (relation "measure (\<lambda>(md_size, offset, _, _). md_size - offset)") auto

declare rotate_loop.simps [simp del]

definition EVP_tls_cbc_copy_mac :: "nat \<Rightarrow> u8 list \<Rightarrow> nat \<Rightarrow> nat \<Rightarrow> u8 list" where
  "EVP_tls_cbc_copy_mac md_size inp in_len orig_len =
     (let mac_end = in_len;
          mac_start = mac_end - md_size;
          scan_start = (if orig_len > md_size + 255 + 1 then orig_len - (md_size + 255 + 1) else 0);
          s = foldl (mac_scan_step md_size inp mac_start mac_end)
                \<lparr>rotated_mac = replicate md_size 0, mac_started = 0, rotate_offset = 0, scan_j = 0\<rparr>
                [scan_start..<orig_len]
      in rotate_loop md_size 1 (rotate_offset s) (rotated_mac s))"

section \<open>The digest of a record\<close>

definition NID_sha1 :: nat where "NID_sha1 = 64"
definition NID_sha256 :: nat where "NID_sha256 = 672"
definition NID_sha384 :: nat where "NID_sha384 = 673"

text \<open>The hash functions the code selects, on a state \<open>'h\<close>.\<close>

record 'h hash_fns =
  md_init :: 'h
  md_transform :: "'h \<Rightarrow> u8 list \<Rightarrow> 'h"
  md_final_raw :: "'h \<Rightarrow> u8 list"

record hash_sizes =
  md_size :: nat
  md_block_size :: nat
  md_block_shift :: nat
  md_length_size :: nat

definition digest_sizes :: "nat \<Rightarrow> hash_sizes option" where
  "digest_sizes md =
     (if md = NID_sha1 then Some \<lparr>md_size = 20, md_block_size = 64, md_block_shift = 6, md_length_size = 8\<rparr>
      else if md = NID_sha256 then Some \<lparr>md_size = 32, md_block_size = 64, md_block_shift = 6, md_length_size = 8\<rparr>
      else if md = NID_sha384 then Some \<lparr>md_size = 48, md_block_size = 128, md_block_shift = 7, md_length_size = 16\<rparr>
      else None)"

definition EVP_tls_cbc_record_digest_supported :: "nat \<Rightarrow> bool" where
  "EVP_tls_cbc_record_digest_supported md \<longleftrightarrow> md = NID_sha1 \<or> md = NID_sha256 \<or> md = NID_sha384"

definition kHeaderLength :: nat where "kHeaderLength = 13"

definition length_field :: "nat \<Rightarrow> nat \<Rightarrow> u8 list" where
  "length_field length_size bits =
     replicate (length_size - 4) 0
     @ [of_nat (drop_bit 24 bits), of_nat (drop_bit 16 bits), of_nat (drop_bit 8 bits), of_nat bits]"

text \<open>Byte \<open>j\<close> of block \<open>i\<close>, which is at offset \<open>k\<close> of the header and the record.\<close>

definition block_byte ::
    "hash_sizes \<Rightarrow> u8 list \<Rightarrow> u8 list \<Rightarrow> nat \<Rightarrow> u8 list \<Rightarrow> nat \<Rightarrow> u8 \<Rightarrow> u8 \<Rightarrow> nat \<Rightarrow> nat \<Rightarrow> u8" where
  "block_byte sizes header data record_size length_bytes c is_block_a is_block_b k j =
     (let b = (if k < kHeaderLength then header ! k
               else if k < record_size + kHeaderLength then data ! (k - kHeaderLength) else 0);
          is_past_c = is_block_a AND constant_time_ge_8 (word_of j) (word_of c);
          is_past_cp1 = is_block_a AND constant_time_ge_8 (word_of j) (word_of (c + 1));
          b = constant_time_select_8 is_past_c 0x80 b;
          b = b AND NOT is_past_cp1;
          b = b AND (NOT is_block_b OR is_block_a)
      in if j \<ge> md_block_size sizes - md_length_size sizes
         then constant_time_select_8 is_block_b (length_bytes ! (j - (md_block_size sizes - md_length_size sizes))) b
         else b)"

definition variable_block ::
    "hash_sizes \<Rightarrow> 'h hash_fns \<Rightarrow> u8 list \<Rightarrow> u8 list \<Rightarrow> nat \<Rightarrow> u8 list \<Rightarrow> nat \<Rightarrow> nat \<Rightarrow> nat
      \<Rightarrow> 'h \<times> u8 list \<times> nat \<Rightarrow> nat \<Rightarrow> 'h \<times> u8 list \<times> nat" where
  "variable_block sizes fns header data record_size length_bytes c index_a index_b state i =
     (case state of (md_state, mac_out, k) \<Rightarrow>
        let is_block_a = constant_time_eq_8 (word_of i) (word_of index_a);
            is_block_b = constant_time_eq_8 (word_of i) (word_of index_b);
            block = map (\<lambda>j. block_byte sizes header data record_size length_bytes c is_block_a is_block_b (k + j) j)
                      [0..<md_block_size sizes];
            md_state = md_transform fns md_state block;
            out = md_final_raw fns md_state
        in (md_state, map (\<lambda>j. mac_out ! j OR (out ! j AND is_block_b)) [0..<md_size sizes], k + md_block_size sizes))"

definition EVP_tls_cbc_digest_record ::
    "(nat \<Rightarrow> 'h hash_fns) \<Rightarrow> (u8 list \<Rightarrow> u8 list option) \<Rightarrow> nat \<Rightarrow> u8 list \<Rightarrow> u8 list \<Rightarrow> nat \<Rightarrow> nat \<Rightarrow> u8 list
      \<Rightarrow> u8 list option" where
  "EVP_tls_cbc_digest_record hash evp_digest md header data data_plus_mac_size record_size mac_secret =
     (if record_size \<ge> 1024 * 1024 then None
      else case digest_sizes md of
             None \<Rightarrow> None
           | Some sizes \<Rightarrow>
               (let fns = hash md;
                    bs = md_block_size sizes;
                    kVarianceBlocks = (255 + 1 + md_size sizes + bs - 1) div bs + 1;
                    len = record_size + kHeaderLength;
                    max_mac_bytes = len - md_size sizes - 1;
                    num_blocks = (max_mac_bytes + 1 + md_length_size sizes + bs - 1) div bs;
                    mac_end_offset = data_plus_mac_size + kHeaderLength - md_size sizes;
                    c = mac_end_offset AND (bs - 1);
                    index_a = drop_bit (md_block_shift sizes) mac_end_offset;
                    index_b = drop_bit (md_block_shift sizes) (mac_end_offset + md_length_size sizes);
                    num_starting_blocks = (if num_blocks > kVarianceBlocks then num_blocks - kVarianceBlocks else 0);
                    k = bs * num_starting_blocks;
                    bits = 8 * mac_end_offset + 8 * bs;
                    hmac_pad = map (\<lambda>b. b XOR 0x36) (mac_secret @ replicate (bs - length mac_secret) 0);
                    md_state = md_transform fns (md_init fns) hmac_pad;
                    length_bytes = length_field (md_length_size sizes) bits;
                    md_state =
                      (if k > 0
                       then foldl (\<lambda>h i. md_transform fns h (take bs (drop (bs * i - 13) data)))
                              (md_transform fns md_state (take 13 header @ take (bs - 13) data)) [1..<k div bs]
                       else md_state);
                    (_, mac_out, _) =
                      foldl (variable_block sizes fns header data record_size length_bytes c index_a index_b)
                        (md_state, replicate (md_size sizes) 0, k)
                        [num_starting_blocks..<num_starting_blocks + kVarianceBlocks + 1];
                    hmac_pad = map (\<lambda>b. b XOR 0x6a) hmac_pad
                in evp_digest (hmac_pad @ mac_out)))"

end
