(* ===== verification/MerkleDamgard.thy ===== *)
theory MerkleDamgard
  imports Prelude
begin

unbundle bit_operations_syntax

text \<open>
  Hashes that chain a function over the blocks of a padded message: what the hash functions of the library
  compute, stated apart from their buffers and counters, and what a buffer of a partial block holds.
\<close>

section \<open>Places round a ring\<close>

lemma and_block_mask: "n AND (2 ^ k - 1) = n mod (2 ^ k :: nat)"
  by (simp only: take_bit_eq_mod [symmetric] take_bit_eq_mask mask_eq_exp_minus_1)

lemma ring_places:
  fixes a t t' m :: nat
  assumes "(a + t) mod m = (a + t') mod m" "t < m" "t' < m"
  shows "t = t'"
proof -
  have *: "t = t'" if "t \<le> t'" "(a + t) mod m = (a + t') mod m" "t' < m" for t t'
  proof -
    have "m dvd (a + t') - (a + t)" using that(1,2) by (intro mod_eq_dvd_iff_nat [THEN iffD1]) simp_all
    then have "m dvd t' - t" by simp
    then show ?thesis using that by (cases "t' - t = 0") (auto dest: dvd_imp_le)
  qed
  show ?thesis using * [of t t'] * [of t' t] assms by (cases "t \<le> t'") auto
qed

section \<open>Bytes written at a place\<close>

definition memcpy_at :: "u8 list \<Rightarrow> nat \<Rightarrow> u8 list \<Rightarrow> u8 list" where
  "memcpy_at buf n bs = take n buf @ bs @ drop (n + length bs) buf"

definition memset_at :: "u8 list \<Rightarrow> nat \<Rightarrow> u8 \<Rightarrow> nat \<Rightarrow> u8 list" where
  "memset_at buf n x len = memcpy_at buf n (replicate len x)"

lemma length_memcpy_at [simp]: "n + length bs \<le> length buf \<Longrightarrow> length (memcpy_at buf n bs) = length buf"
  by (simp add: memcpy_at_def)

lemma take_memcpy_at:
  "n \<le> length buf \<Longrightarrow> take (n + length bs) (memcpy_at buf n bs) = take n buf @ bs"
  by (simp add: memcpy_at_def)

lemma memcpy_at_whole: "n + length bs = length buf \<Longrightarrow> memcpy_at buf n bs = take n buf @ bs"
  by (simp add: memcpy_at_def)

section \<open>Blocks\<close>

definition block_at :: "nat \<Rightarrow> u8 list \<Rightarrow> nat \<Rightarrow> u8 list" where
  "block_at bs xs i = take bs (drop (bs * i) xs)"

definition blocks_of :: "nat \<Rightarrow> u8 list \<Rightarrow> u8 list list" where
  "blocks_of bs xs = map (block_at bs xs) [0..<length xs div bs]"

text \<open>The bytes after the last whole block.\<close>

definition rest_of :: "nat \<Rightarrow> u8 list \<Rightarrow> u8 list" where
  "rest_of bs xs = drop (bs * (length xs div bs)) xs"

lemma length_block_at: "bs * (i + 1) \<le> length xs \<Longrightarrow> length (block_at bs xs i) = bs"
  by (simp add: block_at_def)

lemma nth_block_at: "bs * (i + 1) \<le> length xs \<Longrightarrow> j < bs \<Longrightarrow> block_at bs xs i ! j = xs ! (bs * i + j)"
  by (simp add: block_at_def)

lemma block_at_map_nth: "bs * (i + 1) \<le> length xs \<Longrightarrow> map (\<lambda>j. xs ! (bs * i + j)) [0..<bs] = block_at bs xs i"
  by (intro nth_equalityI) (simp_all add: length_block_at nth_block_at)

lemma block_at_append1: "bs * (i + 1) \<le> length xs \<Longrightarrow> block_at bs (xs @ ys) i = block_at bs xs i"
  by (simp add: block_at_def)

lemma block_at_append2: "length xs = bs * k \<Longrightarrow> block_at bs (xs @ ys) (k + i) = block_at bs ys i"
  by (simp add: block_at_def algebra_simps)

lemma block_at_take: "bs * (i + 1) \<le> n \<Longrightarrow> block_at bs (take n xs) i = block_at bs xs i"
  by (simp add: block_at_def drop_take min_def)

lemma length_blocks_of [simp]: "length (blocks_of bs xs) = length xs div bs"
  by (simp add: blocks_of_def)

lemma length_rest_of [simp]: "length (rest_of bs xs) = length xs mod bs"
  by (simp add: rest_of_def minus_mult_div_eq_mod)

lemma blocks_of_whole:
  assumes "0 < bs" and "length xs = bs * k"
  shows "blocks_of bs (xs @ ys) = map (block_at bs xs) [0..<k] @ blocks_of bs ys"
proof -
  have n: "(bs * k + length ys) div bs = k + length ys div bs" using assms(1) by simp
  have fits: "bs * (i + 1) \<le> length xs" if "i < k" for i
    using that assms mult_le_mono2 [of "i + 1" k bs] by simp
  have same: "block_at bs (xs @ ys) i = block_at bs xs i" if "i < k" for i
    by (rule block_at_append1 [OF fits [OF that]])
  have "[0..<k + q] = [0..<k] @ map ((+) k) [0..<q]" for q by (induction q) simp_all
  then show ?thesis
    by (simp add: blocks_of_def n assms(2) comp_def block_at_append2 [OF assms(2)])
       (simp add: same)
qed

lemma rest_of_whole: "0 < bs \<Longrightarrow> length xs = bs * k \<Longrightarrow> rest_of bs (xs @ ys) = rest_of bs ys"
  by (simp add: rest_of_def algebra_simps)

lemma short_blocks [simp]: "length xs < bs \<Longrightarrow> blocks_of bs xs = []" "length xs < bs \<Longrightarrow> rest_of bs xs = xs"
  by (simp_all add: blocks_of_def rest_of_def)

text \<open>A message is its whole blocks and the rest.\<close>

lemma message_split:
  obtains xs k where "m = xs @ rest_of bs m" "length xs = bs * k" "k = length m div bs"
proof
  show "m = take (bs * (length m div bs)) m @ rest_of bs m" by (simp add: rest_of_def)
  have "bs * (length m div bs) \<le> length m" by (simp add: times_div_less_eq_dividend)
  then show "length (take (bs * (length m div bs)) m) = bs * (length m div bs)" by simp
qed simp

lemma blocks_of_append:
  assumes "0 < bs"
  shows "blocks_of bs (m @ d) = blocks_of bs m @ blocks_of bs (rest_of bs m @ d)"
    and "rest_of bs (m @ d) = rest_of bs (rest_of bs m @ d)"
proof -
  obtain xs k where m: "m = xs @ rest_of bs m" "length xs = bs * k" by (rule message_split [of m bs])
  have short: "length (rest_of bs m) < bs" using assms by simp
  have "blocks_of bs (m @ d) = blocks_of bs (xs @ (rest_of bs m @ d))" by (subst m(1)) simp
  also have "\<dots> = map (block_at bs xs) [0..<k] @ blocks_of bs (rest_of bs m @ d)" by (rule blocks_of_whole [OF assms m(2)])
  also have "map (block_at bs xs) [0..<k] = blocks_of bs m"
    using blocks_of_whole [OF assms m(2), of "rest_of bs m"] m(1) short by simp
  finally show "blocks_of bs (m @ d) = blocks_of bs m @ blocks_of bs (rest_of bs m @ d)" .
  have "rest_of bs (m @ d) = rest_of bs (xs @ (rest_of bs m @ d))" by (subst m(1)) simp
  then show "rest_of bs (m @ d) = rest_of bs (rest_of bs m @ d)" by (simp add: rest_of_whole [OF assms m(2)])
qed

lemma blocks_of_block:
  "0 < bs \<Longrightarrow> length b = bs \<Longrightarrow> blocks_of bs (b @ xs) = b # blocks_of bs xs"
  using blocks_of_whole [of bs b 1 xs] by (simp add: block_at_def)

lemma rest_of_block: "0 < bs \<Longrightarrow> length b = bs \<Longrightarrow> rest_of bs (b @ xs) = rest_of bs xs"
  using rest_of_whole [of bs b 1 xs] by simp

section \<open>Padding and hashing\<close>

text \<open>
  \<open>ls\<close> is the size of the length field and \<open>enc\<close> what it holds of a number of bits.
\<close>

definition md_pad :: "nat \<Rightarrow> nat \<Rightarrow> (nat \<Rightarrow> u8 list) \<Rightarrow> u8 list \<Rightarrow> u8 list" where
  "md_pad bs ls enc m = m @ 0x80 # replicate (bs - 1 - (length m + ls) mod bs) 0 @ enc (8 * length m)"

definition md_chain :: "nat \<Rightarrow> ('h \<Rightarrow> u8 list \<Rightarrow> 'h) \<Rightarrow> 'h \<Rightarrow> u8 list \<Rightarrow> 'h" where
  "md_chain bs f h xs = foldl f h (blocks_of bs xs)"

lemma rem_bound: "0 < b \<Longrightarrow> (b::nat) - 1 - x mod b + (x + 1) = b * (x div b + 1)"
proof -
  assume b: "0 < b"
  then have "x mod b \<le> b - 1" using mod_less_divisor [OF b, of x] by linarith
  moreover have "x = b * (x div b) + x mod b" by simp
  moreover have "b * (x div b + 1) = b * (x div b) + b" by simp
  ultimately show ?thesis using b by linarith
qed

lemma length_md_pad:
  "0 < bs \<Longrightarrow> length (enc (8 * length m)) = ls \<Longrightarrow> length (md_pad bs ls enc m) = bs * ((length m + ls) div bs + 1)"
  using rem_bound [of bs "length m + ls"] by (simp add: md_pad_def)

text \<open>The last blocks of a padded message depend on the rest of the message only.\<close>

lemma blocks_of_pad:
  assumes "0 < bs"
  shows "blocks_of bs (md_pad bs ls enc m) =
    blocks_of bs m @ blocks_of bs (rest_of bs m @ 0x80 # replicate (bs - 1 - (length m mod bs + ls) mod bs) 0 @ enc (8 * length m))"
  unfolding md_pad_def by (subst blocks_of_append(1) [OF assms]) (simp only: mod_add_left_eq)

lemma pad_end:
  assumes "length r < bs" and "ls < bs"
  shows "r @ 0x80 # replicate (bs - 1 - (length r + ls) mod bs) 0 @ e =
    (if bs - ls < length r + 1
     then (r @ 0x80 # replicate (bs - 1 - length r) 0) @ replicate (bs - ls) 0 @ e
     else r @ 0x80 # replicate (bs - ls - 1 - length r) 0 @ e)"
proof (cases "bs - ls < length r + 1")
  case True
  then have "bs \<le> length r + ls" "length r + ls - bs < bs" using assms by simp_all
  then have "(length r + ls) mod bs = length r + ls - bs" by (simp add: le_mod_geq)
  then have "bs - 1 - (length r + ls) mod bs = (bs - 1 - length r) + (bs - ls)" using assms True by simp
  then show ?thesis using True by (simp add: replicate_add)
next
  case False
  then have "(length r + ls) mod bs = length r + ls" using assms by simp
  then show ?thesis using False by (simp add: diff_commute)
qed

theorem md_chain_pad:
  assumes "0 < bs" and "ls < bs" and "length (enc (8 * length m)) = ls"
  shows "md_chain bs f h (md_pad bs ls enc m) =
    (let r = rest_of bs m; h = md_chain bs f h m; e = enc (8 * length m)
     in if bs - ls < length r + 1
        then f (f h (r @ 0x80 # replicate (bs - 1 - length r) 0)) (replicate (bs - ls) 0 @ e)
        else f h (r @ 0x80 # replicate (bs - ls - 1 - length r) 0 @ e))"
proof -
  have r: "length (rest_of bs m) < bs" using assms(1) by simp
  have one: "blocks_of bs b = [b]" if "length b = bs" for b using blocks_of_block [OF assms(1) that, of "[]"] assms(1) by simp
  have two: "blocks_of bs (a @ b) = [a, b]" if "length a = bs" "length b = bs" for a b
    using blocks_of_block [OF assms(1) that(1), of b] one [OF that(2)] by simp
  have "md_chain bs f h (md_pad bs ls enc m) = foldl f (md_chain bs f h m)
      (blocks_of bs (rest_of bs m @ 0x80 # replicate (bs - 1 - (length (rest_of bs m) + ls) mod bs) 0 @ enc (8 * length m)))"
    by (simp add: md_chain_def blocks_of_pad [OF assms(1)])
  also have "\<dots> = (let r = rest_of bs m; h = md_chain bs f h m; e = enc (8 * length m)
     in if bs - ls < length r + 1
        then f (f h (r @ 0x80 # replicate (bs - 1 - length r) 0)) (replicate (bs - ls) 0 @ e)
        else f h (r @ 0x80 # replicate (bs - ls - 1 - length r) 0 @ e))"
  proof (cases "bs - ls < length (rest_of bs m) + 1")
    case True
    have "length (rest_of bs m @ 0x80 # replicate (bs - 1 - length (rest_of bs m)) 0) = bs"
      "length (replicate (bs - ls) 0 @ enc (8 * length m)) = bs"
      using r assms(2,3) by (simp_all del: length_rest_of)
    note two [OF this]
    then show ?thesis
      using True unfolding pad_end [OF r assms(2)] Let_def by (simp only: if_True foldl_Cons foldl_Nil)
  next
    case False
    then have "length (rest_of bs m @ 0x80 # replicate (bs - ls - 1 - length (rest_of bs m)) 0 @ enc (8 * length m)) = bs"
      using r assms(2,3) by (simp del: length_rest_of)
    note one [OF this]
    then show ?thesis
      using False unfolding pad_end [OF r assms(2)] Let_def by (simp only: if_False foldl_Cons foldl_Nil)
  qed
  finally show ?thesis .
qed

lemma length_blocks: "b \<in> set (blocks_of bs xs) \<Longrightarrow> length b = bs"
proof -
  assume "b \<in> set (blocks_of bs xs)"
  then obtain i where i: "i < length xs div bs" "b = block_at bs xs i" by (auto simp: blocks_of_def)
  then have "bs * (i + 1) \<le> bs * (length xs div bs)" by (intro mult_le_mono2) simp
  then have "bs * (i + 1) \<le> length xs" by (rule le_trans) (rule times_div_less_eq_dividend)
  then show ?thesis by (simp only: i(2) length_block_at)
qed

text \<open>Two compression functions that agree on the states reached.\<close>

lemma md_chain_cong:
  assumes step: "\<And>h b. P h \<Longrightarrow> length b = bs \<Longrightarrow> f h b = g h b \<and> P (g h b)" and h: "P h"
  shows "md_chain bs f h xs = md_chain bs g h xs" "P (md_chain bs g h xs)"
proof -
  have "\<forall>b\<in>set ys. length b = bs \<Longrightarrow> P h \<Longrightarrow> foldl f h ys = foldl g h ys \<and> P (foldl g h ys)" for ys h
    by (induction ys arbitrary: h) (simp_all add: step)
  then show "md_chain bs f h xs = md_chain bs g h xs" "P (md_chain bs g h xs)"
    using h length_blocks [of _ bs xs] unfolding md_chain_def by blast+
qed

section \<open>A buffer for a partial block\<close>

text \<open>A chaining value, a fill count and a buffer hold the message \<open>m\<close>.\<close>

definition collects :: "nat \<Rightarrow> ('h \<Rightarrow> u8 list \<Rightarrow> 'h) \<Rightarrow> 'h \<Rightarrow> 'h \<Rightarrow> nat \<Rightarrow> u8 list \<Rightarrow> u8 list \<Rightarrow> bool" where
  "collects bs f init h n buf m \<longleftrightarrow>
     h = md_chain bs f init m \<and> n = length m mod bs \<and> length buf = bs \<and> take n buf = rest_of bs m"

lemma collects_start: "0 < bs \<Longrightarrow> length buf = bs \<Longrightarrow> collects bs f init init 0 buf []"
  by (simp add: collects_def md_chain_def)

lemma collects_fill:
  assumes c: "collects bs f init h n buf m" and fits: "n + length d < bs"
  shows "collects bs f init h (n + length d) (memcpy_at buf n d) (m @ d)"
proof -
  have bs: "0 < bs" using fits by simp
  have c': "h = md_chain bs f init m" "n = length m mod bs" "length buf = bs" "take n buf = rest_of bs m"
    using c unfolding collects_def by blast+
  have "length (rest_of bs m @ d) < bs" using fits c'(2) by simp
  then have "md_chain bs f init (m @ d) = h" "rest_of bs (m @ d) = rest_of bs m @ d"
    by (simp_all add: md_chain_def c'(1) blocks_of_append [OF bs, of m d])
  moreover have "length (m @ d) mod bs = n + length d"
    using fits mod_add_left_eq [of "length m" bs "length d"] by (simp add: c'(2))
  moreover have "take (n + length d) (memcpy_at buf n d) = rest_of bs m @ d"
    using take_memcpy_at [of n buf d] fits c'(3,4) by simp
  ultimately show ?thesis using fits c'(3) by (simp add: collects_def)
qed

lemma collects_full:
  assumes c: "collects bs f init h n buf m" and bs: "0 < bs" and a: "length a = bs - n" and buf': "length buf' = bs"
  shows "length (memcpy_at buf n a) = bs" "collects bs f init (f h (memcpy_at buf n a)) 0 buf' (m @ a)"
proof -
  have c': "h = md_chain bs f init m" "n = length m mod bs" "length buf = bs" "take n buf = rest_of bs m"
    using c unfolding collects_def by blast+
  have n: "n < bs" using bs c'(2) by simp
  have block: "memcpy_at buf n a = rest_of bs m @ a" using n a c'(3,4) by (simp add: memcpy_at_whole)
  have len: "length (rest_of bs m @ a) = bs" using n a c'(2) by simp
  show "length (memcpy_at buf n a) = bs" using len by (simp add: block)
  have b: "blocks_of bs (rest_of bs m @ a) = [rest_of bs m @ a]" "rest_of bs (rest_of bs m @ a) = []"
    using blocks_of_block [OF bs len, of "[]"] rest_of_block [OF bs len, of "[]"] bs by simp_all
  have "length (m @ a) mod bs = 0"
    using mod_add_left_eq [of "length m" bs "length a"] n a by (simp flip: c'(2))
  then show "collects bs f init (f h (memcpy_at buf n a)) 0 buf' (m @ a)"
    unfolding collects_def blocks_of_append(2) [OF bs, of m a] block md_chain_def blocks_of_append(1) [OF bs, of m a] b
    by (simp add: c'(1) md_chain_def buf')
qed

lemma collects_blocks:
  assumes c: "collects bs f init h 0 buf m" and bs: "0 < bs"
  shows "collects bs f init (md_chain bs f h d) (length d mod bs)
    (if length d mod bs = 0 then buf else memcpy_at buf 0 (rest_of bs d)) (m @ d)"
proof -
  have c': "h = md_chain bs f init m" "length m mod bs = 0" "length buf = bs" "rest_of bs m = []"
    using c by (simp_all add: collects_def)
  have "length d mod bs < bs" using bs by simp
  then have room: "0 + length (rest_of bs d) \<le> length buf" using c'(3) by simp
  have "length (m @ d) mod bs = length d mod bs"
    using mod_add_left_eq [of "length m" bs "length d"] c'(2) by simp
  moreover have "md_chain bs f init (m @ d) = md_chain bs f h d" "rest_of bs (m @ d) = rest_of bs d"
    by (simp_all add: blocks_of_append [OF bs, of m d] md_chain_def c'(1,4))
  moreover have "take (length d mod bs) (memcpy_at buf 0 (rest_of bs d)) = rest_of bs d"
    using take_memcpy_at [of 0 buf "rest_of bs d"] by simp
  moreover have "length d mod bs = 0 \<Longrightarrow> rest_of bs d = []" by (metis length_0_conv length_rest_of)
  ultimately show ?thesis using room c'(3) by (simp add: collects_def)
qed

text \<open>The end of a message: the byte \<open>0x80\<close>, zeros, in a second block if there is no room for the length, and the length.\<close>

lemma collects_final:
  assumes c: "collects bs f init h n buf m" and bs: "0 < bs" and ls: "ls < bs" and e: "length (enc (8 * length m)) = ls"
  defines "d \<equiv> buf[n := 0x80]"
  shows "bs - ls < n + 1 \<Longrightarrow>
      (let b = memset_at d (n + 1) 0 (bs - (n + 1)); b' = memcpy_at (memset_at b 0 0 (bs - ls)) (bs - ls) (enc (8 * length m))
       in length b = bs \<and> length b' = bs \<and> md_chain bs f init (md_pad bs ls enc m) = f (f h b) b')"
    and "\<not> bs - ls < n + 1 \<Longrightarrow>
      (let b = memcpy_at (memset_at d (n + 1) 0 (bs - ls - (n + 1))) (bs - ls) (enc (8 * length m))
       in length b = bs \<and> md_chain bs f init (md_pad bs ls enc m) = f h b)"
proof -
  define r where "r = rest_of bs m"
  define e' where "e' = enc (8 * length m)"
  have c': "h = md_chain bs f init m" "n = length m mod bs" "length buf = bs" "take n buf = r"
    using c unfolding collects_def r_def by blast+
  have n: "n < bs" "length r = n" using bs c'(2) by (simp_all add: r_def)
  have d: "take (n + 1) d = r @ [0x80]" "length d = bs"
    using c' n by (simp_all add: d_def take_Suc_conv_app_nth)
  have el: "length e' = ls" using e by (simp add: e'_def)
  have chain: "md_chain bs f init (md_pad bs ls enc m) =
      (if bs - ls < n + 1 then f (f h (r @ 0x80 # replicate (bs - 1 - n) 0)) (replicate (bs - ls) 0 @ e')
       else f h (r @ 0x80 # replicate (bs - ls - 1 - n) 0 @ e'))"
    using md_chain_pad [of bs ls enc m f init, OF bs ls e] n by (simp add: Let_def e'_def r_def c'(1))
  show "let b = memset_at d (n + 1) 0 (bs - (n + 1)); b' = memcpy_at (memset_at b 0 0 (bs - ls)) (bs - ls) (enc (8 * length m))
      in length b = bs \<and> length b' = bs \<and> md_chain bs f init (md_pad bs ls enc m) = f (f h b) b'" if "bs - ls < n + 1"
  proof -
    define b where "b = memset_at d (n + 1) 0 (bs - (n + 1))"
    have b: "b = r @ 0x80 # replicate (bs - 1 - n) 0"
      using d n unfolding b_def memset_at_def by (subst memcpy_at_whole) simp_all
    have "length (memset_at b 0 0 (bs - ls)) = bs" using b n by (simp add: memset_at_def)
    moreover have "take (bs - ls) (memset_at b 0 0 (bs - ls)) = replicate (bs - ls) 0" by (simp add: memset_at_def memcpy_at_def)
    ultimately have "memcpy_at (memset_at b 0 0 (bs - ls)) (bs - ls) e' = replicate (bs - ls) 0 @ e'"
      using ls by (subst memcpy_at_whole) (simp_all add: el)
    then show ?thesis
      using that n ls el b unfolding chain b_def [symmetric] e'_def [symmetric] Let_def by simp
  qed
  show "let b = memcpy_at (memset_at d (n + 1) 0 (bs - ls - (n + 1))) (bs - ls) (enc (8 * length m))
      in length b = bs \<and> md_chain bs f init (md_pad bs ls enc m) = f h b" if "\<not> bs - ls < n + 1"
  proof -
    define b where "b = memset_at d (n + 1) 0 (bs - ls - (n + 1))"
    have fits: "n + 1 + length (replicate (bs - ls - (n + 1)) (0 :: u8)) = bs - ls" using that by simp
    have "take (bs - ls) b = r @ 0x80 # replicate (bs - ls - 1 - n) 0" "length b = bs"
      using d n that take_memcpy_at [of "n + 1" d "replicate (bs - ls - (n + 1)) 0", unfolded fits]
      by (simp_all add: b_def memset_at_def)
    then have "memcpy_at b (bs - ls) e' = r @ 0x80 # replicate (bs - ls - 1 - n) 0 @ e'"
      using ls by (subst memcpy_at_whole) (simp_all add: el)
    then show ?thesis
      using that n ls el unfolding chain b_def [symmetric] e'_def [symmetric] Let_def by simp
  qed
qed

text \<open>A block function that takes several blocks at once.\<close>

locale block_hash =
  fixes bs :: nat and f :: "'h \<Rightarrow> u8 list \<Rightarrow> 'h" and blk :: "'h \<Rightarrow> u8 list \<Rightarrow> nat \<Rightarrow> 'h"
  assumes bs_pos: "0 < bs"
    and blk: "bs * n \<le> length d \<Longrightarrow> blk h d n = foldl f h (map (block_at bs d) [0..<n])"
begin

lemma blk_one: "bs \<le> length d \<Longrightarrow> blk h d 1 = f h (take bs d)"
  using blk [of 1 d h] by (simp add: block_at_def)

lemma blk_all: "blk h d (length d div bs) = md_chain bs f h d"
  using blk [of "length d div bs" d h] by (simp add: md_chain_def blocks_of_def times_div_less_eq_dividend)

end

text \<open>Such functions come as loops that take one block and go on after it.\<close>

fun take_blocks :: "nat \<Rightarrow> ('h \<Rightarrow> u8 list \<Rightarrow> 'h) \<Rightarrow> 'h \<Rightarrow> u8 list \<Rightarrow> nat \<Rightarrow> 'h" where
  "take_blocks bs f h d 0 = h"
| "take_blocks bs f h d (Suc n) = take_blocks bs f (f h (take bs d)) (drop bs d) n"

lemma take_blocks_fold: "take_blocks bs f h d n = foldl f h (map (block_at bs d) [0..<n])"
proof (induction n arbitrary: h d)
  case (Suc n)
  have "[0..<Suc n] = 0 # map Suc [0..<n]" by (simp add: upt_conv_Cons map_Suc_upt del: upt_Suc)
  then show ?case using Suc.IH by (simp add: block_at_def comp_def add.commute del: upt_Suc)
qed simp

section \<open>Bits counted in two words\<close>

lemma double_word: "(x mod b) * b + l = (x * b + l) mod (b * b)" if "l < b" for x b l :: nat
proof -
  have "x mod b < b" using that by (intro mod_less_divisor) simp
  then have "(x mod b + 1) * b \<le> b * b" by (intro mult_le_mono1) simp
  then have "(x mod b) * b + l < b * b" using that by simp
  moreover have "x * b + l = ((x mod b) * b + l) + (x div b) * (b * b)"
    by (metis add.commute add.left_commute distrib_right div_mult_mod_eq mult.assoc)
  ultimately show ?thesis by (simp only: mod_mult_self1 mod_less)
qed

lemma bit_counter:
  fixes lo hi l :: "'a::len word"
  assumes w: "3 \<le> LENGTH('a)" and v: "unat hi * 2 ^ LENGTH('a) + unat lo = v mod (2 ^ LENGTH('a) * 2 ^ LENGTH('a))"
    and l: "l = lo + push_bit 3 (of_nat len)"
  shows "unat ((if l < lo then hi + 1 else hi) + of_nat (drop_bit (LENGTH('a) - 3) len)) * 2 ^ LENGTH('a) + unat l
    = (v + 8 * len) mod (2 ^ LENGTH('a) * 2 ^ LENGTH('a))"
proof -
  define b :: nat where "b = 2 ^ LENGTH('a)"
  define b8 :: nat where "b8 = 2 ^ (LENGTH('a) - 3)"
  define q p where "q = len div b8" and "p = 8 * (len mod b8)"
  have b8: "8 * b8 = b"
  proof -
    have "(8::nat) = 2 ^ 3" by simp
    then have "8 * b8 = 2 ^ (3 + (LENGTH('a) - 3))" unfolding b8_def by (simp only: power_add)
    then show ?thesis using w by (simp add: b_def)
  qed
  have b: "0 < b" "0 < b8" by (simp_all add: b_def b8_def)
  have len: "8 * len = q * b + p"
  proof -
    have "8 * (q * b8 + len mod b8) = 8 * len" unfolding q_def by (simp only: div_mult_mod_eq)
    then show ?thesis by (simp add: p_def flip: b8)
  qed
  have "len mod b8 < b8" using b(2) by simp
  then have p: "p < b" unfolding p_def using b8 by linarith
  have lo: "unat lo < b" using unsigned_less [where ?'a = nat, of lo] by (simp add: b_def)
  have zero: "of_nat (q * b) = (0 :: 'a word)" by (simp add: word_of_nat_eq_0_iff b_def)
  have "push_bit 3 (of_nat len :: 'a word) = of_nat (8 * len)" by (simp add: push_bit_eq_mult)
  also have "\<dots> = of_nat p" unfolding len using zero by (simp only: of_nat_add add_0_left)
  finally have "l = lo + of_nat p" by (simp add: l)
  then have ul: "unat l = (unat lo + p) mod b" using p by (simp add: unat_word_ariths unat_of_nat b_def)
  define carry :: nat where "carry = (if b \<le> unat lo + p then 1 else 0)"
  have sum: "carry * b + unat l = unat lo + p" and less: "l < lo \<longleftrightarrow> carry = 1"
    using lo p unfolding ul carry_def word_less_nat_alt by (auto simp: le_mod_geq)
  have "unat ((if l < lo then hi + 1 else hi) + of_nat (drop_bit (LENGTH('a) - 3) len)) = (unat hi + carry + q) mod b"
    unfolding less by (auto simp: carry_def unat_word_ariths unat_of_nat drop_bit_eq_div q_def b_def b8_def mod_add_left_eq mod_add_right_eq)
  then have "unat ((if l < lo then hi + 1 else hi) + of_nat (drop_bit (LENGTH('a) - 3) len)) * b + unat l
      = ((unat hi + carry + q) * b + unat l) mod (b * b)"
    using double_word [of "unat l" b "unat hi + carry + q"] ul b(1) by simp
  also have "(unat hi + carry + q) * b + unat l = (unat hi * b + unat lo) + 8 * len"
    using sum unfolding len by (simp add: algebra_simps)
  finally show ?thesis using v by (simp add: mod_add_left_eq flip: b_def)
qed

section \<open>The interface of a digest\<close>

text \<open>
  What the callers of a hash function rely on: \<open>holds c m\<close> says that the context \<open>c\<close> has taken the message
  \<open>m\<close>, and \<open>H m\<close> is its digest.
\<close>

locale digest =
  fixes holds :: "'c \<Rightarrow> u8 list \<Rightarrow> bool" and start :: 'c and update :: "'c \<Rightarrow> u8 list \<Rightarrow> 'c"
    and final :: "'c \<Rightarrow> u8 list option \<times> 'c" and H :: "u8 list \<Rightarrow> u8 list"
  assumes start: "holds start []"
    and update: "holds c m \<Longrightarrow> holds (update c d) (m @ d)"
    and final: "holds c m \<Longrightarrow> fst (final c) = Some (H m)"
begin

lemma updates: "holds c m \<Longrightarrow> holds (foldl update c ds) (m @ concat ds)"
  by (induction ds arbitrary: c m) (use update in \<open>fastforce+\<close>)

lemma stream: "fst (final (foldl update start ds)) = Some (H (concat ds))"
  using final updates [OF start] by simp

lemma one_shot: "fst (final (update start d)) = Some (H d)"
  using stream [of "[d]"] by simp

end

end
