(* ===== verification/TlsCbcSpec.thy ===== *)
theory TlsCbcSpec
  imports TlsCbc MerkleDamgard
begin

unbundle bit_operations_syntax

text \<open>
  What the constant-time code of \<open>TlsCbc\<close> computes: the padding check, the bytes of the MAC, and HMAC of
  the header and the data before the MAC.
\<close>

section \<open>Padding\<close>

lemma and_mask_iff: "(x :: u64) AND 0xff = 0xff \<longleftrightarrow> (\<forall>n<8. bit x n)"
proof -
  have m: "(0xff :: u64) = mask 8" by (simp add: mask_eq_exp_minus_1)
  have "x AND mask 8 = mask 8 \<longleftrightarrow> (\<forall>n<64. (bit x n \<and> n < 8) = (n < 8))"
    using bit_imp_le_length [of x] by (auto simp: bit_eq_iff bit_simps)
  also have "\<dots> \<longleftrightarrow> (\<forall>n<8. bit x n)"
  proof safe
    fix n :: nat assume all: "\<forall>n<64. (bit x n \<and> n < 8) = (n < 8)" and "n < 8"
    then have "(bit x n \<and> n < 8) = (n < 8)" by (intro all [rule_format]) simp
    then show "bit x n" using \<open>n < 8\<close> by blast
  qed blast
  finally show ?thesis unfolding m .
qed

lemma byte_zero_iff: "(x :: u8) = 0 \<longleftrightarrow> (\<forall>n<8. \<not> bit x n)"
  using bit_imp_le_length [of x] by (auto simp: bit_eq_iff)

lemma check_step:
  fixes p b :: u8
  shows "(g AND NOT (ucast (mask_of q :: u8) AND (ucast p XOR ucast b :: u64))) AND 0xff = 0xff
    \<longleftrightarrow> g AND 0xff = 0xff \<and> (q \<longrightarrow> p = b)"
proof (cases q)
  case True
  have "p = b \<longleftrightarrow> (\<forall>n<8. bit p n = bit b n)"
    using bit_imp_le_length [of p] bit_imp_le_length [of b] by (auto simp: bit_eq_iff)
  then show ?thesis
    using True unfolding and_mask_iff by (auto simp: bit_simps)
qed simp

lemma ucast_le_word_of: "i < 2 ^ 64 \<Longrightarrow> word_of i \<le> ucast (p :: u8) \<longleftrightarrow> i \<le> unat p"
  by (simp add: word_le_nat_alt unat_of_nat_u64_id unat_ucast_up)

lemma check_all:
  assumes "length inp < 2 ^ 64"
  shows "n \<le> length inp \<Longrightarrow> foldl (check_pad_byte inp (ucast p)) g [0..<n] AND 0xff = 0xff
    \<longleftrightarrow> g AND 0xff = 0xff \<and> (\<forall>i<n. i \<le> unat p \<longrightarrow> inp ! (length inp - 1 - i) = p)"
proof (induction n)
  case (Suc n)
  have "n < 2 ^ 64" using Suc.prems assms by simp
  then have "check_pad_byte inp (ucast p) g' n =
      g' AND NOT (ucast (mask_of (n \<le> unat p) :: u8) AND (ucast p XOR ucast (inp ! (length inp - 1 - n))))" for g'
    by (simp add: check_pad_byte_def constant_time_8_masks ucast_le_word_of)
  then show ?case using Suc check_step by (auto simp: less_Suc_eq)
qed simp

text \<open>The last byte is the length of the padding before it, and all of it has that value.\<close>

definition padding_ok :: "u8 list \<Rightarrow> nat \<Rightarrow> bool" where
  "padding_ok inp mac_size \<longleftrightarrow> (let p = unat (last inp)
     in mac_size + p + 1 \<le> length inp \<and> (\<forall>b\<in>set (drop (length inp - (p + 1)) inp). b = last inp))"

lemma drop_all_iff:
  "n \<le> length xs \<Longrightarrow> (\<forall>b\<in>set (drop (length xs - n) xs). P b) \<longleftrightarrow> (\<forall>i<n. P (xs ! (length xs - 1 - i)))"
proof -
  assume n: "n \<le> length xs"
  have "(\<forall>b\<in>set (drop (length xs - n) xs). P b) \<longleftrightarrow> (\<forall>j<n. P (xs ! (length xs - n + j)))"
    using n by (simp add: all_set_conv_all_nth)
  also have "\<dots> \<longleftrightarrow> (\<forall>i<n. P (xs ! (length xs - 1 - i)))"
  proof safe
    fix i assume "\<forall>j<n. P (xs ! (length xs - n + j))" "i < n"
    moreover have "n - 1 - i < n" using \<open>i < n\<close> by simp
    ultimately have "P (xs ! (length xs - n + (n - 1 - i)))" by blast
    moreover have "length xs - n + (n - 1 - i) = length xs - 1 - i" using \<open>i < n\<close> n by simp
    ultimately show "P (xs ! (length xs - 1 - i))" by simp
  next
    fix j assume "\<forall>i<n. P (xs ! (length xs - 1 - i))" "j < n"
    moreover have "n - 1 - j < n" using \<open>j < n\<close> by simp
    ultimately have "P (xs ! (length xs - 1 - (n - 1 - j)))" by blast
    moreover have "length xs - 1 - (n - 1 - j) = length xs - n + j" using \<open>j < n\<close> n by simp
    ultimately show "P (xs ! (length xs - n + j))" by simp
  qed
  finally show ?thesis .
qed

theorem remove_padding_result:
  assumes "1 + mac_size \<le> length inp" and "length inp < 2 ^ 63"
  shows "EVP_tls_cbc_remove_padding inp block_size mac_size =
    Some (mask_of (padding_ok inp mac_size),
          word_of (length inp - (if padding_ok inp mac_size then unat (last inp) + 1 else 0)))"
proof -
  define p where "p = inp ! (length inp - 1)"
  have p: "last inp = p" using assms(1) by (subst last_conv_nth) (auto simp: p_def)
  have b: "unat p < 256" by simp
  define n where "n = (if 256 > length inp then length inp else 256)"
  define fits where "fits = (mac_size + unat p + 1 \<le> length inp)"
  have "1 + mac_size + unat p < 2 ^ 64" using assms unat_u8_le [of p] by (simp del: unat_u8_le unat_u8_less)
  then have "unat (word_of (1 + mac_size) + ucast p :: u64) = 1 + mac_size + unat p"
    using assms by (simp add: unat_word_ariths unat_of_nat unat_ucast_up)
  then have ge: "constant_time_ge_w (word_of (length inp)) (word_of (1 + mac_size) + ucast p) = mask_of fits"
    using assms unfolding constant_time_ge_w_mask word_le_nat_alt
    by (simp add: unat_of_nat_u64_id fits_def add.commute add.left_commute)
  have start: "mask_of fits AND (0xff :: u64) = 0xff \<longleftrightarrow> fits" by (cases fits) simp_all
  have "n \<le> length inp" by (simp add: n_def)
  note all = check_all [OF _ this, of p "mask_of fits", unfolded start]
  have "fits \<and> (\<forall>i<n. i \<le> unat p \<longrightarrow> inp ! (length inp - 1 - i) = p) \<longleftrightarrow> padding_ok inp mac_size"
  proof (cases fits)
    case True
    then have "unat p + 1 \<le> length inp" "unat p + 1 \<le> n" using b by (simp_all add: fits_def n_def)
    then show ?thesis
      using drop_all_iff [of "unat p + 1" inp "\<lambda>b. b = p"] True
      by (auto simp: padding_ok_def p fits_def less_Suc_eq_le)
  qed (simp add: padding_ok_def p fits_def)
  then have good: "constant_time_eq_w 0xff (foldl (check_pad_byte inp (ucast p)) (mask_of fits) [0..<n] AND 0xff)
      = mask_of (padding_ok inp mac_size)"
    using all assms(2) unfolding constant_time_eq_w_mask by (simp add: eq_commute [of 0xff])
  have "mask_of q AND (ucast p + 1 :: u64) = word_of (if q then unat p + 1 else 0)" for q by (cases q) simp_all
  moreover have "word_of (length inp) - word_of (if padding_ok inp mac_size then unat p + 1 else 0)
      = word_of (length inp - (if padding_ok inp mac_size then unat p + 1 else 0))"
  proof (cases "padding_ok inp mac_size")
    case True
    then have "unat p + 1 \<le> length inp" by (simp add: padding_ok_def p Let_def)
    then show ?thesis using True by (simp only: if_True of_nat_diff)
  qed simp
  ultimately show ?thesis
    using assms(1) unfolding EVP_tls_cbc_remove_padding_def Let_def p_def [symmetric] ge n_def [symmetric] good p
    by simp
qed

section \<open>The bytes of the MAC\<close>

text \<open>The position that the loop counter \<open>j\<close> stands for, after \<open>n\<close> steps around a ring of \<open>m\<close> places.\<close>

definition ring_counter :: "nat \<Rightarrow> nat \<Rightarrow> nat" where
  "ring_counter m n = (case n of 0 \<Rightarrow> 0 | Suc k \<Rightarrow> k mod m + 1)"

lemma ring_counter_wrap: "0 < m \<Longrightarrow> (if ring_counter m n \<ge> m then ring_counter m n - m else ring_counter m n) = n mod m"
proof (cases n)
  case (Suc k)
  assume "0 < m"
  then have "k mod m < m" by simp
  then show ?thesis using Suc by (auto simp: ring_counter_def mod_Suc)
qed (simp add: ring_counter_def)

definition scan_ok :: "nat \<Rightarrow> u8 list \<Rightarrow> nat \<Rightarrow> nat \<Rightarrow> nat \<Rightarrow> mac_scan \<Rightarrow> bool" where
  "scan_ok m inp start mac_start i s \<longleftrightarrow>
     length (rotated_mac s) = m \<and> scan_j s = ring_counter m (i - start) \<and> mac_started s = mask_of (mac_start < i)
     \<and> rotate_offset s = (if mac_start < i then word_of ((mac_start - start) mod m) else 0)
     \<and> (\<forall>t<m. rotated_mac s ! ((mac_start - start + t) mod m) = (if mac_start + t < i then inp ! (mac_start + t) else 0))"

lemma and_mask_of [simp]: "(x :: 'a::len word) AND mask_of q = (if q then x else 0)" "x AND NOT (mask_of q) = (if q then 0 else x)"
  by (cases q; simp)+

lemma or_mask_of: "(mask_of p :: 'a::len word) OR mask_of q = mask_of (p \<or> q)"
  by (cases p; cases q) simp_all

lemma scan_step:
  assumes ok: "scan_ok m inp start mac_start i s" and m: "0 < m" and start: "start \<le> mac_start" "start \<le> i"
    and small: "i < 2 ^ 64" "mac_start + m < 2 ^ 64"
  shows "scan_ok m inp start mac_start (Suc i) (mac_scan_step m inp mac_start (mac_start + m) s i)"
proof -
  define j where "j = (i - start) mod m"
  have j: "(if scan_j s \<ge> m then scan_j s - m else scan_j s) = j"
  proof -
    have "scan_j s = ring_counter m (i - start)" using ok by (simp add: scan_ok_def)
    then show ?thesis unfolding j_def by (simp only: ring_counter_wrap [OF m])
  qed
  have eq: "word_of i = word_of mac_start \<longleftrightarrow> i = mac_start"
    using small by (simp add: word_unat_eq_iff unat_of_nat_u64_id)
  have ge: "word_of (mac_start + m) \<le> word_of i \<longleftrightarrow> mac_start + m \<le> i"
    using small by (simp only: word_le_nat_alt unat_of_nat_u64_id)
  have step: "mac_scan_step m inp mac_start (mac_start + m) s i =
    \<lparr>rotated_mac = (rotated_mac s)[j := rotated_mac s ! j OR (if mac_start \<le> i \<and> i < mac_start + m then inp ! i else 0)],
     mac_started = mask_of (mac_start < Suc i),
     rotate_offset = (if mac_start < Suc i then word_of ((mac_start - start) mod m) else 0),
     scan_j = j + 1\<rparr>"
    using ok j unfolding mac_scan_step_def Let_def constant_time_eq_w_mask constant_time_8_masks eq ge
    by (auto simp: scan_ok_def or_mask_of j_def less_Suc_eq not_less)
  have len: "length (rotated_mac s) = m" and old: "\<And>t. t < m \<Longrightarrow>
      rotated_mac s ! ((mac_start - start + t) mod m) = (if mac_start + t < i then inp ! (mac_start + t) else 0)"
    using ok by (simp_all add: scan_ok_def)
  have "((rotated_mac s)[j := rotated_mac s ! j OR (if mac_start \<le> i \<and> i < mac_start + m then inp ! i else 0)])
      ! ((mac_start - start + t) mod m) = (if mac_start + t < Suc i then inp ! (mac_start + t) else 0)" if t: "t < m" for t
  proof (cases "mac_start \<le> i \<and> i < mac_start + m")
    case True
    then obtain t0 where t0: "i = mac_start + t0" "t0 < m" by (metis le_Suc_ex nat_add_left_cancel_less)
    have j0: "j = (mac_start - start + t0) mod m" using start(1) by (simp add: j_def t0(1))
    show ?thesis
    proof (cases "t = t0")
      case True
      then show ?thesis using old [OF t0(2)] t0 len m by (simp add: j0)
    next
      case False
      then have "(mac_start - start + t) mod m \<noteq> j" using ring_places [OF _ t t0(2)] by (auto simp: j0)
      then show ?thesis using old [OF t] False t0 by simp
    qed
  next
    case False
    then have "(rotated_mac s)[j := rotated_mac s ! j OR (if mac_start \<le> i \<and> i < mac_start + m then inp ! i else 0)] = rotated_mac s"
      by (simp only: False if_False or.right_neutral list_update_id)
    then show ?thesis using old [OF t] False t by auto
  qed
  then show ?thesis
    unfolding step scan_ok_def using len start(2) by (simp add: ring_counter_def Suc_diff_le j_def)
qed

lemma scan_all:
  assumes m: "0 < m" and start: "start \<le> mac_start" and small: "mac_start + m < 2 ^ 64" and "n < 2 ^ 64"
  shows "start \<le> n \<Longrightarrow> scan_ok m inp start mac_start n (foldl (mac_scan_step m inp mac_start (mac_start + m))
    \<lparr>rotated_mac = replicate m 0, mac_started = 0, rotate_offset = 0, scan_j = 0\<rparr> [start..<n])"
  using assms(4)
proof (induction n)
  case 0
  then show ?case using start by (simp add: scan_ok_def ring_counter_def mask_of_def)
next
  case (Suc n)
  show ?case
  proof (cases "start = Suc n")
    case True
    then show ?thesis using start m by (simp add: scan_ok_def ring_counter_def mask_of_def)
  next
    case False
    then have "start \<le> n" using Suc.prems by simp
    then show ?thesis using scan_step [OF Suc.IH m start] small Suc.prems by simp
  qed
qed

lemma rotate_step_bit:
  assumes "length mac = m" "0 < offset" "offset < m"
  shows "rotate_step m offset r mac = (if odd (unat r) then rotate offset mac else mac)"
proof -
  have bit0: "ucast ((r AND 1) - 1) = (mask_of (even (unat r)) :: u8)"
  proof -
    have odd: "bit r 0 = odd (unat r)" 
      using bit_unsigned_iff [where ?'a = nat, of r 0] by (simp add: bit_0)
    have "r AND 1 = of_bool (bit r 0)" by (rule bit_word_eqI) (auto simp: bit_simps)
    moreover have "ucast (- 1 :: u64) = (- 1 :: u8)" by (rule bit_word_eqI) (simp add: bit_simps)
    ultimately show ?thesis unfolding odd by (cases "even (unat r)") simp_all
  qed
  have "(if i + offset \<ge> m then i + offset - m else i + offset) = (offset + i) mod m" if "i < m" for i
    using that assms(3) by (simp add: mod_if add.commute [of i])
  then have "rotate_step m offset r mac = map (\<lambda>i. if even (unat r) then mac ! i else mac ! ((offset + i) mod m)) [0..<m]"
    unfolding rotate_step_def Let_def bit0 constant_time_select_8_mask by (intro map_cong) auto
  also have "\<dots> = (if odd (unat r) then rotate offset mac else mac)"
    using assms(1) by (intro nth_equalityI) (auto simp: nth_rotate)
  finally show ?thesis .
qed

lemma rotate_loop_rotates:
  "length mac = m \<Longrightarrow> 0 < offset \<Longrightarrow> offset * unat r < m \<Longrightarrow> rotate_loop m offset r mac = rotate (offset * unat r) mac"
proof (induction m offset r mac rule: rotate_loop.induct)
  case (1 m offset r mac)
  show ?case
  proof (cases "offset < m")
    case True
    have half: "unat (drop_bit 1 r) = unat r div 2" by (simp add: byte_simps)
    have r: "unat r = 2 * (unat r div 2) + (if odd (unat r) then 1 else 0)" by simp
    have sum: "2 * offset * (unat r div 2) + (if odd (unat r) then offset else 0) = offset * unat r"
      by (subst (3) r) (simp add: algebra_simps)
    note step = rotate_step_bit [OF "1.prems"(1,2) True, of r]
    have "rotate_loop m offset r mac = rotate_loop m (2 * offset) (drop_bit 1 r) (rotate_step m offset r mac)"
      using True "1.prems"(2) by (simp add: rotate_loop.simps [of m offset])
    also have "\<dots> = rotate (2 * offset * unat (drop_bit 1 r)) (rotate_step m offset r mac)"
      by (rule "1.IH") (use True "1.prems" step half sum in auto)
    also have "\<dots> = rotate (offset * unat r) mac"
    proof (cases "odd (unat r)")
      case True
      then have "offset * unat r = 2 * offset * (unat r div 2) + offset" using sum by (simp only: True if_True not_False_eq_True)
      then show ?thesis using True unfolding half step by (simp only: if_True not_False_eq_True rotate_rotate)
    next
      case False
      then have "offset * unat r = 2 * offset * (unat r div 2)" using sum by (simp only: if_False add_0_right)
      then show ?thesis using False unfolding half step by (simp only: if_False)
    qed
    finally show ?thesis .
  next
    case False
    then have "unat r = 0" using "1.prems"(3) by (cases "unat r") auto
    then show ?thesis using False by (simp add: rotate_loop.simps [of m offset])
  qed
qed

theorem copy_mac_result:
  assumes "0 < md" and "md \<le> in_len" and "in_len \<le> orig_len" and "orig_len - in_len \<le> 256" and "orig_len < 2 ^ 63"
    and "orig_len \<le> length inp"
  shows "EVP_tls_cbc_copy_mac md inp in_len orig_len = take md (drop (in_len - md) inp)"
proof -
  define mac_start where "mac_start = in_len - md"
  define start where "start = (if orig_len > md + 255 + 1 then orig_len - (md + 255 + 1) else 0)"
  define s where "s = foldl (mac_scan_step md inp mac_start (mac_start + md))
    \<lparr>rotated_mac = replicate md 0, mac_started = 0, rotate_offset = 0, scan_j = 0\<rparr> [start..<orig_len]"
  have end': "mac_start + md = in_len" using assms(2) by (simp add: mac_start_def)
  have start: "start \<le> mac_start" "start \<le> orig_len" using assms(2,3,4) by (auto simp: start_def mac_start_def)
  have ok: "scan_ok md inp start mac_start orig_len s"
    unfolding s_def by (rule scan_all [OF assms(1) start(1) _ _ start(2)]) (use assms end' in simp_all)
  define r where "r = (mac_start - start) mod md"
  have r: "r < md" using assms(1) by (simp add: r_def)
  have "mac_start < orig_len" using assms(1,3) end' by linarith
  then have "rotate_offset s = word_of r" using ok by (simp add: scan_ok_def r_def)
  moreover have "r < 2 ^ 64" using r assms(2,3,5) by simp
  ultimately have "unat (rotate_offset s) = r" by (simp only: unat_of_nat_u64_id)
  then have "rotate_loop md 1 (rotate_offset s) (rotated_mac s) = rotate r (rotated_mac s)"
    using rotate_loop_rotates [of "rotated_mac s" md 1 "rotate_offset s"] ok r by (simp add: scan_ok_def)
  also have "\<dots> = take md (drop mac_start inp)"
  proof (rule nth_equalityI)
    fix t assume "t < length (rotate r (rotated_mac s))"
    then have t: "t < md" using ok by (simp add: scan_ok_def)
    have "rotate r (rotated_mac s) ! t = rotated_mac s ! ((r + t) mod md)"
      using ok t by (simp add: scan_ok_def nth_rotate)
    also have "(r + t) mod md = (mac_start - start + t) mod md" unfolding r_def by (rule mod_add_left_eq)
    also have "rotated_mac s ! \<dots> = inp ! (mac_start + t)" using ok t assms(3) end' by (auto simp: scan_ok_def)
    finally show "rotate r (rotated_mac s) ! t = take md (drop mac_start inp) ! t" using t assms(3,6) end' by simp
  qed (use ok assms(3,6) end' in \<open>simp add: scan_ok_def\<close>)
  finally show ?thesis
    unfolding EVP_tls_cbc_copy_mac_def Let_def start_def [symmetric] mac_start_def [symmetric] s_def [symmetric]
    by (simp add: s_def end')
qed

end
