(* ===== verification/TlsDigest.thy ===== *)
theory TlsDigest
  imports TlsCbcSpec
begin

unbundle bit_operations_syntax

text \<open>
  The digest of a TLS record in CBC mode is HMAC: the blocks that \<open>EVP_tls_cbc_digest_record\<close> builds
  in constant time are those of the message that ends where the secret length says.
\<close>

section \<open>Hashes of the Merkle-Damgard kind and HMAC\<close>

definition record_pad :: "hash_sizes \<Rightarrow> u8 list \<Rightarrow> u8 list" where
  "record_pad sizes m = md_pad (md_block_size sizes) (md_length_size sizes) (be_bytes (md_length_size sizes)) m"

definition md_hash :: "hash_sizes \<Rightarrow> 'h hash_fns \<Rightarrow> u8 list \<Rightarrow> u8 list" where
  "md_hash sizes fns m =
     take (md_size sizes) (md_final_raw fns
       (md_chain (md_block_size sizes) (md_transform fns) (md_init fns) (record_pad sizes m)))"

definition hmac_key :: "nat \<Rightarrow> u8 \<Rightarrow> u8 list \<Rightarrow> u8 list" where
  "hmac_key bs x key = map (\<lambda>b. b XOR x) (key @ replicate (bs - length key) 0)"

definition hmac :: "hash_sizes \<Rightarrow> 'h hash_fns \<Rightarrow> u8 list \<Rightarrow> u8 list \<Rightarrow> u8 list" where
  "hmac sizes fns key m =
     (let bs = md_block_size sizes
      in md_hash sizes fns (hmac_key bs 0x5c key @ md_hash sizes fns (hmac_key bs 0x36 key @ m)))"

section \<open>The sizes of the three hashes\<close>

definition good_sizes :: "hash_sizes \<Rightarrow> bool" where
  "good_sizes s \<longleftrightarrow> md_block_size s = 2 ^ md_block_shift s \<and> md_block_size s \<le> 128 \<and> 13 < md_block_size s
     \<and> 4 \<le> md_length_size s \<and> md_length_size s < md_block_size s \<and> md_length_size s - 1 \<le> md_size s
     \<and> md_size s \<le> md_block_size s"

lemma digest_sizes_good: "digest_sizes md = Some s \<Longrightarrow> good_sizes s"
  by (auto simp: digest_sizes_def good_sizes_def split: if_splits)

lemma length_field_be_bytes:
  assumes "4 \<le> n" and "bits < 2 ^ 32"
  shows "length_field n bits = be_bytes n bits"
proof -
  obtain k where n: "n = Suc (Suc (Suc (Suc k)))" using le_Suc_ex [OF assms(1)] by (auto simp: numeral_eq_Suc)
  have zero: "be_bytes k 0 = replicate k 0"
    by (induction k) (simp_all add: be_bytes_Suc replicate_append_same)
  have "bits div 256 div 256 div 256 div 256 = 0" using assms(2) by (simp add: div_mult2_eq [symmetric])
  then show ?thesis
    by (simp add: n length_field_def be_bytes_Suc zero drop_bit_eq_div div_mult2_eq [symmetric])
qed

lemma length_length_field [simp]: "4 \<le> n \<Longrightarrow> length (length_field n bits) = n"
  by (simp add: length_field_def)

section \<open>A block built in constant time\<close>

text \<open>The padded message after the block of the key.\<close>

definition inner_pad :: "hash_sizes \<Rightarrow> u8 list \<Rightarrow> u8 list" where
  "inner_pad s m =
     (let bs = md_block_size s; ls = md_length_size s
      in m @ 0x80 # replicate (bs - 1 - (length m + ls) mod bs) 0 @ be_bytes ls (8 * length m + 8 * bs))"

lemma md_pad_key:
  "length k = md_block_size s \<Longrightarrow> record_pad s (k @ m) = k @ inner_pad s m"
  by (simp add: record_pad_def md_pad_def inner_pad_def Let_def add.assoc add.commute [of "8 * md_block_size s"])

lemma length_inner_pad:
  "0 < md_block_size s \<Longrightarrow> length (inner_pad s m) = md_block_size s * ((length m + md_length_size s) div md_block_size s + 1)"
  using rem_bound [of "md_block_size s" "length m + md_length_size s"] by (simp add: inner_pad_def Let_def)

lemma nth_inner_pad:
  assumes "0 < md_block_size s" and p: "p < length (inner_pad s m)"
  shows "inner_pad s m ! p =
    (if p < length m then m ! p else if p = length m then 0x80
     else if p < length (inner_pad s m) - md_length_size s then 0
     else be_bytes (md_length_size s) (8 * length m + 8 * md_block_size s) ! (p - (length (inner_pad s m) - md_length_size s)))"
proof -
  define z where "z = md_block_size s - 1 - (length m + md_length_size s) mod md_block_size s"
  have eq: "inner_pad s m = m @ 0x80 # replicate z 0 @ be_bytes (md_length_size s) (8 * length m + 8 * md_block_size s)"
    by (simp add: inner_pad_def z_def Let_def)
  show ?thesis using p unfolding eq by (auto simp: nth_append nth_Cons' simp del: replicate.simps)
qed

lemma div_mod_position:
  fixes i j b n :: nat
  assumes "j < b"
  shows "i = n div b \<Longrightarrow> (b * i + j < n \<longleftrightarrow> j < n mod b)" "i = n div b \<Longrightarrow> (b * i + j = n \<longleftrightarrow> j = n mod b)"
    "i < n div b \<Longrightarrow> b * i + j < n" "n div b < i \<Longrightarrow> n < b * i + j"
proof -
  have n: "n = b * (n div b) + n mod b" by simp
  show "i = n div b \<Longrightarrow> (b * i + j < n \<longleftrightarrow> j < n mod b)" "i = n div b \<Longrightarrow> (b * i + j = n \<longleftrightarrow> j = n mod b)"
    using n arg_cong [of i "n div b" "(*) b"] by - linarith+
  have b: "0 < b" using assms by simp
  show "i < n div b \<Longrightarrow> b * i + j < n"
  proof -
    assume "i < n div b"
    then have "b * (i + 1) \<le> b * (n div b)" by (intro mult_le_mono2) simp
    then have "b * i + b \<le> b * (n div b)" by (simp add: algebra_simps)
    then show ?thesis using n assms by linarith
  qed
  show "n div b < i \<Longrightarrow> n < b * i + j"
  proof -
    assume "n div b < i"
    then have "b * (n div b + 1) \<le> b * i" by (intro mult_le_mono2) simp
    then have "b * (n div b) + b \<le> b * i" by (simp add: algebra_simps)
    then show ?thesis using n mod_less_divisor [OF b, of n] by linarith
  qed
qed

lemma word_of_le_iff: "a < 2 ^ 64 \<Longrightarrow> b < 2 ^ 64 \<Longrightarrow> word_of a \<le> word_of b \<longleftrightarrow> a \<le> b"
  by (simp only: word_le_nat_alt unat_of_nat_u64_id)

lemma word_of_eq_iff: "a < 2 ^ 64 \<Longrightarrow> b < 2 ^ 64 \<Longrightarrow> word_of a = word_of b \<longleftrightarrow> a = b"
  by (metis unat_of_nat_u64_id)

text \<open>The byte that the masks choose, as a choice.\<close>

lemma block_byte_choice:
  assumes "j < 2 ^ 63" "c < 2 ^ 63"
  shows "block_byte s header data record_size lb c (mask_of a) (mask_of b) k j =
    (if b \<and> md_block_size s - md_length_size s \<le> j then lb ! (j - (md_block_size s - md_length_size s))
     else if a \<and> j = c then 0x80 else if a \<and> c < j \<or> b \<and> \<not> a then 0
     else if k < kHeaderLength then header ! k
     else if k < record_size + kHeaderLength then data ! (k - kHeaderLength) else 0)"
proof -
  have w: "word_of c \<le> word_of j \<longleftrightarrow> c \<le> j" "word_of (c + 1) \<le> word_of j \<longleftrightarrow> c < j"
    using assms by (simp_all add: word_of_le_iff Suc_le_eq del: of_nat_Suc of_nat_add)
  have m: "mask_of a AND mask_of q = (mask_of (a \<and> q) :: u8)" for q by (cases a; cases q) simp_all
  have n: "NOT (mask_of b) OR mask_of a = (mask_of (\<not> (b \<and> \<not> a)) :: u8)" by (cases a; cases b) simp_all
  have choose: "(if \<not> (b \<and> \<not> a) then if a \<and> c < j then 0 else if a \<and> c \<le> j then 0x80 else x else 0)
      = (if a \<and> j = c then 0x80 else if a \<and> c < j \<or> b \<and> \<not> a then 0 else x)" for x :: u8
    by auto
  show ?thesis
    unfolding block_byte_def Let_def constant_time_8_masks w m n constant_time_select_8_mask
    unfolding and_mask_of choose by auto
qed

lemma block_byte_value:
  assumes good: "good_sizes s" and hdr: "length header = kHeaderLength"
    and n: "n = kHeaderLength + used" and used: "used \<le> record_size" "record_size \<le> length data" "record_size < 2 ^ 32"
    and i: "i \<le> (n + md_length_size s) div md_block_size s" and j: "j < md_block_size s"
  shows "block_byte s header data record_size (be_bytes (md_length_size s) (8 * n + 8 * md_block_size s)) (n mod md_block_size s)
      (mask_of (i = n div md_block_size s)) (mask_of (i = (n + md_length_size s) div md_block_size s)) (md_block_size s * i + j) j
    = inner_pad s (header @ take used data) ! (md_block_size s * i + j)"
proof -
  define bs where "bs = md_block_size s"
  define ls where "ls = md_length_size s"
  define m where "m = header @ take used data"
  define B where "B = (n + ls) div bs"
  define p where "p = bs * i + j"
  have bs: "0 < bs" "ls < bs" "bs \<le> 128" using good by (simp_all add: good_sizes_def bs_def ls_def)
  have m: "length m = n" using hdr n used by (simp add: m_def)
  have len: "length (inner_pad s m) = bs * B + bs" using length_inner_pad [of s m] bs(1) m by (simp add: bs_def ls_def B_def)
  have iB: "i \<le> B" using i by (simp add: B_def bs_def ls_def)
  have "bs * i \<le> bs * B" using iB by (rule mult_le_mono2)
  then have p: "p < length (inner_pad s m)" using j unfolding len p_def bs_def by linarith
  have AB: "n div bs \<le> B" by (simp add: B_def div_le_mono)
  have B1: "B \<le> n div bs + 1"
    using div_le_mono [of "n + ls" "n + bs" bs] bs by (simp add: B_def div_add_self2)
  have tail: "i = B \<Longrightarrow> (p < bs * B + bs - ls \<longleftrightarrow> j < bs - ls) \<and> p - (bs * B + bs - ls) = j - (bs - ls)"
    using bs j by (auto simp: p_def)
  have inside: "p < bs * B + bs - ls" if "i < B"
  proof -
    have "bs * (i + 1) \<le> bs * B" using that by (intro mult_le_mono2) simp
    then show ?thesis using bs j by (simp add: p_def bs_def [symmetric])
  qed
  have plain: "m ! p = (if p < kHeaderLength then header ! p
      else if p < record_size + kHeaderLength then data ! (p - kHeaderLength) else 0)" if "p < n"
    using that n used hdr by (simp add: m_def nth_append)
  have room: "n < bs * B + bs - ls" using rem_bound [OF bs(1), of "n + ls"] bs by (simp add: B_def algebra_simps)
  have small: "j < 2 ^ 63" "n mod bs < 2 ^ 63"
  proof -
    have "j < 128" "n mod bs < 128"
      using j bs mod_less_divisor [OF bs(1), of n] unfolding bs_def by - linarith+
    then show "j < 2 ^ 63" "n mod bs < 2 ^ 63" by simp_all
  qed
  have jb: "j < bs" using j by (simp add: bs_def)
  have "inner_pad s m ! p = (if p < n then m ! p else if p = n then 0x80 else if p < bs * B + bs - ls then 0
      else be_bytes ls (8 * n + 8 * bs) ! (p - (bs * B + bs - ls)))"
    using nth_inner_pad [OF _ p] bs(1) unfolding m len by (simp add: bs_def ls_def)
  also have "\<dots> = (if i = B \<and> bs - ls \<le> j then be_bytes ls (8 * n + 8 * bs) ! (j - (bs - ls))
     else if i = n div bs \<and> j = n mod bs then 0x80 else if i = n div bs \<and> n mod bs < j \<or> i = B \<and> i \<noteq> n div bs then 0
     else if p < kHeaderLength then header ! p
     else if p < record_size + kHeaderLength then data ! (p - kHeaderLength) else 0)"
  proof -
    consider (before) "i < n div bs" | (at) "i = n div bs" | (after) "n div bs < i" "i = B" using iB B1 by linarith
    then show ?thesis
    proof cases
      case before
      then have "p < n" using div_mod_position(3) [OF jb before] by (simp add: p_def)
      then show ?thesis using before AB plain by simp
    next
      case at
      have pos: "p < n \<longleftrightarrow> j < n mod bs" "p = n \<longleftrightarrow> j = n mod bs"
        using div_mod_position(1,2) [OF jb at] by (simp_all add: p_def)
      show ?thesis
      proof (cases "i = B")
        case True
        then show ?thesis using tail [OF True] pos plain room at by auto
      next
        case False
        then show ?thesis using inside pos plain at iB by auto
      qed
    next
      case after
      have "n < p" using div_mod_position(4) [OF jb after(1)] by (simp add: p_def)
      then show ?thesis using after tail by auto
    qed
  qed
  finally show ?thesis
    using block_byte_choice [OF small] by (simp add: p_def B_def bs_def ls_def m_def)
qed

section \<open>The blocks of a record\<close>

text \<open>The chaining value after the first \<open>i\<close> blocks of a padded message.\<close>

definition chain :: "nat \<Rightarrow> 'h hash_fns \<Rightarrow> 'h \<Rightarrow> u8 list \<Rightarrow> nat \<Rightarrow> 'h" where
  "chain bs fns h xs i = foldl (md_transform fns) h (map (block_at bs xs) [0..<i])"

lemma chain_Suc: "chain bs fns h xs (Suc i) = md_transform fns (chain bs fns h xs i) (block_at bs xs i)"
  by (simp add: chain_def)

text \<open>What the loop over the last blocks keeps, when \<open>B\<close> is the last block of the message.\<close>

definition hashed :: "hash_sizes \<Rightarrow> 'h hash_fns \<Rightarrow> 'h \<Rightarrow> u8 list \<Rightarrow> nat \<Rightarrow> nat \<Rightarrow> 'h \<times> u8 list \<times> nat \<Rightarrow> bool" where
  "hashed s fns h0 xs B i st \<longleftrightarrow>
     (case st of (h, out, k) \<Rightarrow>
        k = md_block_size s * i \<and> (i \<le> Suc B \<longrightarrow> h = chain (md_block_size s) fns h0 xs i)
        \<and> out = (if B < i then take (md_size s) (md_final_raw fns (chain (md_block_size s) fns h0 xs (Suc B)))
                 else replicate (md_size s) 0))"

lemma hashed_step:
  assumes good: "good_sizes s" and hdr: "length header = kHeaderLength"
    and n: "n = kHeaderLength + used" and used: "used \<le> record_size" "record_size \<le> length data" "record_size < 2 ^ 32"
    and B: "B = (n + md_length_size s) div md_block_size s" and i: "i < 2 ^ 64"
    and out: "\<And>h. md_size s \<le> length (md_final_raw fns h)"
    and st: "hashed s fns h0 (inner_pad s (header @ take used data)) B i st"
  shows "hashed s fns h0 (inner_pad s (header @ take used data)) B (Suc i)
    (variable_block s fns header data record_size (be_bytes (md_length_size s) (8 * n + 8 * md_block_size s))
       (n mod md_block_size s) (n div md_block_size s) B st i)"
proof -
  define xs where "xs = inner_pad s (header @ take used data)"
  obtain h mac k where st': "st = (h, mac, k)" by (cases st)
  have k: "k = md_block_size s * i" and h: "i \<le> Suc B \<Longrightarrow> h = chain (md_block_size s) fns h0 xs i"
    and mac: "mac = (if B < i then take (md_size s) (md_final_raw fns (chain (md_block_size s) fns h0 xs (Suc B)))
                     else replicate (md_size s) 0)"
    using st by (simp_all add: hashed_def st' xs_def)
  have bs: "0 < md_block_size s" "md_length_size s \<le> 128" using good by (auto simp: good_sizes_def)
  have "n < 2 ^ 33" using n used by (simp add: kHeaderLength_def)
  then have "n < 2 ^ 64" "n + md_length_size s < 2 ^ 64" using bs(2) by simp_all
  then have "n div md_block_size s < 2 ^ 64" "B < 2 ^ 64"
    unfolding B by - (erule le_less_trans [OF div_le_dividend])+
  then have w: "word_of i = word_of (n div md_block_size s) \<longleftrightarrow> i = n div md_block_size s" "word_of i = word_of B \<longleftrightarrow> i = B"
    using i by (simp_all only: word_of_eq_iff)
  define blk where "blk = map (\<lambda>j. block_byte s header data record_size (be_bytes (md_length_size s) (8 * n + 8 * md_block_size s))
      (n mod md_block_size s) (mask_of (i = n div md_block_size s)) (mask_of (i = B)) (k + j) j) [0..<md_block_size s]"
  have blk: "blk = block_at (md_block_size s) xs i" if "i \<le> B"
  proof -
    have "length xs = md_block_size s * (B + 1)"
      using length_inner_pad [OF bs(1), of "header @ take used data"] hdr n used by (simp add: xs_def B)
    then have fits: "md_block_size s * (i + 1) \<le> length xs" using that by simp
    have "blk = map (\<lambda>j. xs ! (md_block_size s * i + j)) [0..<md_block_size s]"
      unfolding blk_def k B xs_def using that block_byte_value [OF good hdr n used] by (intro map_cong) (simp_all add: B)
    then show ?thesis using block_at_map_nth [OF fits] by simp
  qed
  define h' where "h' = md_transform fns h blk"
  have step: "variable_block s fns header data record_size (be_bytes (md_length_size s) (8 * n + 8 * md_block_size s))
       (n mod md_block_size s) (n div md_block_size s) B st i =
    (h', map (\<lambda>j. mac ! j OR (if i = B then md_final_raw fns h' ! j else 0)) [0..<md_size s], k + md_block_size s)"
    unfolding variable_block_def st' Let_def constant_time_8_masks w and_mask_of h'_def blk_def by simp
  have h': "h' = chain (md_block_size s) fns h0 xs (Suc i)" if "i \<le> B"
    using that blk h by (simp add: h'_def chain_Suc)
  have "map (\<lambda>j. mac ! j OR (if i = B then md_final_raw fns h' ! j else 0)) [0..<md_size s] =
    (if B < Suc i then take (md_size s) (md_final_raw fns (chain (md_block_size s) fns h0 xs (Suc B)))
     else replicate (md_size s) 0)"
  proof (rule nth_equalityI)
    show "length (map (\<lambda>j. mac ! j OR (if i = B then md_final_raw fns h' ! j else 0)) [0..<md_size s]) =
      length (if B < Suc i then take (md_size s) (md_final_raw fns (chain (md_block_size s) fns h0 xs (Suc B)))
              else replicate (md_size s) 0)"
      using out by (simp add: min_absorb2)
  next
    fix j assume "j < length (map (\<lambda>j. mac ! j OR (if i = B then md_final_raw fns h' ! j else 0)) [0..<md_size s])"
    then have j: "j < md_size s" by simp
    consider "i < B" | "i = B" | "B < i" by linarith
    then show "map (\<lambda>j. mac ! j OR (if i = B then md_final_raw fns h' ! j else 0)) [0..<md_size s] ! j =
      (if B < Suc i then take (md_size s) (md_final_raw fns (chain (md_block_size s) fns h0 xs (Suc B)))
       else replicate (md_size s) 0) ! j"
    proof cases
      case 2
      then have "h' = chain (md_block_size s) fns h0 xs (Suc B)" using h' by simp
      then show ?thesis using j 2 by (simp add: mac)
    qed (use j in \<open>simp_all add: mac\<close>)
  qed
  then show ?thesis unfolding step hashed_def xs_def [symmetric] using h' k by simp
qed

lemma hashed_all:
  assumes good: "good_sizes s" and hdr: "length header = kHeaderLength"
    and n: "n = kHeaderLength + used" and used: "used \<le> record_size" "record_size \<le> length data" "record_size < 2 ^ 32"
    and B: "B = (n + md_length_size s) div md_block_size s"
    and out: "\<And>h. md_size s \<le> length (md_final_raw fns h)"
    and st: "hashed s fns h0 (inner_pad s (header @ take used data)) B a st"
  shows "a \<le> i \<Longrightarrow> i < 2 ^ 64 \<Longrightarrow> hashed s fns h0 (inner_pad s (header @ take used data)) B i
    (foldl (variable_block s fns header data record_size (be_bytes (md_length_size s) (8 * n + 8 * md_block_size s))
       (n mod md_block_size s) (n div md_block_size s) B) st [a..<i])"
proof (induction i)
  case (Suc i)
  show ?case
  proof (cases "a = Suc i")
    case False
    then have le: "a \<le> i" and less: "i < 2 ^ 64" using Suc.prems by simp_all
    show ?thesis using hashed_step [OF good hdr n used B less out Suc.IH [OF le less]] le by simp
  qed (use st in simp)
qed (use st in simp)

section \<open>The digest of a record\<close>

lemma block_at_inner_pad:
  "md_block_size s * (i + 1) \<le> length m \<Longrightarrow> block_at (md_block_size s) (inner_pad s m) i = block_at (md_block_size s) m i"
  by (simp add: block_at_def inner_pad_def Let_def)

lemma starting_blocks:
  assumes hdr: "length header = kHeaderLength" and bs: "13 < md_block_size s"
    and fits: "md_block_size s * ns \<le> kHeaderLength + used" and used: "used \<le> length data" and ns: "0 < ns"
  shows "foldl (\<lambda>h i. md_transform fns h (take (md_block_size s) (drop (md_block_size s * i - 13) data)))
      (md_transform fns h0 (take 13 header @ take (md_block_size s - 13) data)) [1..<ns]
    = chain (md_block_size s) fns h0 (inner_pad s (header @ take used data)) ns"
proof -
  define m where "m = header @ take used data"
  have len: "length m = kHeaderLength + used" using hdr used by (simp add: m_def)
  have fit: "md_block_size s * (i + 1) \<le> kHeaderLength + used" if "i < ns" for i
    using that fits mult_le_mono2 [of "i + 1" ns "md_block_size s"] by simp
  have at: "block_at (md_block_size s) (inner_pad s m) i = block_at (md_block_size s) m i" if "i < ns" for i
    using fit [OF that] len by (intro block_at_inner_pad) simp
  have first: "block_at (md_block_size s) m 0 = take 13 header @ take (md_block_size s - 13) data"
    using fit [OF ns] hdr bs by (simp add: block_at_def m_def kHeaderLength_def min_absorb1)
  have later: "block_at (md_block_size s) m i = take (md_block_size s) (drop (md_block_size s * i - 13) data)"
    if "0 < i" "i < ns" for i
  proof -
    have "13 \<le> md_block_size s * i" using that(1) bs by (cases i) simp_all
    then show ?thesis
      using fit [OF that(2)] hdr by (simp add: block_at_def m_def kHeaderLength_def drop_take min_absorb1)
  qed
  have "[0..<ns] = 0 # [1..<ns]" using ns by (simp add: upt_conv_Cons)
  moreover have "map (block_at (md_block_size s) (inner_pad s m)) [1..<ns]
      = map (\<lambda>i. take (md_block_size s) (drop (md_block_size s * i - 13) data)) [1..<ns]"
    by (intro map_cong) (simp_all add: at later)
  ultimately have "chain (md_block_size s) fns h0 (inner_pad s m) ns =
      foldl (md_transform fns) (md_transform fns h0 (take 13 header @ take (md_block_size s - 13) data))
        (map (\<lambda>i. take (md_block_size s) (drop (md_block_size s * i - 13) data)) [1..<ns])"
    by (simp only: chain_def list.map foldl_Cons at [OF ns] first)
  then show ?thesis by (simp only: foldl_map m_def)
qed

lemma chain_whole:
  assumes "length k = bs" "0 < bs" "length xs = bs * q"
  shows "md_chain bs (md_transform fns) h (k @ xs) = chain bs fns (md_transform fns h k) xs q"
  using blocks_of_block [OF assms(2,1), of xs] assms by (simp add: md_chain_def blocks_of_def chain_def)

text \<open>The blocks hashed before the variable ones hold data only, and the variable ones reach the last block.\<close>

lemma block_bounds:
  fixes bs ls md n R D :: nat
  assumes bs: "0 < bs" and ls: "ls - 1 \<le> md" and D: "md \<le> D" "D \<le> R" "R - D \<le> 256"
    and n: "n = D + 13 - md"
    and V: "V = (255 + 1 + md + bs - 1) div bs + 1" and N: "N = (R + 13 - md - 1 + 1 + ls + bs - 1) div bs"
    and ns: "ns = (if N > V then N - V else 0)"
  shows "bs * ns \<le> n" "(n + ls) div bs \<le> ns + V"
proof -
  have V': "255 + md + bs < bs * V" unfolding V
    using mod_less_divisor [OF bs, of "255 + md + bs"] mult_div_mod_eq [of bs "255 + md + bs"]
    by (simp add: algebra_simps)
  have N': "bs * N \<le> R + 13 - md + ls + bs - 1" 
    unfolding N by (rule le_trans [OF times_div_less_eq_dividend]) (use D in linarith)
  show "bs * ns \<le> n"
  proof (cases "N > V")
    case True
    then have "bs * ns = bs * N - bs * V" by (simp add: ns diff_mult_distrib2)
    then show ?thesis using V' N' n ls D by linarith
  qed (simp add: ns)
  have "(n + ls) div bs \<le> N" unfolding N using n D bs by (intro div_le_mono) simp
  then show "(n + ls) div bs \<le> ns + V" by (simp add: ns)
qed

theorem digest_record_hmac:
  assumes sizes: "digest_sizes md = Some s" and hdr: "length header = kHeaderLength"
    and D: "md_size s \<le> D" "D \<le> R" "R - D \<le> 256" "R < 1024 * 1024" "R \<le> length data"
    and key: "length key \<le> md_block_size s"
    and out: "\<And>h. md_size s \<le> length (md_final_raw (hash md) h)"
  shows "EVP_tls_cbc_digest_record hash evp_digest md header data D R key =
    evp_digest (hmac_key (md_block_size s) 0x5c key
      @ md_hash s (hash md) (hmac_key (md_block_size s) 0x36 key @ header @ take (D - md_size s) data))"
proof -
  have good: "good_sizes s" by (rule digest_sizes_good [OF sizes])
  define bs where "bs = md_block_size s"
  define ls where "ls = md_length_size s"
  define used where "used = D - md_size s"
  define n where "n = kHeaderLength + used"
  define V where "V = (255 + 1 + md_size s + bs - 1) div bs + 1"
  define N where "N = (R + kHeaderLength - md_size s - 1 + 1 + ls + bs - 1) div bs"
  define ns where "ns = (if N > V then N - V else 0)"
  define B where "B = (n + ls) div bs"
  define m where "m = header @ take used data"
  define ipad where "ipad = hmac_key bs 0x36 key"
  define h0 where "h0 = md_transform (hash md) (md_init (hash md)) ipad"
  have bs: "0 < bs" "13 < bs" "bs \<le> 128" "bs = 2 ^ md_block_shift s" and ls: "ls - 1 \<le> md_size s" "4 \<le> ls" "ls \<le> 128"
    using good by (simp_all add: good_sizes_def bs_def ls_def)
  have n': "n = D + 13 - md_size s" using D(1) by (simp add: n_def used_def kHeaderLength_def)
  have bounds: "bs * ns \<le> n" "B \<le> ns + V"
    using block_bounds [OF bs(1) ls(1) D(1,2,3) n' V_def N_def [unfolded kHeaderLength_def] ns_def] by (simp_all add: B_def)
  have used: "used \<le> R" "R < 2 ^ 32" using D by (simp_all add: used_def)
  have nsB: "ns \<le> B"
    using bounds(1) bs(1) div_le_mono [of "bs * ns" "n + ls" bs] by (simp add: B_def)
  have bits: "length_field ls (8 * n + 8 * bs) = be_bytes ls (8 * n + 8 * bs)"
    using ls(2) bs(3) D by (intro length_field_be_bytes) (simp_all add: n')
  have index: "n AND (bs - 1) = n mod bs" "drop_bit (md_block_shift s) n = n div bs" "drop_bit (md_block_shift s) (n + ls) = B"
    by (simp_all only: bs(4) and_block_mask drop_bit_eq_div B_def)
  have len: "length (inner_pad s m) = bs * (B + 1)"
    using length_inner_pad [of s m] bs(1) hdr used D(5) by (simp add: m_def bs_def ls_def B_def n_def)
  define st where "st = (chain bs (hash md) h0 (inner_pad s m) ns, replicate (md_size s) (0 :: u8), bs * ns)"
  have "hashed s (hash md) h0 (inner_pad s m) B ns st" using nsB by (simp add: hashed_def st_def bs_def)
  note all = hashed_all [OF good hdr n_def used(1) D(5) used(2) B_def [unfolded bs_def ls_def] out this [unfolded m_def],
      of "ns + V + 1", folded bs_def ls_def m_def]
  have "ns \<le> n" using bounds(1) bs(1) le_trans [of ns "bs * ns" n] by simp
  moreover have "V \<le> 255 + 1 + md_size s + bs - 1 + 1" unfolding V_def by (intro add_le_mono div_le_dividend) simp
  moreover have "md_size s \<le> bs" using good by (simp add: good_sizes_def bs_def)
  ultimately have "ns + V + 1 < 2 ^ 64" using bs(3) D n' by simp
  then have "hashed s (hash md) h0 (inner_pad s m) B (ns + V + 1)
    (foldl (variable_block s (hash md) header data R (be_bytes ls (8 * n + 8 * bs)) (n mod bs) (n div bs) B) st [ns..<ns + V + 1])"
    by (intro all) simp_all
  moreover obtain h mac k where loop: "foldl (variable_block s (hash md) header data R (be_bytes ls (8 * n + 8 * bs)) (n mod bs)
      (n div bs) B) st [ns..<ns + V + 1] = (h, mac, k)"
    by (rule prod_cases3)
  ultimately have mac: "mac = take (md_size s) (md_final_raw (hash md) (chain bs (hash md) h0 (inner_pad s m) (Suc B)))"
    using bounds(2) by (simp add: hashed_def bs_def split: if_splits)
  have ipad: "length ipad = bs" using key by (simp add: ipad_def hmac_key_def bs_def)
  have inner: "mac = md_hash s (hash md) (ipad @ m)"
    unfolding mac md_hash_def
    using chain_whole [OF ipad bs(1) len, of "hash md" "md_init (hash md)"] md_pad_key [of ipad s m] ipad
    by (simp add: bs_def h0_def)
  have opad: "map (\<lambda>b. b XOR 0x6a) ipad = hmac_key bs 0x5c key"
  proof -
    have "(0x36 :: u8) XOR 0x6a = 0x5c" by simp
    then show ?thesis by (simp add: ipad_def hmac_key_def xor.assoc)
  qed
  have start: "(if bs * ns > 0 then foldl (\<lambda>h i. md_transform (hash md) h (take bs (drop (bs * i - 13) data)))
      (md_transform (hash md) h0 (take 13 header @ take (bs - 13) data)) [1..<bs * ns div bs] else h0)
    = chain bs (hash md) h0 (inner_pad s m) ns"
  proof (cases "ns = 0")
    case False
    then show ?thesis
      using starting_blocks [OF hdr, of s ns used data "hash md" h0] bounds(1) bs D(5) used(1)
      by (simp add: m_def bs_def n_def)
  qed (simp add: chain_def)
  have kk: "(if N > V then bs * (N - V) else 0) = bs * ns" by (simp add: ns_def)
  have n'': "D + kHeaderLength - md_size s = n" using n' by (simp add: kHeaderLength_def)
  have "EVP_tls_cbc_digest_record hash evp_digest md header data D R key = evp_digest (map (\<lambda>b. b XOR 0x6a) ipad @ mac)"
    unfolding EVP_tls_cbc_digest_record_def sizes option.case Let_def bs_def [symmetric] ls_def [symmetric]
      V_def [symmetric] N_def [symmetric] ns_def [symmetric] n'' index bits hmac_key_def [symmetric] ipad_def [symmetric]
      h0_def [symmetric] start st_def [symmetric] loop
    using D(4) by simp
  then show ?thesis
    unfolding opad inner by (simp add: ipad_def m_def used_def bs_def)
qed

end
