(* ===== verification/Md32.thy ===== *)
theory Md32
  imports MerkleDamgard
begin

unbundle bit_operations_syntax

text \<open>
  The collector of the 32-bit hashes, the macros of \<open>fipsmodule/digest/md32_common.h\<close>: their block function
  \<open>blk\<close>, byte order and final conversion are parameters. The locale \<open>md32\<close> shows that any sequence of
  updates and the final call hash the padded concatenation; each hash function interprets it.
\<close>

section \<open>Words and bytes\<close>

definition HOST_c2l_be :: "u8 list \<Rightarrow> u32" where
  "HOST_c2l_be c = push_bit 24 (ucast (c ! 0)) OR push_bit 16 (ucast (c ! 1)) OR push_bit 8 (ucast (c ! 2)) OR ucast (c ! 3)"

definition HOST_l2c_be :: "u32 \<Rightarrow> u8 list" where
  "HOST_l2c_be l = [ucast (drop_bit 24 l AND 0xff), ucast (drop_bit 16 l AND 0xff), ucast (drop_bit 8 l AND 0xff), ucast (l AND 0xff)]"

definition HOST_c2l_le :: "u8 list \<Rightarrow> u32" where
  "HOST_c2l_le c = ucast (c ! 0) OR push_bit 8 (ucast (c ! 1)) OR push_bit 16 (ucast (c ! 2)) OR push_bit 24 (ucast (c ! 3))"

definition HOST_l2c_le :: "u32 \<Rightarrow> u8 list" where
  "HOST_l2c_le l = [ucast (l AND 0xff), ucast (drop_bit 8 l AND 0xff), ucast (drop_bit 16 l AND 0xff), ucast (drop_bit 24 l AND 0xff)]"

section \<open>The collector\<close>

definition HASH_CBLOCK :: nat where "HASH_CBLOCK = 64"

record HASH_CTX =
  hc_h :: "u32 list"
  hc_Nl :: u32
  hc_Nh :: u32
  hc_data :: "u8 list"
  hc_num :: nat

definition count_bits :: "'a HASH_CTX_scheme \<Rightarrow> nat \<Rightarrow> 'a HASH_CTX_scheme" where
  "count_bits c len =
     (let l = hc_Nl c + push_bit 3 (of_nat len);
          c = (if l < hc_Nl c then c\<lparr>hc_Nh := hc_Nh c + 1\<rparr> else c)
      in c\<lparr>hc_Nh := hc_Nh c + of_nat (drop_bit 29 len), hc_Nl := l\<rparr>)"

text \<open>What an update does once the buffer is empty: whole blocks, then the bytes left over.\<close>

definition update_blocks :: "(u32 list \<Rightarrow> u8 list \<Rightarrow> nat \<Rightarrow> u32 list) \<Rightarrow> 'a HASH_CTX_scheme \<Rightarrow> u8 list \<Rightarrow> 'a HASH_CTX_scheme" where
  "update_blocks blk c d =
     (let n = length d div HASH_CBLOCK;
          (c, d) = (if n > 0 then (c\<lparr>hc_h := blk (hc_h c) d n\<rparr>, drop (n * HASH_CBLOCK) d) else (c, d))
      in if length d \<noteq> 0 then c\<lparr>hc_num := length d, hc_data := memcpy_at (hc_data c) 0 d\<rparr> else c)"

definition HASH_UPDATE :: "(u32 list \<Rightarrow> u8 list \<Rightarrow> nat \<Rightarrow> u32 list) \<Rightarrow> 'a HASH_CTX_scheme \<Rightarrow> u8 list \<Rightarrow> 'a HASH_CTX_scheme" where
  "HASH_UPDATE blk c d =
     (let len = length d
      in if len = 0 then c
         else
           let c = count_bits c len;
               n = hc_num c
           in if n \<noteq> 0 \<and> \<not> (len \<ge> HASH_CBLOCK \<or> len + n \<ge> HASH_CBLOCK)
              then c\<lparr>hc_data := memcpy_at (hc_data c) n d, hc_num := n + len\<rparr>
              else if n \<noteq> 0
              then update_blocks blk
                     (c\<lparr>hc_h := blk (hc_h c) (memcpy_at (hc_data c) n (take (HASH_CBLOCK - n) d)) 1, hc_num := 0,
                       hc_data := replicate HASH_CBLOCK 0\<rparr>) (drop (HASH_CBLOCK - n) d)
              else update_blocks blk c d)"

definition HASH_TRANSFORM :: "(u32 list \<Rightarrow> u8 list \<Rightarrow> nat \<Rightarrow> u32 list) \<Rightarrow> 'a HASH_CTX_scheme \<Rightarrow> u8 list \<Rightarrow> 'a HASH_CTX_scheme" where
  "HASH_TRANSFORM blk c d = c\<lparr>hc_h := blk (hc_h c) d 1\<rparr>"

text \<open>\<open>big\<close> says which of the two orders is defined; \<open>make_string\<close> is \<open>HASH_MAKE_STRING\<close>, which may return 0.\<close>

definition HASH_FINAL ::
    "(u32 list \<Rightarrow> u8 list \<Rightarrow> nat \<Rightarrow> u32 list) \<Rightarrow> bool \<Rightarrow> ('a HASH_CTX_scheme \<Rightarrow> u8 list option) \<Rightarrow> 'a HASH_CTX_scheme
      \<Rightarrow> u8 list option \<times> 'a HASH_CTX_scheme" where
  "HASH_FINAL blk big make_string c =
     (let n = hc_num c;
          d = (hc_data c)[n := 0x80];
          n = n + 1;
          (c, d, n) =
            (if n > HASH_CBLOCK - 8
             then let d = memset_at d n 0 (HASH_CBLOCK - n) in (c\<lparr>hc_h := blk (hc_h c) d 1\<rparr>, d, 0)
             else (c, d, n));
          d = memset_at d n 0 (HASH_CBLOCK - 8 - n);
          d = memcpy_at d (HASH_CBLOCK - 8)
                (if big then HOST_l2c_be (hc_Nh c) @ HOST_l2c_be (hc_Nl c) else HOST_l2c_le (hc_Nl c) @ HOST_l2c_le (hc_Nh c));
          c = c\<lparr>hc_h := blk (hc_h c) d 1, hc_num := 0, hc_data := replicate HASH_CBLOCK 0\<rparr>
      in (make_string c, c))"

section \<open>Bytes of words\<close>

lemma ucast_and_ff: "(ucast (x AND 0xff) :: u8) = ucast (x :: 'a::len word)" if "8 \<le> LENGTH('a)"
proof (rule bit_word_eqI)
  fix n assume "n < LENGTH(8)"
  then have n: "n < 8" by simp
  have m: "(0xff :: 'a word) = mask 8" by (simp add: mask_eq_exp_minus_1)
  show "bit (ucast (x AND 0xff) :: u8) n = bit (ucast x :: u8) n" unfolding m using n that by (simp add: bit_simps)
qed

lemma ucast_byte: "(ucast (x :: 'a::len word) :: u8) = of_nat (unat x)"
  by (simp add: of_nat_unat)

lemma le_bytes_4: "le_bytes 4 v = [of_nat v, of_nat (v div 2 ^ 8), of_nat (v div 2 ^ 16), of_nat (v div 2 ^ 24)]"
proof -
  have n: "4 = Suc (Suc (Suc (Suc 0)))" by simp
  have d: "v div 256 div 256 = v div 2 ^ 16" "v div 256 div 256 div 256 = v div 2 ^ 24" "v div 256 = v div 2 ^ 8"
    by (simp_all add: div_mult2_eq [symmetric])
  show ?thesis unfolding n le_bytes.simps d(2) unfolding d(1) unfolding d(3) by (rule refl)
qed

lemma be_bytes_4: "be_bytes 4 v = [of_nat (v div 2 ^ 24), of_nat (v div 2 ^ 16), of_nat (v div 2 ^ 8), of_nat v]"
  by (simp add: be_bytes_def le_bytes_4)

lemma ucast_and_ff_u32: "(ucast ((x :: u32) AND 0xff) :: u8) = ucast x"
  by (rule ucast_and_ff) simp

lemma host_l2c_bytes: "HOST_l2c_be l = be_bytes 4 (unat l)" "HOST_l2c_le l = le_bytes 4 (unat l)"
  unfolding HOST_l2c_be_def HOST_l2c_le_def ucast_and_ff_u32 unfolding ucast_byte
    be_bytes_4 le_bytes_4 unat_drop_bit_div by (rule refl)+

lemma le_bytes_append: "le_bytes (m + n) v = le_bytes m v @ le_bytes n (v div 256 ^ m)"
  by (induction m v rule: le_bytes.induct) (simp_all add: div_mult2_eq [symmetric])

lemma le_bytes_mod: "le_bytes n (v mod 256 ^ n) = le_bytes n v"
  using le_bytes_le_nat [of "le_bytes n v"] by (simp add: le_nat_le_bytes)

lemma be_bytes_mod: "be_bytes n (v mod 256 ^ n) = be_bytes n v"
  by (simp add: be_bytes_def le_bytes_mod)

text \<open>Two words as a double word.\<close>

lemma word_pair_bytes:
  assumes "unat hi * 2 ^ 32 + unat lo = v mod 2 ^ 64"
  shows "HOST_l2c_be hi @ HOST_l2c_be lo = be_bytes 8 v" "HOST_l2c_le lo @ HOST_l2c_le hi = le_bytes 8 v"
proof -
  have lo: "unat lo < 2 ^ 32" using unsigned_less [where ?'a = nat, of lo] by simp
  define w where "w = unat lo + 2 ^ 32 * unat hi"
  have w: "w mod 2 ^ 32 = unat lo" "w div 2 ^ 32 = unat hi" using lo by (simp_all add: w_def)
  have "le_bytes 8 w = le_bytes 4 w @ le_bytes 4 (w div 2 ^ 32)" using le_bytes_append [of 4 4 w] by simp
  also have "le_bytes 4 w = le_bytes 4 (unat lo)" using le_bytes_mod [of 4 w] w(1) by simp
  finally have le: "le_bytes 8 w = HOST_l2c_le lo @ HOST_l2c_le hi" by (simp only: w(2) host_l2c_bytes)
  have "w = v mod 256 ^ 8" using assms by (simp add: w_def)
  then have v: "le_bytes 8 w = le_bytes 8 v" by (simp only: le_bytes_mod)
  show "HOST_l2c_le lo @ HOST_l2c_le hi = le_bytes 8 v" using le v by simp
  then show "HOST_l2c_be hi @ HOST_l2c_be lo = be_bytes 8 v" by (simp add: host_l2c_bytes be_bytes_def flip: rev_append)
qed

section \<open>Updates collect a message\<close>

text \<open>The context \<open>c\<close> holds the message \<open>m\<close>: its blocks are hashed, its rest is in the buffer and its bits are counted.\<close>

definition md32_holds :: "(u32 list \<Rightarrow> u8 list \<Rightarrow> u32 list) \<Rightarrow> u32 list \<Rightarrow> 'a HASH_CTX_scheme \<Rightarrow> u8 list \<Rightarrow> bool" where
  "md32_holds f init c m \<longleftrightarrow>
     collects HASH_CBLOCK f init (hc_h c) (hc_num c) (hc_data c) m
     \<and> unat (hc_Nh c) * 2 ^ 32 + unat (hc_Nl c) = (8 * length m) mod 2 ^ 64"

text \<open>The length field.\<close>

definition md32_length :: "bool \<Rightarrow> nat \<Rightarrow> u8 list" where
  "md32_length big bits = (if big then be_bytes 8 bits else le_bytes 8 bits)"

lemma md32_holds_start:
  "hc_h c = init \<Longrightarrow> hc_num c = 0 \<Longrightarrow> length (hc_data c) = HASH_CBLOCK \<Longrightarrow> hc_Nl c = 0 \<Longrightarrow> hc_Nh c = 0 \<Longrightarrow> md32_holds f init c []"
  by (simp add: md32_holds_def collects_start HASH_CBLOCK_def)

lemma update_blocks_more: "HASH_CTX.more (update_blocks blk c d) = HASH_CTX.more c"
  by (simp add: update_blocks_def Let_def)

lemma count_bits_simps [simp]:
  "hc_h (count_bits c len) = hc_h c" "hc_num (count_bits c len) = hc_num c" "hc_data (count_bits c len) = hc_data c"
  "HASH_CTX.more (count_bits c len) = HASH_CTX.more c"
  by (simp_all add: count_bits_def Let_def)

lemma count_bits_total:
  assumes "unat (hc_Nh c) * 2 ^ 32 + unat (hc_Nl c) = (8 * m) mod 2 ^ 64"
  shows "unat (hc_Nh (count_bits c len)) * 2 ^ 32 + unat (hc_Nl (count_bits c len)) = (8 * (m + len)) mod 2 ^ 64"
  using bit_counter [of "hc_Nh c" "hc_Nl c" "8 * m" _ len, OF _ _ refl] assms
  by (simp add: count_bits_def Let_def distrib_left if_distrib [of hc_Nh] if_distrib [of unat] cong: if_cong)

lemma update_more: "HASH_CTX.more (HASH_UPDATE blk c d) = HASH_CTX.more c"
  by (simp add: HASH_UPDATE_def Let_def update_blocks_more)

locale md32 = block_hash HASH_CBLOCK f blk for f :: "u32 list \<Rightarrow> u8 list \<Rightarrow> u32 list" and blk
begin

lemma update_blocks_eq:
  "update_blocks blk c d =
    c\<lparr>hc_h := md_chain HASH_CBLOCK f (hc_h c) d,
      hc_num := (if length d mod HASH_CBLOCK = 0 then hc_num c else length d mod HASH_CBLOCK),
      hc_data := (if length d mod HASH_CBLOCK = 0 then hc_data c else memcpy_at (hc_data c) 0 (rest_of HASH_CBLOCK d))\<rparr>"
proof -
  have none: "md_chain HASH_CBLOCK f x d = x" "rest_of HASH_CBLOCK d = d" "length d mod HASH_CBLOCK = length d"
    if "length d div HASH_CBLOCK = 0" for x
    using that bs_pos by (simp_all add: md_chain_def div_eq_0_iff)
  have rest: "drop (length d div HASH_CBLOCK * HASH_CBLOCK) d = rest_of HASH_CBLOCK d" by (simp add: rest_of_def mult.commute)
  have no_rest: "rest_of HASH_CBLOCK d = [] \<longleftrightarrow> length d mod HASH_CBLOCK = 0" by (metis length_0_conv length_rest_of)
  show ?thesis
    by (cases "length d div HASH_CBLOCK = 0") (auto simp: update_blocks_def Let_def none rest blk_all no_rest)
qed

lemma update_blocks_collects:
  assumes "collects HASH_CBLOCK f init (hc_h c) 0 (hc_data c) m" and "hc_num c = 0"
  shows "collects HASH_CBLOCK f init (hc_h (update_blocks blk c d)) (hc_num (update_blocks blk c d))
    (hc_data (update_blocks blk c d)) (m @ d)"
  using collects_blocks [OF assms(1) bs_pos, of d] assms(2)
  by (cases "length d mod HASH_CBLOCK = 0") (simp_all add: update_blocks_eq)

theorem update_holds:
  assumes c: "md32_holds f init c m"
  shows "md32_holds f init (HASH_UPDATE blk c d) (m @ d)"
proof (cases "d = []")
  case False
  define n where "n = hc_num c"
  define c1 where "c1 = count_bits c (length d)"
  have col: "collects HASH_CBLOCK f init (hc_h c) n (hc_data c) m" using c by (simp add: md32_holds_def n_def)
  then have n: "n < HASH_CBLOCK" using bs_pos by (simp add: collects_def)
  have bits: "unat (hc_Nh c1) * 2 ^ 32 + unat (hc_Nl c1) = (8 * length (m @ d)) mod 2 ^ 64"
    using count_bits_total [of c "length m" "length d"] c by (simp add: md32_holds_def c1_def)
  have upd: "HASH_UPDATE blk c d =
    (if n \<noteq> 0 \<and> length d + n < HASH_CBLOCK then c1\<lparr>hc_data := memcpy_at (hc_data c) n d, hc_num := n + length d\<rparr>
     else if n \<noteq> 0
     then update_blocks blk (c1\<lparr>hc_h := blk (hc_h c) (memcpy_at (hc_data c) n (take (HASH_CBLOCK - n) d)) 1, hc_num := 0,
            hc_data := replicate HASH_CBLOCK 0\<rparr>) (drop (HASH_CBLOCK - n) d)
     else update_blocks blk c1 d)"
    using False by (simp add: HASH_UPDATE_def Let_def n_def c1_def)
  consider (fill) "n \<noteq> 0" "n + length d < HASH_CBLOCK" | (full) "n \<noteq> 0" "HASH_CBLOCK \<le> n + length d" | (empty) "n = 0" by linarith
  then show ?thesis
  proof cases
    case fill
    then show ?thesis
      using collects_fill [OF col fill(2)] bits unfolding md32_holds_def upd by (simp add: c1_def add.commute)
  next
    case full
    define a where "a = take (HASH_CBLOCK - n) d"
    have len: "length a = HASH_CBLOCK - n" using full by (simp add: a_def)
    note block = collects_full [OF col bs_pos len, of "replicate HASH_CBLOCK 0", simplified]
    have "blk (hc_h c) (memcpy_at (hc_data c) n a) 1 = f (hc_h c) (memcpy_at (hc_data c) n a)"
      using blk_one [of "memcpy_at (hc_data c) n a" "hc_h c"] block(1) by simp
    moreover have "m @ d = (m @ a) @ drop (HASH_CBLOCK - n) d" by (simp add: a_def)
    moreover have "hc_Nl (update_blocks blk x y) = hc_Nl x" "hc_Nh (update_blocks blk x y) = hc_Nh x" for x :: "'a HASH_CTX_scheme" and y
      by (simp_all add: update_blocks_eq)
    ultimately show ?thesis
      using full bits update_blocks_collects [of init "c1\<lparr>hc_h := f (hc_h c) (memcpy_at (hc_data c) n a), hc_num := 0,
            hc_data := replicate HASH_CBLOCK 0\<rparr>" "m @ a" "drop (HASH_CBLOCK - n) d"] block(2)
      unfolding md32_holds_def upd by (simp add: c1_def flip: a_def)
  next
    case empty
    then show ?thesis
      using bits col update_blocks_collects [of init c1 m d] unfolding md32_holds_def upd
      by (simp add: c1_def update_blocks_eq n_def)
  qed
qed (use c in \<open>simp add: HASH_UPDATE_def\<close>)

theorem final_hashes:
  assumes c: "md32_holds f init c m"
  shows "\<exists>c'. HASH_FINAL blk big make_string c = (make_string c', c')
    \<and> hc_h c' = md_chain HASH_CBLOCK f init (md_pad HASH_CBLOCK 8 (md32_length big) m) \<and> hc_num c' = 0
    \<and> HASH_CTX.more c' = HASH_CTX.more c"
proof -
  define n where "n = hc_num c"
  define e where "e = (if big then HOST_l2c_be (hc_Nh c) @ HOST_l2c_be (hc_Nl c) else HOST_l2c_le (hc_Nl c) @ HOST_l2c_le (hc_Nh c))"
  have bits: "unat (hc_Nh c) * 2 ^ 32 + unat (hc_Nl c) = (8 * length m) mod 2 ^ 64"
    using c by (simp add: md32_holds_def)
  have e: "md32_length big (8 * length m) = e" by (simp add: e_def md32_length_def word_pair_bytes [OF bits])
  have el: "length (md32_length big (8 * length m)) = 8" by (simp add: md32_length_def)
  have ls: "8 < HASH_CBLOCK" by (simp add: HASH_CBLOCK_def)
  have col: "collects HASH_CBLOCK f init (hc_h c) n (hc_data c) m" using c by (simp add: md32_holds_def n_def)
  define d where "d = (hc_data c)[n := 0x80]"
  note last = collects_final [where enc = "md32_length big", OF col bs_pos ls el, folded d_def, unfolded e Let_def]
  have one: "blk x b 1 = f x b" if "length b = HASH_CBLOCK" for x b using blk_one [of b x] that by simp
  show ?thesis
  proof (cases "HASH_CBLOCK - 8 < n + 1")
    case True
    then show ?thesis
      using last(1) [OF True] unfolding HASH_FINAL_def Let_def n_def [symmetric] d_def [symmetric]
      by (cases big) (simp_all add: one e_def del: One_nat_def)
  next
    case False
    then show ?thesis
      using last(2) [OF False] unfolding HASH_FINAL_def Let_def n_def [symmetric] d_def [symmetric]
      by (cases big) (simp_all add: one e_def del: One_nat_def)
  qed
qed

end

end
