(* ===== verification/Sha2.thy ===== *)
theory Sha2
  imports Md32
begin

unbundle bit_operations_syntax

text \<open>
  The rounds that SHA-256 and SHA-512 share, as \<open>sha256.c\<close> and \<open>sha512.c\<close> write them: eight variables that
  trade places through the order of the macro's arguments, and a message schedule that overwrites sixteen
  words. They are shown to compute the rounds of FIPS 180-4, where the variables shift and the schedule
  is a sequence.
\<close>

section \<open>Variables that trade places\<close>

text \<open>
  The \<open>i\<close>-th use of a round macro takes its arguments one place further round the \<open>n\<close> variables: argument \<open>k\<close>
  of the call \<open>i\<close> is the variable \<open>reg n i k\<close>.
\<close>

definition reg :: "nat \<Rightarrow> nat \<Rightarrow> nat \<Rightarrow> nat" where
  "reg n i k = (k + (n - 1) * i) mod n"

lemma nth_reg: "length v = n \<Longrightarrow> k < n \<Longrightarrow> v ! reg n i k = rotate ((n - 1) * i) v ! k"
  by (simp add: nth_rotate reg_def add.commute)

lemma rotate_reg_update:
  assumes "length v = n" and "k < n"
  shows "rotate ((n - 1) * i) (v[reg n i k := x]) = (rotate ((n - 1) * i) v)[k := x]"
proof (rule nth_equalityI)
  fix j assume "j < length (rotate ((n - 1) * i) (v[reg n i k := x]))"
  then have j: "j < n" using assms(1) by simp
  have "((n - 1) * i + j) mod n = reg n i k \<longleftrightarrow> j = k"
    using ring_places [OF _ j assms(2), of "(n - 1) * i"] by (auto simp: reg_def add.commute)
  moreover have "reg n i k < length v" using assms by (simp add: reg_def)
  ultimately show "rotate ((n - 1) * i) (v[reg n i k := x]) ! j = (rotate ((n - 1) * i) v)[k := x] ! j"
    using assms j by (auto simp: nth_rotate nth_list_update simp del: One_nat_def)
qed simp

lemma rotate_back: "length w = n \<Longrightarrow> 0 < n \<Longrightarrow> rotate (n - 1) w = last w # butlast w"
  using rotate_append [of "butlast w" "[last w]"] by (cases "w = []") simp_all

lemma rotate_next: "length v = n \<Longrightarrow> 0 < n \<Longrightarrow> rotate ((n - 1) * Suc i) v =
    (let w = rotate ((n - 1) * i) v in last w # butlast w)"
  using rotate_back [of "rotate ((n - 1) * i) v" n] by (simp add: rotate_rotate Let_def)

section \<open>Rounds of the code\<close>

definition Ch :: "'a::len word \<Rightarrow> 'a word \<Rightarrow> 'a word \<Rightarrow> 'a word" where
  "Ch x y z = (x AND y) XOR (NOT x AND z)"

definition Maj :: "'a::len word \<Rightarrow> 'a word \<Rightarrow> 'a word \<Rightarrow> 'a word" where
  "Maj x y z = (x AND y) XOR (x AND z) XOR (y AND z)"

text \<open>The variables \<open>a\<close> to \<open>h\<close> of a block are the list \<open>v\<close>.\<close>

definition ROUND_00_15 ::
    "('a::len word \<Rightarrow> 'a word) \<Rightarrow> ('a word \<Rightarrow> 'a word) \<Rightarrow> 'a word list \<Rightarrow> nat \<Rightarrow> 'a word \<Rightarrow> 'a word list \<Rightarrow> 'a word list" where
  "ROUND_00_15 Sigma0 Sigma1 K i T1 v =
     (let a = v ! reg 8 i 0; b = v ! reg 8 i 1; c = v ! reg 8 i 2; d = v ! reg 8 i 3;
          e = v ! reg 8 i 4; f = v ! reg 8 i 5; g = v ! reg 8 i 6; h = v ! reg 8 i 7;
          T1 = T1 + (h + Sigma1 e + Ch e f g + K ! i);
          h = Sigma0 a + Maj a b c;
          d = d + T1;
          h = h + T1
      in v[reg 8 i 3 := d, reg 8 i 7 := h])"

definition ROUND_16_63 ::
    "('a::len word \<Rightarrow> 'a word) \<Rightarrow> ('a word \<Rightarrow> 'a word) \<Rightarrow> ('a word \<Rightarrow> 'a word) \<Rightarrow> ('a word \<Rightarrow> 'a word) \<Rightarrow> 'a word list
      \<Rightarrow> 'a word list \<times> 'a word list \<Rightarrow> nat \<Rightarrow> 'a word list \<times> 'a word list" where
  "ROUND_16_63 Sigma0 Sigma1 sigma0 sigma1 K state i =
     (case state of (v, X) \<Rightarrow>
        let s0 = sigma0 (X ! ((i + 1) AND 0x0f));
            s1 = sigma1 (X ! ((i + 14) AND 0x0f));
            T1 = X ! (i AND 0x0f) + (s0 + s1 + X ! ((i + 9) AND 0x0f))
        in (ROUND_00_15 Sigma0 Sigma1 K i T1 v, X[i AND 0x0f := T1]))"

definition sha2_block ::
    "('a::len word \<Rightarrow> 'a word) \<Rightarrow> ('a word \<Rightarrow> 'a word) \<Rightarrow> ('a word \<Rightarrow> 'a word) \<Rightarrow> ('a word \<Rightarrow> 'a word) \<Rightarrow> 'a word list
      \<Rightarrow> nat \<Rightarrow> 'a word list \<Rightarrow> 'a word list \<Rightarrow> 'a word list" where
  "sha2_block Sigma0 Sigma1 sigma0 sigma1 K rounds state X =
     (let v = foldl (\<lambda>v i. ROUND_00_15 Sigma0 Sigma1 K i (X ! i) v) state [0..<16];
          (v, X) = foldl (ROUND_16_63 Sigma0 Sigma1 sigma0 sigma1 K) (v, X) [16..<rounds]
      in map2 (+) state v)"

section \<open>Rounds of the standard\<close>

fun schedule :: "('a::len word \<Rightarrow> 'a word) \<Rightarrow> ('a word \<Rightarrow> 'a word) \<Rightarrow> 'a word list \<Rightarrow> nat \<Rightarrow> 'a word" where
  "schedule sigma0 sigma1 M t =
     (if t < 16 then M ! t
      else sigma1 (schedule sigma0 sigma1 M (t - 2)) + schedule sigma0 sigma1 M (t - 7)
        + sigma0 (schedule sigma0 sigma1 M (t - 15)) + schedule sigma0 sigma1 M (t - 16))"

declare schedule.simps [simp del]

definition fips_round ::
    "('a::len word \<Rightarrow> 'a word) \<Rightarrow> ('a word \<Rightarrow> 'a word) \<Rightarrow> 'a word list \<Rightarrow> (nat \<Rightarrow> 'a word) \<Rightarrow> 'a word list \<Rightarrow> nat \<Rightarrow> 'a word list" where
  "fips_round Sigma0 Sigma1 K W s t =
     (let T1 = s ! 7 + Sigma1 (s ! 4) + Ch (s ! 4) (s ! 5) (s ! 6) + K ! t + W t;
          T2 = Sigma0 (s ! 0) + Maj (s ! 0) (s ! 1) (s ! 2)
      in [T1 + T2, s ! 0, s ! 1, s ! 2, s ! 3 + T1, s ! 4, s ! 5, s ! 6])"

definition fips_block ::
    "('a::len word \<Rightarrow> 'a word) \<Rightarrow> ('a word \<Rightarrow> 'a word) \<Rightarrow> ('a word \<Rightarrow> 'a word) \<Rightarrow> ('a word \<Rightarrow> 'a word) \<Rightarrow> 'a word list
      \<Rightarrow> nat \<Rightarrow> 'a word list \<Rightarrow> 'a word list \<Rightarrow> 'a word list" where
  "fips_block Sigma0 Sigma1 sigma0 sigma1 K rounds H M =
     map2 (+) H (foldl (fips_round Sigma0 Sigma1 K (schedule sigma0 sigma1 M)) H [0..<rounds])"

section \<open>The two agree\<close>

lemma round_step:
  assumes v: "length v = 8" and T: "T = W i"
  shows "rotate (7 * Suc i) (ROUND_00_15 Sigma0 Sigma1 K i T v) = fips_round Sigma0 Sigma1 K W (rotate (7 * i) v) i"
proof -
  define w where "w = rotate (7 * i) v"
  have len: "length w = 8" using v by (simp add: w_def)
  have arg: "v ! reg 8 i k = w ! k" if "k < 8" for k using nth_reg [OF v that, of i] by (simp add: w_def)
  have upd: "rotate (7 * i) (u[reg 8 i k := x]) = (rotate (7 * i) u)[k := x]" if "length u = 8" "k < 8" for u k and x :: "'a word"
    using rotate_reg_update [OF that, of i x] by simp
  obtain a b c d e f g h where w: "w = [a, b, c, d, e, f, g, h]"
    using len by (auto simp: numeral_eq_Suc length_Suc_conv)
  show ?thesis
    using rotate_next [of "ROUND_00_15 Sigma0 Sigma1 K i T v" 8 i] v
    unfolding ROUND_00_15_def Let_def fips_round_def w_def [symmetric]
    by (simp add: upd arg w T add.commute add.left_commute flip: w_def)
qed

lemma and_15: "n AND 0x0f = n mod (16 :: nat)"
  using and_block_mask [of n 4] by simp

lemma length_round [simp]: "length (ROUND_00_15 Sigma0 Sigma1 K i T v) = length v"
  by (simp add: ROUND_00_15_def Let_def)

lemma length_fips_rounds: "length H = 8 \<Longrightarrow> length (foldl (fips_round Sigma0 Sigma1 K W) H [0..<n]) = 8"
  by (induction n) (simp_all add: fips_round_def Let_def)

text \<open>The first rounds take the words of the block.\<close>

lemma first_rounds:
  assumes v: "length v = 8" and W: "\<And>i. i < n \<Longrightarrow> X ! i = W i"
  shows "length (foldl (\<lambda>v i. ROUND_00_15 Sigma0 Sigma1 K i (X ! i) v) v [0..<n]) = 8
    \<and> rotate (7 * n) (foldl (\<lambda>v i. ROUND_00_15 Sigma0 Sigma1 K i (X ! i) v) v [0..<n])
      = foldl (fips_round Sigma0 Sigma1 K W) v [0..<n]"
  using W
proof (induction n)
  case (Suc n)
  then show ?case
    using round_step [of _ "X ! n" W n Sigma0 Sigma1 K] by simp
qed (use v in simp)

text \<open>The sixteen words hold the last sixteen of the schedule \<open>W\<close>.\<close>

definition window :: "'a list \<Rightarrow> (nat \<Rightarrow> 'a) \<Rightarrow> nat \<Rightarrow> bool" where
  "window X W i \<longleftrightarrow> length X = 16 \<and> (\<forall>t. t < i \<and> i \<le> t + 16 \<longrightarrow> X ! (t mod 16) = W t)"

lemma window_start: "length X = 16 \<Longrightarrow> (\<And>t. t < 16 \<Longrightarrow> W t = X ! t) \<Longrightarrow> window X W 16"
  by (simp add: window_def)

lemma window_earlier:
  assumes X: "window X W i" and k: "0 < k" "k \<le> 16" "16 \<le> i"
  shows "X ! ((i + 16 - k) mod 16) = W (i - k)"
proof -
  have "(i + 16 - k) mod 16 = (i - k + 16) mod 16" using k by (intro arg_cong2 [where f = "(mod)"]) simp_all
  then have "(i + 16 - k) mod 16 = (i - k) mod 16" by simp
  moreover have "i - k < i \<and> i \<le> i - k + 16" using k by simp
  ultimately show ?thesis using X unfolding window_def by auto
qed

lemma window_update:
  assumes X: "window X W i"
  shows "window (X[i mod 16 := W i]) W (Suc i)"
  unfolding window_def
proof (intro conjI allI impI)
  show "length (X[i mod 16 := W i]) = 16" using X by (simp add: window_def)
  fix t assume t: "t < Suc i \<and> Suc i \<le> t + 16"
  show "X[i mod 16 := W i] ! (t mod 16) = W t"
  proof (cases "t = i")
    case False
    define k where "k = i - t"
    have "t < Suc i" "Suc i \<le> t + 16" using t by blast+
    then have k: "i = t + k" "0 < k" "k < 16" using False unfolding k_def by - linarith+
    have "t mod 16 \<noteq> i mod 16" using ring_places [of t 0 16 k] k by auto
    then show ?thesis using X t \<open>t \<noteq> i\<close> by (simp add: window_def)
  qed (use X in \<open>simp add: window_def\<close>)
qed

lemma schedule_step:
  assumes X: "window X (schedule sigma0 sigma1 M) i" and i: "16 \<le> i"
  shows "X ! (i mod 16) + (sigma0 (X ! ((i + 1) mod 16)) + sigma1 (X ! ((i + 14) mod 16)) + X ! ((i + 9) mod 16))
      = schedule sigma0 sigma1 M i"
  using window_earlier [OF X, of 2] window_earlier [OF X, of 7] window_earlier [OF X, of 15] window_earlier [OF X, of 16] i
  by (subst schedule.simps) (simp add: add.commute add.left_commute)

lemma later_rounds:
  assumes v: "length v = 8" "rotate (7 * 16) v = foldl (fips_round Sigma0 Sigma1 K (schedule sigma0 sigma1 M)) H [0..<16]"
    and M: "length M = 16" and n: "16 \<le> n"
  shows "\<exists>v' X. foldl (ROUND_16_63 Sigma0 Sigma1 sigma0 sigma1 K) (v, M) [16..<n] = (v', X) \<and> length v' = 8 \<and> window X (schedule sigma0 sigma1 M) n
    \<and> rotate (7 * n) v' = foldl (fips_round Sigma0 Sigma1 K (schedule sigma0 sigma1 M)) H [0..<n]"
  using n
proof (induction n rule: dec_induct)
  case base
  have "window M (schedule sigma0 sigma1 M) 16" using M by (intro window_start) (simp_all add: schedule.simps)
  then show ?case using v by simp
next
  case (step n)
  then obtain v' X where IH: "foldl (ROUND_16_63 Sigma0 Sigma1 sigma0 sigma1 K) (v, M) [16..<n] = (v', X)" "length v' = 8"
    "window X (schedule sigma0 sigma1 M) n"
    "rotate (7 * n) v' = foldl (fips_round Sigma0 Sigma1 K (schedule sigma0 sigma1 M)) H [0..<n]"
    by blast
  define T where "T = schedule sigma0 sigma1 M n"
  have sch: "X ! (n mod 16) + (sigma0 (X ! ((n + 1) mod 16)) + sigma1 (X ! ((n + 14) mod 16)) + X ! ((n + 9) mod 16)) = T"
    unfolding T_def by (rule schedule_step [OF IH(3) step.hyps(1)])
  have "ROUND_16_63 Sigma0 Sigma1 sigma0 sigma1 K (v', X) n = (ROUND_00_15 Sigma0 Sigma1 K n T v', X[n mod 16 := T])"
    unfolding ROUND_16_63_def prod.case Let_def and_15 sch by (rule refl)
  then show ?case
    using step.hyps IH window_update [OF IH(3)] round_step [OF IH(2), of T "schedule sigma0 sigma1 M" n Sigma0 Sigma1 K]
    by (simp add: T_def)
qed

theorem sha2_block_is_fips:
  assumes H: "length H = 8" and M: "length M = 16" and n: "16 \<le> rounds" "8 dvd rounds"
  shows "sha2_block Sigma0 Sigma1 sigma0 sigma1 K rounds H M = fips_block Sigma0 Sigma1 sigma0 sigma1 K rounds H M"
proof -
  define v where "v = foldl (\<lambda>v i. ROUND_00_15 Sigma0 Sigma1 K i (M ! i) v) H [0..<16]"
  have "M ! i = schedule sigma0 sigma1 M i" if "i < 16" for i using that by (simp add: schedule.simps)
  then have v: "length v = 8" "rotate (7 * 16) v = foldl (fips_round Sigma0 Sigma1 K (schedule sigma0 sigma1 M)) H [0..<16]"
    using first_rounds [OF H, of 16 M "schedule sigma0 sigma1 M" Sigma0 Sigma1 K] unfolding v_def by blast+
  obtain v' X where v': "foldl (ROUND_16_63 Sigma0 Sigma1 sigma0 sigma1 K) (v, M) [16..<rounds] = (v', X)" "length v' = 8"
    "rotate (7 * rounds) v' = foldl (fips_round Sigma0 Sigma1 K (schedule sigma0 sigma1 M)) H [0..<rounds]"
    using later_rounds [OF v M n(1)] by blast
  have "rotate (7 * rounds) v' = v'" using n(2) v'(2) by (intro rotate_id) simp
  then show ?thesis using v' by (simp add: sha2_block_def fips_block_def v_def)
qed

end
