(* ===== verification/Sha256.thy ===== *)
theory Sha256
  imports Sha2
begin

unbundle bit_operations_syntax

text \<open>
  SHA-224 and SHA-256, \<open>fipsmodule/sha/sha256.c\<close>, and the proof that they compute the functions of FIPS 180-4,
  for any sequence of updates.
\<close>

section \<open>The code\<close>

definition SHA224_DIGEST_LENGTH :: nat where "SHA224_DIGEST_LENGTH = 28"
definition SHA256_DIGEST_LENGTH :: nat where "SHA256_DIGEST_LENGTH = 32"

record SHA256_CTX = HASH_CTX +
  md_len :: nat

definition SHA224_Init :: SHA256_CTX where
  "SHA224_Init = \<lparr>hc_h = [0xc1059ed8, 0x367cd507, 0x3070dd17, 0xf70e5939, 0xffc00b31, 0x68581511, 0x64f98fa7, 0xbefa4fa4],
     hc_Nl = 0, hc_Nh = 0, hc_data = replicate HASH_CBLOCK 0, hc_num = 0, md_len = SHA224_DIGEST_LENGTH\<rparr>"

definition SHA256_Init :: SHA256_CTX where
  "SHA256_Init = \<lparr>hc_h = [0x6a09e667, 0xbb67ae85, 0x3c6ef372, 0xa54ff53a, 0x510e527f, 0x9b05688c, 0x1f83d9ab, 0x5be0cd19],
     hc_Nl = 0, hc_Nh = 0, hc_data = replicate HASH_CBLOCK 0, hc_num = 0, md_len = SHA256_DIGEST_LENGTH\<rparr>"

definition K256 :: "u32 list" where
  "K256 =
    [0x428a2f98, 0x71374491, 0xb5c0fbcf, 0xe9b5dba5, 0x3956c25b, 0x59f111f1, 0x923f82a4, 0xab1c5ed5,
     0xd807aa98, 0x12835b01, 0x243185be, 0x550c7dc3, 0x72be5d74, 0x80deb1fe, 0x9bdc06a7, 0xc19bf174,
     0xe49b69c1, 0xefbe4786, 0x0fc19dc6, 0x240ca1cc, 0x2de92c6f, 0x4a7484aa, 0x5cb0a9dc, 0x76f988da,
     0x983e5152, 0xa831c66d, 0xb00327c8, 0xbf597fc7, 0xc6e00bf3, 0xd5a79147, 0x06ca6351, 0x14292967,
     0x27b70a85, 0x2e1b2138, 0x4d2c6dfc, 0x53380d13, 0x650a7354, 0x766a0abb, 0x81c2c92e, 0x92722c85,
     0xa2bfe8a1, 0xa81a664b, 0xc24b8b70, 0xc76c51a3, 0xd192e819, 0xd6990624, 0xf40e3585, 0x106aa070,
     0x19a4c116, 0x1e376c08, 0x2748774c, 0x34b0bcb5, 0x391c0cb3, 0x4ed8aa4a, 0x5b9cca4f, 0x682e6ff3,
     0x748f82ee, 0x78a5636f, 0x84c87814, 0x8cc70208, 0x90befffa, 0xa4506ceb, 0xbef9a3f7, 0xc67178f2]"

definition ROTATE :: "u32 \<Rightarrow> nat \<Rightarrow> u32" where
  "ROTATE a n = push_bit n a OR drop_bit (32 - n) a"

definition Sigma0_256 :: "u32 \<Rightarrow> u32" where
  "Sigma0_256 x = ROTATE x 30 XOR ROTATE x 19 XOR ROTATE x 10"

definition Sigma1_256 :: "u32 \<Rightarrow> u32" where
  "Sigma1_256 x = ROTATE x 26 XOR ROTATE x 21 XOR ROTATE x 7"

definition sigma0_256 :: "u32 \<Rightarrow> u32" where
  "sigma0_256 x = ROTATE x 25 XOR ROTATE x 14 XOR drop_bit 3 x"

definition sigma1_256 :: "u32 \<Rightarrow> u32" where
  "sigma1_256 x = ROTATE x 15 XOR ROTATE x 13 XOR drop_bit 10 x"

text \<open>One turn of the loop of \<open>sha256_block_data_order\<close>; \<open>X\<close> is loaded before the rounds that read it.\<close>

definition sha256_block :: "u32 list \<Rightarrow> u8 list \<Rightarrow> u32 list" where
  "sha256_block state d =
     sha2_block Sigma0_256 Sigma1_256 sigma0_256 sigma1_256 K256 64 state
       (map (\<lambda>i. HOST_c2l_be (take 4 (drop (4 * i) d))) [0..<16])"

definition sha256_block_data_order :: "u32 list \<Rightarrow> u8 list \<Rightarrow> nat \<Rightarrow> u32 list" where
  "sha256_block_data_order = take_blocks HASH_CBLOCK sha256_block"

definition SHA256_MAKE_STRING :: "SHA256_CTX \<Rightarrow> u8 list option" where
  "SHA256_MAKE_STRING c =
     (if md_len c = SHA224_DIGEST_LENGTH then Some (concat (map (\<lambda>nn. HOST_l2c_be (hc_h c ! nn)) [0..<SHA224_DIGEST_LENGTH div 4]))
      else if md_len c = SHA256_DIGEST_LENGTH then Some (concat (map (\<lambda>nn. HOST_l2c_be (hc_h c ! nn)) [0..<SHA256_DIGEST_LENGTH div 4]))
      else if md_len c > SHA256_DIGEST_LENGTH then None
      else Some (concat (map (\<lambda>nn. HOST_l2c_be (hc_h c ! nn)) [0..<md_len c div 4])))"

definition SHA256_Update :: "SHA256_CTX \<Rightarrow> u8 list \<Rightarrow> SHA256_CTX" where
  "SHA256_Update = HASH_UPDATE sha256_block_data_order"

definition SHA256_Transform :: "SHA256_CTX \<Rightarrow> u8 list \<Rightarrow> SHA256_CTX" where
  "SHA256_Transform = HASH_TRANSFORM sha256_block_data_order"

definition SHA256_Final :: "SHA256_CTX \<Rightarrow> u8 list option \<times> SHA256_CTX" where
  "SHA256_Final = HASH_FINAL sha256_block_data_order True SHA256_MAKE_STRING"

definition SHA224_Update :: "SHA256_CTX \<Rightarrow> u8 list \<Rightarrow> SHA256_CTX" where
  "SHA224_Update = SHA256_Update"

definition SHA224_Final :: "SHA256_CTX \<Rightarrow> u8 list option \<times> SHA256_CTX" where
  "SHA224_Final = SHA256_Final"

definition SHA256_TransformBlocks :: "u32 list \<Rightarrow> u8 list \<Rightarrow> nat \<Rightarrow> u32 list" where
  "SHA256_TransformBlocks = sha256_block_data_order"

definition SHA224 :: "u8 list \<Rightarrow> u8 list option" where
  "SHA224 d = fst (SHA224_Final (SHA224_Update SHA224_Init d))"

definition SHA256 :: "u8 list \<Rightarrow> u8 list option" where
  "SHA256 d = fst (SHA256_Final (SHA256_Update SHA256_Init d))"

section \<open>The standard\<close>

definition fips_Sigma0_256 :: "u32 \<Rightarrow> u32" where "fips_Sigma0_256 x = word_rotr 2 x XOR word_rotr 13 x XOR word_rotr 22 x"
definition fips_Sigma1_256 :: "u32 \<Rightarrow> u32" where "fips_Sigma1_256 x = word_rotr 6 x XOR word_rotr 11 x XOR word_rotr 25 x"
definition fips_sigma0_256 :: "u32 \<Rightarrow> u32" where "fips_sigma0_256 x = word_rotr 7 x XOR word_rotr 18 x XOR drop_bit 3 x"
definition fips_sigma1_256 :: "u32 \<Rightarrow> u32" where "fips_sigma1_256 x = word_rotr 17 x XOR word_rotr 19 x XOR drop_bit 10 x"

text \<open>The big-endian words of a block, and the bytes of a digest.\<close>

definition be_words :: "nat \<Rightarrow> nat \<Rightarrow> u8 list \<Rightarrow> 'a::len word list" where
  "be_words w n d = map (\<lambda>i. of_nat (be_nat (take w (drop (w * i) d)))) [0..<n]"

definition be_octets :: "nat \<Rightarrow> 'a::len word list \<Rightarrow> u8 list" where
  "be_octets w ws = concat (map (\<lambda>x. be_bytes w (unat x)) ws)"

definition fips_256 :: "u32 list \<Rightarrow> u8 list \<Rightarrow> u32 list" where
  "fips_256 H b = fips_block fips_Sigma0_256 fips_Sigma1_256 fips_sigma0_256 fips_sigma1_256 K256 64 H (be_words 4 16 b)"

definition fips_sha256 :: "u8 list \<Rightarrow> u8 list" where
  "fips_sha256 m = be_octets 4 (md_chain 64 fips_256 (hc_h SHA256_Init) (md_pad 64 8 (be_bytes 8) m))"

definition fips_sha224 :: "u8 list \<Rightarrow> u8 list" where
  "fips_sha224 m = be_octets 4 (take 7 (md_chain 64 fips_256 (hc_h SHA224_Init) (md_pad 64 8 (be_bytes 8) m)))"

section \<open>The code computes the standard\<close>

lemma rotate_word:
  fixes x :: "'a::len word"
  assumes "0 < n" and "n < LENGTH('a)"
  shows "push_bit n x OR drop_bit (LENGTH('a) - n) x = word_rotr (LENGTH('a) - n) x"
proof (rule bit_word_eqI)
  fix k assume k: "k < LENGTH('a)"
  show "bit (push_bit n x OR drop_bit (LENGTH('a) - n) x) k = bit (word_rotr (LENGTH('a) - n) x) k"
  proof (cases "n \<le> k")
    case True
    then have "(k + (LENGTH('a) - n)) mod LENGTH('a) = k - n" using assms k by (simp add: mod_if)
    moreover have "\<not> bit x (LENGTH('a) - n + k)" using True assms bit_imp_le_length [of x "LENGTH('a) - n + k"] by auto
    ultimately show ?thesis using True k assms by (simp add: bit_simps bit_word_rotr_iff)
  next
    case False
    then have "(k + (LENGTH('a) - n)) mod LENGTH('a) = LENGTH('a) - n + k" using assms k by (simp add: mod_if add.commute [of k])
    then show ?thesis using False k assms by (simp add: bit_simps bit_word_rotr_iff)
  qed
qed

lemma rotate_rotr: "0 < n \<Longrightarrow> n < 32 \<Longrightarrow> ROTATE x n = word_rotr (32 - n) x"
  using rotate_word [of n x] by (simp add: ROTATE_def)

lemma sigmas_256: "Sigma0_256 = fips_Sigma0_256" "Sigma1_256 = fips_Sigma1_256" "sigma0_256 = fips_sigma0_256" "sigma1_256 = fips_sigma1_256"
  by (simp_all add: fun_eq_iff rotate_rotr Sigma0_256_def fips_Sigma0_256_def Sigma1_256_def fips_Sigma1_256_def
      sigma0_256_def fips_sigma0_256_def sigma1_256_def fips_sigma1_256_def)

lemma host_c2l_be: 
  assumes "length c = 4"
  shows "HOST_c2l_be c = of_nat (be_nat c)"
proof -
  obtain b0 b1 b2 b3 where c: "c = [b0, b1, b2, b3]" using assms by (auto simp: numeral_eq_Suc length_Suc_conv)
  have u: "unat (ucast b :: u32) = unat b" for b :: u8 by (simp add: unat_ucast_up)
  have "HOST_c2l_be c = push_bit 8 (push_bit 8 (push_bit 8 (ucast b0) OR ucast b1) OR ucast b2) OR ucast b3"
    by (rule bit_word_eqI) (auto simp: HOST_c2l_be_def c bit_simps)
  moreover have "unat (push_bit 8 (ucast b0 :: u32) OR ucast b1) = unat b0 * 256 + unat b1" (is "unat ?x = _")
    using unat_u8_less [of b0] unat_u8_less [of b1] by (subst unat_push_or) (simp_all add: u del: unat_u8_less)
  moreover from this have "unat (push_bit 8 ?x OR ucast b2) = (unat b0 * 256 + unat b1) * 256 + unat b2" (is "unat ?y = _")
    using unat_u8_less [of b0] unat_u8_less [of b1] unat_u8_less [of b2] by (subst unat_push_or) (simp_all add: u del: unat_u8_less)
  moreover from this have "unat (push_bit 8 ?y OR ucast b3) = ((unat b0 * 256 + unat b1) * 256 + unat b2) * 256 + unat b3"
    using unat_u8_less [of b0] unat_u8_less [of b1] unat_u8_less [of b2] unat_u8_less [of b3]
    by (subst unat_push_or) (simp_all add: u del: unat_u8_less)
  ultimately have "unat (HOST_c2l_be c) = be_nat c" by (simp add: c be_nat_Cons)
  then show ?thesis by (metis of_nat_unat_id)
qed

lemma block_words:
  assumes "length d = 64"
  shows "map (\<lambda>i. HOST_c2l_be (take 4 (drop (4 * i) d))) [0..<16] = be_words 4 16 d"
  unfolding be_words_def using assms by (intro map_cong refl host_c2l_be) simp

text \<open>One block.\<close>

lemma sha256_block_fips: "length H = 8 \<Longrightarrow> length b = 64 \<Longrightarrow> sha256_block H b = fips_256 H b"
  unfolding sha256_block_def fips_256_def sigmas_256 block_words
  by (rule sha2_block_is_fips) (simp_all add: be_words_def)

lemma length_fips_256: "length H = 8 \<Longrightarrow> length (fips_256 H b) = 8"
  by (simp add: fips_256_def fips_block_def length_fips_rounds)

interpretation sha256: md32 sha256_block sha256_block_data_order
  by unfold_locales (simp_all add: HASH_CBLOCK_def sha256_block_data_order_def take_blocks_fold)

text \<open>A context that has taken the message \<open>m\<close>, for digests of \<open>n\<close> bytes.\<close>

definition sha256_holds :: "u32 list \<Rightarrow> nat \<Rightarrow> SHA256_CTX \<Rightarrow> u8 list \<Rightarrow> bool" where
  "sha256_holds init n c m \<longleftrightarrow> md32_holds sha256_block init c m \<and> md_len c = n"

lemma md_len_more: "HASH_CTX.more a = HASH_CTX.more b \<Longrightarrow> md_len a = md_len b"
  by (cases a; cases b) simp

lemma sha256_update_holds: "sha256_holds init n c m \<Longrightarrow> sha256_holds init n (SHA256_Update c d) (m @ d)"
  unfolding sha256_holds_def SHA256_Update_def
  using sha256.update_holds md_len_more [OF update_more] by metis

lemma sha256_final_result:
  assumes "sha256_holds init n c m" and "length init = 8" and "n = SHA224_DIGEST_LENGTH \<or> n = SHA256_DIGEST_LENGTH"
  shows "fst (SHA256_Final c) = Some (be_octets 4 (take (n div 4) (md_chain 64 fips_256 init (md_pad 64 8 (be_bytes 8) m))))"
proof -
  obtain c' where c': "SHA256_Final c = (SHA256_MAKE_STRING c', c')"
    "hc_h c' = md_chain HASH_CBLOCK sha256_block init (md_pad HASH_CBLOCK 8 (md32_length True) m)"
    "HASH_CTX.more c' = HASH_CTX.more c"
    using sha256.final_hashes [of init c m True SHA256_MAKE_STRING] assms(1)
    by (auto simp: sha256_holds_def SHA256_Final_def)
  have len: "md_len c' = n" using md_len_more [OF c'(3)] assms(1) by (simp add: sha256_holds_def)
  have "md32_length True = be_bytes 8" by (simp add: fun_eq_iff md32_length_def)
  then have h: "hc_h c' = md_chain 64 sha256_block init (md_pad 64 8 (be_bytes 8) m)" using c'(2) by (simp add: HASH_CBLOCK_def)
  have cong: "sha256_block h b = fips_256 h b \<and> length (fips_256 h b) = 8" if "length h = 8" "length b = 64" for h b
    using that by (simp add: sha256_block_fips length_fips_256)
  have eq: "hc_h c' = md_chain 64 fips_256 init (md_pad 64 8 (be_bytes 8) m)" "length (hc_h c') = 8"
    using md_chain_cong [where P = "\<lambda>h. length h = 8", OF cong assms(2)] by (simp_all add: h)
  have "concat (map (\<lambda>nn. HOST_l2c_be (hc_h c' ! nn)) [0..<k]) = be_octets 4 (take k (hc_h c'))" if "k \<le> 8" for k
  proof -
    have "take k (hc_h c') = map ((!) (hc_h c')) [0..<k]" using that eq(2) by (intro nth_equalityI) simp_all
    then show ?thesis by (simp add: be_octets_def comp_def host_l2c_bytes)
  qed
  then show ?thesis
    using assms(3) len by (auto simp: c'(1) SHA256_MAKE_STRING_def SHA224_DIGEST_LENGTH_def SHA256_DIGEST_LENGTH_def eq(1) [symmetric])
qed

interpretation sha256_digest:
  digest "sha256_holds (hc_h SHA256_Init) SHA256_DIGEST_LENGTH" SHA256_Init SHA256_Update SHA256_Final fips_sha256
proof
  show "sha256_holds (hc_h SHA256_Init) SHA256_DIGEST_LENGTH SHA256_Init []"
    by (simp add: sha256_holds_def md32_holds_start SHA256_Init_def)
  have len: "length (hc_h SHA256_Init) = 8" by (simp add: SHA256_Init_def)
  fix c m d assume c: "sha256_holds (hc_h SHA256_Init) SHA256_DIGEST_LENGTH c m"
  show "sha256_holds (hc_h SHA256_Init) SHA256_DIGEST_LENGTH (SHA256_Update c d) (m @ d)" by (rule sha256_update_holds [OF c])
  have "length (md_chain 64 fips_256 (hc_h SHA256_Init) xs) = 8" for xs
    using md_chain_cong(2) [where P = "\<lambda>h. length h = 8" and f = fips_256 and g = fips_256 and bs = 64, OF _ len]
    by (simp add: length_fips_256)
  then show "fst (SHA256_Final c) = Some (fips_sha256 m)"
    using sha256_final_result [OF c len] by (simp add: fips_sha256_def SHA256_DIGEST_LENGTH_def)
qed

interpretation sha224_digest:
  digest "sha256_holds (hc_h SHA224_Init) SHA224_DIGEST_LENGTH" SHA224_Init SHA224_Update SHA224_Final fips_sha224
proof
  show "sha256_holds (hc_h SHA224_Init) SHA224_DIGEST_LENGTH SHA224_Init []"
    by (simp add: sha256_holds_def md32_holds_start SHA224_Init_def)
  have len: "length (hc_h SHA224_Init) = 8" by (simp add: SHA224_Init_def)
  fix c m d assume c: "sha256_holds (hc_h SHA224_Init) SHA224_DIGEST_LENGTH c m"
  show "sha256_holds (hc_h SHA224_Init) SHA224_DIGEST_LENGTH (SHA224_Update c d) (m @ d)"
    unfolding SHA224_Update_def by (rule sha256_update_holds [OF c])
  show "fst (SHA224_Final c) = Some (fips_sha224 m)"
    using sha256_final_result [OF c len] by (simp add: fips_sha224_def SHA224_Final_def SHA224_DIGEST_LENGTH_def)
qed

lemma sha256_one_shot: "SHA256 d = Some (fips_sha256 d)" "SHA224 d = Some (fips_sha224 d)"
  by (simp_all add: SHA256_def SHA224_def sha256_digest.one_shot sha224_digest.one_shot)

end
