(* ===== verification/Sha1.thy ===== *)
theory Sha1
  imports Sha256
begin

unbundle bit_operations_syntax

text \<open>
  SHA-1, \<open>fipsmodule/sha/sha1.c\<close>: five macros for the rounds, six variables that trade places and sixteen words
  of schedule that are overwritten; the proof that they compute SHA-1 of FIPS 180-4.
\<close>

section \<open>The code\<close>

definition SHA1_Init :: HASH_CTX where
  "SHA1_Init = \<lparr>hc_h = [0x67452301, 0xefcdab89, 0x98badcfe, 0x10325476, 0xc3d2e1f0],
     hc_Nl = 0, hc_Nh = 0, hc_data = replicate HASH_CBLOCK 0, hc_num = 0\<rparr>"

definition K_00_19 :: u32 where "K_00_19 = 0x5a827999"
definition K_20_39 :: u32 where "K_20_39 = 0x6ed9eba1"
definition K_40_59 :: u32 where "K_40_59 = 0x8f1bbcdc"
definition K_60_79 :: u32 where "K_60_79 = 0xca62c1d6"

definition F_00_19 :: "u32 \<Rightarrow> u32 \<Rightarrow> u32 \<Rightarrow> u32" where "F_00_19 b c d = ((c XOR d) AND b) XOR d"
definition F_20_39 :: "u32 \<Rightarrow> u32 \<Rightarrow> u32 \<Rightarrow> u32" where "F_20_39 b c d = b XOR c XOR d"
definition F_40_59 :: "u32 \<Rightarrow> u32 \<Rightarrow> u32 \<Rightarrow> u32" where "F_40_59 b c d = (b AND c) OR ((b OR c) AND d)"
definition F_60_79 :: "u32 \<Rightarrow> u32 \<Rightarrow> u32 \<Rightarrow> u32" where "F_60_79 b c d = F_20_39 b c d"

text \<open>\<open>xa\<close> to \<open>xd\<close> are places of the sixteen words; the new word goes to \<open>xi\<close>.\<close>

definition Xupdate :: "u32 list \<Rightarrow> nat \<Rightarrow> nat \<Rightarrow> nat \<Rightarrow> nat \<Rightarrow> nat \<Rightarrow> u32 \<times> u32 list" where
  "Xupdate X xi xa xb xc xd =
     (let a = X ! xa XOR X ! xb XOR X ! xc XOR X ! xd;
          a = ROTATE a 1
      in (a, X[xi := a]))"

text \<open>The variables \<open>A\<close> to \<open>E\<close> and \<open>T\<close> are the list \<open>v\<close>; \<open>f\<close> is the one a round computes.\<close>

definition BODY_00_15 :: "nat \<Rightarrow> u32 list \<times> u32 list \<Rightarrow> u32 list \<times> u32 list" where
  "BODY_00_15 i state =
     (case state of (v, X) \<Rightarrow>
        let a = v ! reg 6 i 0; b = v ! reg 6 i 1; c = v ! reg 6 i 2; d = v ! reg 6 i 3; e = v ! reg 6 i 4;
            f = X ! i + e + K_00_19 + ROTATE a 5 + F_00_19 b c d;
            b = ROTATE b 30
        in (v[reg 6 i 5 := f, reg 6 i 1 := b], X))"

definition BODY_16_79 :: "u32 \<Rightarrow> (u32 \<Rightarrow> u32 \<Rightarrow> u32 \<Rightarrow> u32) \<Rightarrow> nat \<Rightarrow> u32 list \<times> u32 list \<Rightarrow> u32 list \<times> u32 list" where
  "BODY_16_79 K F i state =
     (case state of (v, X) \<Rightarrow>
        let a = v ! reg 6 i 0; b = v ! reg 6 i 1; c = v ! reg 6 i 2; d = v ! reg 6 i 3; e = v ! reg 6 i 4;
            (f, X) = Xupdate X (i mod 16) (i mod 16) ((i + 2) mod 16) ((i + 8) mod 16) ((i + 13) mod 16);
            f = f + (e + K + ROTATE a 5 + F b c d);
            b = ROTATE b 30
        in (v[reg 6 i 5 := f, reg 6 i 1 := b], X))"

definition BODY_16_19 :: "nat \<Rightarrow> u32 list \<times> u32 list \<Rightarrow> u32 list \<times> u32 list" where
  "BODY_16_19 = BODY_16_79 K_00_19 F_00_19"

definition BODY_20_31 :: "nat \<Rightarrow> u32 list \<times> u32 list \<Rightarrow> u32 list \<times> u32 list" where
  "BODY_20_31 = BODY_16_79 K_20_39 F_20_39"

definition BODY_32_39 :: "nat \<Rightarrow> u32 list \<times> u32 list \<Rightarrow> u32 list \<times> u32 list" where
  "BODY_32_39 = BODY_16_79 K_20_39 F_20_39"

definition BODY_40_59 :: "nat \<Rightarrow> u32 list \<times> u32 list \<Rightarrow> u32 list \<times> u32 list" where
  "BODY_40_59 = BODY_16_79 K_40_59 F_40_59"

definition BODY_60_79 :: "nat \<Rightarrow> u32 list \<times> u32 list \<Rightarrow> u32 list \<times> u32 list" where
  "BODY_60_79 = BODY_16_79 K_60_79 F_60_79"

text \<open>The macro that stands at the place \<open>i\<close> of the unrolled block.\<close>

definition sha1_round :: "u32 list \<times> u32 list \<Rightarrow> nat \<Rightarrow> u32 list \<times> u32 list" where
  "sha1_round state i =
     (if i < 16 then BODY_00_15 i state else if i < 20 then BODY_16_19 i state else if i < 32 then BODY_20_31 i state
      else if i < 40 then BODY_32_39 i state else if i < 60 then BODY_40_59 i state else BODY_60_79 i state)"

text \<open>\<open>T\<close> is not initialised: a round writes it before one reads it, and the value here is never used.\<close>

definition sha1_block :: "u32 list \<Rightarrow> u8 list \<Rightarrow> u32 list" where
  "sha1_block state d =
     (let X = map (\<lambda>i. HOST_c2l_be (take 4 (drop (4 * i) d))) [0..<16];
          A = state ! 0; B = state ! 1; C = state ! 2; D = state ! 3; E = state ! 4; T = 0;
          (v, X) = foldl sha1_round ([A, B, C, D, E, T], X) [0..<80];
          A = v ! 0; B = v ! 1; C = v ! 2; D = v ! 3; E = v ! 4; T = v ! 5
      in [state ! 0 + E, state ! 1 + T, state ! 2 + A, state ! 3 + B, state ! 4 + C])"

text \<open>The callers never ask for no block.\<close>

definition sha1_block_data_order :: "u32 list \<Rightarrow> u8 list \<Rightarrow> nat \<Rightarrow> u32 list" where
  "sha1_block_data_order = take_blocks HASH_CBLOCK sha1_block"

definition SHA1_MAKE_STRING :: "HASH_CTX \<Rightarrow> u8 list option" where
  "SHA1_MAKE_STRING c = Some (HOST_l2c_be (hc_h c ! 0) @ HOST_l2c_be (hc_h c ! 1) @ HOST_l2c_be (hc_h c ! 2)
     @ HOST_l2c_be (hc_h c ! 3) @ HOST_l2c_be (hc_h c ! 4))"

definition SHA1_Update :: "HASH_CTX \<Rightarrow> u8 list \<Rightarrow> HASH_CTX" where
  "SHA1_Update = HASH_UPDATE sha1_block_data_order"

definition SHA1_Transform :: "HASH_CTX \<Rightarrow> u8 list \<Rightarrow> HASH_CTX" where
  "SHA1_Transform = HASH_TRANSFORM sha1_block_data_order"

definition SHA1_Final :: "HASH_CTX \<Rightarrow> u8 list option \<times> HASH_CTX" where
  "SHA1_Final = HASH_FINAL sha1_block_data_order True SHA1_MAKE_STRING"

definition SHA1 :: "u8 list \<Rightarrow> u8 list option" where
  "SHA1 d = fst (SHA1_Final (SHA1_Update SHA1_Init d))"

section \<open>The standard\<close>

definition Parity :: "u32 \<Rightarrow> u32 \<Rightarrow> u32 \<Rightarrow> u32" where "Parity x y z = x XOR y XOR z"

definition fips_f :: "nat \<Rightarrow> u32 \<Rightarrow> u32 \<Rightarrow> u32 \<Rightarrow> u32" where
  "fips_f t = (if t < 20 then Ch else if t < 40 then Parity else if t < 60 then Maj else Parity)"

definition fips_K :: "nat \<Rightarrow> u32" where
  "fips_K t = (if t < 20 then 0x5a827999 else if t < 40 then 0x6ed9eba1 else if t < 60 then 0x8f1bbcdc else 0xca62c1d6)"

fun schedule1 :: "u32 list \<Rightarrow> nat \<Rightarrow> u32" where
  "schedule1 M t =
     (if t < 16 then M ! t
      else word_rotl 1 (schedule1 M (t - 3) XOR schedule1 M (t - 8) XOR schedule1 M (t - 14) XOR schedule1 M (t - 16)))"

declare schedule1.simps [simp del]

definition fips_round1 :: "(nat \<Rightarrow> u32) \<Rightarrow> u32 list \<Rightarrow> nat \<Rightarrow> u32 list" where
  "fips_round1 W s t =
     [word_rotl 5 (s ! 0) + fips_f t (s ! 1) (s ! 2) (s ! 3) + s ! 4 + fips_K t + W t, s ! 0, word_rotl 30 (s ! 1), s ! 2, s ! 3]"

definition fips_1 :: "u32 list \<Rightarrow> u8 list \<Rightarrow> u32 list" where
  "fips_1 H b = map2 (+) H (foldl (fips_round1 (schedule1 (be_words 4 16 b))) H [0..<80])"

definition fips_sha1 :: "u8 list \<Rightarrow> u8 list" where
  "fips_sha1 m = be_octets 4 (md_chain 64 fips_1 (hc_h SHA1_Init) (md_pad 64 8 (be_bytes 8) m))"

section \<open>The code computes the standard\<close>

lemma rotate_rotl: "0 < n \<Longrightarrow> n < 32 \<Longrightarrow> ROTATE x n = word_rotl n x"
  by (simp add: rotate_rotr word_rotl_eq_word_rotr)

lemma F_fips:
  "F_00_19 b c d = Ch b c d" "F_20_39 b c d = Parity b c d" "F_40_59 b c d = Maj b c d" "F_60_79 b c d = Parity b c d"
proof -
  show "F_00_19 b c d = Ch b c d" by (rule bit_word_eqI) (auto simp: F_00_19_def Ch_def bit_simps)
  show "F_40_59 b c d = Maj b c d" by (rule bit_word_eqI) (auto simp: F_40_59_def Maj_def bit_simps)
qed (simp_all add: F_20_39_def F_60_79_def Parity_def)

text \<open>The word that the round \<open>i\<close> adds, and the words after it.\<close>

definition word_of_round :: "u32 list \<Rightarrow> nat \<Rightarrow> u32 \<times> u32 list" where
  "word_of_round X i = (if i < 16 then (X ! i, X)
     else Xupdate X (i mod 16) (i mod 16) ((i + 2) mod 16) ((i + 8) mod 16) ((i + 13) mod 16))"

lemma sha1_round_step:
  assumes v: "length v = 6" and X: "word_of_round X i = (w, X')" and w: "w = W i"
  shows "\<exists>v'. sha1_round (v, X) i = (v', X') \<and> length v' = 6
    \<and> take 5 (rotate (5 * Suc i) v') = fips_round1 W (take 5 (rotate (5 * i) v)) i"
proof -
  define u where "u = rotate (5 * i) v"
  have len: "length u = 6" using v by (simp add: u_def)
  have arg: "v ! reg 6 i k = u ! k" if "k < 6" for k using nth_reg [OF v that, of i] by (simp add: u_def)
  have upd: "rotate (5 * i) (y[reg 6 i k := x]) = (rotate (5 * i) y)[k := x]" if "length y = 6" "k < 6" for y k and x :: u32
    using rotate_reg_update [OF that, of i x] by simp
  obtain a b c d e f where u: "u = [a, b, c, d, e, f]"
    using len by (auto simp: numeral_eq_Suc length_Suc_conv)
  define g where "g = w + (e + fips_K i + word_rotl 5 a + fips_f i b c d)"
  define v' where "v' = v[reg 6 i 5 := g, reg 6 i 1 := word_rotl 30 b]"
  have "sha1_round (v, X) i = (v', X')"
    using X
    by (auto simp: sha1_round_def BODY_00_15_def BODY_16_19_def BODY_20_31_def BODY_32_39_def BODY_40_59_def BODY_60_79_def
        BODY_16_79_def word_of_round_def Let_def arg u v'_def g_def F_fips rotate_rotl fips_f_def fips_K_def
        K_00_19_def K_20_39_def K_40_59_def K_60_79_def add.assoc add.commute add.left_commute split: if_splits prod.splits)
  moreover have "rotate (5 * i) v' = [a, word_rotl 30 b, c, d, e, g]"
    unfolding v'_def using v by (simp add: upd u flip: u_def)
  then have "rotate (5 * Suc i) v' = [g, a, word_rotl 30 b, c, d, e]"
    using rotate_next [of v' 6 i] v by (simp add: v'_def)
  then have "take 5 (rotate (5 * Suc i) v') = fips_round1 W (take 5 (rotate (5 * i) v)) i"
    unfolding u_def [symmetric] u by (simp add: fips_round1_def g_def w add.assoc add.commute add.left_commute)
  ultimately show ?thesis using v by (simp add: v'_def)
qed

lemma word_of_round_window:
  assumes "length M = 16" and "i < 16 \<and> X = M \<or> 16 \<le> i \<and> window X (schedule1 M) i"
  shows "\<exists>X'. word_of_round X i = (schedule1 M i, X') \<and> (Suc i < 16 \<and> X' = M \<or> 16 \<le> Suc i \<and> window X' (schedule1 M) (Suc i))"
proof (cases "i < 16")
  case True
  have "window M (schedule1 M) 16" using assms(1) by (intro window_start) (simp_all add: schedule1.simps)
  moreover have "schedule1 M i = M ! i" using True by (simp add: schedule1.simps)
  ultimately show ?thesis using True assms(2) by (cases "Suc i = 16") (auto simp: word_of_round_def)
next
  case False
  then have X: "window X (schedule1 M) i" and i: "16 \<le> i" using assms(2) by auto
  define T where "T = schedule1 M i"
  have "T = word_rotl 1 (X ! (i mod 16) XOR X ! ((i + 2) mod 16) XOR X ! ((i + 8) mod 16) XOR X ! ((i + 13) mod 16))"
    using window_earlier [OF X, of 3] window_earlier [OF X, of 8] window_earlier [OF X, of 14] window_earlier [OF X, of 16] i
    unfolding T_def by (subst schedule1.simps) (simp add: xor.commute xor.left_commute add.commute [of i])
  then have "word_of_round X i = (T, X[i mod 16 := T])"
    using False by (simp add: word_of_round_def Xupdate_def Let_def rotate_rotl)
  then show ?thesis using window_update [OF X] i by (auto simp: T_def)
qed

lemma sha1_rounds:
  assumes v: "length v = 6" and M: "length M = 16"
  shows "\<exists>v' X. foldl sha1_round (v, M) [0..<n] = (v', X) \<and> length v' = 6
    \<and> take 5 (rotate (5 * n) v') = foldl (fips_round1 (schedule1 M)) (take 5 v) [0..<n]
    \<and> (n < 16 \<and> X = M \<or> 16 \<le> n \<and> window X (schedule1 M) n)"
proof (induction n)
  case (Suc n)
  then obtain v' X where IH: "foldl sha1_round (v, M) [0..<n] = (v', X)" "length v' = 6"
    "take 5 (rotate (5 * n) v') = foldl (fips_round1 (schedule1 M)) (take 5 v) [0..<n]"
    "n < 16 \<and> X = M \<or> 16 \<le> n \<and> window X (schedule1 M) n"
    by blast
  obtain X' where X': "word_of_round X n = (schedule1 M n, X')" "Suc n < 16 \<and> X' = M \<or> 16 \<le> Suc n \<and> window X' (schedule1 M) (Suc n)"
    using word_of_round_window [OF M IH(4)] by blast
  obtain w where w: "sha1_round (v', X) n = (w, X')" "length w = 6"
    "take 5 (rotate (5 * Suc n) w) = fips_round1 (schedule1 M) (take 5 (rotate (5 * n) v')) n"
    using sha1_round_step [OF IH(2) X'(1), of "schedule1 M"] by blast
  show ?case using IH w X'(2) by (simp del: rotate_Suc mult_Suc_right)
qed (use v M in simp)

theorem sha1_block_fips:
  assumes H: "length H = 5" and b: "length b = 64"
  shows "sha1_block H b = fips_1 H b"
proof -
  define M :: "u32 list" where "M = be_words 4 16 b"
  have M: "length M = 16" by (simp add: M_def be_words_def)
  obtain h0 h1 h2 h3 h4 where h: "H = [h0, h1, h2, h3, h4]" using H by (auto simp: numeral_eq_Suc length_Suc_conv)
  obtain v X where v: "foldl sha1_round ([h0, h1, h2, h3, h4, 0], M) [0..<80] = (v, X)" "length v = 6"
    "take 5 (rotate (5 * 80) v) = foldl (fips_round1 (schedule1 M)) (take 5 [h0, h1, h2, h3, h4, 0]) [0..<80]"
    using sha1_rounds [of "[h0, h1, h2, h3, h4, 0]" M 80] M by auto
  obtain A B C D E T where vs: "v = [A, B, C, D, E, T]" using v(2) by (auto simp: numeral_eq_Suc length_Suc_conv)
  have "rotate (5 * 80) v = rotate 4 v" using rotate_conv_mod [of "5 * 80" v] v(2) by simp
  then have "take 5 (rotate (5 * 80) v) = [E, T, A, B, C]" by (simp add: vs numeral_eq_Suc)
  then have "foldl (fips_round1 (schedule1 M)) H [0..<80] = [E, T, A, B, C]" using v(3) by (simp add: h)
  then show ?thesis
    using v(1) by (simp add: sha1_block_def fips_1_def block_words [OF b] h vs flip: M_def)
qed

lemma length_fips_1: "length H = 5 \<Longrightarrow> length (fips_1 H b) = 5"
proof -
  assume "length H = 5"
  then have "length (foldl (fips_round1 W) H [0..<n]) = 5" for W n by (induction n) (simp_all add: fips_round1_def)
  then show ?thesis using \<open>length H = 5\<close> by (simp add: fips_1_def)
qed

interpretation sha1: md32 sha1_block sha1_block_data_order
  by unfold_locales (simp_all add: HASH_CBLOCK_def sha1_block_data_order_def take_blocks_fold)

definition sha1_holds :: "HASH_CTX \<Rightarrow> u8 list \<Rightarrow> bool" where
  "sha1_holds = md32_holds sha1_block (hc_h SHA1_Init)"

interpretation sha1_digest: digest sha1_holds SHA1_Init SHA1_Update SHA1_Final fips_sha1
proof
  show "sha1_holds SHA1_Init []" by (simp add: sha1_holds_def md32_holds_start SHA1_Init_def)
  have len: "length (hc_h SHA1_Init) = 5" by (simp add: SHA1_Init_def)
  fix c m d assume c: "sha1_holds c m"
  show "sha1_holds (SHA1_Update c d) (m @ d)"
    using sha1.update_holds c by (simp add: sha1_holds_def SHA1_Update_def)
  obtain c' where c': "SHA1_Final c = (SHA1_MAKE_STRING c', c')"
    "hc_h c' = md_chain 64 sha1_block (hc_h SHA1_Init) (md_pad 64 8 (md32_length True) m)"
    using sha1.final_hashes [of "hc_h SHA1_Init" c m True SHA1_MAKE_STRING] c
    by (auto simp: sha1_holds_def SHA1_Final_def HASH_CBLOCK_def)
  have big: "md32_length True = be_bytes 8" by (simp add: fun_eq_iff md32_length_def)
  have cong: "sha1_block h b = fips_1 h b \<and> length (fips_1 h b) = 5" if "length h = 5" "length b = 64" for h b
    using that by (simp add: sha1_block_fips length_fips_1)
  have h: "hc_h c' = md_chain 64 fips_1 (hc_h SHA1_Init) (md_pad 64 8 (be_bytes 8) m)" "length (hc_h c') = 5"
    using md_chain_cong [where P = "\<lambda>h. length h = 5", OF cong len] c'(2) by (simp_all add: big)
  then obtain h0 h1 h2 h3 h4 where hs: "hc_h c' = [h0, h1, h2, h3, h4]" by (auto simp: numeral_eq_Suc length_Suc_conv)
  show "fst (SHA1_Final c) = Some (fips_sha1 m)"
    unfolding fips_sha1_def h(1) [symmetric] by (simp add: c'(1) SHA1_MAKE_STRING_def hs be_octets_def host_l2c_bytes)
qed

lemma sha1_one_shot: "SHA1 d = Some (fips_sha1 d)"
  by (simp add: SHA1_def sha1_digest.one_shot)

end
