(* ===== verification/Sha512.thy ===== *)
theory Sha512
  imports Sha256 Cbs
begin

unbundle bit_operations_syntax

text \<open>
  SHA-384 and SHA-512, \<open>fipsmodule/sha/sha512.c\<close>, with their own collector of 128-byte blocks; the proof that
  they compute the functions of FIPS 180-4. The rounds are those of \<open>Sha2\<close> on words of 64 bits.
\<close>

section \<open>The code\<close>

definition SHA384_DIGEST_LENGTH :: nat where "SHA384_DIGEST_LENGTH = 48"
definition SHA512_DIGEST_LENGTH :: nat where "SHA512_DIGEST_LENGTH = 64"
definition SHA512_CBLOCK :: nat where "SHA512_CBLOCK = 128"

record SHA512_CTX =
  s5_h :: "u64 list"
  s5_Nl :: u64
  s5_Nh :: u64
  s5_p :: "u8 list"
  s5_num :: nat
  s5_md_len :: nat

text \<open>The buffer keeps what it held.\<close>

definition SHA384_Init :: "SHA512_CTX \<Rightarrow> SHA512_CTX" where
  "SHA384_Init sha = sha\<lparr>s5_h := [0xcbbb9d5dc1059ed8, 0x629a292a367cd507, 0x9159015a3070dd17, 0x152fecd8f70e5939,
       0x67332667ffc00b31, 0x8eb44a8768581511, 0xdb0c2e0d64f98fa7, 0x47b5481dbefa4fa4],
     s5_Nl := 0, s5_Nh := 0, s5_num := 0, s5_md_len := SHA384_DIGEST_LENGTH\<rparr>"

definition SHA512_Init :: "SHA512_CTX \<Rightarrow> SHA512_CTX" where
  "SHA512_Init sha = sha\<lparr>s5_h := [0x6a09e667f3bcc908, 0xbb67ae8584caa73b, 0x3c6ef372fe94f82b, 0xa54ff53a5f1d36f1,
       0x510e527fade682d1, 0x9b05688c2b3e6c1f, 0x1f83d9abfb41bd6b, 0x5be0cd19137e2179],
     s5_Nl := 0, s5_Nh := 0, s5_num := 0, s5_md_len := SHA512_DIGEST_LENGTH\<rparr>"

definition K512 :: "u64 list" where
  "K512 =
    [0x428a2f98d728ae22, 0x7137449123ef65cd, 0xb5c0fbcfec4d3b2f, 0xe9b5dba58189dbbc,
     0x3956c25bf348b538, 0x59f111f1b605d019, 0x923f82a4af194f9b, 0xab1c5ed5da6d8118,
     0xd807aa98a3030242, 0x12835b0145706fbe, 0x243185be4ee4b28c, 0x550c7dc3d5ffb4e2,
     0x72be5d74f27b896f, 0x80deb1fe3b1696b1, 0x9bdc06a725c71235, 0xc19bf174cf692694,
     0xe49b69c19ef14ad2, 0xefbe4786384f25e3, 0x0fc19dc68b8cd5b5, 0x240ca1cc77ac9c65,
     0x2de92c6f592b0275, 0x4a7484aa6ea6e483, 0x5cb0a9dcbd41fbd4, 0x76f988da831153b5,
     0x983e5152ee66dfab, 0xa831c66d2db43210, 0xb00327c898fb213f, 0xbf597fc7beef0ee4,
     0xc6e00bf33da88fc2, 0xd5a79147930aa725, 0x06ca6351e003826f, 0x142929670a0e6e70,
     0x27b70a8546d22ffc, 0x2e1b21385c26c926, 0x4d2c6dfc5ac42aed, 0x53380d139d95b3df,
     0x650a73548baf63de, 0x766a0abb3c77b2a8, 0x81c2c92e47edaee6, 0x92722c851482353b,
     0xa2bfe8a14cf10364, 0xa81a664bbc423001, 0xc24b8b70d0f89791, 0xc76c51a30654be30,
     0xd192e819d6ef5218, 0xd69906245565a910, 0xf40e35855771202a, 0x106aa07032bbd1b8,
     0x19a4c116b8d2d0c8, 0x1e376c085141ab53, 0x2748774cdf8eeb99, 0x34b0bcb5e19b48a8,
     0x391c0cb3c5c95a63, 0x4ed8aa4ae3418acb, 0x5b9cca4f7763e373, 0x682e6ff3d6b2b8a3,
     0x748f82ee5defb2fc, 0x78a5636f43172f60, 0x84c87814a1f0ab72, 0x8cc702081a6439ec,
     0x90befffa23631e28, 0xa4506cebde82bde9, 0xbef9a3f7b2c67915, 0xc67178f2e372532b,
     0xca273eceea26619c, 0xd186b8c721c0c207, 0xeada7dd6cde0eb1e, 0xf57d4f7fee6ed178,
     0x06f067aa72176fba, 0x0a637dc5a2c898a6, 0x113f9804bef90dae, 0x1b710b35131c471b,
     0x28db77f523047d84, 0x32caab7b40c72493, 0x3c9ebe0a15c9bebc, 0x431d67c49c100d4c,
     0x4cc5d4becb3e42b6, 0x597f299cfc657e2a, 0x5fcb6fab3ad6faec, 0x6c44198c4a475817]"

definition ROTR :: "u64 \<Rightarrow> nat \<Rightarrow> u64" where
  "ROTR x s = drop_bit s x OR push_bit (64 - s) x"

text \<open>The host is little-endian.\<close>

definition load_u64_be :: "u8 list \<Rightarrow> u64" where
  "load_u64_be p = CRYPTO_bswap8 (of_nat (le_nat (take 8 p)))"

definition Sigma0_512 :: "u64 \<Rightarrow> u64" where
  "Sigma0_512 x = ROTR x 28 XOR ROTR x 34 XOR ROTR x 39"

definition Sigma1_512 :: "u64 \<Rightarrow> u64" where
  "Sigma1_512 x = ROTR x 14 XOR ROTR x 18 XOR ROTR x 41"

definition sigma0_512 :: "u64 \<Rightarrow> u64" where
  "sigma0_512 x = ROTR x 1 XOR ROTR x 8 XOR drop_bit 7 x"

definition sigma1_512 :: "u64 \<Rightarrow> u64" where
  "sigma1_512 x = ROTR x 19 XOR ROTR x 61 XOR drop_bit 6 x"

text \<open>\<open>i\<close> is a multiple of 16, so the macro takes its variables at the place \<open>i + j\<close> as at \<open>j\<close>.\<close>

definition ROUND_16_80 :: "nat \<Rightarrow> u64 list \<times> u64 list \<Rightarrow> nat \<Rightarrow> u64 list \<times> u64 list" where
  "ROUND_16_80 i state j =
     (case state of (v, X) \<Rightarrow>
        let s0 = sigma0_512 (X ! ((j + 1) AND 0x0f));
            s1 = sigma1_512 (X ! ((j + 14) AND 0x0f));
            T1 = X ! (j AND 0x0f) + (s0 + s1 + X ! ((j + 9) AND 0x0f))
        in (ROUND_00_15 Sigma0_512 Sigma1_512 K512 (i + j) T1 v, X[j AND 0x0f := T1]))"

definition sha512_block :: "u64 list \<Rightarrow> u8 list \<Rightarrow> u64 list" where
  "sha512_block state d =
     (let X = map (\<lambda>i. load_u64_be (drop (8 * i) d)) [0..<16];
          v = foldl (\<lambda>v i. ROUND_00_15 Sigma0_512 Sigma1_512 K512 i (X ! i) v) state [0..<16];
          (v, X) = foldl (\<lambda>s i. foldl (ROUND_16_80 i) s [0..<16]) (v, X) [16, 32, 48, 64]
      in map2 (+) state v)"

definition sha512_block_data_order :: "u64 list \<Rightarrow> u8 list \<Rightarrow> nat \<Rightarrow> u64 list" where
  "sha512_block_data_order = take_blocks SHA512_CBLOCK sha512_block"

definition SHA512_Transform :: "SHA512_CTX \<Rightarrow> u8 list \<Rightarrow> SHA512_CTX" where
  "SHA512_Transform c d = c\<lparr>s5_h := sha512_block_data_order (s5_h c) d 1\<rparr>"

definition count_bits_512 :: "SHA512_CTX \<Rightarrow> nat \<Rightarrow> SHA512_CTX" where
  "count_bits_512 c len =
     (let l = s5_Nl c + push_bit 3 (of_nat len);
          c = (if l < s5_Nl c then c\<lparr>s5_Nh := s5_Nh c + 1\<rparr> else c)
      in c\<lparr>s5_Nh := s5_Nh c + of_nat (drop_bit 61 len), s5_Nl := l\<rparr>)"

definition update_blocks_512 :: "SHA512_CTX \<Rightarrow> u8 list \<Rightarrow> SHA512_CTX" where
  "update_blocks_512 c d =
     (let (c, d) = (if length d \<ge> SHA512_CBLOCK
                    then (c\<lparr>s5_h := sha512_block_data_order (s5_h c) d (length d div SHA512_CBLOCK)\<rparr>,
                          drop (length d - length d mod SHA512_CBLOCK) d)
                    else (c, d))
      in if length d \<noteq> 0 then c\<lparr>s5_p := memcpy_at (s5_p c) 0 d, s5_num := length d\<rparr> else c)"

definition SHA512_Update :: "SHA512_CTX \<Rightarrow> u8 list \<Rightarrow> SHA512_CTX" where
  "SHA512_Update c d =
     (let len = length d
      in if len = 0 then c
         else
           let c = count_bits_512 c len
           in if s5_num c \<noteq> 0
              then let n = SHA512_CBLOCK - s5_num c
                   in if len < n
                      then c\<lparr>s5_p := memcpy_at (s5_p c) (s5_num c) d, s5_num := s5_num c + len\<rparr>
                      else let p = memcpy_at (s5_p c) (s5_num c) (take n d)
                           in update_blocks_512 (c\<lparr>s5_p := p, s5_num := 0, s5_h := sha512_block_data_order (s5_h c) p 1\<rparr>) (drop n d)
              else update_blocks_512 c d)"

definition store_u64_be :: "u64 \<Rightarrow> u8 list" where
  "store_u64_be t = [ucast (drop_bit 56 t), ucast (drop_bit 48 t), ucast (drop_bit 40 t), ucast (drop_bit 32 t),
     ucast (drop_bit 24 t), ucast (drop_bit 16 t), ucast (drop_bit 8 t), ucast t]"

text \<open>The eight bytes of each counter are stored one by one, from the end of the block.\<close>

definition SHA512_Final :: "SHA512_CTX \<Rightarrow> u8 list option \<times> SHA512_CTX" where
  "SHA512_Final sha =
     (let n = s5_num sha;
          p = (s5_p sha)[n := 0x80];
          n = n + 1;
          (sha, p, n) =
            (if n > SHA512_CBLOCK - 16
             then let p = memset_at p n 0 (SHA512_CBLOCK - n)
                  in (sha\<lparr>s5_h := sha512_block_data_order (s5_h sha) p 1\<rparr>, p, 0)
             else (sha, p, n));
          p = memset_at p n 0 (SHA512_CBLOCK - 16 - n);
          p = memcpy_at p (SHA512_CBLOCK - 16) (store_u64_be (s5_Nh sha) @ store_u64_be (s5_Nl sha));
          sha = sha\<lparr>s5_p := p, s5_h := sha512_block_data_order (s5_h sha) p 1\<rparr>
      in if s5_md_len sha = SHA384_DIGEST_LENGTH
         then (Some (concat (map (\<lambda>n. store_u64_be (s5_h sha ! n)) [0..<SHA384_DIGEST_LENGTH div 8])), sha)
         else if s5_md_len sha = SHA512_DIGEST_LENGTH
         then (Some (concat (map (\<lambda>n. store_u64_be (s5_h sha ! n)) [0..<SHA512_DIGEST_LENGTH div 8])), sha)
         else (None, sha))"

definition SHA384_Update :: "SHA512_CTX \<Rightarrow> u8 list \<Rightarrow> SHA512_CTX" where
  "SHA384_Update = SHA512_Update"

definition SHA384_Final :: "SHA512_CTX \<Rightarrow> u8 list option \<times> SHA512_CTX" where
  "SHA384_Final = SHA512_Final"

text \<open>The context of the one-shot functions is on the stack, \<open>c\<close> is what is there.\<close>

definition SHA384 :: "SHA512_CTX \<Rightarrow> u8 list \<Rightarrow> u8 list option" where
  "SHA384 c d = fst (SHA384_Final (SHA384_Update (SHA384_Init c) d))"

definition SHA512 :: "SHA512_CTX \<Rightarrow> u8 list \<Rightarrow> u8 list option" where
  "SHA512 c d = fst (SHA512_Final (SHA512_Update (SHA512_Init c) d))"

section \<open>The standard\<close>

definition fips_Sigma0_512 :: "u64 \<Rightarrow> u64" where "fips_Sigma0_512 x = word_rotr 28 x XOR word_rotr 34 x XOR word_rotr 39 x"
definition fips_Sigma1_512 :: "u64 \<Rightarrow> u64" where "fips_Sigma1_512 x = word_rotr 14 x XOR word_rotr 18 x XOR word_rotr 41 x"
definition fips_sigma0_512 :: "u64 \<Rightarrow> u64" where "fips_sigma0_512 x = word_rotr 1 x XOR word_rotr 8 x XOR drop_bit 7 x"
definition fips_sigma1_512 :: "u64 \<Rightarrow> u64" where "fips_sigma1_512 x = word_rotr 19 x XOR word_rotr 61 x XOR drop_bit 6 x"

definition fips_512 :: "u64 list \<Rightarrow> u8 list \<Rightarrow> u64 list" where
  "fips_512 H b = fips_block fips_Sigma0_512 fips_Sigma1_512 fips_sigma0_512 fips_sigma1_512 K512 80 H (be_words 8 16 b)"

definition empty_512 :: SHA512_CTX where
  "empty_512 = \<lparr>s5_h = [], s5_Nl = 0, s5_Nh = 0, s5_p = replicate SHA512_CBLOCK 0, s5_num = 0, s5_md_len = 0\<rparr>"

definition fips_sha512 :: "u8 list \<Rightarrow> u8 list" where
  "fips_sha512 m = be_octets 8 (md_chain 128 fips_512 (s5_h (SHA512_Init empty_512)) (md_pad 128 16 (be_bytes 16) m))"

definition fips_sha384 :: "u8 list \<Rightarrow> u8 list" where
  "fips_sha384 m = be_octets 8 (take 6 (md_chain 128 fips_512 (s5_h (SHA384_Init empty_512)) (md_pad 128 16 (be_bytes 16) m)))"

section \<open>Bytes of words\<close>

lemma swap_masks: "(0xff00ff00 :: u32) = push_bit 8 (mask 8) OR push_bit 24 (mask 8)" "(0x00ff00ff :: u32) = mask 8 OR push_bit 16 (mask 8)"
  by (simp_all add: mask_eq_exp_minus_1 push_bit_eq_mult)

lemma bswap4_host: "CRYPTO_bswap4 (HOST_c2l_le [b0, b1, b2, b3]) = HOST_c2l_be [b0, b1, b2, b3]"
proof (rule bit_word_eqI)
  fix n assume "n < LENGTH(32)"
  then have n: "n < 32" by simp
  have small: "\<not> bit b k" if "8 \<le> k" for b :: u8 and k using bit_imp_le_length [of b k] that by auto
  consider "n < 8" | "8 \<le> n" "n < 16" | "16 \<le> n" "n < 24" | "24 \<le> n" using n by linarith
  then show "bit (CRYPTO_bswap4 (HOST_c2l_le [b0, b1, b2, b3])) n = bit (HOST_c2l_be [b0, b1, b2, b3]) n"
    unfolding CRYPTO_bswap4_def Let_def swap_masks HOST_c2l_le_def HOST_c2l_be_def
    using n by cases (simp_all add: bit_simps small less_diff_conv2)
qed

lemma host_c2l_le:
  assumes "length c = 4"
  shows "HOST_c2l_le c = of_nat (le_nat c)"
proof -
  obtain b0 b1 b2 b3 where c: "c = [b0, b1, b2, b3]" using assms by (auto simp: numeral_eq_Suc length_Suc_conv)
  have "HOST_c2l_le c = HOST_c2l_be (rev c)" by (simp add: c HOST_c2l_le_def HOST_c2l_be_def or.commute or.left_commute)
  then show ?thesis using assms host_c2l_be [of "rev c"] be_nat_rev [of c] by simp
qed

lemma bswap4_bytes:
  assumes "length c = 4"
  shows "CRYPTO_bswap4 (of_nat (le_nat c)) = of_nat (be_nat c)"
proof -
  obtain b0 b1 b2 b3 where c: "c = [b0, b1, b2, b3]" using assms by (auto simp: numeral_eq_Suc length_Suc_conv)
  show ?thesis using bswap4_host [of b0 b1 b2 b3] host_c2l_be [of c] host_c2l_le [of c] assms unfolding c by simp
qed

lemma bswap8_bytes:
  assumes "length c = 8"
  shows "CRYPTO_bswap8 (of_nat (le_nat c)) = of_nat (be_nat c)"
proof -
  define lo hi where "lo = take 4 c" and "hi = drop 4 c"
  have c: "c = lo @ hi" and len: "length lo = 4" "length hi = 4" using assms by (simp_all add: lo_def hi_def)
  have bound: "le_nat lo < 2 ^ 32" "le_nat hi < 2 ^ 32" "be_nat lo < 2 ^ 32" "be_nat hi < 2 ^ 32"
    using le_nat_bound [of lo] le_nat_bound [of hi] be_nat_bound [of lo] be_nat_bound [of hi] by (simp_all add: len)
  define x :: u64 where "x = of_nat (le_nat c)"
  have "le_nat c = le_nat lo + 2 ^ 32 * le_nat hi" by (simp add: c le_nat_append len)
  then have x: "unat x = le_nat lo + 2 ^ 32 * le_nat hi" 
    using le_nat_bound [of c] assms unfolding x_def by (subst unat_of_nat_u64_id) simp_all
  have cut: "unat (ucast y :: u32) = unat y mod 2 ^ 32" for y :: u64
    by (simp add: unsigned_ucast_eq take_bit_eq_mod)
  have a: "(ucast x :: u32) = of_nat (le_nat lo)"
    by (rule sym, rule of_nat_unat_id) (use bound in \<open>simp add: cut x\<close>)
  have shifted: "unat (drop_bit 32 x) = le_nat hi" using bound by (simp add: unat_drop_bit_div x)
  have b: "(ucast (drop_bit 32 x) :: u32) = of_nat (le_nat hi)"
    by (rule sym, rule of_nat_unat_id) (use bound in \<open>simp add: cut shifted\<close>)
  have w: "ucast (of_nat m :: u32) = (of_nat m :: u64)" if "m < 2 ^ 32" for m
    by (rule sym, rule of_nat_unat_id) (use that in \<open>simp add: unat_ucast_up unat_of_nat\<close>)
  have "CRYPTO_bswap8 x = ucast (of_nat (be_nat hi) :: u32) OR push_bit 32 (ucast (of_nat (be_nat lo) :: u32))"
    unfolding CRYPTO_bswap8_def a b by (simp add: bswap4_bytes len)
  also have "\<dots> = push_bit 32 (of_nat (be_nat lo)) OR of_nat (be_nat hi)" by (simp only: w bound or.commute)
  finally have "CRYPTO_bswap8 x = push_bit 32 (of_nat (be_nat lo)) OR of_nat (be_nat hi)" .
  moreover have "unat (push_bit 32 (of_nat (be_nat lo)) OR of_nat (be_nat hi) :: u64) = be_nat lo * 2 ^ 32 + be_nat hi"
    using bound by (subst unat_push_or) (simp_all add: unat_of_nat)
  ultimately have "unat (CRYPTO_bswap8 x) = be_nat c" by (simp add: c be_nat_append len)
  then show ?thesis unfolding x_def by (metis of_nat_unat_id)
qed


lemma load_u64_be_bytes: "8 \<le> length p \<Longrightarrow> load_u64_be p = of_nat (be_nat (take 8 p))"
  by (simp add: load_u64_be_def bswap8_bytes)

lemma store_u64_be_bytes: "store_u64_be t = be_bytes 8 (unat t)"
proof -
  have n: "8 = Suc (Suc (Suc (Suc (Suc (Suc (Suc (Suc 0)))))))" by simp
  have "le_bytes 8 v = [of_nat v, of_nat (v div 2 ^ 8), of_nat (v div 2 ^ 16), of_nat (v div 2 ^ 24), of_nat (v div 2 ^ 32),
    of_nat (v div 2 ^ 40), of_nat (v div 2 ^ 48), of_nat (v div 2 ^ 56)]" for v
    unfolding n le_bytes.simps by (simp add: div_mult2_eq [symmetric])
  then show ?thesis
    unfolding store_u64_be_def be_bytes_def ucast_byte unat_drop_bit_div by simp
qed

lemma rotr_word:
  assumes "0 < n" and "n < 64"
  shows "ROTR x n = word_rotr n x"
  using rotate_word [of "64 - n" x] assms by (simp add: ROTR_def or.commute)

lemma sigmas_512: "Sigma0_512 = fips_Sigma0_512" "Sigma1_512 = fips_Sigma1_512" "sigma0_512 = fips_sigma0_512" "sigma1_512 = fips_sigma1_512"
  by (simp_all add: fun_eq_iff rotr_word Sigma0_512_def fips_Sigma0_512_def Sigma1_512_def fips_Sigma1_512_def
      sigma0_512_def fips_sigma0_512_def sigma1_512_def fips_sigma1_512_def)

section \<open>The code computes the standard\<close>

lemma round_16_80: "16 dvd i \<Longrightarrow> ROUND_16_80 i s j = ROUND_16_63 Sigma0_512 Sigma1_512 sigma0_512 sigma1_512 K512 s (i + j)"
  by (auto simp: ROUND_16_80_def ROUND_16_63_def and_15 add.assoc mod_add_left_eq [of i, symmetric] elim!: dvdE split: prod.splits)

lemma rounds_16_80:
  assumes "16 dvd i"
  shows "foldl (ROUND_16_80 i) s [0..<16] = foldl (ROUND_16_63 Sigma0_512 Sigma1_512 sigma0_512 sigma1_512 K512) s [i..<i + 16]"
proof -
  have "[i..<i + 16] = map ((+) i) [0..<16]" by (rule nth_equalityI) simp_all
  moreover have "ROUND_16_80 i = (\<lambda>s j. ROUND_16_63 Sigma0_512 Sigma1_512 sigma0_512 sigma1_512 K512 s (i + j))"
    by (simp add: fun_eq_iff round_16_80 [OF assms])
  ultimately show ?thesis by (simp add: foldl_map)
qed

theorem sha512_block_fips:
  assumes H: "length H = 8" and b: "length b = 128"
  shows "sha512_block H b = fips_512 H b"
proof -
  have words: "map (\<lambda>i. load_u64_be (drop (8 * i) b)) [0..<16] = be_words 8 16 b"
    unfolding be_words_def using b by (intro map_cong refl load_u64_be_bytes) simp
  have "[16..<80] = [16..<32] @ [32..<48] @ [48..<64] @ [64..<80::nat]" by (simp add: upt_rec)
  then have "foldl (\<lambda>s i. foldl (ROUND_16_80 i) s [0..<16]) s [16, 32, 48, 64]
      = foldl (ROUND_16_63 Sigma0_512 Sigma1_512 sigma0_512 sigma1_512 K512) s [16..<80]" for s
    by (simp only: foldl_Cons foldl_Nil foldl_append) (simp add: rounds_16_80)
  then have "sha512_block H b = sha2_block Sigma0_512 Sigma1_512 sigma0_512 sigma1_512 K512 80 H (be_words 8 16 b)"
    unfolding sha512_block_def sha2_block_def words Let_def by simp
  also have "\<dots> = fips_512 H b"
    unfolding fips_512_def sigmas_512 by (rule sha2_block_is_fips) (simp_all add: H be_words_def)
  finally show ?thesis .
qed

lemma length_fips_512: "length H = 8 \<Longrightarrow> length (fips_512 H b) = 8"
  by (simp add: fips_512_def fips_block_def length_fips_rounds)

section \<open>Updates collect a message\<close>

interpretation sha512: block_hash SHA512_CBLOCK sha512_block sha512_block_data_order
  by unfold_locales (simp_all add: SHA512_CBLOCK_def sha512_block_data_order_def take_blocks_fold)

definition sha512_holds :: "u64 list \<Rightarrow> nat \<Rightarrow> SHA512_CTX \<Rightarrow> u8 list \<Rightarrow> bool" where
  "sha512_holds init n c m \<longleftrightarrow>
     collects SHA512_CBLOCK sha512_block init (s5_h c) (s5_num c) (s5_p c) m \<and> s5_md_len c = n
     \<and> unat (s5_Nh c) * 2 ^ 64 + unat (s5_Nl c) = (8 * length m) mod 2 ^ 128"

lemma count_bits_512_simps [simp]:
  "s5_h (count_bits_512 c len) = s5_h c" "s5_num (count_bits_512 c len) = s5_num c" "s5_p (count_bits_512 c len) = s5_p c"
  "s5_md_len (count_bits_512 c len) = s5_md_len c"
  by (simp_all add: count_bits_512_def Let_def)

lemma count_bits_512_total:
  assumes "unat (s5_Nh c) * 2 ^ 64 + unat (s5_Nl c) = (8 * m) mod 2 ^ 128"
  shows "unat (s5_Nh (count_bits_512 c len)) * 2 ^ 64 + unat (s5_Nl (count_bits_512 c len)) = (8 * (m + len)) mod 2 ^ 128"
  using bit_counter [of "s5_Nh c" "s5_Nl c" "8 * m" _ len, OF _ _ refl] assms
  by (simp add: count_bits_512_def Let_def distrib_left if_distrib [of s5_Nh] if_distrib [of unat] cong: if_cong)

lemma update_blocks_512_eq:
  "update_blocks_512 c d =
    c\<lparr>s5_h := md_chain SHA512_CBLOCK sha512_block (s5_h c) d,
      s5_num := (if length d mod SHA512_CBLOCK = 0 then s5_num c else length d mod SHA512_CBLOCK),
      s5_p := (if length d mod SHA512_CBLOCK = 0 then s5_p c else memcpy_at (s5_p c) 0 (rest_of SHA512_CBLOCK d))\<rparr>"
proof -
  have none: "md_chain SHA512_CBLOCK sha512_block x d = x" "rest_of SHA512_CBLOCK d = d" "length d mod SHA512_CBLOCK = length d"
    if "\<not> SHA512_CBLOCK \<le> length d" for x
    using that by (simp_all add: md_chain_def)
  have rest: "drop (length d - length d mod SHA512_CBLOCK) d = rest_of SHA512_CBLOCK d"
    by (simp add: rest_of_def minus_mod_eq_mult_div)
  have no_rest: "rest_of SHA512_CBLOCK d = [] \<longleftrightarrow> length d mod SHA512_CBLOCK = 0" by (metis length_0_conv length_rest_of)
  show ?thesis
    by (cases "SHA512_CBLOCK \<le> length d") (auto simp: update_blocks_512_def Let_def none rest sha512.blk_all no_rest)
qed

lemma update_blocks_512_holds:
  assumes "collects SHA512_CBLOCK sha512_block init (s5_h c) 0 (s5_p c) m" and "s5_num c = 0"
  shows "collects SHA512_CBLOCK sha512_block init (s5_h (update_blocks_512 c d)) (s5_num (update_blocks_512 c d))
    (s5_p (update_blocks_512 c d)) (m @ d)"
  using collects_blocks [OF assms(1) sha512.bs_pos, of d] assms(2)
  by (cases "length d mod SHA512_CBLOCK = 0") (simp_all add: update_blocks_512_eq)

theorem sha512_update_holds:
  assumes c: "sha512_holds init n c m"
  shows "sha512_holds init n (SHA512_Update c d) (m @ d)"
proof (cases "d = []")
  case False
  define c1 where "c1 = count_bits_512 c (length d)"
  define k where "k = s5_num c"
  have col: "collects SHA512_CBLOCK sha512_block init (s5_h c) k (s5_p c) m" using c by (simp add: sha512_holds_def k_def)
  then have k: "k < SHA512_CBLOCK" using sha512.bs_pos by (simp add: collects_def)
  have bits: "unat (s5_Nh c1) * 2 ^ 64 + unat (s5_Nl c1) = (8 * length (m @ d)) mod 2 ^ 128"
    using count_bits_512_total [of c "length m" "length d"] c by (simp add: sha512_holds_def c1_def)
  have md: "s5_md_len c = n" using c by (simp add: sha512_holds_def)
  consider (fill) "k \<noteq> 0" "k + length d < SHA512_CBLOCK" | (full) "k \<noteq> 0" "SHA512_CBLOCK \<le> k + length d" | (empty) "k = 0" by linarith
  then show ?thesis
  proof cases
    case fill
    then have "SHA512_Update c d = c1\<lparr>s5_p := memcpy_at (s5_p c) k d, s5_num := k + length d\<rparr>"
      using False by (simp add: SHA512_Update_def Let_def c1_def k_def)
    then show ?thesis using collects_fill [OF col fill(2)] bits md by (simp add: sha512_holds_def c1_def)
  next
    case full
    define a where "a = take (SHA512_CBLOCK - k) d"
    define p where "p = memcpy_at (s5_p c) k a"
    define c2 where "c2 = c1\<lparr>s5_p := p, s5_num := 0, s5_h := sha512_block (s5_h c) p\<rparr>"
    have len: "length a = SHA512_CBLOCK - k" using full by (simp add: a_def)
    have p: "length p = SHA512_CBLOCK"
      using collects_full(1) [OF col sha512.bs_pos len, of p] collects_full(1) [OF col sha512.bs_pos len, of "s5_p c"] col
      by (simp add: p_def collects_def)
    have "collects SHA512_CBLOCK sha512_block init (sha512_block (s5_h c) p) 0 p (m @ a)"
      unfolding p_def by (rule collects_full(2) [OF col sha512.bs_pos len p [unfolded p_def]])
    then have c2: "collects SHA512_CBLOCK sha512_block init (s5_h c2) 0 (s5_p c2) (m @ a)" "s5_num c2 = 0" by (simp_all add: c2_def)
    have "sha512_block_data_order (s5_h c) p 1 = sha512_block (s5_h c) p"
      using sha512.blk_one [of p "s5_h c"] p by simp
    then have "SHA512_Update c d = update_blocks_512 c2 (drop (SHA512_CBLOCK - k) d)"
      using False full k by (simp add: SHA512_Update_def Let_def c2_def c1_def k_def p_def a_def)
    moreover have "m @ d = (m @ a) @ drop (SHA512_CBLOCK - k) d" by (simp add: a_def)
    moreover have "s5_Nl (update_blocks_512 c2 x) = s5_Nl c1" "s5_Nh (update_blocks_512 c2 x) = s5_Nh c1"
      "s5_md_len (update_blocks_512 c2 x) = n" for x
      using md by (simp_all add: update_blocks_512_eq c2_def c1_def)
    ultimately show ?thesis
      using bits update_blocks_512_holds [OF c2, of "drop (SHA512_CBLOCK - k) d"] by (simp add: sha512_holds_def)
  next
    case empty
    then have "SHA512_Update c d = update_blocks_512 c1 d"
      using False by (simp add: SHA512_Update_def Let_def c1_def k_def)
    then show ?thesis
      using bits md col empty update_blocks_512_holds [of init c1 m d] unfolding sha512_holds_def
      by (simp add: c1_def update_blocks_512_eq k_def)
  qed
qed (use c in \<open>simp add: SHA512_Update_def\<close>)

lemma counters_512:
  assumes "unat (s5_Nh c) * 2 ^ 64 + unat (s5_Nl c) = v mod 2 ^ 128"
  shows "store_u64_be (s5_Nh c) @ store_u64_be (s5_Nl c) = be_bytes 16 v"
proof -
  define w where "w = unat (s5_Nl c) + 2 ^ 64 * unat (s5_Nh c)"
  have w: "w mod 2 ^ 64 = unat (s5_Nl c)" "w div 2 ^ 64 = unat (s5_Nh c)"
    using unsigned_less [where ?'a = nat, of "s5_Nl c"] by (simp_all add: w_def)
  have "le_bytes 16 w = le_bytes 8 w @ le_bytes 8 (w div 2 ^ 64)" using le_bytes_append [of 8 8 w] by simp
  also have "le_bytes 8 w = le_bytes 8 (unat (s5_Nl c))" using le_bytes_mod [of 8 w] w(1) by simp
  finally have "be_bytes 16 w = store_u64_be (s5_Nh c) @ store_u64_be (s5_Nl c)"
    by (simp only: be_bytes_def store_u64_be_bytes w(2) rev_append)
  moreover have "w = v mod 256 ^ 16" using assms by (simp add: w_def)
  then have "be_bytes 16 w = be_bytes 16 v" by (simp only: be_bytes_mod)
  ultimately show ?thesis by simp
qed

lemma sha512_final_result:
  assumes c: "sha512_holds init n c m" and init: "length init = 8" and n: "n = SHA384_DIGEST_LENGTH \<or> n = SHA512_DIGEST_LENGTH"
  shows "fst (SHA512_Final c) = Some (be_octets 8 (take (n div 8) (md_chain 128 fips_512 init (md_pad 128 16 (be_bytes 16) m))))"
proof -
  define k where "k = s5_num c"
  define d where "d = (s5_p c)[k := 0x80]"
  have col: "collects SHA512_CBLOCK sha512_block init (s5_h c) k (s5_p c) m" using c by (simp add: sha512_holds_def k_def)
  have bits: "unat (s5_Nh c) * 2 ^ 64 + unat (s5_Nl c) = (8 * length m) mod 2 ^ 128" and md: "s5_md_len c = n"
    using c by (simp_all add: sha512_holds_def)
  have ls: "16 < SHA512_CBLOCK" by (simp add: SHA512_CBLOCK_def)
  note last = collects_final [where enc = "be_bytes 16", OF col sha512.bs_pos ls length_be_bytes, folded d_def, unfolded Let_def]
  have one: "sha512_block_data_order x b 1 = sha512_block x b" if "length b = SHA512_CBLOCK" for x b
    using sha512.blk_one [of b x] that by simp
  define h where "h = md_chain SHA512_CBLOCK sha512_block init (md_pad SHA512_CBLOCK 16 (be_bytes 16) m)"
  have store: "concat (map (\<lambda>i. store_u64_be (h ! i)) [0..<j]) = be_octets 8 (take j h)" if "j \<le> length h" for j
  proof -
    have "take j h = map ((!) h) [0..<j]" using that by (intro nth_equalityI) simp_all
    then show ?thesis by (simp add: be_octets_def comp_def store_u64_be_bytes)
  qed
  have cong: "sha512_block h b = fips_512 h b \<and> length (fips_512 h b) = 8" if "length h = 8" "length b = 128" for h b
    using that by (simp add: sha512_block_fips length_fips_512)
  have h: "h = md_chain 128 fips_512 init (md_pad 128 16 (be_bytes 16) m)" "length h = 8"
    using md_chain_cong [where P = "\<lambda>h. length h = 8", OF cong init] by (simp_all add: h_def SHA512_CBLOCK_def)
  have counters: "store_u64_be (s5_Nh (c\<lparr>s5_h := x\<rparr>)) @ store_u64_be (s5_Nl (c\<lparr>s5_h := x\<rparr>)) = be_bytes 16 (8 * length m)" for x
    using counters_512 [OF bits] by simp
  have "fst (SHA512_Final c) = (if n = SHA384_DIGEST_LENGTH then Some (concat (map (\<lambda>i. store_u64_be (h ! i)) [0..<SHA384_DIGEST_LENGTH div 8]))
      else Some (concat (map (\<lambda>i. store_u64_be (h ! i)) [0..<SHA512_DIGEST_LENGTH div 8])))"
  proof (cases "SHA512_CBLOCK - 16 < k + 1")
    case True
    then show ?thesis
      using last(1) [OF True] n counters_512 [OF bits] unfolding SHA512_Final_def Let_def k_def [symmetric] d_def [symmetric]
      by (auto simp: one md h_def simp del: One_nat_def)
  next
    case False
    then show ?thesis
      using last(2) [OF False] n counters_512 [OF bits] unfolding SHA512_Final_def Let_def k_def [symmetric] d_def [symmetric]
      by (auto simp: one md h_def simp del: One_nat_def)
  qed
  also have "\<dots> = Some (be_octets 8 (take (n div 8) h))"
    using n store [of "n div 8"] h(2) by (auto simp: SHA384_DIGEST_LENGTH_def SHA512_DIGEST_LENGTH_def)
  finally show ?thesis by (simp only: h(1))
qed

lemma sha512_start:
  "length (s5_p c) = SHA512_CBLOCK \<Longrightarrow> sha512_holds (s5_h (SHA512_Init c)) SHA512_DIGEST_LENGTH (SHA512_Init c) []"
  "length (s5_p c) = SHA512_CBLOCK \<Longrightarrow> sha512_holds (s5_h (SHA384_Init c)) SHA384_DIGEST_LENGTH (SHA384_Init c) []"
  by (simp_all add: sha512_holds_def SHA512_Init_def SHA384_Init_def collects_start sha512.bs_pos)

interpretation sha512_digest:
  digest "sha512_holds (s5_h (SHA512_Init empty_512)) SHA512_DIGEST_LENGTH" "SHA512_Init empty_512" SHA512_Update SHA512_Final fips_sha512
proof
  show "sha512_holds (s5_h (SHA512_Init empty_512)) SHA512_DIGEST_LENGTH (SHA512_Init empty_512) []"
    by (rule sha512_start) (simp add: empty_512_def)
  have len: "length (s5_h (SHA512_Init empty_512)) = 8" by (simp add: SHA512_Init_def)
  fix c m d assume c: "sha512_holds (s5_h (SHA512_Init empty_512)) SHA512_DIGEST_LENGTH c m"
  show "sha512_holds (s5_h (SHA512_Init empty_512)) SHA512_DIGEST_LENGTH (SHA512_Update c d) (m @ d)"
    by (rule sha512_update_holds [OF c])
  have "length (md_chain 128 fips_512 (s5_h (SHA512_Init empty_512)) xs) = 8" for xs
    using md_chain_cong(2) [where P = "\<lambda>h. length h = 8" and f = fips_512 and g = fips_512 and bs = 128, OF _ len]
    by (simp add: length_fips_512)
  then show "fst (SHA512_Final c) = Some (fips_sha512 m)"
    using sha512_final_result [OF c len] by (simp add: fips_sha512_def SHA512_DIGEST_LENGTH_def)
qed

interpretation sha384_digest:
  digest "sha512_holds (s5_h (SHA384_Init empty_512)) SHA384_DIGEST_LENGTH" "SHA384_Init empty_512" SHA384_Update SHA384_Final fips_sha384
proof
  show "sha512_holds (s5_h (SHA384_Init empty_512)) SHA384_DIGEST_LENGTH (SHA384_Init empty_512) []"
    by (rule sha512_start) (simp add: empty_512_def)
  have len: "length (s5_h (SHA384_Init empty_512)) = 8" by (simp add: SHA384_Init_def)
  fix c m d assume c: "sha512_holds (s5_h (SHA384_Init empty_512)) SHA384_DIGEST_LENGTH c m"
  show "sha512_holds (s5_h (SHA384_Init empty_512)) SHA384_DIGEST_LENGTH (SHA384_Update c d) (m @ d)"
    unfolding SHA384_Update_def by (rule sha512_update_holds [OF c])
  show "fst (SHA384_Final c) = Some (fips_sha384 m)"
    using sha512_final_result [OF c len] by (simp add: fips_sha384_def SHA384_Final_def SHA384_DIGEST_LENGTH_def)
qed

text \<open>What the buffer held before does not matter.\<close>

lemma sha512_one_shot:
  assumes "length (s5_p c) = SHA512_CBLOCK"
  shows "SHA512 c d = Some (fips_sha512 d)" "SHA384 c d = Some (fips_sha384 d)"
proof -
  have init: "s5_h (SHA512_Init c) = s5_h (SHA512_Init empty_512)" "s5_h (SHA384_Init c) = s5_h (SHA384_Init empty_512)"
    by (simp_all add: SHA512_Init_def SHA384_Init_def)
  show "SHA512 c d = Some (fips_sha512 d)"
    using sha512_digest.final [OF sha512_digest.update [OF sha512_start(1) [OF assms, unfolded init]]] by (simp add: SHA512_def)
  show "SHA384 c d = Some (fips_sha384 d)"
    using sha384_digest.final [OF sha384_digest.update [OF sha512_start(2) [OF assms, unfolded init]]] by (simp add: SHA384_def)
qed

end
