(* ===== verification/Md5.thy ===== *)
theory Md5
  imports Sha512
begin

unbundle bit_operations_syntax

text \<open>
  MD5 and MD4, \<open>fipsmodule/md5/md5.c\<close> and \<open>fipsmodule/md4/md4.c\<close>: little-endian hashes with four variables that
  trade places. They are shown to compute the functions of RFC 1321 and RFC 1320.
\<close>

section \<open>The code of MD5\<close>

definition MD5_Init :: HASH_CTX where
  "MD5_Init = \<lparr>hc_h = [0x67452301, 0xefcdab89, 0x98badcfe, 0x10325476],
     hc_Nl = 0, hc_Nh = 0, hc_data = replicate HASH_CBLOCK 0, hc_num = 0\<rparr>"

definition MD5_F :: "u32 \<Rightarrow> u32 \<Rightarrow> u32 \<Rightarrow> u32" where "MD5_F b c d = ((c XOR d) AND b) XOR d"
definition MD5_G :: "u32 \<Rightarrow> u32 \<Rightarrow> u32 \<Rightarrow> u32" where "MD5_G b c d = ((b XOR c) AND d) XOR c"
definition MD5_H :: "u32 \<Rightarrow> u32 \<Rightarrow> u32 \<Rightarrow> u32" where "MD5_H b c d = b XOR c XOR d"
definition MD5_I :: "u32 \<Rightarrow> u32 \<Rightarrow> u32 \<Rightarrow> u32" where "MD5_I b c d = (NOT d OR b) XOR c"

text \<open>The macros \<open>R0\<close> to \<open>R3\<close> differ in the function only.\<close>

definition MD5_R :: "(u32 \<Rightarrow> u32 \<Rightarrow> u32 \<Rightarrow> u32) \<Rightarrow> nat \<Rightarrow> u32 \<Rightarrow> nat \<Rightarrow> u32 \<Rightarrow> u32 list \<Rightarrow> u32 list" where
  "MD5_R F i k s t v =
     (let a = v ! reg 4 i 0; b = v ! reg 4 i 1; c = v ! reg 4 i 2; d = v ! reg 4 i 3;
          a = a + (k + t + F b c d);
          a = ROTATE a s;
          a = a + b
      in v[reg 4 i 0 := a])"

text \<open>The word, the rotation and the constant of each use.\<close>

definition md5_steps :: "(nat \<times> nat \<times> u32) list" where
  "md5_steps =
    [(0, 7, 0xd76aa478), (1, 12, 0xe8c7b756), (2, 17, 0x242070db), (3, 22, 0xc1bdceee),
     (4, 7, 0xf57c0faf), (5, 12, 0x4787c62a), (6, 17, 0xa8304613), (7, 22, 0xfd469501),
     (8, 7, 0x698098d8), (9, 12, 0x8b44f7af), (10, 17, 0xffff5bb1), (11, 22, 0x895cd7be),
     (12, 7, 0x6b901122), (13, 12, 0xfd987193), (14, 17, 0xa679438e), (15, 22, 0x49b40821),
     (1, 5, 0xf61e2562), (6, 9, 0xc040b340), (11, 14, 0x265e5a51), (0, 20, 0xe9b6c7aa),
     (5, 5, 0xd62f105d), (10, 9, 0x02441453), (15, 14, 0xd8a1e681), (4, 20, 0xe7d3fbc8),
     (9, 5, 0x21e1cde6), (14, 9, 0xc33707d6), (3, 14, 0xf4d50d87), (8, 20, 0x455a14ed),
     (13, 5, 0xa9e3e905), (2, 9, 0xfcefa3f8), (7, 14, 0x676f02d9), (12, 20, 0x8d2a4c8a),
     (5, 4, 0xfffa3942), (8, 11, 0x8771f681), (11, 16, 0x6d9d6122), (14, 23, 0xfde5380c),
     (1, 4, 0xa4beea44), (4, 11, 0x4bdecfa9), (7, 16, 0xf6bb4b60), (10, 23, 0xbebfbc70),
     (13, 4, 0x289b7ec6), (0, 11, 0xeaa127fa), (3, 16, 0xd4ef3085), (6, 23, 0x04881d05),
     (9, 4, 0xd9d4d039), (12, 11, 0xe6db99e5), (15, 16, 0x1fa27cf8), (2, 23, 0xc4ac5665),
     (0, 6, 0xf4292244), (7, 10, 0x432aff97), (14, 15, 0xab9423a7), (5, 21, 0xfc93a039),
     (12, 6, 0x655b59c3), (3, 10, 0x8f0ccc92), (10, 15, 0xffeff47d), (1, 21, 0x85845dd1),
     (8, 6, 0x6fa87e4f), (15, 10, 0xfe2ce6e0), (6, 15, 0xa3014314), (13, 21, 0x4e0811a1),
     (4, 6, 0xf7537e82), (11, 10, 0xbd3af235), (2, 15, 0x2ad7d2bb), (9, 21, 0xeb86d391)]"

definition md5_step :: "u32 list \<Rightarrow> u32 list \<Rightarrow> nat \<Rightarrow> u32 list" where
  "md5_step X v i =
     (case md5_steps ! i of (k, s, t) \<Rightarrow>
        MD5_R (if i < 16 then MD5_F else if i < 32 then MD5_G else if i < 48 then MD5_H else MD5_I) i (X ! k) s t v)"

definition md5_block :: "u32 list \<Rightarrow> u8 list \<Rightarrow> u32 list" where
  "md5_block state d =
     (let X = map (\<lambda>i. HOST_c2l_le (take 4 (drop (4 * i) d))) [0..<16];
          v = foldl (md5_step X) state [0..<64]
      in map2 (+) state v)"

definition md5_block_data_order :: "u32 list \<Rightarrow> u8 list \<Rightarrow> nat \<Rightarrow> u32 list" where
  "md5_block_data_order = take_blocks HASH_CBLOCK md5_block"

definition MD5_MAKE_STRING :: "HASH_CTX \<Rightarrow> u8 list option" where
  "MD5_MAKE_STRING c = Some (HOST_l2c_le (hc_h c ! 0) @ HOST_l2c_le (hc_h c ! 1) @ HOST_l2c_le (hc_h c ! 2) @ HOST_l2c_le (hc_h c ! 3))"

definition MD5_Update :: "HASH_CTX \<Rightarrow> u8 list \<Rightarrow> HASH_CTX" where
  "MD5_Update = HASH_UPDATE md5_block_data_order"

definition MD5_Transform :: "HASH_CTX \<Rightarrow> u8 list \<Rightarrow> HASH_CTX" where
  "MD5_Transform = HASH_TRANSFORM md5_block_data_order"

definition MD5_Final :: "HASH_CTX \<Rightarrow> u8 list option \<times> HASH_CTX" where
  "MD5_Final = HASH_FINAL md5_block_data_order False MD5_MAKE_STRING"

definition MD5 :: "u8 list \<Rightarrow> u8 list option" where
  "MD5 d = fst (MD5_Final (MD5_Update MD5_Init d))"

section \<open>The code of MD4\<close>

definition MD4_Init :: HASH_CTX where
  "MD4_Init = \<lparr>hc_h = [0x67452301, 0xefcdab89, 0x98badcfe, 0x10325476],
     hc_Nl = 0, hc_Nh = 0, hc_data = replicate HASH_CBLOCK 0, hc_num = 0\<rparr>"

definition MD4_F :: "u32 \<Rightarrow> u32 \<Rightarrow> u32 \<Rightarrow> u32" where "MD4_F b c d = ((c XOR d) AND b) XOR d"
definition MD4_G :: "u32 \<Rightarrow> u32 \<Rightarrow> u32 \<Rightarrow> u32" where "MD4_G b c d = (b AND c) OR (b AND d) OR (c AND d)"
definition MD4_H :: "u32 \<Rightarrow> u32 \<Rightarrow> u32 \<Rightarrow> u32" where "MD4_H b c d = b XOR c XOR d"

definition MD4_R :: "(u32 \<Rightarrow> u32 \<Rightarrow> u32 \<Rightarrow> u32) \<Rightarrow> nat \<Rightarrow> u32 \<Rightarrow> nat \<Rightarrow> u32 \<Rightarrow> u32 list \<Rightarrow> u32 list" where
  "MD4_R F i k s t v =
     (let a = v ! reg 4 i 0; b = v ! reg 4 i 1; c = v ! reg 4 i 2; d = v ! reg 4 i 3;
          a = a + (k + t + F b c d);
          a = ROTATE a s
      in v[reg 4 i 0 := a])"

definition md4_steps :: "(nat \<times> nat \<times> u32) list" where
  "md4_steps =
    [(0, 3, 0), (1, 7, 0), (2, 11, 0), (3, 19, 0),
     (4, 3, 0), (5, 7, 0), (6, 11, 0), (7, 19, 0),
     (8, 3, 0), (9, 7, 0), (10, 11, 0), (11, 19, 0),
     (12, 3, 0), (13, 7, 0), (14, 11, 0), (15, 19, 0),
     (0, 3, 0x5a827999), (4, 5, 0x5a827999), (8, 9, 0x5a827999), (12, 13, 0x5a827999),
     (1, 3, 0x5a827999), (5, 5, 0x5a827999), (9, 9, 0x5a827999), (13, 13, 0x5a827999),
     (2, 3, 0x5a827999), (6, 5, 0x5a827999), (10, 9, 0x5a827999), (14, 13, 0x5a827999),
     (3, 3, 0x5a827999), (7, 5, 0x5a827999), (11, 9, 0x5a827999), (15, 13, 0x5a827999),
     (0, 3, 0x6ed9eba1), (8, 9, 0x6ed9eba1), (4, 11, 0x6ed9eba1), (12, 15, 0x6ed9eba1),
     (2, 3, 0x6ed9eba1), (10, 9, 0x6ed9eba1), (6, 11, 0x6ed9eba1), (14, 15, 0x6ed9eba1),
     (1, 3, 0x6ed9eba1), (9, 9, 0x6ed9eba1), (5, 11, 0x6ed9eba1), (13, 15, 0x6ed9eba1),
     (3, 3, 0x6ed9eba1), (11, 9, 0x6ed9eba1), (7, 11, 0x6ed9eba1), (15, 15, 0x6ed9eba1)]"

definition md4_step :: "u32 list \<Rightarrow> u32 list \<Rightarrow> nat \<Rightarrow> u32 list" where
  "md4_step X v i =
     (case md4_steps ! i of (k, s, t) \<Rightarrow>
        MD4_R (if i < 16 then MD4_F else if i < 32 then MD4_G else MD4_H) i (X ! k) s t v)"

definition md4_block :: "u32 list \<Rightarrow> u8 list \<Rightarrow> u32 list" where
  "md4_block state d =
     (let X = map (\<lambda>i. HOST_c2l_le (take 4 (drop (4 * i) d))) [0..<16];
          v = foldl (md4_step X) state [0..<48]
      in map2 (+) state v)"

definition md4_block_data_order :: "u32 list \<Rightarrow> u8 list \<Rightarrow> nat \<Rightarrow> u32 list" where
  "md4_block_data_order = take_blocks HASH_CBLOCK md4_block"

definition MD4_MAKE_STRING :: "HASH_CTX \<Rightarrow> u8 list option" where
  "MD4_MAKE_STRING c = Some (HOST_l2c_le (hc_h c ! 0) @ HOST_l2c_le (hc_h c ! 1) @ HOST_l2c_le (hc_h c ! 2) @ HOST_l2c_le (hc_h c ! 3))"

definition MD4_Update :: "HASH_CTX \<Rightarrow> u8 list \<Rightarrow> HASH_CTX" where
  "MD4_Update = HASH_UPDATE md4_block_data_order"

definition MD4_Transform :: "HASH_CTX \<Rightarrow> u8 list \<Rightarrow> HASH_CTX" where
  "MD4_Transform = HASH_TRANSFORM md4_block_data_order"

definition MD4_Final :: "HASH_CTX \<Rightarrow> u8 list option \<times> HASH_CTX" where
  "MD4_Final = HASH_FINAL md4_block_data_order False MD4_MAKE_STRING"

definition MD4 :: "u8 list \<Rightarrow> u8 list option" where
  "MD4 d = fst (MD4_Final (MD4_Update MD4_Init d))"

section \<open>The RFCs\<close>

text \<open>
  The step \<open>i\<close> of RFC 1321 on the variables \<open>[a, b, c, d]\<close>, which then shift. The constants are those of the
  code; the words and rotations follow the patterns of the RFC.
\<close>

definition rfc_F :: "u32 \<Rightarrow> u32 \<Rightarrow> u32 \<Rightarrow> u32" where "rfc_F x y z = (x AND y) OR (NOT x AND z)"
definition rfc_G :: "u32 \<Rightarrow> u32 \<Rightarrow> u32 \<Rightarrow> u32" where "rfc_G x y z = (x AND z) OR (y AND NOT z)"
definition rfc_H :: "u32 \<Rightarrow> u32 \<Rightarrow> u32 \<Rightarrow> u32" where "rfc_H x y z = x XOR y XOR z"
definition rfc_I :: "u32 \<Rightarrow> u32 \<Rightarrow> u32 \<Rightarrow> u32" where "rfc_I x y z = y XOR (x OR NOT z)"
definition rfc_Maj :: "u32 \<Rightarrow> u32 \<Rightarrow> u32 \<Rightarrow> u32" where "rfc_Maj x y z = (x AND y) OR (x AND z) OR (y AND z)"

definition rfc5_f :: "nat \<Rightarrow> u32 \<Rightarrow> u32 \<Rightarrow> u32 \<Rightarrow> u32" where
  "rfc5_f i = (if i < 16 then rfc_F else if i < 32 then rfc_G else if i < 48 then rfc_H else rfc_I)"

definition rfc5_k :: "nat \<Rightarrow> nat" where
  "rfc5_k i = (if i < 16 then i else if i < 32 then (5 * i + 1) mod 16 else if i < 48 then (3 * i + 5) mod 16 else 7 * i mod 16)"

definition rfc5_s :: "nat \<Rightarrow> nat" where
  "rfc5_s i = (if i < 16 then [7, 12, 17, 22] else if i < 32 then [5, 9, 14, 20]
     else if i < 48 then [4, 11, 16, 23] else [6, 10, 15, 21]) ! (i mod 4)"

definition rfc5_t :: "nat \<Rightarrow> u32" where "rfc5_t i = snd (snd (md5_steps ! i))"

definition rfc5_step :: "u32 list \<Rightarrow> u32 list \<Rightarrow> nat \<Rightarrow> u32 list" where
  "rfc5_step X v i =
     [v ! 3, v ! 1 + word_rotl (rfc5_s i) (v ! 0 + rfc5_f i (v ! 1) (v ! 2) (v ! 3) + X ! rfc5_k i + rfc5_t i), v ! 1, v ! 2]"

definition le_words :: "nat \<Rightarrow> nat \<Rightarrow> u8 list \<Rightarrow> 'a::len word list" where
  "le_words w n d = map (\<lambda>i. of_nat (le_nat (take w (drop (w * i) d)))) [0..<n]"

definition le_octets :: "nat \<Rightarrow> 'a::len word list \<Rightarrow> u8 list" where
  "le_octets w ws = concat (map (\<lambda>x. le_bytes w (unat x)) ws)"

definition rfc5_block :: "u32 list \<Rightarrow> u8 list \<Rightarrow> u32 list" where
  "rfc5_block H b = map2 (+) H (foldl (rfc5_step (le_words 4 16 b)) H [0..<64])"

definition rfc_md5 :: "u8 list \<Rightarrow> u8 list" where
  "rfc_md5 m = le_octets 4 (md_chain 64 rfc5_block (hc_h MD5_Init) (md_pad 64 8 (le_bytes 8) m))"

definition rfc4_f :: "nat \<Rightarrow> u32 \<Rightarrow> u32 \<Rightarrow> u32 \<Rightarrow> u32" where
  "rfc4_f i = (if i < 16 then rfc_F else if i < 32 then rfc_Maj else rfc_H)"

definition rfc4_k :: "nat \<Rightarrow> nat" where
  "rfc4_k i = (if i < 16 then i else if i < 32 then i mod 4 * 4 + (i - 16) div 4
     else [0, 8, 4, 12, 2, 10, 6, 14, 1, 9, 5, 13, 3, 11, 7, 15] ! (i - 32))"

definition rfc4_s :: "nat \<Rightarrow> nat" where
  "rfc4_s i = (if i < 16 then [3, 7, 11, 19] else if i < 32 then [3, 5, 9, 13] else [3, 9, 11, 15]) ! (i mod 4)"

definition rfc4_t :: "nat \<Rightarrow> u32" where
  "rfc4_t i = (if i < 16 then 0 else if i < 32 then 0x5a827999 else 0x6ed9eba1)"

definition rfc4_step :: "u32 list \<Rightarrow> u32 list \<Rightarrow> nat \<Rightarrow> u32 list" where
  "rfc4_step X v i =
     [v ! 3, word_rotl (rfc4_s i) (v ! 0 + rfc4_f i (v ! 1) (v ! 2) (v ! 3) + X ! rfc4_k i + rfc4_t i), v ! 1, v ! 2]"

definition rfc4_block :: "u32 list \<Rightarrow> u8 list \<Rightarrow> u32 list" where
  "rfc4_block H b = map2 (+) H (foldl (rfc4_step (le_words 4 16 b)) H [0..<48])"

definition rfc_md4 :: "u8 list \<Rightarrow> u8 list" where
  "rfc_md4 m = le_octets 4 (md_chain 64 rfc4_block (hc_h MD4_Init) (md_pad 64 8 (le_bytes 8) m))"

section \<open>The code computes the RFCs\<close>

lemma md5_table: "map (\<lambda>i. (fst (md5_steps ! i), fst (snd (md5_steps ! i)))) [0..<64] = map (\<lambda>i. (rfc5_k i, rfc5_s i)) [0..<64]"
  by code_simp

lemma md4_table: "map (\<lambda>i. (fst (md4_steps ! i), fst (snd (md4_steps ! i)))) [0..<48] = map (\<lambda>i. (rfc4_k i, rfc4_s i)) [0..<48]"
  by code_simp

lemma md4_constants: "map (\<lambda>i. snd (snd (md4_steps ! i))) [0..<48] = map rfc4_t [0..<48]"
  by code_simp

lemma map_upt_nth: "map f [0..<n] = map g [0..<n] \<Longrightarrow> i < n \<Longrightarrow> f i = g i"
  by (metis add_0 diff_zero length_upt nth_map nth_upt)

lemma md5_entry: "i < 64 \<Longrightarrow> md5_steps ! i = (rfc5_k i, rfc5_s i, rfc5_t i)"
  using map_upt_nth [OF md5_table, of i] by (simp add: rfc5_t_def prod_eq_iff)

lemma md4_entry: "i < 48 \<Longrightarrow> md4_steps ! i = (rfc4_k i, rfc4_s i, rfc4_t i)"
  using map_upt_nth [OF md4_table, of i] map_upt_nth [OF md4_constants, of i] by (simp add: prod_eq_iff)

lemma md_rotations: "0 < rfc5_s i \<and> rfc5_s i < 32" "0 < rfc4_s i \<and> rfc4_s i < 32"
proof -
  have "i mod 4 < 4" by simp
  then have "i mod 4 = 0 \<or> i mod 4 = 1 \<or> i mod 4 = 2 \<or> i mod 4 = 3" by linarith
  then show "0 < rfc5_s i \<and> rfc5_s i < 32" "0 < rfc4_s i \<and> rfc4_s i < 32"
    by (elim disjE; simp add: rfc5_s_def rfc4_s_def)+
qed

lemma rotate_left: "0 < n \<and> n < 32 \<Longrightarrow> ROTATE x n = word_rotl n x"
  by (simp add: rotate_rotr word_rotl_eq_word_rotr)

lemma functions_rfc:
  "MD5_F = rfc_F" "MD5_G = rfc_G" "MD5_H = rfc_H" "MD5_I = rfc_I" "MD4_F = rfc_F" "MD4_G = rfc_Maj" "MD4_H = rfc_H"
  unfolding fun_eq_iff
  by (intro allI bit_word_eqI; auto simp: bit_simps MD5_F_def MD5_G_def MD5_H_def MD5_I_def MD4_F_def MD4_G_def MD4_H_def
      rfc_F_def rfc_G_def rfc_H_def rfc_I_def rfc_Maj_def)+

lemma list4_cases:
  assumes "length xs = 4" and "\<And>a b c d. xs = [a, b, c, d] \<Longrightarrow> thesis"
  shows thesis
  using assms by (auto simp: numeral_eq_Suc length_Suc_conv)

text \<open>A step replaces the first of the four variables, and they shift.\<close>

lemma shift4:
  assumes v: "length v = 4" and r: "rotate (3 * i) v = [a, b, c, d]"
  shows "v ! reg 4 i 0 = a" "v ! reg 4 i 1 = b" "v ! reg 4 i 2 = c" "v ! reg 4 i 3 = d"
    "rotate (3 * Suc i) (v[reg 4 i 0 := x]) = [d, x, b, c]"
proof -
  show "v ! reg 4 i 0 = a" "v ! reg 4 i 1 = b" "v ! reg 4 i 2 = c" "v ! reg 4 i 3 = d"
    using nth_reg [OF v, of _ i] r by simp_all
  have "rotate (3 * i) (v[reg 4 i 0 := x]) = [x, b, c, d]" using rotate_reg_update [OF v, of 0 i x] r by simp
  then show "rotate (3 * Suc i) (v[reg 4 i 0 := x]) = [d, x, b, c]"
    using rotate_next [of "v[reg 4 i 0 := x]" 4 i] v by simp
qed

lemma rounds4:
  assumes H: "length H = 4"
    and step: "\<And>v i. i < n \<Longrightarrow> length v = 4 \<Longrightarrow> length (f v i) = 4 \<and> rotate (3 * Suc i) (f v i) = g (rotate (3 * i) v) i"
  shows "length (foldl f H [0..<n]) = 4 \<and> rotate (3 * n) (foldl f H [0..<n]) = foldl g H [0..<n]"
  using step
proof (induction n)
  case (Suc n)
  have "length (foldl f H [0..<n]) = 4 \<and> rotate (3 * n) (foldl f H [0..<n]) = foldl g H [0..<n]"
    by (rule Suc.IH) (rule Suc.prems, simp_all)
  then show ?case using Suc.prems [of n "foldl f H [0..<n]"] by (simp del: mult_Suc_right)
qed (use H in simp)

lemma md5_step_rfc:
  assumes i: "i < 64" and v: "length v = 4"
  shows "length (md5_step X v i) = 4 \<and> rotate (3 * Suc i) (md5_step X v i) = rfc5_step X (rotate (3 * i) v) i"
proof -
  obtain a b c d where r: "rotate (3 * i) v = [a, b, c, d]" 
    using list4_cases [of "rotate (3 * i) v"] v by (metis length_rotate)
  note sh = shift4 [OF v r]
  define x where "x = word_rotl (rfc5_s i) (a + (X ! rfc5_k i + rfc5_t i + rfc5_f i b c d)) + b"
  have fs: "(if i < 16 then MD5_F else if i < 32 then MD5_G else if i < 48 then MD5_H else MD5_I) = rfc5_f i"
    by (simp only: rfc5_f_def functions_rfc)
  have "md5_step X v i = v[reg 4 i 0 := x]"
    unfolding md5_step_def md5_entry [OF i] prod.case MD5_R_def Let_def sh(1-4) rotate_left [OF md_rotations(1)] fs x_def
    by (simp only: add.commute add.left_commute add.assoc)
  then show ?thesis
    using v sh(5) [of x] unfolding r rfc5_step_def x_def by (simp add: add.commute add.left_commute del: mult_Suc_right)
qed

lemma md4_step_rfc:
  assumes i: "i < 48" and v: "length v = 4"
  shows "length (md4_step X v i) = 4 \<and> rotate (3 * Suc i) (md4_step X v i) = rfc4_step X (rotate (3 * i) v) i"
proof -
  obtain a b c d where r: "rotate (3 * i) v = [a, b, c, d]" 
    using list4_cases [of "rotate (3 * i) v"] v by (metis length_rotate)
  note sh = shift4 [OF v r]
  define x where "x = word_rotl (rfc4_s i) (a + (X ! rfc4_k i + rfc4_t i + rfc4_f i b c d))"
  have fs: "(if i < 16 then MD4_F else if i < 32 then MD4_G else MD4_H) = rfc4_f i"
    by (simp only: rfc4_f_def functions_rfc)
  have "md4_step X v i = v[reg 4 i 0 := x]"
    unfolding md4_step_def md4_entry [OF i] prod.case MD4_R_def Let_def sh(1-4) rotate_left [OF md_rotations(2)] fs x_def
    by (simp only: add.commute add.left_commute add.assoc)
  then show ?thesis
    using v sh(5) [of x] unfolding r rfc4_step_def x_def by (simp add: add.commute add.left_commute del: mult_Suc_right)
qed

lemma block_words_le:
  assumes "length d = 64"
  shows "map (\<lambda>i. HOST_c2l_le (take 4 (drop (4 * i) d))) [0..<16] = le_words 4 16 d"
  unfolding le_words_def using assms by (intro map_cong refl host_c2l_le) simp

theorem md5_block_rfc:
  assumes H: "length H = 4" and b: "length b = 64"
  shows "md5_block H b = rfc5_block H b"
proof -
  have "length (foldl (md5_step (le_words 4 16 b)) H [0..<64]) = 4
    \<and> rotate (3 * 64) (foldl (md5_step (le_words 4 16 b)) H [0..<64]) = foldl (rfc5_step (le_words 4 16 b)) H [0..<64]"
    by (rule rounds4 [OF H]) (rule md5_step_rfc)
  then have "foldl (md5_step (le_words 4 16 b)) H [0..<64] = foldl (rfc5_step (le_words 4 16 b)) H [0..<64]"
    using rotate_id [of "3 * 64" "foldl (md5_step (le_words 4 16 b)) H [0..<64]"] by simp
  then show ?thesis by (simp add: md5_block_def rfc5_block_def block_words_le [OF b])
qed

lemma length_rfc5_block: "length H = 4 \<Longrightarrow> length (rfc5_block H b) = 4"
proof -
  assume "length H = 4"
  then have "length (foldl (rfc5_step X) H [0..<n]) = 4" for X n by (induction n) (simp_all add: rfc5_step_def)
  then show ?thesis using \<open>length H = 4\<close> by (simp add: rfc5_block_def)
qed

interpretation md5: md32 md5_block md5_block_data_order
  by unfold_locales (simp_all add: HASH_CBLOCK_def md5_block_data_order_def take_blocks_fold)

definition md5_holds :: "HASH_CTX \<Rightarrow> u8 list \<Rightarrow> bool" where
  "md5_holds = md32_holds md5_block (hc_h MD5_Init)"

interpretation md5_digest: digest md5_holds MD5_Init MD5_Update MD5_Final rfc_md5
proof
  show "md5_holds MD5_Init []" by (simp add: md5_holds_def md32_holds_start MD5_Init_def)
  have len: "length (hc_h MD5_Init) = 4" by (simp add: MD5_Init_def)
  fix c m d assume c: "md5_holds c m"
  show "md5_holds (MD5_Update c d) (m @ d)"
    using md5.update_holds c by (simp add: md5_holds_def MD5_Update_def)
  obtain c' where c': "MD5_Final c = (MD5_MAKE_STRING c', c')"
    "hc_h c' = md_chain 64 md5_block (hc_h MD5_Init) (md_pad 64 8 (md32_length False) m)"
    using md5.final_hashes [of "hc_h MD5_Init" c m False MD5_MAKE_STRING] c
    by (auto simp: md5_holds_def MD5_Final_def HASH_CBLOCK_def)
  have little: "md32_length False = le_bytes 8" by (simp add: fun_eq_iff md32_length_def)
  have cong: "md5_block h b = rfc5_block h b \<and> length (rfc5_block h b) = 4" if "length h = 4" "length b = 64" for h b
    using that by (simp add: md5_block_rfc length_rfc5_block)
  have h: "hc_h c' = md_chain 64 rfc5_block (hc_h MD5_Init) (md_pad 64 8 (le_bytes 8) m)" "length (hc_h c') = 4"
    using md_chain_cong [where P = "\<lambda>h. length h = 4", OF cong len] c'(2) by (simp_all add: little)
  then obtain h0 h1 h2 h3 where hs: "hc_h c' = [h0, h1, h2, h3]" by (auto simp: numeral_eq_Suc length_Suc_conv)
  show "fst (MD5_Final c) = Some (rfc_md5 m)"
    unfolding rfc_md5_def h(1) [symmetric] by (simp add: c'(1) MD5_MAKE_STRING_def hs le_octets_def host_l2c_bytes)
qed

lemma md5_one_shot: "MD5 d = Some (rfc_md5 d)"
  by (simp add: MD5_def md5_digest.one_shot)

theorem md4_block_rfc:
  assumes H: "length H = 4" and b: "length b = 64"
  shows "md4_block H b = rfc4_block H b"
proof -
  have "length (foldl (md4_step (le_words 4 16 b)) H [0..<48]) = 4
    \<and> rotate (3 * 48) (foldl (md4_step (le_words 4 16 b)) H [0..<48]) = foldl (rfc4_step (le_words 4 16 b)) H [0..<48]"
    by (rule rounds4 [OF H]) (rule md4_step_rfc)
  then have "foldl (md4_step (le_words 4 16 b)) H [0..<48] = foldl (rfc4_step (le_words 4 16 b)) H [0..<48]"
    using rotate_id [of "3 * 48" "foldl (md4_step (le_words 4 16 b)) H [0..<48]"] by simp
  then show ?thesis by (simp add: md4_block_def rfc4_block_def block_words_le [OF b])
qed

lemma length_rfc4_block: "length H = 4 \<Longrightarrow> length (rfc4_block H b) = 4"
proof -
  assume "length H = 4"
  then have "length (foldl (rfc4_step X) H [0..<n]) = 4" for X n by (induction n) (simp_all add: rfc4_step_def)
  then show ?thesis using \<open>length H = 4\<close> by (simp add: rfc4_block_def)
qed

interpretation md4: md32 md4_block md4_block_data_order
  by unfold_locales (simp_all add: HASH_CBLOCK_def md4_block_data_order_def take_blocks_fold)

definition md4_holds :: "HASH_CTX \<Rightarrow> u8 list \<Rightarrow> bool" where
  "md4_holds = md32_holds md4_block (hc_h MD4_Init)"

interpretation md4_digest: digest md4_holds MD4_Init MD4_Update MD4_Final rfc_md4
proof
  show "md4_holds MD4_Init []" by (simp add: md4_holds_def md32_holds_start MD4_Init_def)
  have len: "length (hc_h MD4_Init) = 4" by (simp add: MD4_Init_def)
  fix c m d assume c: "md4_holds c m"
  show "md4_holds (MD4_Update c d) (m @ d)"
    using md4.update_holds c by (simp add: md4_holds_def MD4_Update_def)
  obtain c' where c': "MD4_Final c = (MD4_MAKE_STRING c', c')"
    "hc_h c' = md_chain 64 md4_block (hc_h MD4_Init) (md_pad 64 8 (md32_length False) m)"
    using md4.final_hashes [of "hc_h MD4_Init" c m False MD4_MAKE_STRING] c
    by (auto simp: md4_holds_def MD4_Final_def HASH_CBLOCK_def)
  have little: "md32_length False = le_bytes 8" by (simp add: fun_eq_iff md32_length_def)
  have cong: "md4_block h b = rfc4_block h b \<and> length (rfc4_block h b) = 4" if "length h = 4" "length b = 64" for h b
    using that by (simp add: md4_block_rfc length_rfc4_block)
  have h: "hc_h c' = md_chain 64 rfc4_block (hc_h MD4_Init) (md_pad 64 8 (le_bytes 8) m)" "length (hc_h c') = 4"
    using md_chain_cong [where P = "\<lambda>h. length h = 4", OF cong len] c'(2) by (simp_all add: little)
  then obtain h0 h1 h2 h3 where hs: "hc_h c' = [h0, h1, h2, h3]" by (auto simp: numeral_eq_Suc length_Suc_conv)
  show "fst (MD4_Final c) = Some (rfc_md4 m)"
    unfolding rfc_md4_def h(1) [symmetric] by (simp add: c'(1) MD4_MAKE_STRING_def hs le_octets_def host_l2c_bytes)
qed

lemma md4_one_shot: "MD4 d = Some (rfc_md4 d)"
  by (simp add: MD4_def md4_digest.one_shot)

end
