(* ===== verification/Spec2Isabelle.thy ===== *)
theory Spec2Isabelle
  imports Mem Der CbbTree Integer Oid Unicode MbString ConstTime Base64 PbMessage ConfLoad IpSpec AsnTimeSpec TlsDigest Sha1 Md5
begin

text \<open>
  C libraries of the iOS application \<open>WAS.S\<close>: the parts of BoringSSL (\<open>Pods/BoringSSL-GRPC\<close>) and of
  nanopb (\<open>Pods/nanopb\<close>) that read and write the data the application exchanges. The Swift code of
  the application only calls its pods; its own logic that can be stated apart from UIKit and the
  network is in these libraries.

  \<^bold>\<open>Theories and code.\<close> Paths are below \<open>BoringSSL-GRPC/src/crypto\<close> unless they say otherwise.

  \<^item> \<open>Prelude\<close>: machine integers (\<open>u8\<close> to \<open>u64\<close>, \<open>sz\<close> for \<open>size_t\<close> arithmetic), big- and
    little-endian numbers, lists.
  \<^item> \<open>Mem\<close>: \<open>mem.c\<close>. libc's \<open>malloc\<close> is a parameter \<open>os\<close>, a predicate on sizes.
  \<^item> \<open>Cbs\<close>: \<open>bytestring/cbs.c\<close>, the reader. A \<open>CBS\<close> is the list of its bytes.
  \<^item> \<open>Der\<close>: DER elements as octet strings; what the element readers of \<open>Cbs\<close> accept.
  \<^item> \<open>Cbb\<close>: \<open>bytestring/cbb.c\<close>, \<open>asn1_compat.c\<close>, the builder: a buffer with its capacity, and the
    chain of open children with their offsets and pending prefixes. \<open>CbbSpec\<close> holds the invariant
    and what it means to append; \<open>CbbTree\<close> the refinement of trees of nested items.
  \<^item> \<open>Integer\<close>, \<open>Oid\<close>: the INTEGER, OBJECT IDENTIFIER and SET OF parts of \<open>cbs.c\<close> and \<open>cbb.c\<close>.
    \<open>Oid\<close> also holds \<open>cmp_order\<close>, the contract of a comparison function with \<open>qsort\<close> and binary
    search.
  \<^item> \<open>Unicode\<close>: \<open>bytestring/unicode.c\<close>, its four encodings interpreted in one codec interface.
  \<^item> \<open>MbString\<close>: \<open>asn1/a_mbstr.c\<close> and \<open>ASN1_STRING_set\<close>, over the codecs and the builder.
  \<^item> \<open>ConstTime\<close>: the constant-time operations of \<open>internal.h\<close>.
  \<^item> \<open>Base64\<close>: \<open>base64/base64.c\<close>, block and streaming.
  \<^item> \<open>PbDecode\<close>, \<open>PbEncode\<close>: \<open>nanopb/pb_decode.c\<close>, \<open>pb_encode.c\<close>: streams with their callbacks,
    varints, fixed-width values, tags, skipping, substreams. The interface \<open>byte_source\<close> states what
    a callback delivers; the buffer stream of the code is an instance. \<open>PbMessage\<close> composes the two
    into trees of fields.
  \<^item> \<open>Stack\<close>: \<open>stack/stack.c\<close>; \<open>Lhash\<close>: \<open>lhash/lhash.c\<close> with the interface \<open>hash_laws\<close> of hash and
    comparison; \<open>Buf\<close>: \<open>buf/buf.c\<close> and the memory BIO of \<open>bio/bio_mem.c\<close>.
  \<^item> \<open>Conf\<close>, \<open>ConfLoad\<close>: \<open>conf/conf.c\<close>, which uses the three: a configuration is a hash table of
    objects and one stack per section; \<open>str_copy\<close> expands variables in a \<open>BUF_MEM\<close>.

  \<^item> \<open>Calendar\<close>: \<open>asn1/time_support.c\<close>, against the Gregorian calendar; \<open>AsnTime\<close>: \<open>asn1/a_utctm.c\<close>,
    \<open>a_gentm.c\<close>, \<open>a_time.c\<close>, and \<open>AsnTimeSpec\<close> what is read back, compared and converted. libc's
    \<open>gmtime_r\<close> is given by its documented result.

  \<^item> \<open>HostName\<close>, \<open>IpAddr\<close>: \<open>x509v3/v3_utl.c\<close>, the names and addresses a certificate is checked for, with
    the conversion of \<open>x509/a_strex.c\<close>; \<open>HostSpec\<close>, \<open>IpSpec\<close>: patterns label by label, and printed addresses.
    An IPv6 text is cut into elements by \<open>CONF_parse_list\<close> of \<open>Conf\<close>; what \<open>sscanf\<close> stores for a number
    wider than an \<open>int\<close> is a parameter.

  \<^item> \<open>TlsCbc\<close>: \<open>cipher_extra/tls_cbc.c\<close>, the padding and the MAC of a CBC record in constant time;
    \<open>TlsCbcSpec\<close>: what the masks and rotations compute; \<open>TlsDigest\<close>: Merkle-Damgard hashes, HMAC, and the
    digest of a record of secret length.

  \<^item> \<open>MerkleDamgard\<close>: what a hash of this kind computes, the buffer of a partial block, and the interface \<open>digest\<close>
    of a hash function. \<open>Md32\<close>: the collector of \<open>fipsmodule/digest/md32_common.h\<close>; \<open>Sha2\<close>: the rounds that
    SHA-256 and SHA-512 share, against FIPS 180-4; \<open>Sha1\<close>, \<open>Sha256\<close>, \<open>Sha512\<close>: the files of
    \<open>fipsmodule/sha\<close>; \<open>Md5\<close>: \<open>fipsmodule/md5/md5.c\<close> and \<open>fipsmodule/md4/md4.c\<close>.

  \<^bold>\<open>Conventions.\<close> A function that can fail returns an option, a pair with its C flag, or a sum with
  the error; what it changes through pointers is returned. Sizes are natural numbers reduced by
  \<open>sz\<close> where the code can wrap; \<open>int\<close> results are integers. Undefined behaviour that the code can
  reach is a value of the result (\<open>Out_of_bounds\<close>, \<open>Null_string\<close>, \<open>Dangling\<close> in \<open>Conf\<close>). Every
  loop is a total function; no fuel is used.

  \<^bold>\<open>Results.\<close> For the readers and writers: each accepts or produces exactly an encoding stated apart
  from the code, and the compositions invert each other. For the containers: an invariant that every
  operation keeps, and the operations as updates of a multiset, a sequence or a queue. For
  configurations: any file leaves the table, the section lists and the copies inside their blocks
  consistent. Where the code departs from what it means to do there is a theorem that shows it.

  \<^bold>\<open>Bounds.\<close> Hypotheses bound lengths by \<open>2 ^ 64\<close> where \<open>size_t\<close> would wrap, by \<open>2 ^ 31\<close> where the
  code converts to \<open>int\<close>, and by \<open>2 ^ 62\<close> where two lengths are added.

  \<^bold>\<open>Not modelled.\<close> The rest of BoringSSL (template-driven ASN.1, X.509, big numbers, curves, ciphers,
  TLS): generated tables, assembly, or webs of function pointers. gRPC, Firebase, LevelDB, Protobuf,
  Abseil: C++ and Objective-C with threads and the network. Swift: views and calls. Within the
  components above: freeing memory that is not looked at afterwards, locks, \<open>BIO_snprintf\<close>, the BIO
  method tables, the file-opening entry points of \<open>conf.c\<close>, and the descriptor-driven walk over C
  structures of nanopb.
\<close>

section \<open>DER: reading and writing\<close>

text \<open>C1: \<open>CBS_get_any_asn1_element\<close> succeeds exactly when the input starts with a DER element
  whose contents are shorter than 2^32 bytes; it then returns that element, its tag and the length
  of its header, and leaves the bytes that follow.\<close>

theorem any_element_read_iff:
  "CBS_get_any_asn1_element cbs = (Some (out, tag, hl), rest) \<longleftrightarrow>
     (\<exists>body. length body < 2 ^ 32 \<and> out = der_element tag body
       \<and> hl = length (der_header tag (length body)) \<and> cbs = out @ rest)"
  by (rule CBS_get_any_asn1_element_iff)

text \<open>C2: writing a tree of byte strings, length-prefixed blocks and ASN.1 elements through
  nested CBBs gives, when it succeeds, exactly the encoding of the tree: the prefixes that are
  reserved, patched and moved when a child is flushed end up as the lengths of what follows.\<close>

theorem nested_writes_give_encoding:
  assumes "list_all c_item its" and "cap < 2 ^ 64" and "write_tree os cap its = Some out"
  shows "encodes its = Some out"
  using assms by (rule write_tree_sound)

definition sample_tree :: "item list" where
  "sample_tree = [Prefixed 2 [Asn1 2 [Raw [5]], Raw [7]]]"

lemma sample_tree_ok: "list_all c_item sample_tree" "rooms sample_tree < 2 ^ 64"
  by (simp_all add: sample_tree_def der_tag_def tag_num_def)

lemma sample_tree_octets: "encodes sample_tree = Some [0, 4, 2, 1, 5, 7]"
proof -
  have "be_bytes 2 (Suc (Suc (Suc (Suc 0)))) = [0, 4]" by (simp add: be_bytes_def numeral_2_eq_2)
  then show ?thesis
    by (simp add: sample_tree_def der_element_def der_header_def der_tag_def der_length_def tag_num_def tag_class_def)
qed

theorem nested_writes_give_encoding_witness:
  "write_tree (\<lambda>_. True) 4 sample_tree = Some [0, 4, 2, 1, 5, 7]"
proof -
  obtain out where w: "write_tree (\<lambda>_. True) 4 sample_tree = Some out"
    using write_tree_total [OF sample_tree_ok(1), of 4 "\<lambda>_. True"] sample_tree_ok(2) sample_tree_octets by auto
  then show ?thesis
    using nested_writes_give_encoding [OF sample_tree_ok(1) _ w] sample_tree_octets by simp
qed

text \<open>C3: when allocation succeeds and the tree is small enough for the address space, the
  writes succeed exactly when the tree has an encoding, that is when every prefix can hold the
  length of its contents.\<close>

theorem nested_writes_total:
  assumes "list_all c_item its" and "cap < 2 ^ 64" and "\<And>m. os m" and "rooms its < 2 ^ 64"
  shows "write_tree os cap its = encodes its"
  using assms by (rule write_tree_total)

theorem nested_writes_total_witness:
  "write_tree (\<lambda>_. True) 0 sample_tree = Some [0, 4, 2, 1, 5, 7]"
  using nested_writes_total [OF sample_tree_ok(1) _ _ sample_tree_ok(2), of 0 "\<lambda>_. True"]
  by (simp add: sample_tree_octets)

text \<open>C4: the readers invert the writers: a parser that asks for the items of a tree one after
  the other accepts exactly the inputs that start with the tree's encoding, and leaves the
  rest.\<close>

theorem nested_reads_accept_encoding:
  assumes "list_all c_item its" and "length cbs < 0xffffffff"
  shows "expects its cbs = (True, rest) \<longleftrightarrow> (\<exists>ws. encodes its = Some ws \<and> cbs = ws @ rest)"
  using assms by (rule expect_iff(2))

theorem nested_reads_accept_encoding_witness:
  "expects sample_tree [0, 4, 2, 1, 5, 7, 9] = (True, [9])"
  using nested_reads_accept_encoding [OF sample_tree_ok(1), of "[0, 4, 2, 1, 5, 7, 9]" "[9]"]
  by (simp add: sample_tree_octets)

section \<open>Integers, identifiers, sets\<close>

text \<open>C15: \<open>CBS_get_asn1_uint64\<close> and \<open>CBS_get_asn1_int64\<close> accept exactly the shortest
  two's complement encodings of the values of their type.\<close>

theorem asn1_integers_read_iff:
  "(CBS_get_asn1_uint64 cbs = (Some v, rest) \<longleftrightarrow>
      cbs = der_element CBS_ASN1_INTEGER (int_octets (int (unat v))) @ rest)
   \<and> (CBS_get_asn1_int64 cbs = (Some w, rest) \<longleftrightarrow>
      cbs = der_element CBS_ASN1_INTEGER (int_octets (sint w)) @ rest)"
  by (rule conjI [OF CBS_get_asn1_uint64_iff CBS_get_asn1_int64_iff])


text \<open>C20: every text \<open>CBS_asn1_oid_to_text\<close> prints is the dotted form of a valid object
  identifier whose contents octets it was given.\<close>

theorem oid_to_text_sound:
  assumes "CBS_asn1_oid_to_text os cbs = Some txt"
  shows "\<exists>ns. valid_oid ns \<and> cbs = oid_octets ns \<and> txt = dotted ns @ [0]"
  using assms by (rule CBS_asn1_oid_to_text_sound)

lemma oid_1_2_840:
  "dotted [Suc 0, 2, 840] = [49, 46, 50, 46, 56, 52, 48]" "oid_octets [Suc 0, 2, 840] = [0x2a, 0x86, 0x48]"
  by (simp_all add: decimal.simps der_base128_def base128_hi.simps)

theorem oid_to_text_sound_witness:
  "\<exists>ns. valid_oid ns \<and> [0x2a, 0x86, 0x48] = oid_octets ns \<and> [49, 46, 50, 46, 56, 52, 48, 0] = dotted ns @ [0]"
  by (rule oid_to_text_sound [of "\<lambda>_. True"])
    (use CBS_asn1_oid_to_text_total [of "[1, 2, 840]" "\<lambda>_. True"] in
      \<open>simp add: oid_1_2_840 del: dotted.simps oid_octets.simps\<close>)

text \<open>C21: the contents octets of every valid identifier are written from its text and printed
  back to it.\<close>

theorem oid_text_round_trip:
  assumes "valid_oid ns" and "\<And>m. os m" and "length (dotted ns) + 1 < 2 ^ 64"
  shows "writes os d (CBB_add_asn1_oid_from_text os d (dotted ns)) (oid_octets ns) (length (oid_octets ns))
    \<and> CBS_asn1_oid_to_text os (oid_octets ns) = Some (dotted ns @ [0])"
  using writes_oid_from_text CBS_asn1_oid_to_text_total assms by blast

theorem oid_text_round_trip_witness:
  "CBS_asn1_oid_to_text (\<lambda>_. True) [0x2a, 0x86, 0x48] = Some [49, 46, 50, 46, 56, 52, 48, 0]"
  using oid_text_round_trip [of "[1, 2, 840]" "\<lambda>_. True"]
  by (simp add: oid_1_2_840 del: dotted.simps oid_octets.simps)

text \<open>C26: \<open>CBB_flush_asn1_set_of\<close> rewrites the contents of the open child, a sequence of DER
  elements, as a permutation of those elements in the order of their octets, and touches nothing
  before them.\<close>

theorem set_of_sorted:
  assumes "cbb_ok d cbb b" and "CBB_flush_asn1_set_of os d cbb = (True, cbb')"
  shows "\<exists>cs cs' b'. drop (cbb_start d cbb) (bb_buf b) = concat cs \<and> der_elements cs
    \<and> mset cs' = mset cs \<and> sorted_wrt octets_le cs'
    \<and> cbb_ok d cbb' b' \<and> bb_buf b' = take (cbb_start d cbb) (bb_buf b) @ concat cs'"
  using assms by (rule flush_asn1_set_of_sorts)

definition two_elements :: CBB where
  "two_elements = \<lparr>cbb_base = Some \<lparr>bb_buf = [5, 0, 1, 0], bb_cap = 8, bb_can_resize = True, bb_error = False\<rparr>,
     cbb_kids = []\<rparr>"

lemma two_elements_children: "set_of_children [5, 0, 1, 0] = Some [[5, 0], [1, 0]]"
proof -
  have "der_element 5 [] = [5, 0]" "der_element 1 [] = [1, 0]"
    by (simp_all add: der_element_def der_header_def der_tag_def der_length_def tag_num_def tag_class_def)
  then have "der_elements [[5, 0], [1, 0]]"
    unfolding der_elements_def by (metis empty_iff empty_set length_0_conv list.size(3) set_ConsD zero_less_numeral zero_less_power)
  then show ?thesis unfolding set_of_children_iff by simp
qed

lemma two_elements_ok:
  "cbb_ok 0 two_elements \<lparr>bb_buf = [5, 0, 1, 0], bb_cap = 8, bb_can_resize = True, bb_error = False\<rparr>"
  by (simp add: two_elements_def cbb_ok_def bb_wf_def)

lemma two_elements_flush:
  "\<exists>cbb'. CBB_flush_asn1_set_of (\<lambda>_. True) 0 two_elements = (True, cbb')
     \<and> CBB_data 0 cbb' = [1, 0, 5, 0]"
  by (simp add: CBB_flush_asn1_set_of_def CBB_flush_idle [OF two_elements_ok] cbb_seq_def CBS_init_def)
    (simp add: two_elements_def CBB_data_def cbb_start_def two_elements_children sizeof_CBS_def OPENSSL_memdup_def
      OPENSSL_malloc_def qsort_def compare_set_of_element_def CBS_len_def CBS_data_def cbb_seq_def CBB_add_bytes_def
      CBB_flush_def on_base_def cbb_buffer_add_def cbb_buffer_reserve_def)

theorem set_of_sorted_witness:
  "\<exists>cs cs'. [5, 0, 1, 0] = concat cs \<and> der_elements cs \<and> mset cs' = mset cs
     \<and> sorted_wrt octets_le cs' \<and> [1, 0, 5, 0] = concat cs'"
proof -
  obtain cbb' where f: "CBB_flush_asn1_set_of (\<lambda>_. True) 0 two_elements = (True, cbb')"
    and d: "CBB_data 0 cbb' = [1, 0, 5, 0]"
    using two_elements_flush by blast
  from set_of_sorted [OF two_elements_ok f] obtain cs cs' b' where
    cs: "[5, 0, 1, 0] = concat cs" "der_elements cs" "mset cs' = mset cs" "sorted_wrt octets_le cs'"
    and b': "cbb_ok 0 cbb' b'" "bb_buf b' = concat cs'"
    by (auto simp: two_elements_def cbb_start_def)
  from b' d have "[1, 0, 5, 0] = concat cs'" by (simp add: CBB_data_def cbb_ok_def cbb_start_def)
  with cs show ?thesis by blast
qed

text \<open>C27: \<open>cbs_get_utf8\<close> accepts exactly the shortest UTF-8 form of a valid code point, and
  \<open>cbb_add_utf8\<close> writes exactly that form and refuses every other value.\<close>

theorem utf8_read_and_written:
  "(cbs_get_utf8 cbs = (Some u, rest) \<longleftrightarrow> is_valid_code_point u \<and> cbs = utf8 u @ rest)
   \<and> outcome os d (cbb_add_utf8 os d u) (if is_valid_code_point u then Some (utf8 u) else None) 4"
  by (rule conjI [OF cbs_get_utf8_iff utf8_outcome])

section \<open>Strings\<close>



text \<open>\<open>OPENSSL_strcasecmp\<close> is zero exactly on the strings that agree up to case before their
  terminators, and swapping its arguments negates it.\<close>

theorem strcasecmp_order:
  "(OPENSSL_strcasecmp a b = 0 \<longleftrightarrow> folded a = folded b)
   \<and> OPENSSL_strcasecmp b a = - OPENSSL_strcasecmp a b"
  by (rule conjI [OF OPENSSL_strcasecmp_zero_iff OPENSSL_strcasecmp_antisym])

text \<open>\<open>OPENSSL_strlcat\<close> on a terminated destination of any size leaves the truncated
  concatenation, never writes past the destination and returns the length it would have needed.\<close>

theorem strlcat_truncates:
  assumes "0 \<in> set dst"
  shows "fst (OPENSSL_strlcat dst src) = strlen dst + strlen src
    \<and> length (snd (OPENSSL_strlcat dst src)) = length dst
    \<and> takeWhile (\<lambda>c. c \<noteq> 0) (snd (OPENSSL_strlcat dst src))
        = take (length dst - 1) (takeWhile (\<lambda>c. c \<noteq> 0) dst @ takeWhile (\<lambda>c. c \<noteq> 0) src)"
  using OPENSSL_strlcat_spec [of dst src] assms by simp

theorem strlcat_truncates_witness:
  "takeWhile (\<lambda>c. c \<noteq> 0) (snd (OPENSSL_strlcat [97, 0, 7, 7] [98, 99, 100, 0])) = [97, 98, 99]"
  using strlcat_truncates [of "[97, 0, 7, 7]" "[98, 99, 100, 0]"] by simp

section \<open>Constant-time operations and Base64\<close>

text \<open>the branch-free comparisons return the all-ones word exactly when the comparison
  holds, and the select returns its first value exactly then.\<close>

theorem constant_time_masks:
  "constant_time_lt_w a b = mask_of (a < b) \<and> constant_time_ge_w a b = mask_of (a \<ge> b)
   \<and> constant_time_eq_w a b = mask_of (a = b) \<and> constant_time_is_zero_w a = mask_of (a = 0)
   \<and> constant_time_select_w (constant_time_lt_w a b) x y = (if a < b then x else y)"
  by (simp add: constant_time_lt_w_mask constant_time_ge_w_mask constant_time_eq_w_mask
      constant_time_is_zero_w_mask constant_time_select_w_mask)

text \<open>the streaming encoder writes the same lines whatever pieces its input comes in.\<close>

theorem stream_encode_is_lines:
  assumes "list_all (\<lambda>i. length i < 2 ^ 62) inps"
  shows "stream_encode EVP_EncodeInit inps = b64_lines (concat inps)"
  using stream_encode_lines [of EVP_EncodeInit inps] assms by (simp add: EVP_EncodeInit_def)

theorem stream_encode_is_lines_witness:
  "stream_encode EVP_EncodeInit [[77], [97, 110]] = [84, 87, 70, 117, 10]"
proof -
  have "EVP_EncodeBlock [77, 97, 110] = [84, 87, 70, 117]"
    by (simp add: Let_def conv_bin2ascii_eq)
  then show ?thesis
    using stream_encode_is_lines [of "[[77], [97, 110]]"]
    by (simp add: b64_lines_last conv_bin2ascii_eq Let_def del: stream_encode.simps)
qed



text \<open>C30: \<open>EVP_DecodeBlock\<close> strips the blanks around a block and returns the encoded bytes,
  padded with zeros to a multiple of three, for every block whose output fits an \<open>int\<close>.\<close>

theorem base64_block_round_trip:
  assumes "list_all (\<lambda>c. c = 32 \<or> c = 9) pre" and "list_all decode_blank post"
    and "(length src + 2) div 3 * 3 \<le> INT_MAX"
  shows "EVP_DecodeBlock (pre @ EVP_EncodeBlock src @ post)
    = Some (src @ replicate ((3 - length src mod 3) mod 3) 0)"
  using assms by (rule EVP_DecodeBlock_EncodeBlock)

theorem base64_block_round_trip_witness:
  "EVP_DecodeBlock [32, 84, 87, 69, 61, 13, 10] = Some [77, 97, 0]"
proof -
  have "EVP_EncodeBlock [77, 97] = [84, 87, 69, 61]"
    by (simp add: Let_def conv_bin2ascii_eq)
  then show ?thesis
    using base64_block_round_trip [of "[32]" "[13, 10]" "[77, 97]"]
    by (simp add: decode_blank_def INT_MAX_def del: EVP_EncodeBlock.simps)
qed

section \<open>Protocol buffers\<close>

text \<open>C10: a message written into a buffer is read back from it, whatever follows; its size is the one the sizing pass reports.\<close>

theorem message_round_trip:
  assumes "list_all c_field its" and "bufsize + length (items_octets its) < 2 ^ 64"
    and "encode_to_buffer bufsize its = Some out"
  shows "encoded_size its = Some (length out) \<and> length out \<le> bufsize
    \<and> decode_from_buffer (map kind its) (out @ rest) = Some its"
  using assms decode_from_buffer_items [OF assms(1), of rest]
  by (simp add: encode_to_buffer_eq encoded_size_eq split: if_splits)

definition sample_message :: "pb_item list" where
  "sample_message = [Varint 1 150, Message 2 [Bytes 1 [104, 105]]]"

lemma sample_message_octets:
  "items_octets sample_message = [8, 150, 1, 18, 4, 10, 2, 104, 105]" "list_all c_field sample_message"
  by (simp_all add: sample_message_def tag_octets_def counted_def pb_wt_defs field_number_def varint_octets.simps)

lemma sample_message_encoded:
  "encode_to_buffer 9 sample_message = Some [8, 150, 1, 18, 4, 10, 2, 104, 105]"
  using encode_to_buffer_eq [of sample_message 9] by (simp add: sample_message_octets)

theorem message_round_trip_witness:
  "decode_from_buffer (map kind sample_message) [8, 150, 1, 18, 4, 10, 2, 104, 105, 0] = Some sample_message"
  using message_round_trip [OF sample_message_octets(2) _ sample_message_encoded, of "[0]"]
  by (simp add: sample_message_octets)

text \<open>C32: a message is written exactly when its encoding fits the buffer; otherwise the writers fail.\<close>

theorem message_fits_or_fails:
  assumes "list_all c_field its" and "bufsize + length (items_octets its) < 2 ^ 64"
  shows "encode_to_buffer bufsize its
    = (if length (items_octets its) \<le> bufsize then Some (items_octets its) else None)"
  using assms by (rule encode_to_buffer_eq)

theorem message_fits_or_fails_witness:
  "encode_to_buffer 9 sample_message \<noteq> None \<and> encode_to_buffer 8 sample_message = None"
  using message_fits_or_fails [OF sample_message_octets(2), of 9] message_fits_or_fails [OF sample_message_octets(2), of 8]
  by (simp add: sample_message_octets)

text \<open>C31: \<open>pb_decode_varint\<close> accepts exactly the inputs that start with at most ten octets of which
  the last alone has its high bit clear, and gives their value modulo 2^64.\<close>

theorem varint_read_iff:
  "(\<exists>s. pb_decode_varint buf_reader (pb_istream_from_buffer xs (length xs)) = (Some v, s)) \<longleftrightarrow>
     (\<exists>ws rest. xs = ws @ rest \<and> varint_form ws \<and> length ws \<le> 10 \<and> v = of_nat (varint_value ws))"
  using buf.decode_varint_iff [of "pb_istream_from_buffer xs (length xs)" xs "[]" v]
  by (simp add: pb_istream_from_buffer_def)


section \<open>Stacks and hash tables\<close>


definition number_cmp :: "nat \<Rightarrow> nat option \<Rightarrow> nat option \<Rightarrow> int" where
  "number_cmp _ a b = int (case a of None \<Rightarrow> 0 | Some m \<Rightarrow> m) - int (case b of None \<Rightarrow> 0 | Some n \<Rightarrow> n)"




lemma sorted_1_3: "sk_sort number_cmp (Some \<lparr>sk_data = [Some 3, Some 1], sk_sorted = False, sk_num_alloc = 4, sk_comp = Some 0\<rparr>)
  = Some \<lparr>sk_data = [Some 1, Some 3], sk_sorted = True, sk_num_alloc = 4, sk_comp = Some 0\<rparr>"
  by (simp add: sk_sort_def qsort_def number_cmp_def)




text \<open>\<open>sk_set\<close> does not clear the \<open>sorted\<close> flag: after it, \<open>sk_find\<close> misses an element that is
  in the stack.\<close>

theorem set_after_sort_hides_element:
  "sk_find number_cmp (snd (sk_set (sk_sort number_cmp
      (Some \<lparr>sk_data = [Some 3, Some 1], sk_sorted = False, sk_num_alloc = 4, sk_comp = Some 0\<rparr>)) 1 (Some 0))) (Some 0) = None"
  unfolding sorted_1_3
  by (simp add: sk_set_def sk_find_def sk_is_sorted_def sk_bsearch.simps number_cmp_def Let_def)

text \<open>C12: an insertion in a hash table keeps its invariant, returns the element it replaces, and
  changes what is retrieved for the keys equal to the new element only.\<close>

theorem table_insert:
  assumes "hash_laws h eqv" and "hash_laws.table_ok h eqv ch cc lh" and "lh_items lh + 1 < 2 ^ 64"
    and "lh_insert os ch cc lh d = (True, old, lh')"
  shows "hash_laws.table_ok h eqv ch cc lh' \<and> old = lh_retrieve ch cc lh d
    \<and> lh_retrieve ch cc lh' x = (if eqv d x then Some d else lh_retrieve ch cc lh x)"
  using hash_laws.insert_retrieve [OF assms] hash_laws.insert_contents [OF assms] by simp

definition number_hash :: "unit \<Rightarrow> nat \<Rightarrow> u32" where "number_hash _ n = of_nat n"
definition number_eq :: "unit \<Rightarrow> nat \<Rightarrow> nat \<Rightarrow> int" where "number_eq _ m n = (if m = n then 0 else 1)"

lemma number_laws: "hash_laws (number_hash ()) (=)"
  by unfold_locales simp_all

abbreviation "number_table_ok \<equiv> hash_laws.table_ok (number_hash ()) (=) number_hash number_eq"

lemma number_table:
  obtains lh :: "(nat, unit, unit) LHASH" where
    "number_table_ok lh" "lh_items lh = 0" "lh_new (\<lambda>_. True) () () = Some lh"
proof -
  obtain lh :: "(nat, unit, unit) LHASH" where lh: "lh_new (\<lambda>_. True) () () = Some lh" "lh_items lh = 0"
    by (simp add: lh_new_def OPENSSL_malloc_def)
  moreover have "number_table_ok lh"
    by (rule hash_laws.new_table [OF number_laws lh(1)]) (simp_all add: number_eq_def)
  ultimately show thesis using that by blast
qed

lemma insert_5:
  assumes "lh_new (\<lambda>_. True) () () = Some (lh :: (nat, unit, unit) LHASH)"
  obtains lh' where "lh_insert (\<lambda>_. True) number_hash number_eq lh 5 = (True, None, lh')" "lh_items lh' = 1"
proof -
  have "\<exists>lh'. lh_insert (\<lambda>_. True) number_hash number_eq lh 5 = (True, None, lh') \<and> lh_items lh' = 1"
    using assms by (auto simp: lh_new_def lh_insert_def get_next_ptr_and_hash_def kMinNumBuckets_def OPENSSL_malloc_def
        number_hash_def item_at_def lh_maybe_resize_def Let_def split: if_splits)
  then show thesis using that by blast
qed

theorem table_insert_witness:
  "\<exists>lh old lh'. lh_insert (\<lambda>_. True) number_hash number_eq lh 5 = (True, old, lh')
     \<and> lh_retrieve number_hash number_eq lh' 5 = Some 5"
proof -
  obtain lh :: "(nat, unit, unit) LHASH" where lh: "number_table_ok lh" "lh_items lh = 0" "lh_new (\<lambda>_. True) () () = Some lh"
    by (rule number_table)
  obtain lh' where ins: "lh_insert (\<lambda>_. True) number_hash number_eq lh 5 = (True, None, lh')"
    by (rule insert_5 [OF lh(3)])
  show ?thesis using table_insert [OF number_laws lh(1) _ ins, of 5] lh(2) ins by auto
qed

text \<open>C13: a deletion keeps the invariant, returns the element it removes, and changes what is
  retrieved for the keys equal to it only.\<close>

theorem table_delete:
  assumes "hash_laws h eqv" and "hash_laws.table_ok h eqv ch cc lh" and "lh_items lh < 2 ^ 64"
    and "lh_delete os ch cc lh d = (ret, lh')"
  shows "hash_laws.table_ok h eqv ch cc lh' \<and> ret = lh_retrieve ch cc lh d
    \<and> lh_retrieve ch cc lh' x = (if eqv d x then None else lh_retrieve ch cc lh x)"
  using hash_laws.delete_retrieve [OF assms] hash_laws.delete_contents [OF assms] by simp

theorem table_delete_witness:
  "\<exists>lh lh'. lh_retrieve number_hash number_eq lh 5 = Some 5 \<and> lh_delete (\<lambda>_. True) number_hash number_eq lh 5 = (Some 5, lh')
     \<and> lh_retrieve number_hash number_eq lh' 5 = None"
proof -
  obtain lh0 :: "(nat, unit, unit) LHASH" where lh0: "number_table_ok lh0" "lh_items lh0 = 0" "lh_new (\<lambda>_. True) () () = Some lh0"
    by (rule number_table)
  obtain lh where ins: "lh_insert (\<lambda>_. True) number_hash number_eq lh0 5 = (True, None, lh)" "lh_items lh = 1"
    by (rule insert_5 [OF lh0(3)])
  note new = hash_laws.insert_contents [OF number_laws lh0(1) _ ins(1)]
    hash_laws.insert_retrieve [OF number_laws lh0(1) _ ins(1), of 5]
  obtain ret lh' where del: "lh_delete (\<lambda>_. True) number_hash number_eq lh 5 = (ret, lh')" by fastforce
  show ?thesis using table_delete [OF number_laws _ _ del, of 5] new lh0(2) ins(2) del by auto
qed

text \<open>C34: resizing keeps the shape of the table - every item in the bucket of its hash, the count
  right - and its contents.\<close>

theorem resize_keeps_contents:
  assumes "lh_shape h lh"
  shows "lh_shape h (lh_maybe_resize os lh) \<and> contents (lh_maybe_resize os lh) = contents lh"
  using resize_keeps(1,2) [OF assms] by blast

definition full_table :: "(nat, unit, unit) LHASH" where
  "full_table = \<lparr>lh_items = 48, lh_buckets = replicate 48 \<lparr>lh_data = 0, lh_hash = 0\<rparr> # replicate 15 [],
     lh_num_buckets = 16, lh_callback_depth = 0, lh_comp = (), lh_hash_func = ()\<rparr>"

theorem resize_keeps_contents_witness:
  "contents (lh_maybe_resize (\<lambda>_. True) full_table) = replicate_mset 48 0"
proof -
  have "lh_shape (\<lambda>_. 0) full_table"
    by (auto simp: full_table_def lh_shape_def placed_def kMinNumBuckets_def contents_def nth_Cons' split: if_splits)
  then have "contents (lh_maybe_resize (\<lambda>_. True) full_table) = contents full_table"
    by (rule resize_keeps_contents [THEN conjunct2])
  also have "contents full_table = replicate_mset 48 0"
    by (simp add: full_table_def contents_def)
  finally show ?thesis .
qed

section \<open>Buffers\<close>

text \<open>C36: \<open>BUF_MEM_append\<close> appends all the bytes or, when it fails, none, and keeps the buffer well
  formed.\<close>

theorem buffer_append:
  assumes "bm_wf buf" and "length bytes < 2 ^ 64" and "BUF_MEM_append os junk buf bytes = (r, buf')"
  shows "bm_wf buf' \<and> bm_bytes buf' = bm_bytes buf @ (if r then bytes else [])"
  using append_result [OF assms(3,1,2)] by simp

theorem buffer_append_witness:
  "\<exists>buf buf'. bm_wf buf \<and> BUF_MEM_append (\<lambda>_. True) (\<lambda>_. 0) buf [1, 2] = (True, buf') \<and> bm_bytes buf' = [1, 2]"
proof -
  obtain buf where buf: "BUF_MEM_new (\<lambda>_. True) = Some buf" by (simp add: BUF_MEM_new_def OPENSSL_malloc_def)
  note wf = BUF_MEM_new_wf [OF buf]
  have "\<exists>buf'. BUF_MEM_append (\<lambda>_. True) (\<lambda>_. 0) buf [1, 2] = (True, buf')"
    using buf by (auto simp: BUF_MEM_new_def BUF_MEM_append_def BUF_MEM_reserve_def OPENSSL_realloc_def
        OPENSSL_malloc_def Let_def split: if_splits)
  then obtain buf' where "BUF_MEM_append (\<lambda>_. True) (\<lambda>_. 0) buf [1, 2] = (True, buf')" by blast
  then show ?thesis using buffer_append [of buf "[1, 2]"] wf by fastforce
qed

text \<open>C35: a memory BIO is a queue: what is read is what the BIO held followed by what was written.\<close>

theorem memory_bio_queue:
  assumes "bio_ok bio" and "int (length bytes) \<le> int_max" and "0 < n" and "n \<le> int_max"
    and "mem_write os junk bio bytes = (int (length bytes), bio1)" and "mem_read bio1 n = (ret, out, bio2)"
  shows "out = take (nat n) (bio_bytes bio @ bytes) \<and> bio_bytes bio2 = drop (nat n) (bio_bytes bio @ bytes) \<and> bio_ok bio2"
  using mem_write_appends [OF assms(1,2,5)] mem_read_takes [OF _ assms(3,4,6)] by auto


theorem memory_bio_queue_witness:
  "\<exists>bio bio1 ret bio2. mem_write (\<lambda>_. True) (\<lambda>_. 0) bio [7, 8, 9] = (3, bio1) \<and> mem_read bio1 2 = (ret, [7, 8], bio2)
     \<and> bio_bytes bio2 = [9]"
proof -
  obtain buf where buf: "BUF_MEM_new (\<lambda>_. True) = Some buf" by (simp add: BUF_MEM_new_def OPENSSL_malloc_def)
  define bio where "bio = \<lparr>bio_ptr = buf, bio_num = - 1, bio_rdonly = False, bio_retry = False\<rparr>"
  have ok: "bio_ok bio" "bio_bytes bio = []"
    using BUF_MEM_new_wf [OF buf] buf by (auto simp: bio_def bio_ok_def bio_bytes_def BUF_MEM_new_def split: if_splits)
  have "\<exists>bio1. mem_write (\<lambda>_. True) (\<lambda>_. 0) bio [7, 8, 9] = (3, bio1)"
    using buf by (auto simp: bio_def BUF_MEM_new_def mem_write_def BUF_MEM_grow_clean_def BUF_MEM_grow_def
        BUF_MEM_reserve_def OPENSSL_realloc_def OPENSSL_malloc_def Let_def split: if_splits)
  then obtain bio1 where w: "mem_write (\<lambda>_. True) (\<lambda>_. 0) bio [7, 8, 9] = (int (length [7 :: u8, 8, 9]), bio1)" by auto
  obtain ret out bio2 where r: "mem_read bio1 2 = (ret, out, bio2)" by (metis prod_cases3)
  show ?thesis using memory_bio_queue [OF ok(1) _ _ _ w r] ok(2) w r by auto
qed

text \<open>\<open>mem_gets\<close> takes the first line with its newline, or as much as fits, and leaves the rest.\<close>

theorem memory_bio_line:
  assumes "bio_ok bio" and "1 < k" and "k \<le> int_max" and "mem_gets bio k = (ret, out, bio')"
  shows "(let xs = take (nat (k - 1)) (bio_bytes bio)
      in out = takeWhile (\<lambda>c. c \<noteq> 10) xs @ (if 10 \<in> set xs then [10] else []))
    \<and> out @ bio_bytes bio' = bio_bytes bio \<and> bio_ok bio' \<and> ret = int (length out)"
  using gets_shape [OF assms] by (simp add: Let_def)

theorem memory_bio_line_witness:
  "\<exists>bio ret bio'. mem_gets bio 10 = (ret, [97, 10], bio') \<and> bio_bytes bio' = [98]"
proof -
  obtain bio where b: "BIO_new_mem_buf (\<lambda>_. True) (Some [97, 10, 98]) 3 = Inr (Some bio)"
    by (simp add: BIO_new_mem_buf_def BUF_MEM_new_def OPENSSL_malloc_def)
  have bio: "bio_ok bio" "bio_bytes bio = [97, 10, 98]"
    using b by (auto simp: BIO_new_mem_buf_def bio_ok_def bio_bytes_def bm_bytes_def BUF_MEM_new_def OPENSSL_malloc_def split: if_splits)
  obtain ret out bio' where g: "mem_gets bio 10 = (ret, out, bio')" by (metis prod_cases3)
  show ?thesis using memory_bio_line [OF bio(1) _ _ g] bio(2) g by (intro exI [of _ bio] exI [of _ ret] exI [of _ bio']) auto
qed

section \<open>Configuration files\<close>


lemma fresh_conf:
  obtains conf where "NCONF_new (\<lambda>_. True) False = Some conf" "conf_ok conf" "texts_short conf" "n_items conf = 0"
    "objects conf = {#}" "\<And>s. get_section conf (Some s) = Inr None"
proof -
  obtain conf where conf: "NCONF_new (\<lambda>_. True) False = Some conf"
    by (simp add: NCONF_new_def lh_new_def OPENSSL_malloc_def)
  note new = NCONF_new_ok [OF conf]
  have "get_section conf (Some s) = Inr None" for s
    by (rule get_section_result [of conf s]) (use new in \<open>auto simp: section_of_def\<close>)
  then show thesis using that [OF conf] new new_keeps_well [OF conf] by (simp add: keeps_well_def)
qed






text \<open>\<open>CONF_parse_list\<close> calls its function on the elements between the separators, in order and
  trimmed when asked, \<open>NULL\<close> for an empty one, until a result is not positive.\<close>

theorem list_elements_visited:
  assumes "remove_ws \<Longrightarrow> \<not> isspace sep"
  shows "CONF_parse_list (Some s) sep remove_ws (\<lambda>e. cb (element_text e)) arg
    = visit (\<lambda>e. cb (list_element remove_ws e)) (split_at sep s) arg"
  using parse_list_visits [OF assms] by (simp add: CONF_parse_list_def)

theorem list_elements_visited_witness:
  "CONF_parse_list (Some [97, 32, 44, 44, 32, 98]) 44 True (\<lambda>e es. (1, es @ [element_text e])) [] = (1, [Some [97], None, Some [98]])"
  using list_elements_visited [of True 44 "[97, 32, 44, 44, 32, 98]" "\<lambda>e es. (1, es @ [e])" "[]"]
  by (simp add: isspace_def list_element_def trim_end_def Let_def)



text \<open>making a section that exists - as \<open>def_load_bio\<close> does with its default section - replaces its
  list by an empty one, while the old entries are still found by name.\<close>

theorem section_made_again_loses_list:
  assumes "conf_ok conf" and "n_items conf + 1 < 2 ^ 64"
    and "NCONF_new_section os conf s = Inr (Some v, conf')"
  shows "(\<exists>stack. NCONF_get_section conf' (Some s) = Inr (Some stack) \<and> sk_data stack = [])
    \<and> lookup conf' s' n = lookup conf s' n"
  using section_made_again [OF assms] by simp

theorem section_made_again_loses_list_witness:
  "\<exists>conf v conf' stack. NCONF_new_section (\<lambda>_. True) conf [97] = Inr (Some v, conf')
     \<and> NCONF_get_section conf' (Some [97]) = Inr (Some stack) \<and> sk_data stack = []"
proof -
  obtain conf where conf: "conf_ok conf" "n_items conf = 0" by (rule fresh_conf)
  obtain v conf' where new: "NCONF_new_section (\<lambda>_. True) conf [97] = Inr (Some v, conf')"
    by (rule new_section_total [OF _ conf(1), of "\<lambda>_. True" "[97]"]) auto
  moreover obtain stack where "NCONF_get_section conf' (Some [97]) = Inr (Some stack)" "sk_data stack = []"
    using section_made_again_loses_list [OF conf(1) _ new] conf(2) by auto
  ultimately show ?thesis by blast
qed

text \<open>a lookup without a section, as for a variable in a section's name, hands \<open>NULL\<close> to \<open>strcmp\<close> as
  soon as the chain of the name's hash has an item.\<close>

theorem sectionless_lookup:
  assumes "conf_ok conf"
  shows "NCONF_get_string conf None n =
    (if lh_buckets (conf_data conf) ! (unat (lh_strhash (Some n)) mod lh_num_buckets (conf_data conf)) = []
     then Inr None else Inl Null_string)"
  using assms by (rule lookup_without_section)

theorem sectionless_lookup_witness:
  "\<exists>conf. NCONF_new (\<lambda>_. True) False = Some conf \<and> NCONF_get_string conf None [97] = Inr None"
proof -
  obtain conf where conf: "NCONF_new (\<lambda>_. True) False = Some conf" "conf_ok conf" by (rule fresh_conf)
  have "lh_buckets (conf_data conf) ! b = []" if "b < 16" for b
    using conf(1) that by (auto simp: NCONF_new_def lh_new_def kMinNumBuckets_def split: if_splits)
  moreover have "lh_num_buckets (conf_data conf) = 16"
    using conf(1) by (auto simp: NCONF_new_def lh_new_def kMinNumBuckets_def split: if_splits)
  ultimately show ?thesis using sectionless_lookup [OF conf(2), of "[97]"] conf(1) by auto
qed

section \<open>Times\<close>




definition last_of_1999 :: tm where
  "last_of_1999 = \<lparr>tm_sec = 59, tm_min = 59, tm_hour = 23, tm_mday = 31, tm_mon = 11, tm_year = 99\<rparr>"

definition first_of_2000 :: tm where
  "first_of_2000 = \<lparr>tm_sec = 0, tm_min = 0, tm_hour = 0, tm_mday = 1, tm_mon = 0, tm_year = 100\<rparr>"

lemma turn_of_the_century:
  "valid_tm last_of_1999" "tm_seconds last_of_1999 = 211813487999" "valid_tm first_of_2000" "tm_seconds first_of_2000 = 211813488000"
  by (simp_all add: last_of_1999_def first_of_2000_def valid_tm_def valid_date_def month_length_def tm_seconds_def tm_day_def
      time_of_day_def date_to_julian_gregorian gregorian_day_def leap_days_def eval_nat_numeral leap_year_def)







text \<open>C25: a UTCTime the check accepts is converted by \<open>ASN1_TIME_to_generalizedtime\<close> to a GeneralizedTime
  that is read, with or without seconds and zone, as the same moment or refused alike.\<close>

theorem utctime_conversion_keeps_time:
  assumes "as_type d = V_ASN1_UTCTIME" and "ASN1_UTCTIME_check d"
    and "as_length d = int (length txt')" and "as_data d = Some (txt' @ [0])" and "0 \<notin> set txt'"
    and "malloc_ok os sizeof_ASN1_STRING" and "malloc_ok os (length txt' + 3)"
  shows "\<exists>g. ASN1_TIME_to_generalizedtime os junk d None = Some g \<and> as_type g = V_ASN1_GENERALIZEDTIME
    \<and> (\<forall>tm. asn1_generalizedtime_to_tm tm g = asn1_utctime_to_tm tm d)"
  using to_generalizedtime_read [OF assms] by metis

theorem utctime_conversion_keeps_time_witness:
  "\<exists>g. ASN1_TIME_to_generalizedtime (\<lambda>_. True) (\<lambda>_. 0) (text_string V_ASN1_UTCTIME (utc_text first_of_2000)) None = Some g
     \<and> asn1_generalizedtime_to_tm (Some blank_tm) g = (True, Some first_of_2000)"
proof -
  let ?d = "text_string V_ASN1_UTCTIME (utc_text first_of_2000)"
  have y: "50 \<le> tm_year first_of_2000" "tm_year first_of_2000 < 150" by (simp_all add: first_of_2000_def)
  note txt' = utc_text_printed [OF turn_of_the_century(3) y]
  have "takeWhile (\<lambda>c. c \<noteq> 0) (utc_text first_of_2000) = utc_text first_of_2000"
    using txt'(3) by (auto simp: takeWhile_eq_all_conv)
  then have "strlen (utc_text first_of_2000) = 13" using txt'(2) by (simp only: strlen_def)
  then have d: "as_type ?d = V_ASN1_UTCTIME" "as_length ?d = 13" "as_data ?d = Some (utc_text first_of_2000 @ [0])"
    using txt'(2) by (simp_all add: text_string_def)
  note read = utc_text_read [OF turn_of_the_century(3) y d]
  have "ASN1_UTCTIME_check ?d" by (simp add: ASN1_UTCTIME_check_def read)
  from utctime_conversion_keeps_time [OF d(1) this _ d(3) txt'(3), of "\<lambda>_. True" "\<lambda>_. 0"] show ?thesis
    using d(2) txt'(2) read [of "Some blank_tm"]
    by (auto simp: OPENSSL_malloc_def sizeof_ASN1_STRING_def OPENSSL_MALLOC_PREFIX_def sz_def)
qed

section \<open>Names and addresses in certificates\<close>









text \<open>C17: \<open>X509_check_ip_asc\<close> reads every printed IPv4 or IPv6 address, with or without a gap, and answers 1
  exactly when the certificate has an iPAddress with the address's bytes.\<close>

theorem ip_text_check:
  assumes "address_text s bs" and "x509_alt_names x = Some gens"
    and "\<forall>gen\<in>set gens. as_length (gen_string gen) \<ge> 0 \<and>
      (\<forall>d. as_data (gen_string gen) = Some d \<longrightarrow> as_length (gen_string gen) \<le> int (length d))"
  shows "X509_check_ip_asc os wide x (Some s) flags =
    (if \<exists>gen\<in>set gens. name_matches GEN_IPADD V_ASN1_OCTET_STRING (\<lambda>name. name = bs) gen then 1 else 0)"
  using address_read [OF assms(1), of wide] check_ip_alt_names [OF assms(2,3)] by (simp add: X509_check_ip_asc_def)

theorem ip_text_check_witness:
  "\<exists>x gens. x509_alt_names x = Some gens \<and> gens \<noteq> []
     \<and> X509_check_ip_asc (\<lambda>_. True) (\<lambda>n. n) x (Some [58, 58, 49]) 0 = 1"
proof -
  let ?bs = "replicate 15 0 @ [1] :: u8 list"
  define gen where "gen = \<lparr>gen_type = GEN_IPADD,
    gen_string = \<lparr>as_length = 16, as_type = V_ASN1_OCTET_STRING, as_data = Some ?bs\<rparr>\<rparr>"
  have "be_bytes 2 1 = [0, 1]" by (simp add: be_bytes_def numeral_2_eq_2)
  then have "groups_bytes [1] = [0, 1]" by simp
  moreover have "colon_text (gap_elements [] [1]) = [58, 58, 49]"
    by (simp add: gap_elements_def group_text_def hexadecimal.simps hex_char_def)
  moreover have "replicate 14 0 @ [0, 1] = ?bs" by (simp add: eval_nat_numeral)
  ultimately have text': "address_text [58, 58, 49] ?bs"
    unfolding address_text_def by (intro disjI2 exI [of _ "[]"] exI [of _ "[1]"]) simp
  have "X509_check_ip_asc (\<lambda>_. True) (\<lambda>n. n) \<lparr>x509_alt_names = Some [gen], x509_subject = []\<rparr> (Some [58, 58, 49]) 0 = 1"
    using ip_text_check [OF text', of "\<lparr>x509_alt_names = Some [gen], x509_subject = []\<rparr>" "[gen]" "\<lambda>_. True" "\<lambda>n. n" 0]
    by (simp add: gen_def name_matches_def string_bytes_def)
  then show ?thesis by (intro exI [of _ "\<lparr>x509_alt_names = Some [gen], x509_subject = []\<rparr>"]) auto
qed

section \<open>Hash functions\<close>

text \<open>C8: The digest of a message that arrives in any number of pieces is that of the standard on the whole message:
  SHA-1, SHA-224, SHA-256, SHA-384 and SHA-512 compute the functions of FIPS 180-4, MD5 and MD4 those of RFC 1321 and
  RFC 1320. The collectors cut the message into blocks and pad it, their two counters hold the number of bits, and
  the unrolled rounds, with variables that trade places and a schedule of sixteen words, compute those of the standards.\<close>

theorem hash_streams_are_standard:
  "fst (SHA1_Final (foldl SHA1_Update SHA1_Init ds)) = Some (fips_sha1 (concat ds))
    \<and> fst (SHA224_Final (foldl SHA224_Update SHA224_Init ds)) = Some (fips_sha224 (concat ds))
    \<and> fst (SHA256_Final (foldl SHA256_Update SHA256_Init ds)) = Some (fips_sha256 (concat ds))
    \<and> fst (SHA384_Final (foldl SHA384_Update (SHA384_Init empty_512) ds)) = Some (fips_sha384 (concat ds))
    \<and> fst (SHA512_Final (foldl SHA512_Update (SHA512_Init empty_512) ds)) = Some (fips_sha512 (concat ds))
    \<and> fst (MD5_Final (foldl MD5_Update MD5_Init ds)) = Some (rfc_md5 (concat ds))
    \<and> fst (MD4_Final (foldl MD4_Update MD4_Init ds)) = Some (rfc_md4 (concat ds))"
  by (intro conjI sha1_digest.stream sha224_digest.stream sha256_digest.stream sha384_digest.stream sha512_digest.stream
      md5_digest.stream md4_digest.stream)

section \<open>TLS records in CBC mode\<close>

text \<open>C18: removing the padding of a decrypted CBC record, \<open>EVP_tls_cbc_remove_padding\<close>, fails only when there is
  no room for a MAC and a padding length; otherwise the mask it returns says whether the last byte is the length of
  the padding before it and all the padding has that value, and the length it returns is that of the record without
  its padding, or the whole record if the padding is wrong.\<close>

theorem padding_removed_exactly:
  assumes "length inp < 2 ^ 63"
  shows "EVP_tls_cbc_remove_padding inp block_size mac_size =
    (if length inp < 1 + mac_size then None
     else Some (mask_of (padding_ok inp mac_size),
                of_nat (length inp - (if padding_ok inp mac_size then unat (last inp) + 1 else 0))))"
  using remove_padding_result [of mac_size inp block_size] assms
  by (cases "length inp < 1 + mac_size") (simp_all add: EVP_tls_cbc_remove_padding_def)

theorem padding_removed_exactly_witness:
  "EVP_tls_cbc_remove_padding [7, 7, 7, 9, 2, 2, 2] 16 4 = Some (- 1, 4)
    \<and> EVP_tls_cbc_remove_padding [7, 7, 7, 9, 1, 2, 2] 16 4 = Some (0, 7)"
  using padding_removed_exactly [of "[7, 7, 7, 9, 2, 2, 2]" 16 4] padding_removed_exactly [of "[7, 7, 7, 9, 1, 2, 2]" 16 4]
  by (simp add: padding_ok_def)

text \<open>C19: \<open>EVP_tls_cbc_copy_mac\<close>, which reads every byte where a MAC could be and rotates what it finds in
  logarithmically many steps, returns the bytes before the secret end of the data.\<close>

theorem mac_extracted_exactly:
  assumes "0 < md" and "md \<le> in_len" and "in_len \<le> orig_len" and "orig_len - in_len \<le> 256" and "orig_len < 2 ^ 63"
    and "orig_len \<le> length inp"
  shows "EVP_tls_cbc_copy_mac md inp in_len orig_len = take md (drop (in_len - md) inp)"
  using assms by (rule copy_mac_result)

theorem mac_extracted_exactly_witness: "EVP_tls_cbc_copy_mac 3 [1, 2, 3, 4, 5, 6, 7, 8] 6 8 = [4, 5, 6]"
  using mac_extracted_exactly [of 3 6 8 "[1, 2, 3, 4, 5, 6, 7, 8]"] by simp

text \<open>C9: the digest of a record whose length is secret, which hashes every block that could hold the end of the
  data and keeps the one that does, is HMAC of the header and of the data before the MAC, when the digest that ends
  it is the same hash.\<close>

theorem record_digest_is_hmac:
  assumes "digest_sizes md = Some s" and "length header = kHeaderLength"
    and "md_size s \<le> D" and "D \<le> R" and "R - D \<le> 256" and "R < 1024 * 1024" and "R \<le> length data"
    and "length key \<le> md_block_size s" and "\<And>h. md_size s \<le> length (md_final_raw (hash md) h)"
    and "\<And>m. evp_digest m = Some (md_hash s (hash md) m)"
  shows "EVP_tls_cbc_digest_record hash evp_digest md header data D R key =
    Some (hmac s (hash md) key (header @ take (D - md_size s) data))"
  using digest_record_hmac [where hash = hash and md = md, OF assms(1-9), of evp_digest] by (simp add: hmac_def assms(10) Let_def)

definition toy_hash :: "u64 hash_fns" where
  "toy_hash = \<lparr>md_init = 1, md_transform = (\<lambda>h b. h * 31 + ucast (foldl (+) 0 b)), md_final_raw = (\<lambda>h. replicate 32 (ucast h))\<rparr>"

theorem record_digest_is_hmac_witness:
  "\<exists>s. digest_sizes NID_sha256 = Some s \<and>
    EVP_tls_cbc_digest_record (\<lambda>_. toy_hash) (\<lambda>m. Some (md_hash s toy_hash m)) NID_sha256 (replicate 13 1) (replicate 80 7) 70 80 [1, 2]
    = Some (hmac s toy_hash [1, 2] (replicate 13 1 @ replicate 38 7))"
proof -
  obtain s where s: "digest_sizes NID_sha256 = Some s" "md_size s = 32" "md_block_size s = 64"
    by (simp add: digest_sizes_def NID_sha256_def NID_sha1_def)
  show ?thesis
    using s record_digest_is_hmac [OF s(1), of "replicate 13 1" 70 80 "replicate 80 7" "[1, 2]" "\<lambda>_. toy_hash"
        "\<lambda>m. Some (md_hash s toy_hash m)"]
    by (intro exI [of _ s]) (simp add: kHeaderLength_def toy_hash_def)
qed

section \<open>Defects\<close>

text \<open>\<open>OPENSSL_malloc\<close> does not check that the size plus its prefix fits: a request of
  2^64 - 8 bytes is served by a block of no bytes.\<close>

theorem malloc_prefix_wraps:
  "OPENSSL_malloc (\<lambda>_. True) (2 ^ 64 - 8) = Some 0"
  by (simp add: OPENSSL_malloc_def OPENSSL_MALLOC_PREFIX_def sz_def)

text \<open>the characters \<open>is_printable\<close> accepts are those of PrintableString and NUL, which
  \<open>strchr\<close> finds at the end of its string.\<close>

theorem printable_characters:
  "is_printable u \<longleftrightarrow> unat u = 0 \<or> unat u \<in> {97..122} \<union> {65..90} \<union> {48..57}
     \<union> {32, 39, 40, 41, 43, 44, 45, 46, 47, 58, 61, 63}"
  by (auto simp: is_printable_def strchr_found_def strchr_set_def word_le_nat_alt word_less_nat_alt
      word_unat_eq_iff unat_ucast_u8)

end
